(* ===== verification/Prelude.thy ===== *)
theory Prelude
  imports Main "HOL-Library.Word"
begin

text \<open>
  Shared vocabulary of the development: what a C++ call can do besides returning
  (\<open>outcome\<close>), C integers at their width (\<open>i32\<close>, \<open>u64\<close> and the \<open>size_t\<close>
  operations), struct layout on an LP64 target, \<open>memcpy\<close> over a byte list with its
  bounds made explicit, and the arithmetic of ring indices that both ring buffers use.
  Nothing here models a file of the repository; every other theory imports it.
\<close>

named_theorems c_arith \<open>conversions and \<open>size_t\<close> operations that stay inside their range\<close>
named_theorems queue_defs \<open>operations of the ring buffers, unfolded together\<close>
named_theorems coord_defs \<open>operations of the coordination region, unfolded together\<close>
named_theorems kernel_defs \<open>operations of the reference kernel, unfolded together\<close>

section \<open>Outcomes of a call\<close>

type_synonym byte = "8 word"

text \<open>
  \<open>Fault\<close> is undefined behaviour of the C++ code (a crash in practice), \<open>Exit\<close> a call of
  \<open>exit\<close>, \<open>Abort\<close> a failed \<open>assert\<close> or an exception nobody catches, and \<open>Hang\<close> a wait that ends only when another thread or process changes the
  memory or the semaphore the call is waiting on.
\<close>

datatype fault = NullDeref | BadPointer | OutOfBounds | DivByZero | BadCast

datatype 'a outcome = Ret 'a | Exit int | Abort string | Fault fault | Hang

fun bind_out :: "'a outcome \<Rightarrow> ('a \<Rightarrow> 'b outcome) \<Rightarrow> 'b outcome" where
  "bind_out (Ret x) f = f x"
| "bind_out (Exit n) f = Exit n"
| "bind_out (Abort s) f = Abort s"
| "bind_out (Fault e) f = Fault e"
| "bind_out Hang f = Hang"

lemma bind_out_eq_Ret:
  "bind_out m f = Ret y \<longleftrightarrow> (\<exists>x. m = Ret x \<and> f x = Ret y)"
  by (cases m) auto

lemma bind_out_assoc: "bind_out (bind_out m f) g = bind_out m (\<lambda>x. bind_out (f x) g)"
  by (cases m) auto

lemma bind_out_Ret_right [simp]: "bind_out m Ret = m"
  by (cases m) auto

lemma bind_out_cong [fundef_cong]:
  "m = m' \<Longrightarrow> (\<And>x. m' = Ret x \<Longrightarrow> f x = g x) \<Longrightarrow> bind_out m f = bind_out m' g"
  by (cases m') auto

section \<open>C integers\<close>

text \<open>
  A value of type \<open>int\<close> is an \<^typ>\<open>int\<close> in the range of 32-bit two's complement and
  \<open>i32\<close> converts to it; a \<open>size_t\<close> is a \<^typ>\<open>nat\<close> below \<open>2 ^ 64\<close>, \<open>u64\<close> converts an
  \<open>int\<close> to it and \<open>sz_add\<close>, \<open>sz_sub\<close>, \<open>sz_mul\<close> wrap around.
\<close>

definition i32 :: "int \<Rightarrow> int" where
  "i32 x = (x + 2147483648) mod 4294967296 - 2147483648"

definition u64 :: "int \<Rightarrow> nat" where
  "u64 x = nat (x mod 18446744073709551616)"

definition sz_add :: "nat \<Rightarrow> nat \<Rightarrow> nat" where
  "sz_add a b = (a + b) mod 18446744073709551616"

definition sz_sub :: "nat \<Rightarrow> nat \<Rightarrow> nat" where
  "sz_sub a b = u64 (int a - int b)"

definition sz_mul :: "nat \<Rightarrow> nat \<Rightarrow> nat" where
  "sz_mul a b = (a * b) mod 18446744073709551616"

abbreviation int32 :: "int \<Rightarrow> bool" where
  "int32 x \<equiv> - 2147483648 \<le> x \<and> x < 2147483648"

lemma i32_id [c_arith]: "int32 x \<Longrightarrow> i32 x = x"
  by (simp add: i32_def)

lemma i32_range: "int32 (i32 x)"
  using pos_mod_bound [of 4294967296 "x + 2147483648"] pos_mod_sign [of 4294967296 "x + 2147483648"]
  unfolding i32_def by linarith

lemma i32_idem [simp]: "i32 (i32 x) = i32 x"
  using i32_range by (intro i32_id) blast

lemma u64_id [c_arith]: "0 \<le> x \<Longrightarrow> x < 18446744073709551616 \<Longrightarrow> u64 x = nat x"
  by (simp add: u64_def)

lemma u64_int [simp]: "n < 18446744073709551616 \<Longrightarrow> u64 (int n) = n"
  by (simp add: u64_def)

lemma sz_add_id [c_arith]: "a + b < 18446744073709551616 \<Longrightarrow> sz_add a b = a + b"
  by (simp add: sz_add_def)

lemma sz_sub_id [c_arith]: "b \<le> a \<Longrightarrow> a < 18446744073709551616 \<Longrightarrow> sz_sub a b = a - b"
  by (simp add: sz_sub_def u64_def)

lemma sz_mul_id [c_arith]: "a * b < 18446744073709551616 \<Longrightarrow> sz_mul a b = a * b"
  by (simp add: sz_mul_def)

text \<open>Division of C \<open>int\<close>s truncates towards zero.\<close>

definition cdiv :: "int \<Rightarrow> int \<Rightarrow> int" where
  "cdiv a b = sgn a * sgn b * (\<bar>a\<bar> div \<bar>b\<bar>)"

definition cmod :: "int \<Rightarrow> int \<Rightarrow> int" where
  "cmod a b = a - b * cdiv a b"

lemma cdiv_nonneg [c_arith]: "0 \<le> a \<Longrightarrow> 0 < b \<Longrightarrow> cdiv a b = a div b"
  by (cases "a = 0") (auto simp: cdiv_def)

lemma cmod_nonneg [c_arith]: "0 \<le> a \<Longrightarrow> 0 < b \<Longrightarrow> cmod a b = a mod b"
  by (simp add: cmod_def cdiv_nonneg minus_mult_div_eq_mod)

section \<open>Struct layout\<close>

text \<open>Fields as pairs of size and alignment, laid out in order with padding.\<close>

definition align_up :: "nat \<Rightarrow> nat \<Rightarrow> nat" where
  "align_up off a = (off + a - 1) div a * a"

fun layout_end :: "nat \<Rightarrow> (nat \<times> nat) list \<Rightarrow> nat" where
  "layout_end off [] = off"
| "layout_end off ((sz, al) # fs) = layout_end (align_up off al + sz) fs"

definition sizeof_struct :: "(nat \<times> nat) list \<Rightarrow> nat" where
  "sizeof_struct fs = align_up (layout_end 0 fs) (fold max (map snd fs) 1)"

abbreviation c_int :: "nat \<times> nat" where "c_int \<equiv> (4, 4)"
abbreviation c_size_t :: "nat \<times> nat" where "c_size_t \<equiv> (8, 8)"
abbreviation c_bool :: "nat \<times> nat" where "c_bool \<equiv> (1, 1)"

section \<open>memcpy\<close>

definition memcpy_to :: "byte list \<Rightarrow> int \<Rightarrow> byte list \<Rightarrow> nat \<Rightarrow> byte list outcome" where
  "memcpy_to dst off src n =
     (if 0 \<le> off \<and> nat off + n \<le> length dst \<and> n \<le> length src
      then Ret (take (nat off) dst @ take n src @ drop (nat off + n) dst)
      else Fault OutOfBounds)"

definition memcpy_from :: "byte list \<Rightarrow> int \<Rightarrow> nat \<Rightarrow> byte list outcome" where
  "memcpy_from src off n =
     (if 0 \<le> off \<and> nat off + n \<le> length src
      then Ret (take n (drop (nat off) src))
      else Fault OutOfBounds)"

lemma memcpy_to_length: "memcpy_to dst off src n = Ret d \<Longrightarrow> length d = length dst"
  by (auto simp: memcpy_to_def split: if_splits)

text \<open>The bytes of slot \<open>i\<close> in an array of records of \<open>m\<close> bytes.\<close>

definition slot_at :: "nat \<Rightarrow> byte list \<Rightarrow> nat \<Rightarrow> byte list" where
  "slot_at m arr i = take m (drop (i * m) arr)"

text \<open>What a slot holds after a copy of the first \<open>n\<close> bytes of \<open>buf\<close> to its start.\<close>

definition overlay :: "byte list \<Rightarrow> nat \<Rightarrow> byte list \<Rightarrow> byte list" where
  "overlay buf n old = take n buf @ drop n old"

lemma overlay_full [simp]: "length old = n \<Longrightarrow> length buf = n \<Longrightarrow> overlay buf n old = buf"
  by (simp add: overlay_def)

lemma length_overlay [simp]:
  "n \<le> length buf \<Longrightarrow> n \<le> length old \<Longrightarrow> length (overlay buf n old) = length old"
  by (simp add: overlay_def)

lemma length_slot_at [simp]: "Suc i * m \<le> length arr \<Longrightarrow> length (slot_at m arr i) = m"
  by (simp add: slot_at_def)

lemma slot_bound: "i < k \<Longrightarrow> k * m \<le> (n :: nat) \<Longrightarrow> Suc i * m \<le> n"
  by (meson Suc_leI le_trans mult_le_mono1)

lemma slot_at_write:
  assumes n: "n \<le> m" "n \<le> length buf" and i: "Suc i * m \<le> length arr"
    and j: "Suc j * m \<le> length arr"
  shows "slot_at m (take (i * m) arr @ take n buf @ drop (i * m + n) arr) j =
         (if j = i then overlay buf n (slot_at m arr i) else slot_at m arr j)"
proof (cases j i rule: linorder_cases)
  case less
  then have "Suc j * m \<le> i * m" by (intro mult_le_mono1) simp
  then have "j * m + m \<le> i * m" by simp
  with less i show ?thesis by (simp add: slot_at_def take_drop)
next
  case equal
  with n i show ?thesis
    by (simp add: slot_at_def overlay_def take_drop min_def) (simp add: add.commute drop_take)
next
  case greater
  then have "Suc i * m \<le> j * m" by (intro mult_le_mono1) simp
  then have "i * m + m \<le> j * m" by simp
  with greater n i show ?thesis by (simp add: slot_at_def)
qed

section \<open>Ring indices\<close>

text \<open>
  A ring of \<open>N\<close> slots with next write position \<open>h\<close> and next read position \<open>t\<close> holds
  \<open>ring_len N t h\<close> entries, at the positions \<open>ring_idxs N t h\<close> in reading order.
\<close>

definition ring_next :: "nat \<Rightarrow> nat \<Rightarrow> nat" where
  "ring_next N i = (if Suc i = N then 0 else Suc i)"

definition ring_len :: "nat \<Rightarrow> nat \<Rightarrow> nat \<Rightarrow> nat" where
  "ring_len N t h = (if t \<le> h then h - t else N + h - t)"

definition ring_idxs :: "nat \<Rightarrow> nat \<Rightarrow> nat \<Rightarrow> nat list" where
  "ring_idxs N t h = (if t \<le> h then [t..<h] else [t..<N] @ [0..<h])"

lemma ring_next_less: "i < N \<Longrightarrow> ring_next N i < N"
  by (auto simp: ring_next_def)

lemma ring_next_mod: "i < N \<Longrightarrow> ring_next N i = Suc i mod N"
  by (auto simp: ring_next_def)

lemma length_ring_idxs: "t < N \<Longrightarrow> length (ring_idxs N t h) = ring_len N t h"
  by (auto simp: ring_idxs_def ring_len_def)

lemma ring_len_less: "t < N \<Longrightarrow> h < N \<Longrightarrow> ring_len N t h < N"
  by (auto simp: ring_len_def)

lemma ring_len_0: "t < N \<Longrightarrow> h < N \<Longrightarrow> ring_len N t h = 0 \<longleftrightarrow> h = t"
  by (auto simp: ring_len_def)

lemma ring_len_full:
  "t < N \<Longrightarrow> h < N \<Longrightarrow> ring_next N h = t \<longleftrightarrow> ring_len N t h = N - 1"
  by (auto simp: ring_len_def ring_next_def)

lemma ring_idxs_bound: "t < N \<Longrightarrow> h < N \<Longrightarrow> i \<in> set (ring_idxs N t h) \<Longrightarrow> i < N"
  by (auto simp: ring_idxs_def split: if_splits)

lemma head_not_in_ring: "t < N \<Longrightarrow> h < N \<Longrightarrow> h \<notin> set (ring_idxs N t h)"
  by (auto simp: ring_idxs_def)

lemma distinct_ring_idxs: "distinct (ring_idxs N t h)"
  by (auto simp: ring_idxs_def)

lemma ring_idxs_push:
  assumes "t < N" "h < N" "ring_next N h \<noteq> t"
  shows "ring_idxs N t (ring_next N h) = ring_idxs N t h @ [h]"
proof (cases "Suc h = N")
  case True
  with assms show ?thesis
    by (auto simp: ring_idxs_def ring_next_def simp flip: upt_Suc_append)
next
  case False
  with assms show ?thesis
    by (auto simp: ring_idxs_def ring_next_def)
qed

lemma ring_idxs_pop:
  assumes "t < N" "h < N" "t \<noteq> h"
  shows "ring_idxs N t h = t # ring_idxs N (ring_next N t) h"
  using assms by (auto simp: ring_idxs_def ring_next_def upt_conv_Cons)

lemma ring_idxs_empty: "t < N \<Longrightarrow> ring_idxs N t t = []"
  by (simp add: ring_idxs_def)

lemma ring_idxs_Nil: "t < N \<Longrightarrow> h < N \<Longrightarrow> ring_idxs N t h = [] \<longleftrightarrow> h = t"
  by (auto simp: ring_idxs_def)

section \<open>Iterated reading\<close>

lemma take_drop_append_chunk: "take (a + b) xs = take a xs @ take b (drop a xs)"
  by (rule take_add)

section \<open>Short runs of a step relation\<close>

lemma steps4: "r a b \<Longrightarrow> r b c \<Longrightarrow> r c d \<Longrightarrow> r d e \<Longrightarrow> r\<^sup>*\<^sup>* a e"
  by (rule converse_rtranclp_into_rtranclp r_into_rtranclp | assumption)+

lemma steps5: "r a b \<Longrightarrow> r b c \<Longrightarrow> r c d \<Longrightarrow> r d e \<Longrightarrow> r e f \<Longrightarrow> r\<^sup>*\<^sup>* a f"
  by (rule steps4 [THEN rtranclp.rtrancl_into_rtrancl])

lemma upt_split: "i < n \<Longrightarrow> [0..<n] = [0..<i] @ i # [Suc i..<n]"
  by (metis le_add1 less_imp_le_nat upt_add_eq_append upt_conv_Cons add_diff_inverse_nat less_imp_not_less plus_nat.add_0)

section \<open>Integers in memory\<close>

text \<open>A 32-bit integer as the bytes of a little-endian machine, and back.\<close>

definition int_bytes :: "32 word \<Rightarrow> byte list" where
  "int_bytes w = [ucast w, ucast (drop_bit 8 w), ucast (drop_bit 16 w), ucast (drop_bit 24 w)]"

fun bytes_int :: "byte list \<Rightarrow> 32 word" where
  "bytes_int [] = 0"
| "bytes_int (b # bs) = or (ucast b) (push_bit 8 (bytes_int bs))"

lemma length_int_bytes [simp]: "length (int_bytes w) = 4"
  by (simp add: int_bytes_def)

lemma bytes_int_bytes [simp]: "bytes_int (int_bytes w) = w"
proof (rule bit_word_eqI)
  fix n :: nat
  assume "n < LENGTH(32)"
  then have "n < 8 \<or> 8 \<le> n \<and> n < 16 \<or> 16 \<le> n \<and> n < 24 \<or> 24 \<le> n \<and> n < 32" by auto
  then show "bit (bytes_int (int_bytes w)) n = bit w n"
    by (auto simp: int_bytes_def bit_simps)
qed

end
