(* ===== verification/Fifo_Spec.thy ===== *)
theory Fifo_Spec
  imports Prelude
begin

text \<open>
  What a notnets queue promises, independent of its ring: a bounded list of messages, the
  oldest of which may have been read up to an offset. Reading a message in pieces returns
  0 with the last piece and the offset reached otherwise, as \<open>queue.h\<close> documents. The
  locale \<open>message_queue\<close> is the contract that the clients of a queue use; both ring
  buffers interpret it.
\<close>

section \<open>The abstract queue\<close>

record fifo =
  msgs :: "byte list list"
  read_off :: nat

definition fifo_push :: "nat \<Rightarrow> byte list \<Rightarrow> fifo \<Rightarrow> fifo option" where
  "fifo_push cap m f = (if length (msgs f) < cap then Some (f\<lparr>msgs := msgs f @ [m]\<rparr>) else None)"

definition fifo_pop :: "nat \<Rightarrow> fifo \<Rightarrow> ((nat \<times> byte list) \<times> fifo) option" where
  "fifo_pop n f =
     (case msgs f of
        [] \<Rightarrow> None
      | m # ms \<Rightarrow>
          let c = min n (length m - read_off f) in
          if read_off f + c = length m
          then Some ((0, drop (read_off f) m), \<lparr>msgs = ms, read_off = 0\<rparr>)
          else Some ((read_off f + c, take c (drop (read_off f) m)), f\<lparr>read_off := read_off f + c\<rparr>))"

text \<open>The bytes that are still to be read, oldest first.\<close>

definition fifo_stream :: "fifo \<Rightarrow> byte list" where
  "fifo_stream f = drop (read_off f) (concat (msgs f))"

lemma fifo_pop_stream:
  assumes "fifo_pop n f = Some ((r, out), f')" "msgs f \<noteq> [] \<longrightarrow> read_off f \<le> length (hd (msgs f))"
  shows "fifo_stream f = out @ fifo_stream f'"
proof (cases "msgs f")
  case Nil
  with assms show ?thesis by (simp add: fifo_pop_def)
next
  case (Cons m ms)
  with assms show ?thesis
    by (auto simp: fifo_pop_def fifo_stream_def Let_def min_def split: if_splits)
      (simp add: add.commute flip: drop_drop)
qed

lemma fifo_push_stream:
  assumes "fifo_push cap m f = Some f'" "read_off f \<le> length (concat (msgs f))"
  shows "fifo_stream f' = fifo_stream f @ m"
  using assms by (auto simp: fifo_push_def fifo_stream_def split: if_splits)

text \<open>
  A message of \<open>sz\<close> bytes carries what a caller sent when it begins with those bytes; a
  shorter one leaves the rest of the slot as it was. What fills the message is all of it.
\<close>

definition carries :: "nat \<Rightarrow> byte list \<Rightarrow> byte list \<Rightarrow> bool" where
  "carries sz p m \<longleftrightarrow> length m = sz \<and> take (length p) m = p"

lemma carries_overlay:
  "n \<le> length buf \<Longrightarrow> n \<le> sz \<Longrightarrow> length old = sz \<Longrightarrow> carries sz (take n buf) (overlay buf n old)"
  by (simp add: carries_def overlay_def)

lemma carries_full: "carries (length p) p m \<longleftrightarrow> m = p"
  by (auto simp: carries_def)

lemma all_carries_full:
  "list_all2 (carries sz) ps ms \<Longrightarrow> \<forall>p\<in>set ps. length p = sz \<Longrightarrow> ms = ps"
  by (induction rule: list_all2_induct) (auto simp: carries_full)

section \<open>The contract of a message queue\<close>

text \<open>
  Clients of a queue: send a list of messages, receive a number of pieces, and read until
  the queue reports 0, which is what \<open>rpc.h\<close> asks of the caller of a receive function
  (\<open>fuel\<close> bounds the number of calls).
\<close>

fun send_all :: "('q \<Rightarrow> byte list \<Rightarrow> nat \<Rightarrow> (int \<times> 'q) outcome) \<Rightarrow> byte list list \<Rightarrow> 'q \<Rightarrow> 'q outcome" where
  "send_all snd_op [] q = Ret q"
| "send_all snd_op (m # ms) q =
     bind_out (snd_op q m (length m)) (\<lambda>(r, q'). send_all snd_op ms q')"

fun recv_pieces ::
  "('q \<Rightarrow> nat \<Rightarrow> ((nat \<times> byte list) \<times> 'q) outcome) \<Rightarrow> nat \<Rightarrow> nat \<Rightarrow> 'q \<Rightarrow> (byte list list \<times> 'q) outcome"
where
  "recv_pieces rcv_op 0 n q = Ret ([], q)"
| "recv_pieces rcv_op (Suc k) n q =
     bind_out (rcv_op q n) (\<lambda>((r, out), q').
     bind_out (recv_pieces rcv_op k n q') (\<lambda>(outs, q''). Ret (out # outs, q'')))"

fun read_message ::
  "('q \<Rightarrow> nat \<Rightarrow> ((nat \<times> byte list) \<times> 'q) outcome) \<Rightarrow> nat \<Rightarrow> nat \<Rightarrow> 'q \<Rightarrow> (byte list \<times> 'q) outcome"
where
  "read_message rcv_op 0 n q = Hang"
| "read_message rcv_op (Suc fuel) n q =
     bind_out (rcv_op q n) (\<lambda>((r, out), q').
     if r = 0 then Ret (out, q')
     else bind_out (read_message rcv_op fuel n q') (\<lambda>(rest, q''). Ret (out @ rest, q'')))"

locale message_queue =
  fixes inv :: "'q \<Rightarrow> bool" and abs :: "'q \<Rightarrow> fifo" and cap msz :: "'q \<Rightarrow> nat"
    and snd_op :: "'q \<Rightarrow> byte list \<Rightarrow> nat \<Rightarrow> (int \<times> 'q) outcome"
    and rcv_op :: "'q \<Rightarrow> nat \<Rightarrow> ((nat \<times> byte list) \<times> 'q) outcome"
  assumes send_refines:
      "inv q \<Longrightarrow> length m = msz q \<Longrightarrow> fifo_push (cap q) m (abs q) = Some f \<Longrightarrow>
       \<exists>q'. snd_op q m (length m) = Ret (0, q') \<and> inv q' \<and> abs q' = f \<and> cap q' = cap q \<and> msz q' = msz q"
    and send_blocks: "inv q \<Longrightarrow> n \<le> msz q \<Longrightarrow> length (msgs (abs q)) = cap q \<Longrightarrow> snd_op q m n = Hang"
    and send_refuses: "inv q \<Longrightarrow> msz q < n \<Longrightarrow> snd_op q m n = Ret (-1, q)"
    and recv_refines:
      "inv q \<Longrightarrow> n < 9223372036854775808 \<Longrightarrow> fifo_pop n (abs q) = Some ((r, out), f) \<Longrightarrow>
       \<exists>q'. rcv_op q n = Ret ((r, out), q') \<and> inv q' \<and> abs q' = f \<and> cap q' = cap q \<and> msz q' = msz q"
    and recv_blocks: "inv q \<Longrightarrow> n < 9223372036854775808 \<Longrightarrow> msgs (abs q) = [] \<Longrightarrow> rcv_op q n = Hang"
    and abs_bounded: "inv q \<Longrightarrow> length (msgs (abs q)) \<le> cap q"
    and abs_sized: "inv q \<Longrightarrow> m \<in> set (msgs (abs q)) \<Longrightarrow> length m = msz q"
    and abs_offset: "inv q \<Longrightarrow> read_off (abs q) < msz q"
    and msz_small: "inv q \<Longrightarrow> msz q < 9223372036854775808"
begin

lemma send_all_refines:
  assumes "inv q" "\<forall>m \<in> set ms. length m = msz q" "length (msgs (abs q)) + length ms \<le> cap q"
  shows "\<exists>q'. send_all snd_op ms q = Ret q' \<and> inv q' \<and>
    abs q' = (abs q)\<lparr>msgs := msgs (abs q) @ ms\<rparr> \<and> cap q' = cap q \<and> msz q' = msz q"
  using assms
proof (induction ms arbitrary: q)
  case Nil
  then show ?case by simp
next
  case (Cons m ms)
  then have "fifo_push (cap q) m (abs q) = Some ((abs q)\<lparr>msgs := msgs (abs q) @ [m]\<rparr>)"
    by (simp add: fifo_push_def)
  with Cons.prems obtain q' where q': "snd_op q m (length m) = Ret (0, q')" "inv q'"
      "abs q' = (abs q)\<lparr>msgs := msgs (abs q) @ [m]\<rparr>" "cap q' = cap q" "msz q' = msz q"
    using send_refines [of q m] by auto
  with Cons.prems Cons.IH [of q'] show ?case by auto
qed

lemma recv_whole:
  assumes "inv q" "msgs (abs q) = m # ms" "read_off (abs q) = 0"
  shows "\<exists>q'. rcv_op q (msz q) = Ret ((0, m), q') \<and> inv q' \<and>
    abs q' = \<lparr>msgs = ms, read_off = 0\<rparr> \<and> cap q' = cap q \<and> msz q' = msz q"
proof -
  have "length m = msz q" using assms by (intro abs_sized) simp_all
  with assms have "fifo_pop (msz q) (abs q) = Some ((0, m), \<lparr>msgs = ms, read_off = 0\<rparr>)"
    by (simp add: fifo_pop_def)
  from recv_refines [OF assms(1) msz_small [OF assms(1)] this] show ?thesis .
qed

lemma recv_pieces_whole:
  assumes "inv q" "msgs (abs q) = ms @ rest" "read_off (abs q) = 0"
  shows "\<exists>q'. recv_pieces rcv_op (length ms) (msz q) q = Ret (ms, q') \<and> inv q' \<and>
    abs q' = \<lparr>msgs = rest, read_off = 0\<rparr> \<and> cap q' = cap q \<and> msz q' = msz q"
  using assms
proof (induction ms arbitrary: q)
  case Nil
  then show ?case by (cases "abs q") simp
next
  case (Cons m ms)
  then obtain q' where q': "rcv_op q (msz q) = Ret ((0, m), q')" "inv q'"
      "abs q' = \<lparr>msgs = ms @ rest, read_off = 0\<rparr>" "cap q' = cap q" "msz q' = msz q"
    using recv_whole [of q m "ms @ rest"] by auto
  with Cons.IH [of q'] show ?case by auto
qed

theorem fifo_roundtrip:
  assumes "inv q" "msgs (abs q) = []" "read_off (abs q) = 0"
    and "\<forall>m \<in> set ms. length m = msz q" "length ms \<le> cap q"
  shows "\<exists>q1 q2. send_all snd_op ms q = Ret q1 \<and>
    recv_pieces rcv_op (length ms) (msz q) q1 = Ret (ms, q2) \<and> inv q2 \<and> msgs (abs q2) = []"
proof -
  from assms obtain q1 where q1: "send_all snd_op ms q = Ret q1" "inv q1"
      "abs q1 = (abs q)\<lparr>msgs := ms\<rparr>" "msz q1 = msz q"
    using send_all_refines [of q ms] by auto
  with assms obtain q2 where "recv_pieces rcv_op (length ms) (msz q1) q1 = Ret (ms, q2)" "inv q2"
      "abs q2 = \<lparr>msgs = [], read_off = 0\<rparr>"
    using recv_pieces_whole [of q1 ms "[]"] by auto
  with q1 show ?thesis by auto
qed

lemma read_message_refines:
  assumes "inv q" "msgs (abs q) = m # ms" "0 < n" "n < 9223372036854775808"
    and "msz q - read_off (abs q) \<le> fuel"
  shows "\<exists>q'. read_message rcv_op fuel n q = Ret (drop (read_off (abs q)) m, q') \<and> inv q' \<and>
    abs q' = \<lparr>msgs = ms, read_off = 0\<rparr> \<and> cap q' = cap q \<and> msz q' = msz q"
  using assms
proof (induction fuel arbitrary: q)
  case 0
  with abs_offset [of q] show ?case by simp
next
  case (Suc fuel)
  define c where "c = min n (msz q - read_off (abs q))"
  let ?o = "read_off (abs q)"
  have m: "length m = msz q" using Suc.prems by (intro abs_sized) simp_all
  show ?case
  proof (cases "?o + c = msz q")
    case True
    with Suc.prems m have "fifo_pop n (abs q) = Some ((0, drop ?o m), \<lparr>msgs = ms, read_off = 0\<rparr>)"
      by (simp add: fifo_pop_def c_def)
    from recv_refines [OF Suc.prems(1,4) this] show ?thesis by auto
  next
    case False
    with Suc.prems m have "fifo_pop n (abs q) =
        Some ((?o + c, take c (drop ?o m)), (abs q)\<lparr>read_off := ?o + c\<rparr>)"
      by (simp add: fifo_pop_def Let_def c_def)
    from recv_refines [OF Suc.prems(1,4) this] obtain q' where q':
      "rcv_op q n = Ret ((?o + c, take c (drop ?o m)), q')" "inv q'"
      "abs q' = (abs q)\<lparr>read_off := ?o + c\<rparr>" "cap q' = cap q" "msz q' = msz q" by auto
    have pos: "0 < c" using Suc.prems(3) abs_offset [OF Suc.prems(1)] by (simp add: c_def)
    then have "msz q - (?o + c) \<le> fuel" using Suc.prems(5) by linarith
    with q' Suc.prems obtain q'' where q'':
      "read_message rcv_op fuel n q' = Ret (drop (?o + c) m, q'')" "inv q''"
      "abs q'' = \<lparr>msgs = ms, read_off = 0\<rparr>" "cap q'' = cap q" "msz q'' = msz q"
      using Suc.IH [of q'] by auto
    have "take c (drop ?o m) @ drop (?o + c) m = drop ?o m"
      by (metis add.commute append_take_drop_id drop_drop)
    with q' q'' pos show ?thesis by simp
  qed
qed

end

end
