(* ===== verification/Poll_Queue.thy ===== *)
theory Poll_Queue
  imports Fifo_Spec
begin

text \<open>
  The polling single-producer single-consumer queue, \<open>src/libnotnets/include/queue.h\<close> and
  \<open>src/libnotnets/src/queue.cpp\<close>: the header that sits at the start of the shared region,
  \<open>queue_create\<close>, \<open>push\<close> and \<open>pop\<close> run by one process alone (a poll that would need the
  other side is \<open>Hang\<close>), the representation invariant, and the refinement of both
  operations to the bounded FIFO of theory Fifo_Spec. Theory Poll_Conc runs the two
  sides concurrently.
\<close>

section \<open>The queue header\<close>

text \<open>
  The struct, and behind it in the region the bytes \<open>get_message_array\<close> points to. The
  semaphore queue's header starts with the same fields and extends this record.
\<close>

record spsc_queue_header =
  head :: int
  tail :: int
  message_size :: nat
  message_offset :: int
  queue_size :: int
  current_count :: int
  total_count :: int
  stop_producer_polling :: bool
  stop_consumer_polling :: bool
  message_array :: "byte list"

definition sizeof_spsc_queue_header :: nat where
  "sizeof_spsc_queue_header =
     sizeof_struct [c_int, c_int, c_size_t, c_int, c_int, c_int, c_int, c_bool, c_bool]"

lemma sizeof_spsc_queue_header_40 [simp]: "sizeof_spsc_queue_header = 40"
  by (simp add: sizeof_spsc_queue_header_def sizeof_struct_def align_up_def)

section \<open>Operations\<close>

text \<open>
  \<open>queue_create\<close> on a region of which \<open>arr\<close> are the bytes behind the header: too small a
  region ends the process, a message size of zero divides by zero.
\<close>

definition queue_create :: "byte list \<Rightarrow> nat \<Rightarrow> nat \<Rightarrow> (int \<times> spsc_queue_header) outcome" where
  "queue_create arr shm_size msize =
     (if sz_add msize sizeof_spsc_queue_header > shm_size then Exit 1
      else if msize = 0 then Fault DivByZero
      else
        let num_elements = i32 (int (sz_sub shm_size sizeof_spsc_queue_header div msize));
            leftover_bytes = i32 (int (sz_sub shm_size sizeof_spsc_queue_header mod msize))
        in Ret (int (sz_sub shm_size (u64 leftover_bytes)),
             \<lparr>head = 0, tail = 0, message_size = msize, message_offset = 0,
              queue_size = num_elements, current_count = 0, total_count = 0,
              stop_producer_polling = False, stop_consumer_polling = False,
              message_array = arr\<rparr>))"

definition wrap_index :: "'a spsc_queue_header_scheme \<Rightarrow> int \<Rightarrow> int" where
  "wrap_index q i = (let next_i = i32 (i + 1) in if next_i = queue_size q then 0 else next_i)"

text \<open>
  \<open>push\<close>: a buffer larger than a message is refused; otherwise the call polls until the
  slot after the write position is free, copies \<open>buf_size\<close> bytes into the slot (an \<open>int\<close>
  product as the offset) and then publishes the new write position.
\<close>

definition push :: "spsc_queue_header \<Rightarrow> byte list \<Rightarrow> nat \<Rightarrow> (int \<times> spsc_queue_header) outcome" where
  "push q buf buf_size =
     (let msize = i32 (int (message_size q)) in
      if buf_size > message_size q then Ret (-1, q)
      else
        let writer_head = head q;
            next_writer_head = wrap_index q writer_head
        in if next_writer_head = tail q then Hang
           else bind_out (memcpy_to (message_array q) (i32 (writer_head * msize)) buf buf_size)
             (\<lambda>arr. Ret (0, q\<lparr>message_array := arr, head := next_writer_head\<rparr>)))"

text \<open>
  \<open>pop\<close> clamps \<open>*buf_size\<close> to what is left of the message, polls until the queue is not
  empty, copies out, and moves the read position only when the whole message has been
  read. The result holds the return value, the bytes written to the caller's buffer and
  the new \<open>*buf_size\<close>.
\<close>

record pop_result =
  pop_read :: nat
  pop_out :: "byte list"
  pop_size :: nat

definition clamp_size :: "'a spsc_queue_header_scheme \<Rightarrow> nat \<Rightarrow> nat" where
  "clamp_size q buf_size =
     (if sz_add buf_size (u64 (message_offset q)) > message_size q
      then sz_sub (message_size q) (u64 (message_offset q)) else buf_size)"

definition read_offset :: "'a spsc_queue_header_scheme \<Rightarrow> int \<Rightarrow> int" where
  "read_offset q reader_tail =
     int (sz_mul (u64 reader_tail) (message_size q)) + message_offset q"

definition pop :: "spsc_queue_header \<Rightarrow> nat \<Rightarrow> (pop_result \<times> spsc_queue_header) outcome" where
  "pop q buf_size =
     (let n = clamp_size q buf_size in
      if stop_consumer_polling q then Ret (\<lparr>pop_read = 0, pop_out = [], pop_size = n\<rparr>, q)
      else
        let reader_tail = tail q in
        if reader_tail = head q then Hang
        else
          let next_reader_tail = wrap_index q reader_tail in
          bind_out (memcpy_from (message_array q) (read_offset q reader_tail) n)
            (\<lambda>out.
               let off = i32 (int (sz_add (u64 (message_offset q)) n)) in
               if u64 off = message_size q
               then Ret (\<lparr>pop_read = 0, pop_out = out, pop_size = n\<rparr>,
                         q\<lparr>message_offset := 0, tail := next_reader_tail\<rparr>)
               else Ret (\<lparr>pop_read = u64 off, pop_out = out, pop_size = n\<rparr>,
                         q\<lparr>message_offset := off, tail := reader_tail\<rparr>)))"

text \<open>The functions of queue.cpp whose bodies are empty for this queue.\<close>

definition is_full_poll :: "spsc_queue_header \<Rightarrow> bool" where
  "is_full_poll q = False"

definition is_empty_poll :: "spsc_queue_header \<Rightarrow> bool" where
  "is_empty_poll q = False"

definition enqueue_poll :: "spsc_queue_header \<Rightarrow> byte list \<Rightarrow> nat \<Rightarrow> spsc_queue_header" where
  "enqueue_poll q buf buf_size = q"

definition dequeue_poll :: "spsc_queue_header \<Rightarrow> nat \<Rightarrow> nat" where
  "dequeue_poll q buf_size = 0"

definition peek_poll :: "spsc_queue_header \<Rightarrow> int" where
  "peek_poll q = 0"

section \<open>Invariant and abstraction\<close>

definition nslots :: "'a spsc_queue_header_scheme \<Rightarrow> nat" where
  "nslots q = nat (queue_size q)"

definition hpos :: "'a spsc_queue_header_scheme \<Rightarrow> nat" where
  "hpos q = nat (head q)"

definition tpos :: "'a spsc_queue_header_scheme \<Rightarrow> nat" where
  "tpos q = nat (tail q)"

definition opos :: "'a spsc_queue_header_scheme \<Rightarrow> nat" where
  "opos q = nat (message_offset q)"

lemmas pos_defs = nslots_def hpos_def tpos_def opos_def

definition queue_inv :: "'a spsc_queue_header_scheme \<Rightarrow> bool" where
  "queue_inv q \<longleftrightarrow>
     0 \<le> head q \<and> head q < queue_size q \<and> 0 \<le> tail q \<and> tail q < queue_size q \<and>
     0 < message_size q \<and> nslots q * message_size q \<le> length (message_array q) \<and>
     length (message_array q) < 2147483648 \<and>
     0 \<le> message_offset q \<and> opos q < message_size q \<and>
     (message_offset q \<noteq> 0 \<longrightarrow> head q \<noteq> tail q)"

definition slots_of :: "'a spsc_queue_header_scheme \<Rightarrow> nat \<Rightarrow> byte list" where
  "slots_of q = slot_at (message_size q) (message_array q)"

definition contents :: "'a spsc_queue_header_scheme \<Rightarrow> byte list list" where
  "contents q = map (slots_of q) (ring_idxs (nslots q) (tpos q) (hpos q))"

definition capacity :: "'a spsc_queue_header_scheme \<Rightarrow> nat" where
  "capacity q = nslots q - 1"

definition abs_queue :: "'a spsc_queue_header_scheme \<Rightarrow> fifo" where
  "abs_queue q = \<lparr>msgs = contents q, read_off = opos q\<rparr>"

lemma queue_invD:
  assumes "queue_inv q"
  shows "hpos q < nslots q" "tpos q < nslots q" "int (hpos q) = head q" "int (tpos q) = tail q"
    "int (nslots q) = queue_size q" "int (opos q) = message_offset q"
    "0 < message_size q" "opos q < message_size q"
    "nslots q * message_size q \<le> length (message_array q)"
    "message_size q < 2147483648" "nslots q < 2147483648"
proof -
  show "hpos q < nslots q" "tpos q < nslots q" "int (hpos q) = head q" "int (tpos q) = tail q"
    "int (nslots q) = queue_size q" "int (opos q) = message_offset q" "opos q < message_size q"
    and m: "0 < message_size q" and le: "nslots q * message_size q \<le> length (message_array q)"
    using assms by (auto simp: queue_inv_def pos_defs)
  have n: "length (message_array q) < 2147483648"
    using assms by (simp add: queue_inv_def)
  have "1 \<le> nslots q"
    using assms by (auto simp: queue_inv_def pos_defs)
  then have "1 * message_size q \<le> nslots q * message_size q"
    and "nslots q * 1 \<le> nslots q * message_size q"
    using m by (intro mult_le_mono; simp)+
  with le n show "message_size q < 2147483648" "nslots q < 2147483648"
    by linarith+
qed

lemma slot_in_array:
  assumes "queue_inv q" "i < nslots q"
  shows "Suc i * message_size q \<le> length (message_array q)"
  using assms(2) queue_invD(9) [OF assms(1)] by (rule slot_bound)

lemma slot_offset_bound:
  assumes "queue_inv q" "i < nslots q"
  shows "i * message_size q + message_size q < 2147483648"
  using slot_in_array [OF assms] assms(1) by (simp add: queue_inv_def)

lemma length_contents:
  "queue_inv q \<Longrightarrow> length (contents q) = ring_len (nslots q) (tpos q) (hpos q)"
  by (simp add: contents_def length_ring_idxs queue_invD)

lemma contents_le_capacity: "queue_inv q \<Longrightarrow> length (contents q) \<le> capacity q"
  using ring_len_less [of "tpos q" "nslots q" "hpos q"] queue_invD(1,2) [of q]
  by (simp add: length_contents capacity_def)

lemma message_length: "queue_inv q \<Longrightarrow> m \<in> set (contents q) \<Longrightarrow> length m = message_size q"
  using ring_idxs_bound [of "tpos q" "nslots q" "hpos q"] slot_in_array [of q]
  by (auto simp: contents_def slots_of_def queue_invD)

lemma contents_empty_iff: "queue_inv q \<Longrightarrow> contents q = [] \<longleftrightarrow> head q = tail q"
  by (simp add: contents_def ring_idxs_Nil queue_invD flip: queue_invD(3,4))

lemma contents_full_iff:
  "queue_inv q \<Longrightarrow> length (contents q) = capacity q \<longleftrightarrow> ring_next (nslots q) (hpos q) = tpos q"
  by (simp add: length_contents capacity_def ring_len_full queue_invD)

lemma wrap_index_ring:
  assumes "queue_inv q" "i < nslots q"
  shows "wrap_index q (int i) = int (ring_next (nslots q) i)"
  using assms queue_invD(5,11) [OF assms(1)]
  by (auto simp: wrap_index_def ring_next_def c_arith Let_def)

section \<open>The operations on well-formed queues\<close>

text \<open>
  Under the invariant no conversion or product leaves its range, so that both operations
  reduce to one equation each over the ring: \<open>push_eq\<close> and \<open>pop_eq\<close>.
\<close>

definition pushed :: "'a spsc_queue_header_scheme \<Rightarrow> byte list \<Rightarrow> nat \<Rightarrow> 'a spsc_queue_header_scheme" where
  "pushed q buf n =
     q\<lparr>message_array := take (hpos q * message_size q) (message_array q) @ take n buf @
          drop (hpos q * message_size q + n) (message_array q),
       head := int (ring_next (nslots q) (hpos q))\<rparr>"

definition popped :: "'a spsc_queue_header_scheme \<Rightarrow> 'a spsc_queue_header_scheme" where
  "popped q = q\<lparr>message_offset := 0, tail := int (ring_next (nslots q) (tpos q))\<rparr>"

lemma full_iff_wrap: "queue_inv q \<Longrightarrow> wrap_index q (head q) = tail q \<longleftrightarrow> length (contents q) = capacity q"
  by (simp add: contents_full_iff wrap_index_ring queue_invD flip: queue_invD(3,4))

lemma write_offset:
  assumes "queue_inv q"
  shows "i32 (head q * i32 (int (message_size q))) = int (hpos q * message_size q)"
proof -
  have "i32 (int (message_size q)) = int (message_size q)"
    using queue_invD(10) [OF assms] by (simp add: c_arith)
  moreover have "head q * int (message_size q) = int (hpos q * message_size q)"
    using queue_invD(3) [OF assms] by simp
  moreover have "hpos q * message_size q < 2147483648"
    using slot_offset_bound [OF assms queue_invD(1) [OF assms]] by simp
  ultimately show ?thesis
    by (simp add: i32_id del: of_nat_mult)
qed

lemma memcpy_slot:
  assumes "Suc i * m \<le> length arr" "n \<le> m"
  shows "memcpy_to arr (int (i * m)) buf n =
    (if n \<le> length buf then Ret (take (i * m) arr @ take n buf @ drop (i * m + n) arr)
     else Fault OutOfBounds)"
  using assms by (simp add: memcpy_to_def del: of_nat_mult)

lemma push_eq:
  assumes inv: "queue_inv q"
  shows "push q buf n =
    (if message_size q < n then Ret (-1, q)
     else if length (contents q) = capacity q then Hang
     else if length buf < n then Fault OutOfBounds
     else Ret (0, pushed q buf n))"
  using memcpy_slot [OF slot_in_array [OF inv queue_invD(1) [OF inv]], of n buf]
    wrap_index_ring [OF inv queue_invD(1) [OF inv]] full_iff_wrap [OF inv]
  by (simp add: push_def Let_def write_offset [OF inv] pushed_def queue_invD(3) [OF inv] del: of_nat_mult)

lemma pushed_simps [simp]:
  "tail (pushed q buf n) = tail q" "message_size (pushed q buf n) = message_size q"
  "message_offset (pushed q buf n) = message_offset q" "queue_size (pushed q buf n) = queue_size q"
  "nslots (pushed q buf n) = nslots q" "tpos (pushed q buf n) = tpos q"
  "opos (pushed q buf n) = opos q" "hpos (pushed q buf n) = ring_next (nslots q) (hpos q)"
  "head (pushed q buf n) = int (ring_next (nslots q) (hpos q))"
  "stop_consumer_polling (pushed q buf n) = stop_consumer_polling q"
  "capacity (pushed q buf n) = capacity q"
  by (simp_all add: pushed_def pos_defs capacity_def)

lemma popped_simps [simp]:
  "head (popped q) = head q" "message_size (popped q) = message_size q"
  "message_offset (popped q) = 0" "queue_size (popped q) = queue_size q"
  "nslots (popped q) = nslots q" "hpos (popped q) = hpos q" "opos (popped q) = 0"
  "tpos (popped q) = ring_next (nslots q) (tpos q)"
  "tail (popped q) = int (ring_next (nslots q) (tpos q))"
  "message_array (popped q) = message_array q"
  "stop_consumer_polling (popped q) = stop_consumer_polling q"
  "capacity (popped q) = capacity q" "slots_of (popped q) = slots_of q"
  by (simp_all add: popped_def pos_defs capacity_def slots_of_def)

lemma length_pushed_array:
  assumes "queue_inv q" "n \<le> message_size q" "n \<le> length buf"
  shows "length (message_array (pushed q buf n)) = length (message_array q)"
  using slot_in_array [OF assms(1) queue_invD(1) [OF assms(1)]] assms(2,3)
  by (simp add: pushed_def)

lemma pushed_inv:
  assumes inv: "queue_inv q" and n: "n \<le> message_size q" "n \<le> length buf"
    and room: "length (contents q) \<noteq> capacity q"
  shows "queue_inv (pushed q buf n)"
  unfolding queue_inv_def pushed_simps length_pushed_array [OF inv n]
  using inv ring_next_less [OF queue_invD(1) [OF inv]] room queue_invD(4,5) [OF inv]
  by (auto simp: contents_full_iff queue_inv_def)

lemma slots_of_pushed:
  assumes inv: "queue_inv q" and n: "n \<le> message_size q" "n \<le> length buf" and j: "j < nslots q"
  shows "slots_of (pushed q buf n) j =
    (if j = hpos q then overlay buf n (slots_of q j) else slots_of q j)"
  using slot_at_write [OF n slot_in_array [OF inv queue_invD(1) [OF inv]] slot_in_array [OF inv j]]
  by (simp add: slots_of_def pushed_def)

lemma contents_pushed:
  assumes inv: "queue_inv q" and n: "n \<le> message_size q" "n \<le> length buf"
    and room: "length (contents q) \<noteq> capacity q"
  shows "contents (pushed q buf n) = contents q @ [overlay buf n (slots_of q (hpos q))]"
proof -
  note ht = queue_invD(2) [OF inv] queue_invD(1) [OF inv]
  have "ring_idxs (nslots q) (tpos q) (ring_next (nslots q) (hpos q)) =
      ring_idxs (nslots q) (tpos q) (hpos q) @ [hpos q]"
    using room inv ht by (intro ring_idxs_push) (simp_all add: contents_full_iff)
  moreover have "\<forall>j \<in> set (ring_idxs (nslots q) (tpos q) (hpos q)).
      slots_of (pushed q buf n) j = slots_of q j"
    using ring_idxs_bound [OF ht] head_not_in_ring [OF ht] by (auto simp: slots_of_pushed [OF inv n])
  ultimately show ?thesis
    using ht by (simp add: contents_def slots_of_pushed [OF inv n])
qed

lemma contents_Cons:
  assumes "queue_inv q" "head q \<noteq> tail q"
  shows "contents q = slots_of q (tpos q) # contents (popped q)"
proof -
  have "tpos q \<noteq> hpos q" using assms queue_invD(3,4) by metis
  from ring_idxs_pop [OF queue_invD(2,1) [OF assms(1)] this] show ?thesis
    by (simp add: contents_def)
qed

lemma popped_inv: "queue_inv q \<Longrightarrow> queue_inv (popped q)"
  unfolding queue_inv_def popped_simps
  using ring_next_less [of "tpos q" "nslots q"] by (auto simp: pos_defs)

lemma clamp_size_eq:
  assumes "queue_inv q" "n < 9223372036854775808"
  shows "clamp_size q n = min n (message_size q - opos q)"
  using queue_invD(6,8,10) [OF assms(1)] assms(2)
  by (auto simp: clamp_size_def min_def c_arith simp flip: queue_invD(6) [OF assms(1)])

lemma read_offset_eq:
  assumes inv: "queue_inv q"
  shows "read_offset q (tail q) = int (tpos q * message_size q + opos q)"
proof -
  have "tpos q * message_size q < 18446744073709551616"
    using slot_offset_bound [OF inv queue_invD(2) [OF inv]] by simp
  then show ?thesis
    using queue_invD(2,4,6,11) [OF inv]
    by (simp add: read_offset_def c_arith flip: queue_invD(4,6) [OF inv])
qed

lemma read_slot:
  assumes inv: "queue_inv q" and c: "opos q + c \<le> message_size q"
  shows "memcpy_from (message_array q) (read_offset q (tail q)) c =
    Ret (take c (drop (opos q) (slots_of q (tpos q))))"
proof -
  have "tpos q * message_size q + opos q + c \<le> length (message_array q)"
    using slot_in_array [OF inv queue_invD(2) [OF inv]] c by simp
  then show ?thesis
    unfolding read_offset_eq [OF inv] using c
    by (simp add: memcpy_from_def slots_of_def slot_at_def drop_take min_def add.commute
        del: of_nat_add)
qed

lemma pop_eq:
  assumes inv: "queue_inv q" and n: "n < 9223372036854775808"
  shows "pop q n =
    (let c = min n (message_size q - opos q) in
     if stop_consumer_polling q then Ret (\<lparr>pop_read = 0, pop_out = [], pop_size = c\<rparr>, q)
     else if contents q = [] then Hang
     else if opos q + c = message_size q
     then Ret (\<lparr>pop_read = 0, pop_out = drop (opos q) (hd (contents q)), pop_size = c\<rparr>, popped q)
     else Ret (\<lparr>pop_read = opos q + c, pop_out = take c (drop (opos q) (hd (contents q))),
                pop_size = c\<rparr>, q\<lparr>message_offset := int (opos q + c)\<rparr>))"
proof (cases "head q = tail q")
  case True
  with inv n show ?thesis
    by (simp add: pop_def Let_def clamp_size_eq contents_empty_iff)
next
  case False
  define c where "c = min n (message_size q - opos q)"
  have c: "opos q + c \<le> message_size q"
    using queue_invD(8) [OF inv] by (simp add: c_def)
  have off: "i32 (int (sz_add (u64 (message_offset q)) c)) = int (opos q + c)"
    using c queue_invD(8,10) [OF inv]
    by (simp add: c_arith flip: queue_invD(6) [OF inv])
  have u: "u64 (int (opos q + c)) = opos q + c"
    using c queue_invD(10) [OF inv] by (intro u64_int) simp
  have whole: "take c (drop (opos q) (slots_of q (tpos q))) = drop (opos q) (slots_of q (tpos q))"
    if "opos q + c = message_size q"
    using that slot_in_array [OF inv queue_invD(2) [OF inv]] by (simp add: slots_of_def)
  from False inv show ?thesis
    unfolding pop_def Let_def clamp_size_eq [OF inv n] c_def [symmetric] read_slot [OF inv c]
      wrap_index_ring [OF inv queue_invD(2) [OF inv], unfolded queue_invD(4) [OF inv]] off u
    using whole by (simp add: contents_empty_iff contents_Cons popped_def del: of_nat_add)
qed

section \<open>The queue as a message queue\<close>

definition poll_inv :: "spsc_queue_header \<Rightarrow> bool" where
  "poll_inv q \<longleftrightarrow> queue_inv q \<and> \<not> stop_consumer_polling q"

definition poll_recv :: "spsc_queue_header \<Rightarrow> nat \<Rightarrow> ((nat \<times> byte list) \<times> spsc_queue_header) outcome" where
  "poll_recv q n = bind_out (pop q n) (\<lambda>(r, q'). Ret ((pop_read r, pop_out r), q'))"

lemma abs_pushed:
  assumes "queue_inv q" "length (contents q) < capacity q" "length m = message_size q"
  shows "abs_queue (pushed q m (length m)) = (abs_queue q)\<lparr>msgs := contents q @ [m]\<rparr>"
  using assms slot_in_array [OF assms(1) queue_invD(1) [OF assms(1)]]
  by (simp add: abs_queue_def contents_pushed slots_of_def)

lemma partial_read_inv:
  "queue_inv q \<Longrightarrow> head q \<noteq> tail q \<Longrightarrow> c < message_size q \<Longrightarrow> queue_inv (q\<lparr>message_offset := int c\<rparr>)"
  by (simp add: queue_inv_def pos_defs)

lemma partial_read_simps [simp]:
  "contents (q\<lparr>message_offset := x\<rparr>) = contents q" "opos (q\<lparr>message_offset := x\<rparr>) = nat x"
  "capacity (q\<lparr>message_offset := x\<rparr>) = capacity q"
  by (simp_all add: contents_def slots_of_def pos_defs capacity_def)

lemma pop_refines:
  assumes inv: "poll_inv q" and n: "n < 9223372036854775808"
    and f: "fifo_pop n (abs_queue q) = Some ((r, out), f)"
  shows "\<exists>q'. pop q n = Ret (\<lparr>pop_read = r, pop_out = out, pop_size = min n (message_size q - opos q)\<rparr>, q') \<and>
    poll_inv q' \<and> abs_queue q' = f \<and> capacity q' = capacity q \<and> message_size q' = message_size q"
proof -
  from inv have qi: "queue_inv q" and stop: "\<not> stop_consumer_polling q"
    by (simp_all add: poll_inv_def)
  from f have ne: "head q \<noteq> tail q"
    using contents_empty_iff [OF qi] by (auto simp: fifo_pop_def abs_queue_def)
  have len: "length (slots_of q (tpos q)) = message_size q"
    using slot_in_array [OF qi queue_invD(2) [OF qi]] by (simp add: slots_of_def)
  note cons = contents_Cons [OF qi ne]
  show ?thesis
  proof (cases "opos q + min n (message_size q - opos q) = message_size q")
    case True
    with f len have "r = 0" "out = drop (opos q) (slots_of q (tpos q))" "f = abs_queue (popped q)"
      by (simp_all add: fifo_pop_def abs_queue_def cons)
    with True qi stop show ?thesis
      by (simp add: pop_eq [OF qi n] cons poll_inv_def popped_inv)
  next
    case False
    moreover from this have "opos q + min n (message_size q - opos q) < message_size q"
      using queue_invD(8) [OF qi] by simp
    ultimately show ?thesis
      using f len qi stop ne
      by (auto simp: pop_eq [OF qi n] cons poll_inv_def fifo_pop_def abs_queue_def Let_def
          partial_read_inv simp del: of_nat_add)
  qed
qed

interpretation poll: message_queue poll_inv abs_queue capacity message_size push poll_recv
proof unfold_locales
  fix q m f
  assume "poll_inv q" "length m = message_size q" "fifo_push (capacity q) m (abs_queue q) = Some f"
  then show "\<exists>q'. push q m (length m) = Ret (0, q') \<and> poll_inv q' \<and> abs_queue q' = f \<and>
      capacity q' = capacity q \<and> message_size q' = message_size q"
    using abs_pushed [of q m]
    by (auto simp: poll_inv_def push_eq fifo_push_def pushed_inv abs_queue_def split: if_splits)
next
  fix q n r out f
  assume "poll_inv q" "n < 9223372036854775808" "fifo_pop n (abs_queue q) = Some ((r, out), f)"
  from pop_refines [OF this] show "\<exists>q'. poll_recv q n = Ret ((r, out), q') \<and> poll_inv q' \<and>
      abs_queue q' = f \<and> capacity q' = capacity q \<and> message_size q' = message_size q"
    by (auto simp: poll_recv_def)
qed (auto simp: poll_inv_def poll_recv_def push_eq pop_eq abs_queue_def Let_def
    contents_le_capacity message_length queue_invD(8) dest: queue_invD(10))

section \<open>Properties\<close>

lemma queue_create_eq:
  assumes "0 < m" "m + 40 \<le> shm_size" "shm_size < 2147483648"
  shows "queue_create arr shm_size m = Ret (int (40 + (shm_size - 40) div m * m),
    \<lparr>head = 0, tail = 0, message_size = m, message_offset = 0,
     queue_size = int ((shm_size - 40) div m), current_count = 0, total_count = 0,
     stop_producer_polling = False, stop_consumer_polling = False, message_array = arr\<rparr>)"
proof -
  have le: "(shm_size - 40) div m \<le> shm_size" "(shm_size - 40) mod m \<le> shm_size"
    using div_le_dividend [of "shm_size - 40" m] mod_less_eq_dividend [of "shm_size - 40" m]
    by linarith+
  have "shm_size - (shm_size - 40) mod m = 40 + (shm_size - 40) div m * m"
    using minus_mod_eq_div_mult [of "shm_size - 40" m] mod_less_eq_dividend [of "shm_size - 40" m]
      assms(2) by linarith
  with assms le show ?thesis
    by (simp add: queue_create_def Let_def c_arith del: of_nat_add of_nat_mult)
qed

lemma created_queue:
  assumes "0 < m" "m + 40 \<le> shm_size" "shm_size < 2147483648" "length arr = shm_size - 40"
  shows "\<exists>q. queue_create arr shm_size m = Ret (int (40 + (shm_size - 40) div m * m), q) \<and>
    poll_inv q \<and> abs_queue q = \<lparr>msgs = [], read_off = 0\<rparr> \<and> message_size q = m \<and>
    capacity q = (shm_size - 40) div m - 1 \<and> message_array q = arr"
proof -
  have "0 < (shm_size - 40) div m"
    using assms(1,2) by (simp add: div_greater_zero_iff)
  moreover have "(shm_size - 40) div m * m \<le> shm_size - 40" by (rule div_times_less_eq_dividend)
  ultimately show ?thesis
    using assms queue_create_eq [OF assms(1-3), of arr]
    by (simp add: poll_inv_def queue_inv_def pos_defs abs_queue_def contents_def ring_idxs_def capacity_def)
qed

text \<open>
  C29: \<open>queue_create\<close> on a region that has room for the header and one message.
\<close>

theorem queue_create_establishes:
  assumes "0 < m" "m + 40 \<le> shm_size" "shm_size < 2147483648" "length arr = shm_size - 40"
  shows "\<exists>q. queue_create arr shm_size m = Ret (int (40 + (shm_size - 40) div m * m), q) \<and>
    poll_inv q \<and> abs_queue q = \<lparr>msgs = [], read_off = 0\<rparr> \<and> message_size q = m \<and>
    capacity q = (shm_size - 40) div m - 1 \<and> message_array q = arr"
  using assms by (rule created_queue)

theorem queue_create_establishes_witness:
  "\<exists>q. queue_create (replicate 24 0) 64 8 = Ret (64, q) \<and> poll_inv q \<and>
    abs_queue q = \<lparr>msgs = [], read_off = 0\<rparr> \<and> message_size q = 8 \<and> capacity q = 2 \<and>
    message_array q = replicate 24 0"
  using queue_create_establishes [of 8 64 "replicate 24 0"] by simp

text \<open>
  C4: \<open>push\<close> refines the bounded FIFO: with room the message (the buffer laid over the old
  bytes of its slot) goes to the back and the call returns 0; without room it polls; a
  buffer larger than a message is refused with -1 and changes nothing.
\<close>

theorem push_refines_fifo:
  assumes "queue_inv q" "n \<le> length buf"
  shows "if message_size q < n then push q buf n = Ret (-1, q)
    else case fifo_push (capacity q) (overlay buf n (slots_of q (hpos q))) (abs_queue q) of
      None \<Rightarrow> push q buf n = Hang
    | Some f \<Rightarrow> \<exists>q'. push q buf n = Ret (0, q') \<and> queue_inv q' \<and> abs_queue q' = f"
proof (cases "message_size q < n")
  case True
  with assms show ?thesis by (simp add: push_eq)
next
  case False
  with assms show ?thesis
    using contents_le_capacity [OF assms(1)]
    by (auto simp: push_eq fifo_push_def abs_queue_def pushed_inv contents_pushed)
qed

definition demo_queue :: spsc_queue_header where
  "demo_queue = \<lparr>head = 1, tail = 0, message_size = 2, message_offset = 0, queue_size = 3,
     current_count = 0, total_count = 0, stop_producer_polling = False,
     stop_consumer_polling = False, message_array = [7, 8, 0, 0, 0, 0]\<rparr>"

lemma demo_queue_inv: "poll_inv demo_queue" "queue_inv demo_queue"
  by (simp_all add: poll_inv_def queue_inv_def demo_queue_def pos_defs)

lemma demo_queue_abs: "abs_queue demo_queue = \<lparr>msgs = [[7, 8]], read_off = 0\<rparr>"
  by (simp add: abs_queue_def contents_def demo_queue_def pos_defs ring_idxs_def slots_of_def slot_at_def)

lemma demo_queue_simps:
  "message_size demo_queue = 2" "capacity demo_queue = 2" "hpos demo_queue = 1" "opos demo_queue = 0"
  "slots_of demo_queue 1 = [0, 0]" "tail demo_queue = 0" "message_array demo_queue = [7, 8, 0, 0, 0, 0]"
  "contents demo_queue = [[7, 8]]"
  using demo_queue_abs
  by (simp_all add: abs_queue_def) (simp_all add: demo_queue_def pos_defs capacity_def slots_of_def slot_at_def)

theorem push_refines_fifo_witness:
  "\<exists>q'. push demo_queue [5] 1 = Ret (0, q') \<and> queue_inv q' \<and>
    abs_queue q' = \<lparr>msgs = [[7, 8], [5, 0]], read_off = 0\<rparr>"
  using push_refines_fifo [OF demo_queue_inv(2), of 1 "[5]"]
  by (simp add: demo_queue_abs demo_queue_simps [simplified] fifo_push_def overlay_def)

text \<open>
  C5: \<open>pop\<close> refines the FIFO: it returns the next piece of the oldest message, 0 when that
  was its last piece and the offset reached otherwise, shrinks \<open>*buf_size\<close> to the piece,
  and polls on an empty queue.
\<close>

theorem pop_refines_fifo:
  assumes "poll_inv q" "n < 9223372036854775808"
  shows "case fifo_pop n (abs_queue q) of
      None \<Rightarrow> pop q n = Hang
    | Some ((r, out), f) \<Rightarrow>
        \<exists>q'. pop q n = Ret (\<lparr>pop_read = r, pop_out = out, pop_size = min n (message_size q - opos q)\<rparr>, q') \<and>
          poll_inv q' \<and> abs_queue q' = f"
proof (cases "fifo_pop n (abs_queue q)")
  case None
  then have "contents q = []"
    by (auto simp: fifo_pop_def abs_queue_def Let_def split: list.splits if_splits)
  with None assms show ?thesis by (simp add: pop_eq poll_inv_def)
next
  case (Some a)
  with pop_refines [OF assms] show ?thesis by (auto split: prod.splits)
qed

theorem pop_refines_fifo_witness:
  "\<exists>q'. pop demo_queue 1 = Ret (\<lparr>pop_read = 1, pop_out = [7], pop_size = 1\<rparr>, q') \<and>
    poll_inv q' \<and> abs_queue q' = \<lparr>msgs = [[7, 8]], read_off = 1\<rparr>"
  using pop_refines_fifo [OF demo_queue_inv(1), of 1]
  by (simp add: demo_queue_abs demo_queue_simps fifo_pop_def)

lemma poll_roundtrip:
  assumes "poll_inv q" "abs_queue q = \<lparr>msgs = [], read_off = 0\<rparr>"
    "\<forall>x \<in> set ms. length x = message_size q" "length ms \<le> capacity q"
  shows "\<exists>q1 q2. send_all push ms q = Ret q1 \<and>
    recv_pieces poll_recv (length ms) (message_size q) q1 = Ret (ms, q2) \<and> poll_inv q2 \<and>
    msgs (abs_queue q2) = []"
  using assms by (intro poll.fifo_roundtrip) simp_all

text \<open>
  C21: FIFO round trip on a queue made by \<open>queue_create\<close>: any list of full messages that
  fits is accepted whole and popped whole, in order.
\<close>

theorem queue_roundtrip:
  assumes "0 < m" "m + 40 \<le> shm_size" "shm_size < 2147483648" "length arr = shm_size - 40"
    and "\<forall>x \<in> set ms. length x = m" "length ms < (shm_size - 40) div m"
  shows "\<exists>r q q1 q2. queue_create arr shm_size m = Ret (r, q) \<and> send_all push ms q = Ret q1 \<and>
    recv_pieces poll_recv (length ms) m q1 = Ret (ms, q2) \<and> msgs (abs_queue q2) = []"
proof -
  obtain q where q: "queue_create arr shm_size m = Ret (int (40 + (shm_size - 40) div m * m), q)"
    "poll_inv q" "abs_queue q = \<lparr>msgs = [], read_off = 0\<rparr>" "message_size q = m"
    "capacity q = (shm_size - 40) div m - 1"
    using created_queue [OF assms(1-4)] by blast
  moreover have "length ms \<le> capacity q" using q(5) assms(6) by simp
  ultimately show ?thesis
    using assms(5) poll_roundtrip [of q ms] by blast
qed

theorem queue_roundtrip_witness:
  "\<exists>r q q1 q2. queue_create (replicate 24 0) 64 8 = Ret (r, q) \<and>
    send_all push [replicate 8 1, replicate 8 2] q = Ret q1 \<and>
    recv_pieces poll_recv 2 8 q1 = Ret ([replicate 8 1, replicate 8 2], q2) \<and> msgs (abs_queue q2) = []"
  using queue_roundtrip [of 8 64 "replicate 24 0" "[replicate 8 1, replicate 8 2]"]
  by (simp add: numeral_2_eq_2)

text \<open>
  C22: a receiver with a buffer of \<open>n\<close> bytes that keeps calling until it is told 0 gets
  exactly what is left of the oldest message, in at most \<open>message_size\<close> calls, and the
  message leaves the queue.
\<close>

theorem partial_reads_reassemble:
  assumes "poll_inv q" "contents q = m # ms" "0 < n" "n < 9223372036854775808"
  shows "\<exists>q'. read_message poll_recv (message_size q) n q = Ret (drop (opos q) m, q') \<and>
    poll_inv q' \<and> abs_queue q' = \<lparr>msgs = ms, read_off = 0\<rparr>"
  using poll.read_message_refines [of q m ms n "message_size q"] assms
  by (auto simp: abs_queue_def)

theorem partial_reads_reassemble_witness:
  "\<exists>q'. read_message poll_recv 2 1 demo_queue = Ret ([7, 8], q') \<and> poll_inv q' \<and>
    abs_queue q' = \<lparr>msgs = [], read_off = 0\<rparr>"
  using partial_reads_reassemble [OF demo_queue_inv(1), of "[7, 8]" "[]" 1]
  by (simp add: demo_queue_simps)

text \<open>
  Memory safety of \<open>push\<close>: whatever it returns, it never faults on a buffer that really
  holds \<open>n\<close> bytes, writes no byte outside the first \<open>n\<close> bytes of the slot at the write
  position and changes no field that belongs to the consumer.
\<close>

theorem push_frame:
  assumes "queue_inv q" "n \<le> length buf"
  shows "push q buf n \<noteq> Fault e \<and>
    (\<forall>r q'. push q buf n = Ret (r, q') \<longrightarrow>
       tail q' = tail q \<and> message_offset q' = message_offset q \<and> message_size q' = message_size q \<and>
       queue_size q' = queue_size q \<and> length (message_array q') = length (message_array q) \<and>
       (\<forall>i. i < hpos q * message_size q \<or> hpos q * message_size q + n \<le> i \<longrightarrow>
         i < length (message_array q) \<longrightarrow> message_array q' ! i = message_array q ! i))"
proof -
  have "i < length (message_array q) \<Longrightarrow>
      i < hpos q * message_size q \<or> hpos q * message_size q + n \<le> i \<Longrightarrow> n \<le> message_size q \<Longrightarrow>
      message_array (pushed q buf n) ! i = message_array q ! i" for i
    using slot_in_array [OF assms(1) queue_invD(1) [OF assms(1)]] assms(2)
    by (auto simp: pushed_def nth_append min_def)
  with assms show ?thesis
    by (auto simp: push_eq length_pushed_array split: if_splits)
qed

theorem push_frame_witness:
  "push demo_queue [5] 1 \<noteq> Fault OutOfBounds \<and> (\<forall>r q'. push demo_queue [5] 1 = Ret (r, q') \<longrightarrow>
     tail q' = 0 \<and> message_array q' ! 0 = 7 \<and> message_array q' ! 5 = 0)"
  using push_frame [OF demo_queue_inv(2), of 1 "[5]" OutOfBounds]
  by (auto simp: demo_queue_simps)

text \<open>
  A message larger than half of the region is accepted by \<open>queue_create\<close> but no message
  of any size can ever be pushed, whatever the consumer does: the ring has one slot, and
  \<open>push\<close> waits for a read position that cannot move.
\<close>

theorem large_message_never_pushed:
  assumes "0 < m" "m + 40 \<le> shm_size" "shm_size < 2147483648" "length arr = shm_size - 40"
    and "shm_size - 40 < 2 * m"
  shows "\<exists>r q. queue_create arr shm_size m = Ret (r, q) \<and>
    (\<forall>buf n. n \<le> m \<longrightarrow> push q buf n = Hang) \<and> (\<forall>n < 9223372036854775808. pop q n = Hang)"
proof -
  have "(shm_size - 40) div m < 2"
    using assms(1,5) by (simp add: less_mult_imp_div_less)
  then obtain r q where q: "queue_create arr shm_size m = Ret (r, q)" "poll_inv q"
      "abs_queue q = \<lparr>msgs = [], read_off = 0\<rparr>" "message_size q = m" "capacity q = 0"
    using created_queue [OF assms(1-4)] by auto
  then have "queue_inv q" "\<not> stop_consumer_polling q" "contents q = []"
    by (simp_all add: poll_inv_def abs_queue_def)
  with q show ?thesis
    by (auto simp: push_eq pop_eq Let_def)
qed

theorem large_message_never_pushed_witness:
  "\<exists>r q. queue_create (replicate 60 0) 100 40 = Ret (r, q) \<and>
    (\<forall>buf n. n \<le> 40 \<longrightarrow> push q buf n = Hang) \<and> (\<forall>n < 9223372036854775808. pop q n = Hang)"
  using large_message_never_pushed [of 40 100 "replicate 60 0"] by simp

text \<open>
  The size check of \<open>queue_create\<close> wraps around. A negative \<open>int\<close> message size, which
  the allocators pass on as a \<open>size_t\<close>, is accepted and gives a ring of zero slots.
\<close>

theorem negative_size_accepted:
  assumes "- 40 \<le> s" "s < 0"
  shows "\<exists>r q. queue_create arr 16024 (u64 s) = Ret (r, q) \<and> queue_size q = 0"
proof -
  define m where "m = u64 s"
  have "s mod 18446744073709551616 = s + 18446744073709551616"
    using assms mod_pos_pos_trivial [of "s + 18446744073709551616" 18446744073709551616] by simp
  then have "int m = 18446744073709551616 + s"
    using assms by (simp add: m_def u64_def)
  then have big: "15984 < m" "m < 18446744073709551616" "18446744073709551576 \<le> m"
    using assms by linarith+
  have "sz_add m 40 = m + 40 - 18446744073709551616"
    using big by (simp add: sz_add_def le_mod_geq)
  then have "\<not> 16024 < sz_add m 40" using big by simp
  moreover have "sz_sub 16024 40 = 15984" by (simp add: c_arith)
  moreover have "15984 div m = 0" using big by simp
  ultimately show ?thesis
    using big by (simp add: queue_create_def Let_def i32_def flip: m_def)
qed

theorem negative_size_accepted_witness:
  "\<exists>r q. queue_create [] 16024 (u64 (- 4)) = Ret (r, q) \<and> queue_size q = 0"
  using negative_size_accepted [of "- 4" "[]"] by simp

end
