(* ===== verification/Poll_Conc.thy ===== *)
theory Poll_Conc
  imports Poll_Queue "HOL-Library.Sublist"
begin

text \<open>
  One producer in \<open>push\<close> and one consumer in \<open>pop\<close> of \<open>src/libnotnets/src/queue.cpp\<close>,
  interleaved. Every access to a shared field that the other side may touch is a step of
  its own: the load of the own index, each poll of the other index, the copy, the write
  of \<open>message_offset\<close> and the publishing store. Memory is sequentially consistent; the
  acquire loads and release stores of the code order the copy against the index it is
  published by, and \<open>copies_disjoint\<close> shows that the two copies never touch the same byte.
\<close>

section \<open>Local state of the two sides\<close>

text \<open>
  The program counters carry the locals of the functions: the buffer and its size, and
  \<open>writer_head\<close>, \<open>next_writer_head\<close>; the clamped size and \<open>reader_tail\<close>,
  \<open>next_reader_tail\<close> and the bytes copied out.
\<close>

datatype producer_pc =
    PIdle
  | PPoll "byte list" nat int int
  | PCopy "byte list" nat int int
  | PStore "byte list" nat int int

datatype consumer_pc =
    CIdle
  | CPoll nat int
  | CCopy nat int
  | CCopied nat int "byte list"
  | CStore int "byte list"

text \<open>
  \<open>sent\<close> and \<open>got\<close> record the history: for every message published the bytes the caller of
  \<open>push\<close> passed, \<open>message_size\<close> many of \<open>buf\<close>, whatever the ring holds; and the bytes \<open>pop\<close>
  has handed to its caller.
\<close>

record spsc =
  shared :: spsc_queue_header
  prod :: producer_pc
  cons :: consumer_pc
  sent :: "byte list list"
  got :: "byte list"

section \<open>Steps\<close>

inductive spsc_step :: "spsc \<Rightarrow> spsc \<Rightarrow> bool" where
  push_refused:
    "prod s = PIdle \<Longrightarrow> message_size (shared s) < n \<Longrightarrow> spsc_step s s"
| push_start:
    "prod s = PIdle \<Longrightarrow> n \<le> message_size (shared s) \<Longrightarrow> n \<le> length buf \<Longrightarrow>
     spsc_step s (s\<lparr>prod := PPoll buf n (head (shared s)) (wrap_index (shared s) (head (shared s)))\<rparr>)"
| push_spin:
    "prod s = PPoll buf n wh nwh \<Longrightarrow> nwh = tail (shared s) \<Longrightarrow> spsc_step s s"
| push_go:
    "prod s = PPoll buf n wh nwh \<Longrightarrow> nwh \<noteq> tail (shared s) \<Longrightarrow>
     spsc_step s (s\<lparr>prod := PCopy buf n wh nwh\<rparr>)"
| push_copy:
    "prod s = PCopy buf n wh nwh \<Longrightarrow>
     memcpy_to (message_array (shared s)) (i32 (wh * i32 (int (message_size (shared s))))) buf n = Ret arr \<Longrightarrow>
     spsc_step s (s\<lparr>shared := (shared s)\<lparr>message_array := arr\<rparr>, prod := PStore buf n wh nwh\<rparr>)"
| push_store:
    "prod s = PStore buf n wh nwh \<Longrightarrow>
     spsc_step s (s\<lparr>shared := (shared s)\<lparr>head := nwh\<rparr>, prod := PIdle, sent := sent s @ [take n buf]\<rparr>)"
| pop_stopped:
    "cons s = CIdle \<Longrightarrow> stop_consumer_polling (shared s) \<Longrightarrow> spsc_step s s"
| pop_start:
    "cons s = CIdle \<Longrightarrow> \<not> stop_consumer_polling (shared s) \<Longrightarrow> n < 9223372036854775808 \<Longrightarrow>
     spsc_step s (s\<lparr>cons := CPoll (clamp_size (shared s) n) (tail (shared s))\<rparr>)"
| pop_spin:
    "cons s = CPoll n rt \<Longrightarrow> rt = head (shared s) \<Longrightarrow> spsc_step s s"
| pop_go:
    "cons s = CPoll n rt \<Longrightarrow> rt \<noteq> head (shared s) \<Longrightarrow> spsc_step s (s\<lparr>cons := CCopy n rt\<rparr>)"
| pop_copy:
    "cons s = CCopy n rt \<Longrightarrow>
     memcpy_from (message_array (shared s)) (read_offset (shared s) rt) n = Ret out \<Longrightarrow>
     spsc_step s (s\<lparr>cons := CCopied n rt out\<rparr>)"
| pop_whole:
    "cons s = CCopied n rt out \<Longrightarrow>
     u64 (i32 (int (sz_add (u64 (message_offset (shared s))) n))) = message_size (shared s) \<Longrightarrow>
     spsc_step s (s\<lparr>shared := (shared s)\<lparr>message_offset := 0\<rparr>,
       cons := CStore (wrap_index (shared s) rt) out\<rparr>)"
| pop_part:
    "cons s = CCopied n rt out \<Longrightarrow>
     off = i32 (int (sz_add (u64 (message_offset (shared s))) n)) \<Longrightarrow>
     u64 off \<noteq> message_size (shared s) \<Longrightarrow>
     spsc_step s (s\<lparr>shared := (shared s)\<lparr>message_offset := off\<rparr>, cons := CStore rt out\<rparr>)"
| pop_store:
    "cons s = CStore nrt out \<Longrightarrow>
     spsc_step s (s\<lparr>shared := (shared s)\<lparr>tail := nrt\<rparr>, cons := CIdle, got := got s @ out\<rparr>)"

definition spsc_start :: "spsc_queue_header \<Rightarrow> spsc" where
  "spsc_start q = \<lparr>shared = q, prod = PIdle, cons = CIdle, sent = [], got = []\<rparr>"

inductive spsc_reach :: "spsc_queue_header \<Rightarrow> spsc \<Rightarrow> bool" for q where
  reach_start: "spsc_reach q (spsc_start q)"
| reach_step: "spsc_reach q s \<Longrightarrow> spsc_step s t \<Longrightarrow> spsc_reach q t"

section \<open>Invariant\<close>

definition prod_ok :: "spsc \<Rightarrow> bool" where
  "prod_ok s =
     (let q = shared s in
      case prod s of
        PIdle \<Rightarrow> True
      | PPoll buf n wh nwh \<Rightarrow>
          wh = head q \<and> nwh = wrap_index q wh \<and> n \<le> message_size q \<and> n \<le> length buf
      | PCopy buf n wh nwh \<Rightarrow>
          wh = head q \<and> nwh = wrap_index q wh \<and> n \<le> message_size q \<and> n \<le> length buf \<and>
          length (contents q) < capacity q
      | PStore buf n wh nwh \<Rightarrow>
          wh = head q \<and> nwh = wrap_index q wh \<and> length (contents q) < capacity q \<and>
          carries (message_size q) (take n buf) (slots_of q (hpos q)))"

definition cons_ok :: "spsc \<Rightarrow> bool" where
  "cons_ok s =
     (let q = shared s in
      case cons s of
        CIdle \<Rightarrow> True
      | CPoll n rt \<Rightarrow> rt = tail q \<and> opos q + n \<le> message_size q
      | CCopy n rt \<Rightarrow> rt = tail q \<and> opos q + n \<le> message_size q \<and> contents q \<noteq> []
      | CCopied n rt out \<Rightarrow>
          rt = tail q \<and> opos q + n \<le> message_size q \<and> contents q \<noteq> [] \<and>
          out = take n (drop (opos q) (hd (contents q)))
      | CStore nrt out \<Rightarrow>
          contents q \<noteq> [] \<and> (nrt = tail q \<or> nrt = wrap_index q (tail q) \<and> message_offset q = 0))"

text \<open>
  What the caller has and what the queue still holds: \<open>got\<close> and the bytes in the
  consumer's hands are the messages that have left the ring followed by the part of the
  oldest message that \<open>message_offset\<close> counts. The messages that left and those in the
  ring carry, one by one, what the calls of \<open>push\<close> were given.
\<close>

definition delivered :: "spsc \<Rightarrow> byte list \<Rightarrow> bool" where
  "delivered s past =
     (let q = shared s in
      case cons s of
        CStore nrt out \<Rightarrow>
          got s @ out = past @ (if nrt = tail q then take (opos q) (hd (contents q)) else hd (contents q))
      | _ \<Rightarrow> got s = past @ take (opos q) (concat (contents q)))"

definition stream_ok :: "spsc \<Rightarrow> bool" where
  "stream_ok s \<longleftrightarrow>
     (\<exists>past. list_all2 (carries (message_size (shared s))) (sent s) (past @ contents (shared s)) \<and>
        delivered s (concat past))"

definition spsc_inv :: "spsc \<Rightarrow> bool" where
  "spsc_inv s \<longleftrightarrow> queue_inv (shared s) \<and> prod_ok s \<and> cons_ok s \<and> stream_ok s"

lemmas spsc_inv_defs = spsc_inv_def prod_ok_def cons_ok_def stream_ok_def delivered_def Let_def

lemma spsc_inv_start:
  "poll_inv q \<Longrightarrow> abs_queue q = \<lparr>msgs = [], read_off = 0\<rparr> \<Longrightarrow> spsc_inv (spsc_start q)"
  by (simp add: spsc_inv_defs spsc_start_def poll_inv_def abs_queue_def)

section \<open>Every step keeps the invariant\<close>

lemma pos_update [simp]:
  "nslots (q\<lparr>message_array := a\<rparr>) = nslots q" "hpos (q\<lparr>message_array := a\<rparr>) = hpos q"
  "tpos (q\<lparr>message_array := a\<rparr>) = tpos q" "opos (q\<lparr>message_array := a\<rparr>) = opos q"
  "capacity (q\<lparr>message_array := a\<rparr>) = capacity q" "wrap_index (q\<lparr>message_array := a\<rparr>) = wrap_index q"
  "wrap_index (q\<lparr>message_offset := x\<rparr>) = wrap_index q"
  "slots_of (q\<lparr>message_offset := x\<rparr>) = slots_of q" "hpos (q\<lparr>message_offset := x\<rparr>) = hpos q"
  by (simp_all add: pos_defs capacity_def wrap_index_def slots_of_def fun_eq_iff)

text \<open>The copy of \<open>push\<close> touches only the free slot at the write position.\<close>

lemma copied_slot:
  assumes inv: "queue_inv q" and n: "n \<le> message_size q" "n \<le> length buf"
    and arr: "memcpy_to (message_array q) (i32 (head q * i32 (int (message_size q)))) buf n = Ret arr"
  shows "queue_inv (q\<lparr>message_array := arr\<rparr>)" "contents (q\<lparr>message_array := arr\<rparr>) = contents q"
    "slots_of (q\<lparr>message_array := arr\<rparr>) (hpos q) = overlay buf n (slots_of q (hpos q))"
proof -
  note ht = queue_invD(2) [OF inv] queue_invD(1) [OF inv]
  have a: "arr = message_array (pushed q buf n)"
    using arr memcpy_slot [OF slot_in_array [OF inv ht(2)] n(1), of buf] n(2)
    by (simp add: write_offset [OF inv] pushed_def del: of_nat_mult)
  then have slots: "slots_of (q\<lparr>message_array := arr\<rparr>) = slots_of (pushed q buf n)"
    by (simp add: slots_of_def)
  show "queue_inv (q\<lparr>message_array := arr\<rparr>)"
    using inv memcpy_to_length [OF arr] by (simp add: queue_inv_def pos_defs)
  show "contents (q\<lparr>message_array := arr\<rparr>) = contents q"
    using ring_idxs_bound [OF ht] head_not_in_ring [OF ht]
    by (auto simp: contents_def slots slots_of_pushed [OF inv n])
  show "slots_of (q\<lparr>message_array := arr\<rparr>) (hpos q) = overlay buf n (slots_of q (hpos q))"
    using ht by (simp add: slots slots_of_pushed [OF inv n])
qed

text \<open>Publishing the write position appends the slot to the contents.\<close>

lemma publish_head:
  assumes inv: "queue_inv q" and room: "length (contents q) < capacity q"
  shows "queue_inv (q\<lparr>head := wrap_index q (head q)\<rparr>)"
    "contents (q\<lparr>head := wrap_index q (head q)\<rparr>) = contents q @ [slots_of q (hpos q)]"
    "opos (q\<lparr>head := i\<rparr>) = opos q" "capacity (q\<lparr>head := i\<rparr>) = capacity q"
    "wrap_index (q\<lparr>head := i\<rparr>) = wrap_index q"
proof -
  have "q\<lparr>head := wrap_index q (head q)\<rparr> = pushed q [] 0"
    using wrap_index_ring [OF inv queue_invD(1) [OF inv]] queue_invD(3) [OF inv]
    by (simp add: pushed_def)
  then show "queue_inv (q\<lparr>head := wrap_index q (head q)\<rparr>)"
    "contents (q\<lparr>head := wrap_index q (head q)\<rparr>) = contents q @ [slots_of q (hpos q)]"
    using pushed_inv [OF inv, of 0 "[]"] contents_pushed [OF inv, of 0 "[]"] room
    by (simp_all add: overlay_def)
  show "opos (q\<lparr>head := i\<rparr>) = opos q" "capacity (q\<lparr>head := i\<rparr>) = capacity q"
    "wrap_index (q\<lparr>head := i\<rparr>) = wrap_index q"
    by (simp_all add: pos_defs capacity_def wrap_index_def fun_eq_iff)
qed

text \<open>Publishing the read position drops the oldest message.\<close>

lemma publish_tail:
  assumes inv: "queue_inv q" and ne: "contents q \<noteq> []" and off: "message_offset q = 0"
  shows "queue_inv (q\<lparr>tail := wrap_index q (tail q)\<rparr>)"
    "contents q = hd (contents q) # contents (q\<lparr>tail := wrap_index q (tail q)\<rparr>)"
    "wrap_index q (tail q) \<noteq> tail q"
proof -
  have w: "wrap_index q (tail q) = int (ring_next (nslots q) (tpos q))"
    using wrap_index_ring [OF inv queue_invD(2) [OF inv]] queue_invD(4) [OF inv] by simp
  with off have "q\<lparr>tail := wrap_index q (tail q)\<rparr> = popped q"
    by (simp add: popped_def)
  moreover have "head q \<noteq> tail q" using ne contents_empty_iff [OF inv] by simp
  ultimately show "queue_inv (q\<lparr>tail := wrap_index q (tail q)\<rparr>)"
    "contents q = hd (contents q) # contents (q\<lparr>tail := wrap_index q (tail q)\<rparr>)"
    using popped_inv [OF inv] contents_Cons [OF inv] by simp_all
  from \<open>head q \<noteq> tail q\<close> have "hpos q \<noteq> tpos q" using queue_invD(3,4) [OF inv] by metis
  then have "ring_next (nslots q) (tpos q) \<noteq> tpos q"
    using queue_invD(1,2) [OF inv] by (auto simp: ring_next_def split: if_splits)
  then show "wrap_index q (tail q) \<noteq> tail q" using w queue_invD(4) [OF inv] by linarith
qed

lemma tail_update [simp]:
  "opos (q\<lparr>tail := i\<rparr>) = opos q" "capacity (q\<lparr>tail := i\<rparr>) = capacity q"
  "wrap_index (q\<lparr>tail := i\<rparr>) = wrap_index q" "slots_of (q\<lparr>tail := i\<rparr>) = slots_of q"
  "hpos (q\<lparr>tail := i\<rparr>) = hpos q" "q\<lparr>tail := tail q\<rparr> = q"
  by (simp_all add: pos_defs capacity_def wrap_index_def slots_of_def fun_eq_iff)

lemma take_hd_concat: "xs \<noteq> [] \<Longrightarrow> n \<le> length (hd xs) \<Longrightarrow> take n (concat xs) = take n (hd xs)"
  by (cases xs) auto

lemma hd_contents_length: "queue_inv q \<Longrightarrow> contents q \<noteq> [] \<Longrightarrow> length (hd (contents q)) = message_size q"
  by (intro message_length) simp_all

lemma inv_push_copy:
  assumes "spsc_inv s" "prod s = PCopy buf n wh nwh"
    "memcpy_to (message_array (shared s)) (i32 (wh * i32 (int (message_size (shared s))))) buf n = Ret arr"
  shows "spsc_inv (s\<lparr>shared := (shared s)\<lparr>message_array := arr\<rparr>, prod := PStore buf n wh nwh\<rparr>)"
proof -
  from assms(1,2) have p: "queue_inv (shared s)" "n \<le> message_size (shared s)" "n \<le> length buf"
    "wh = head (shared s)"
    by (simp_all add: spsc_inv_defs)
  have len: "length (slots_of (shared s) (hpos (shared s))) = message_size (shared s)"
    using slot_in_array [OF p(1) queue_invD(1) [OF p(1)]] by (simp add: slots_of_def)
  from copied_slot [OF p(1-3)] assms(3) p(4) carries_overlay [OF p(3,2) len]
  have "queue_inv ((shared s)\<lparr>message_array := arr\<rparr>)"
    "contents ((shared s)\<lparr>message_array := arr\<rparr>) = contents (shared s)"
    "carries (message_size (shared s)) (take n buf)
       (slots_of ((shared s)\<lparr>message_array := arr\<rparr>) (hpos (shared s)))" by simp_all
  with assms(1,2) show ?thesis
    by (auto simp: spsc_inv_defs split: consumer_pc.splits)
qed

lemma inv_push_store:
  assumes "spsc_inv s" "prod s = PStore buf n wh nwh"
  shows "spsc_inv (s\<lparr>shared := (shared s)\<lparr>head := nwh\<rparr>, prod := PIdle, sent := sent s @ [take n buf]\<rparr>)"
proof -
  let ?q = "shared s"
  from assms have inv: "queue_inv ?q" "length (contents ?q) < capacity ?q" "wh = head ?q"
    "nwh = wrap_index ?q (head ?q)" "carries (message_size ?q) (take n buf) (slots_of ?q (hpos ?q))"
    by (simp_all add: spsc_inv_defs)
  note pub = publish_head [OF inv(1,2)]
  have c: "cons_ok (s\<lparr>shared := ?q\<lparr>head := nwh\<rparr>, prod := PIdle, sent := sent s @ [take n buf]\<rparr>)"
    using assms(1) pub(2,3,5) inv(4) by (auto simp: spsc_inv_defs split: consumer_pc.splits)
  have "take (opos ?q) (concat (contents ?q @ [m])) = take (opos ?q) (concat (contents ?q))"
    if "\<And>nrt out. cons s \<noteq> CStore nrt out" for m
  proof (cases "contents ?q = []")
    case True
    then have "opos ?q = 0"
      using contents_empty_iff [OF inv(1)] inv(1) by (auto simp: queue_inv_def pos_defs)
    then show ?thesis by simp
  next
    case False
    then show ?thesis
      using hd_contents_length [OF inv(1) False] queue_invD(8) [OF inv(1)]
      by (cases "contents ?q") auto
  qed
  moreover obtain past where
    past: "list_all2 (carries (message_size ?q)) (sent s) (past @ contents ?q)" "delivered s (concat past)"
    using assms(1) by (auto simp: spsc_inv_def stream_ok_def)
  moreover have "list_all2 (carries (message_size ?q)) (sent s @ [take n buf])
      (past @ contents ?q @ [slots_of ?q (hpos ?q)])"
    using past(1) inv(5) by (metis append.assoc list_all2_appendI list_all2_Cons list_all2_Nil)
  moreover have "cons_ok s" using assms(1) by (simp add: spsc_inv_def)
  ultimately have "stream_ok (s\<lparr>shared := ?q\<lparr>head := nwh\<rparr>, prod := PIdle, sent := sent s @ [take n buf]\<rparr>)"
    using pub(2,3) inv(4)
    by (auto simp: stream_ok_def delivered_def cons_ok_def Let_def split: consumer_pc.splits)
  with c pub(1) inv(4) show ?thesis
    by (simp add: spsc_inv_def prod_ok_def)
qed

lemma inv_pop_start:
  assumes "spsc_inv s" "cons s = CIdle" "n < 9223372036854775808"
  shows "spsc_inv (s\<lparr>cons := CPoll (clamp_size (shared s) n) (tail (shared s))\<rparr>)"
  using assms clamp_size_eq [of "shared s" n] queue_invD(8) [of "shared s"]
  by (auto simp: spsc_inv_defs split: producer_pc.splits)

lemma inv_pop_go:
  assumes "spsc_inv s" "cons s = CPoll n rt" "rt \<noteq> head (shared s)"
  shows "spsc_inv (s\<lparr>cons := CCopy n rt\<rparr>)"
  using assms contents_empty_iff [of "shared s"]
  by (auto simp: spsc_inv_defs split: producer_pc.splits)

lemma inv_pop_copy:
  assumes "spsc_inv s" "cons s = CCopy n rt"
    "memcpy_from (message_array (shared s)) (read_offset (shared s) rt) n = Ret out"
  shows "spsc_inv (s\<lparr>cons := CCopied n rt out\<rparr>)"
proof -
  let ?q = "shared s"
  from assms(1,2) have c: "queue_inv ?q" "rt = tail ?q" "opos ?q + n \<le> message_size ?q" "contents ?q \<noteq> []"
    by (simp_all add: spsc_inv_defs)
  have "head ?q \<noteq> tail ?q" using c(4) contents_empty_iff [OF c(1)] by simp
  then have "out = take n (drop (opos ?q) (hd (contents ?q)))"
    using assms(3) read_slot [OF c(1,3)] contents_Cons [OF c(1)] c(2) by simp
  with assms(1,2) c show ?thesis
    by (auto simp: spsc_inv_defs split: producer_pc.splits)
qed

text \<open>The new value of \<open>message_offset\<close>, without conversions.\<close>

lemma new_offset:
  assumes "queue_inv q" "opos q + n \<le> message_size q"
  shows "i32 (int (sz_add (u64 (message_offset q)) n)) = int (opos q + n)" "u64 (int (opos q + n)) = opos q + n"
  using assms queue_invD(10) [OF assms(1)]
  by (simp_all add: c_arith flip: queue_invD(6) [OF assms(1)])

lemma inv_pop_whole:
  assumes "spsc_inv s" "cons s = CCopied n rt out"
    "u64 (i32 (int (sz_add (u64 (message_offset (shared s))) n))) = message_size (shared s)"
  shows "spsc_inv (s\<lparr>shared := (shared s)\<lparr>message_offset := 0\<rparr>, cons := CStore (wrap_index (shared s) rt) out\<rparr>)"
proof -
  let ?q = "shared s"
  from assms(1,2) have c: "queue_inv ?q" "rt = tail ?q" "opos ?q + n \<le> message_size ?q" "contents ?q \<noteq> []"
    "out = take n (drop (opos ?q) (hd (contents ?q)))"
    by (simp_all add: spsc_inv_defs)
  have whole: "opos ?q + n = message_size ?q" using assms(3) new_offset [OF c(1,3)] by simp
  have len: "length (hd (contents ?q)) = message_size ?q" by (rule hd_contents_length [OF c(1,4)])
  have inv0: "queue_inv (?q\<lparr>message_offset := 0\<rparr>)"
    using c(1) queue_invD(7) [OF c(1)] by (simp add: queue_inv_def pos_defs)
  have "wrap_index ?q (tail ?q) \<noteq> tail ?q"
    using publish_tail(3) [OF inv0] c(4) by simp
  moreover have "take (opos ?q) (concat (contents ?q)) @ out = hd (contents ?q)"
    using c(3-5) len whole by (simp add: take_hd_concat)
  ultimately show ?thesis
    using assms(1,2) c inv0 by (auto simp: spsc_inv_defs split: producer_pc.splits)
qed

lemma inv_pop_part:
  assumes "spsc_inv s" "cons s = CCopied n rt out"
    "off = i32 (int (sz_add (u64 (message_offset (shared s))) n))" "u64 off \<noteq> message_size (shared s)"
  shows "spsc_inv (s\<lparr>shared := (shared s)\<lparr>message_offset := off\<rparr>, cons := CStore rt out\<rparr>)"
proof -
  let ?q = "shared s"
  from assms(1,2) have c: "queue_inv ?q" "rt = tail ?q" "opos ?q + n \<le> message_size ?q" "contents ?q \<noteq> []"
    "out = take n (drop (opos ?q) (hd (contents ?q)))"
    by (simp_all add: spsc_inv_defs)
  have off: "off = int (opos ?q + n)" "opos ?q + n < message_size ?q"
    using assms(3,4) new_offset [OF c(1,3)] c(3) by (auto simp: le_less)
  have len: "length (hd (contents ?q)) = message_size ?q" by (rule hd_contents_length [OF c(1,4)])
  have "head ?q \<noteq> tail ?q" using c(4) contents_empty_iff [OF c(1)] by simp
  then have "queue_inv (?q\<lparr>message_offset := off\<rparr>)"
    unfolding off(1) using c(1) off(2) by (intro partial_read_inv)
  moreover have "take (opos ?q) (concat (contents ?q)) @ out = take (opos ?q + n) (hd (contents ?q))"
    using c(3-5) len by (simp add: take_hd_concat take_add)
  ultimately show ?thesis
    using assms(1,2) c off
    by (auto simp: spsc_inv_defs simp del: of_nat_add split: producer_pc.splits)
qed

lemma inv_pop_store:
  assumes "spsc_inv s" "cons s = CStore nrt out"
  shows "spsc_inv (s\<lparr>shared := (shared s)\<lparr>tail := nrt\<rparr>, cons := CIdle, got := got s @ out\<rparr>)"
proof -
  let ?q = "shared s"
  from assms have c: "queue_inv ?q" "contents ?q \<noteq> []"
    and nrt: "nrt = tail ?q \<or> nrt = wrap_index ?q (tail ?q) \<and> message_offset ?q = 0"
    by (simp_all add: spsc_inv_defs)
  from assms obtain past where past: "list_all2 (carries (message_size ?q)) (sent s) (past @ contents ?q)"
    "got s @ out = concat past @ (if nrt = tail ?q then take (opos ?q) (hd (contents ?q)) else hd (contents ?q))"
    by (auto simp: spsc_inv_defs)
  show ?thesis
  proof (cases "nrt = tail ?q")
    case True
    have "take (opos ?q) (hd (contents ?q)) = take (opos ?q) (concat (contents ?q))"
      using c hd_contents_length [OF c] queue_invD(8) [OF c(1)] by (simp add: take_hd_concat)
    with True past assms show ?thesis
      by (auto simp: spsc_inv_defs split: producer_pc.splits)
  next
    case False
    with nrt have w: "nrt = wrap_index ?q (tail ?q)" "message_offset ?q = 0" by auto
    let ?q' = "?q\<lparr>tail := wrap_index ?q (tail ?q)\<rparr>"
    note pub = publish_tail [OF c w(2)]
    have "list_all2 (carries (message_size ?q)) (sent s) ((past @ [hd (contents ?q)]) @ contents ?q')"
      using past(1) pub(2) by (metis append.assoc append_Cons append_Nil)
    moreover have "got s @ out = concat (past @ [hd (contents ?q)]) @ take (opos ?q) (concat (contents ?q'))"
      using past(2) False w(2) by (simp add: opos_def)
    ultimately have "stream_ok (s\<lparr>shared := ?q', cons := CIdle, got := got s @ out\<rparr>)"
      unfolding stream_ok_def delivered_def
      by (intro exI [of _ "past @ [hd (contents ?q)]"]) (simp del: append_assoc concat_append)
    moreover have "length (contents ?q') < length (contents ?q)"
      using pub(2) by (metis length_Cons lessI)
    then have "prod_ok (s\<lparr>shared := ?q', cons := CIdle, got := got s @ out\<rparr>)"
      using assms(1) by (auto simp: spsc_inv_def prod_ok_def Let_def split: producer_pc.splits)
    ultimately show ?thesis
      using pub(1) w(1) by (simp add: spsc_inv_def cons_ok_def)
  qed
qed

lemma spsc_step_inv: "spsc_step s t \<Longrightarrow> spsc_inv s \<Longrightarrow> spsc_inv t"
proof (induction rule: spsc_step.induct)
  case (push_start s n buf)
  then show ?case by (auto simp: spsc_inv_defs split: consumer_pc.splits)
next
  case (push_go s buf n wh nwh)
  then show ?case
    using full_iff_wrap [of "shared s"] contents_le_capacity [of "shared s"]
    by (auto simp: spsc_inv_defs split: consumer_pc.splits)
qed (simp_all add: inv_push_copy inv_push_store inv_pop_start inv_pop_go inv_pop_copy
    inv_pop_whole inv_pop_part inv_pop_store)

lemma spsc_reach_inv:
  assumes "spsc_reach q s" "poll_inv q" "abs_queue q = \<lparr>msgs = [], read_off = 0\<rparr>"
  shows "spsc_inv s"
  using assms(1)
  by induction (use assms(2,3) spsc_inv_start spsc_step_inv in \<open>auto\<close>)


lemma spsc_reach_frame:
  "spsc_reach q s \<Longrightarrow>
   message_size (shared s) = message_size q \<and> queue_size (shared s) = queue_size q \<and>
   stop_consumer_polling (shared s) = stop_consumer_polling q"
proof (induction rule: spsc_reach.induct)
  case reach_start
  show ?case by (simp add: spsc_start_def)
next
  case (reach_step s t)
  from reach_step(2,3) show ?case by cases simp_all
qed

lemma poll_locals:
  "spsc_inv s \<Longrightarrow> prod s = PPoll buf n wh nwh \<Longrightarrow> nwh = wrap_index (shared s) (head (shared s))"
  "spsc_inv s \<Longrightarrow> cons s = CPoll m rt \<Longrightarrow> rt = tail (shared s)"
  by (simp_all add: spsc_inv_def prod_ok_def cons_ok_def Let_def)

section \<open>Properties\<close>

text \<open>
  C1: under every interleaving of one producer and one consumer there is, for every completed
  \<open>push\<close> in order, a message of \<open>message_size\<close> bytes that begins with the bytes its caller
  passed, and what the consumer has been handed is a prefix of their concatenation, all of
  it when the ring is empty and no \<open>pop\<close> is in progress. When every call passed a full
  message the consumer has a prefix of exactly the buffers passed in, and then all of them.
\<close>

theorem spsc_fifo:
  assumes "poll_inv q" "abs_queue q = \<lparr>msgs = [], read_off = 0\<rparr>" "spsc_reach q s"
  shows "(\<exists>ms. list_all2 (carries (message_size q)) (sent s) ms \<and> prefix (got s) (concat ms) \<and>
      (cons s = CIdle \<and> contents (shared s) = [] \<longrightarrow> got s = concat ms)) \<and>
    ((\<forall>p\<in>set (sent s). length p = message_size q) \<longrightarrow>
      prefix (got s) (concat (sent s)) \<and>
      (cons s = CIdle \<and> contents (shared s) = [] \<longrightarrow> got s = concat (sent s)))"
proof -
  have "spsc_inv s" by (rule spsc_reach_inv [OF assms(3,1,2)])
  then obtain past where past: "queue_inv (shared s)" "cons_ok s"
    "list_all2 (carries (message_size q)) (sent s) (past @ contents (shared s))"
    "delivered s (concat past)"
    using spsc_reach_frame [OF assms(3)] by (auto simp: spsc_inv_def stream_ok_def)
  have "prefix (got s) (concat past @ concat (contents (shared s)))"
  proof (cases "\<exists>nrt out. cons s = CStore nrt out")
    case True
    with past(2) have "contents (shared s) \<noteq> []" by (auto simp: cons_ok_def)
    then have c: "concat (contents (shared s)) = hd (contents (shared s)) @ concat (tl (contents (shared s)))"
      by (cases "contents (shared s)") auto
    from True past(4) have "prefix (got s) (concat past @ hd (contents (shared s)))"
      by (auto simp: delivered_def Let_def split: if_splits)
        (metis prefixI prefix_order.trans same_prefix_prefix take_is_prefix)+
    then show ?thesis unfolding c by (metis append.assoc prefixI prefix_order.trans)
  next
    case False
    with past(4) show ?thesis
      by (auto simp: delivered_def Let_def take_is_prefix split: consumer_pc.splits)
  qed
  then have "\<exists>ms. list_all2 (carries (message_size q)) (sent s) ms \<and> prefix (got s) (concat ms) \<and>
      (cons s = CIdle \<and> contents (shared s) = [] \<longrightarrow> got s = concat ms)"
    using past(3,4) by (intro exI [of _ "past @ contents (shared s)"]) (auto simp: delivered_def)
  then show ?thesis using all_carries_full by blast
qed

text \<open>
  C8: while \<open>push\<close> copies into its slot and \<open>pop\<close> copies out of its own, the two byte
  ranges lie inside the message array and are disjoint.
\<close>

theorem copies_disjoint:
  assumes "poll_inv q" "abs_queue q = \<lparr>msgs = [], read_off = 0\<rparr>" "spsc_reach q s"
    and "prod s = PCopy buf n wh nwh" "cons s = CCopy m rt"
  shows "\<exists>a b. i32 (wh * i32 (int (message_size (shared s)))) = int a \<and>
    read_offset (shared s) rt = int b \<and>
    a + n \<le> length (message_array (shared s)) \<and> b + m \<le> length (message_array (shared s)) \<and>
    {a..<a + n} \<inter> {b..<b + m} = {}"
proof -
  let ?q = "shared s" and ?m = "message_size (shared s)"
  have "spsc_inv s" by (rule spsc_reach_inv [OF assms(3,1,2)])
  with assms(4,5) have c: "queue_inv ?q" "n \<le> ?m" "wh = head ?q" "rt = tail ?q" "opos ?q + m \<le> ?m"
    "contents ?q \<noteq> []"
    by (simp_all add: spsc_inv_defs)
  note h = queue_invD(1) [OF c(1)] and t = queue_invD(2) [OF c(1)]
  have "hpos ?q \<noteq> tpos ?q"
    using c(6) contents_empty_iff [OF c(1)] queue_invD(3,4) [OF c(1)] by metis
  then have "Suc (hpos ?q) * ?m \<le> tpos ?q * ?m \<or> Suc (tpos ?q) * ?m \<le> hpos ?q * ?m"
    by (meson Suc_leI linorder_neqE_nat mult_le_mono1)
  then have "{hpos ?q * ?m..<hpos ?q * ?m + n} \<inter> {tpos ?q * ?m + opos ?q..<tpos ?q * ?m + opos ?q + m} = {}"
    using c(2,5) by auto
  moreover have "i32 (wh * i32 (int ?m)) = int (hpos ?q * ?m)"
    using write_offset [OF c(1)] c(3) by simp
  moreover have "read_offset ?q rt = int (tpos ?q * ?m + opos ?q)"
    using read_offset_eq [OF c(1)] c(4) by simp
  moreover have "hpos ?q * ?m + n \<le> length (message_array ?q)"
    "tpos ?q * ?m + opos ?q + m \<le> length (message_array ?q)"
    using slot_in_array [OF c(1) h] slot_in_array [OF c(1) t] c(2,5) by simp_all
  ultimately show ?thesis by blast
qed

text \<open>
  C20: no interleaving of the two sides gets stuck: in a ring of at least two slots they are
  never both polling in vain, and a side that has stopped polling can always finish its
  copy.
\<close>

theorem spsc_no_deadlock:
  assumes "poll_inv q" "abs_queue q = \<lparr>msgs = [], read_off = 0\<rparr>" "0 < capacity q" "spsc_reach q s"
  shows "\<not> ((\<exists>buf n wh. prod s = PPoll buf n wh (tail (shared s))) \<and>
        (\<exists>n. cons s = CPoll n (head (shared s)))) \<and>
    (\<forall>buf n wh nwh. prod s = PCopy buf n wh nwh \<longrightarrow> (\<exists>t. spsc_step s t \<and> prod t = PStore buf n wh nwh)) \<and>
    (\<forall>n rt. cons s = CCopy n rt \<longrightarrow> (\<exists>t out. spsc_step s t \<and> cons t = CCopied n rt out))"
proof -
  let ?q = "shared s"
  have inv: "spsc_inv s" by (rule spsc_reach_inv [OF assms(4,1,2)])
  then have qi: "queue_inv ?q" by (simp add: spsc_inv_def)
  have "capacity ?q = capacity q"
    using spsc_reach_frame [OF assms(4)] by (simp add: capacity_def nslots_def)
  then have cap: "0 < capacity ?q" using assms(3) by simp
  have "\<not> (prod s = PPoll buf n wh (tail ?q) \<and> cons s = CPoll m (head ?q))" for buf n wh m
  proof
    assume poll: "prod s = PPoll buf n wh (tail ?q) \<and> cons s = CPoll m (head ?q)"
    with inv have "tail ?q = wrap_index ?q (head ?q)" "head ?q = tail ?q"
      by (blast intro: poll_locals)+
    then have "length (contents ?q) = capacity ?q" "contents ?q = []"
      using full_iff_wrap [OF qi] contents_empty_iff [OF qi] by metis+
    with cap show False by simp
  qed
  moreover have "\<exists>t. spsc_step s t \<and> prod t = PStore buf n wh nwh" if p: "prod s = PCopy buf n wh nwh" for buf n wh nwh
  proof -
    from inv p have "n \<le> message_size ?q" "n \<le> length buf" "wh = head ?q" by (simp_all add: spsc_inv_defs)
    then obtain arr where "memcpy_to (message_array ?q) (i32 (wh * i32 (int (message_size ?q)))) buf n = Ret arr"
      using memcpy_slot [OF slot_in_array [OF qi queue_invD(1) [OF qi]]] by (simp add: write_offset [OF qi] del: of_nat_mult)
    from spsc_step.push_copy [OF p this] show ?thesis by (intro exI conjI, assumption) simp
  qed
  moreover have "\<exists>t out. spsc_step s t \<and> cons t = CCopied n rt out" if c: "cons s = CCopy n rt" for n rt
  proof -
    from inv c have "rt = tail ?q" "opos ?q + n \<le> message_size ?q" by (simp_all add: spsc_inv_defs)
    then obtain out where "memcpy_from (message_array ?q) (read_offset ?q rt) n = Ret out"
      using read_slot [OF qi] by simp
    from spsc_step.pop_copy [OF c this] show ?thesis by (intro exI conjI, assumption) simp
  qed
  ultimately show ?thesis by blast
qed

section \<open>Sequential calls and concrete runs\<close>

lemma push_run:
  assumes "prod s = PIdle" "n \<le> length buf" "push (shared s) buf n = Ret (0, q')"
  shows "spsc_step\<^sup>*\<^sup>* s (s\<lparr>shared := q', sent := sent s @ [take n buf]\<rparr>)"
proof -
  let ?q = "shared s" let ?wh = "head ?q" and ?nwh = "wrap_index ?q (head ?q)"
  from assms(3) obtain arr where n: "n \<le> message_size ?q" and room: "?nwh \<noteq> tail ?q"
    and arr: "memcpy_to (message_array ?q) (i32 (?wh * i32 (int (message_size ?q)))) buf n = Ret arr"
    and q': "q' = ?q\<lparr>message_array := arr, head := ?nwh\<rparr>"
    by (auto simp: push_def Let_def bind_out_eq_Ret split: if_splits)
  let ?s1 = "s\<lparr>prod := PPoll buf n ?wh ?nwh\<rparr>"
  let ?s2 = "s\<lparr>prod := PCopy buf n ?wh ?nwh\<rparr>"
  let ?s3 = "s\<lparr>shared := ?q\<lparr>message_array := arr\<rparr>, prod := PStore buf n ?wh ?nwh\<rparr>"
  have "spsc_step s ?s1" by (rule push_start [OF assms(1) n assms(2)])
  moreover have "spsc_step ?s1 ?s2"
    using push_go [of ?s1 buf n ?wh ?nwh] room by simp
  moreover have "spsc_step ?s2 ?s3"
    using push_copy [of ?s2 buf n ?wh ?nwh arr] arr by simp
  moreover have "spsc_step ?s3 (s\<lparr>shared := q', sent := sent s @ [take n buf]\<rparr>)"
    using push_store [of ?s3 buf n ?wh ?nwh] assms(1) by (cases s) (simp add: q')
  ultimately show ?thesis by (rule steps4)
qed

lemma pop_run:
  assumes "cons s = CIdle" "n < 9223372036854775808" "pop (shared s) n = Ret (r, q')"
  shows "spsc_step\<^sup>*\<^sup>* s (s\<lparr>shared := q', got := got s @ pop_out r\<rparr>)"
proof (cases "stop_consumer_polling (shared s)")
  case True
  with assms(3) show ?thesis by (auto simp: pop_def Let_def)
next
  case False
  let ?q = "shared s" let ?n = "clamp_size ?q n" and ?rt = "tail ?q"
  let ?off = "i32 (int (sz_add (u64 (message_offset ?q)) ?n))"
  let ?whole = "u64 ?off = message_size ?q"
  let ?nrt = "if ?whole then wrap_index ?q ?rt else ?rt"
  from assms(3) False obtain out where ne: "?rt \<noteq> head ?q"
    and out: "memcpy_from (message_array ?q) (read_offset ?q ?rt) ?n = Ret out"
    and q': "q' = ?q\<lparr>message_offset := (if ?whole then 0 else ?off), tail := ?nrt\<rparr>" "pop_out r = out"
    by (auto simp: pop_def Let_def bind_out_eq_Ret split: if_splits)
  let ?s1 = "s\<lparr>cons := CPoll ?n ?rt\<rparr>" and ?s2 = "s\<lparr>cons := CCopy ?n ?rt\<rparr>"
  let ?s3 = "s\<lparr>cons := CCopied ?n ?rt out\<rparr>"
  let ?s4 = "s\<lparr>shared := ?q\<lparr>message_offset := (if ?whole then 0 else ?off)\<rparr>, cons := CStore ?nrt out\<rparr>"
  have "spsc_step s ?s1" by (rule pop_start [OF assms(1) False assms(2)])
  moreover have "spsc_step ?s1 ?s2" using pop_go [of ?s1 ?n ?rt] ne by simp
  moreover have "spsc_step ?s2 ?s3" using pop_copy [of ?s2 ?n ?rt out] out by simp
  moreover have "spsc_step ?s3 ?s4"
    using pop_whole [of ?s3 ?n ?rt out] pop_part [of ?s3 ?n ?rt out ?off] by (cases ?whole) simp_all
  moreover have "spsc_step ?s4 (s\<lparr>shared := q', got := got s @ pop_out r\<rparr>)"
    using pop_store [of ?s4 ?nrt out] assms(1) by (cases s, cases ?whole) (simp_all add: q')
  ultimately show ?thesis by (rule steps5)
qed

text \<open>
  The sequential functions are runs of the step relation: a \<open>push\<close> or \<open>pop\<close> that
  returns when it runs alone is a sequence of steps to the same header, publishing the
  bytes it was given or handing over the bytes it returned.
\<close>

theorem sequential_calls_are_runs:
  assumes "n < 9223372036854775808"
  shows "(\<forall>buf q'. prod s = PIdle \<longrightarrow> n \<le> length buf \<longrightarrow> push (shared s) buf n = Ret (0, q') \<longrightarrow>
      spsc_step\<^sup>*\<^sup>* s (s\<lparr>shared := q', sent := sent s @ [take n buf]\<rparr>)) \<and>
    (\<forall>r q'. cons s = CIdle \<longrightarrow> pop (shared s) n = Ret (r, q') \<longrightarrow>
      spsc_step\<^sup>*\<^sup>* s (s\<lparr>shared := q', got := got s @ pop_out r\<rparr>))"
  using push_run pop_run [OF _ assms] by blast

text \<open>A ring of three slots of two bytes, and a run that brings both sides to their copies.\<close>

definition demo_empty :: spsc_queue_header where
  "demo_empty = \<lparr>head = 0, tail = 0, message_size = 2, message_offset = 0, queue_size = 3,
     current_count = 0, total_count = 0, stop_producer_polling = False,
     stop_consumer_polling = False, message_array = [0, 0, 0, 0, 0, 0]\<rparr>"

definition demo_one :: spsc_queue_header where
  "demo_one = demo_empty\<lparr>head := 1, message_array := [7, 8, 0, 0, 0, 0]\<rparr>"

definition demo_race :: spsc where
  "demo_race = \<lparr>shared = demo_one, prod = PCopy [5, 6] 2 1 2, cons = CCopy 2 0,
     sent = [[7, 8]], got = []\<rparr>"

definition demo_drained :: spsc where
  "demo_drained = \<lparr>shared = demo_one\<lparr>tail := 1\<rparr>, prod = PIdle, cons = CIdle, sent = [[7, 8]], got = [7, 8]\<rparr>"

lemma demo_empty_ok:
  "poll_inv demo_empty" "abs_queue demo_empty = \<lparr>msgs = [], read_off = 0\<rparr>" "capacity demo_empty = 2"
  by (simp_all add: demo_empty_def poll_inv_def queue_inv_def pos_defs abs_queue_def contents_def
      ring_idxs_def capacity_def)

lemma reach_run: "spsc_step\<^sup>*\<^sup>* s t \<Longrightarrow> spsc_reach q s \<Longrightarrow> spsc_reach q t"
  by (induction rule: rtranclp_induct) (auto intro: reach_step)

lemma demo_push: "push demo_empty [7, 8] 2 = Ret (0, demo_one)"
  by (simp add: demo_empty_def demo_one_def push_def wrap_index_def i32_def memcpy_to_def)

lemma demo_fields [simp]:
  "head demo_one = 1" "tail demo_one = 0" "message_size demo_one = 2" "stop_consumer_polling demo_one = False"
  "wrap_index demo_one 1 = 2" "clamp_size demo_one 2 = 2"
  by (simp_all add: demo_one_def demo_empty_def wrap_index_def i32_def clamp_size_def sz_add_def u64_def)

lemma demo_race_reach: "spsc_reach demo_empty demo_race"
proof -
  let ?st = "\<lambda>p c. \<lparr>shared = demo_one, prod = p, cons = c, sent = [[7, 8]], got = []\<rparr>"
  have "spsc_reach demo_empty (?st PIdle CIdle)"
    using reach_run [OF push_run [of "spsc_start demo_empty" 2 "[7, 8]" demo_one] reach_start] demo_push
    by (simp add: spsc_start_def)
  moreover have "spsc_step (?st PIdle CIdle) (?st (PPoll [5, 6] 2 1 2) CIdle)"
    using push_start [of "?st PIdle CIdle" 2 "[5, 6]"] by simp
  moreover have "spsc_step (?st (PPoll [5, 6] 2 1 2) CIdle) (?st (PCopy [5, 6] 2 1 2) CIdle)"
    using push_go [of "?st (PPoll [5, 6] 2 1 2) CIdle"] by simp
  moreover have "spsc_step (?st (PCopy [5, 6] 2 1 2) CIdle) (?st (PCopy [5, 6] 2 1 2) (CPoll 2 0))"
    using pop_start [of "?st (PCopy [5, 6] 2 1 2) CIdle" 2] by simp
  moreover have "spsc_step (?st (PCopy [5, 6] 2 1 2) (CPoll 2 0)) demo_race"
    using pop_go [of "?st (PCopy [5, 6] 2 1 2) (CPoll 2 0)"] by (simp add: demo_race_def)
  ultimately show ?thesis by (meson reach_step)
qed

lemma demo_pop:
  "pop demo_one 2 = Ret (\<lparr>pop_read = 0, pop_out = [7, 8], pop_size = 2\<rparr>, demo_one\<lparr>tail := 1\<rparr>)"
  by (simp add: demo_empty_def demo_one_def pop_def wrap_index_def i32_def u64_def sz_add_def clamp_size_def
      memcpy_from_def read_offset_def sz_mul_def)

lemma demo_drained_reach: "spsc_reach demo_empty demo_drained"
proof -
  let ?s = "(spsc_start demo_empty)\<lparr>shared := demo_one, sent := [[7, 8]]\<rparr>"
  have "spsc_reach demo_empty ?s"
    using reach_run [OF push_run [of "spsc_start demo_empty" 2 "[7, 8]" demo_one] reach_start] demo_push
    by (simp add: spsc_start_def)
  from reach_run [OF pop_run [of ?s 2] this] demo_pop show ?thesis
    by (simp add: spsc_start_def demo_drained_def)
qed

theorem spsc_fifo_witness:
  "prefix (got demo_race) (concat (sent demo_race)) \<and> got demo_drained = concat (sent demo_drained)"
proof
  show "prefix (got demo_race) (concat (sent demo_race))"
    using spsc_fifo [OF demo_empty_ok(1,2) demo_race_reach]
    by (simp add: demo_race_def demo_empty_def)
  have "cons demo_drained = CIdle \<and> contents (shared demo_drained) = []"
    by (simp add: demo_drained_def demo_one_def demo_empty_def contents_def pos_defs ring_idxs_def)
  then show "got demo_drained = concat (sent demo_drained)"
    using spsc_fifo [OF demo_empty_ok(1,2) demo_drained_reach]
    by (simp add: demo_drained_def demo_empty_def)
qed

theorem copies_disjoint_witness:
  "\<exists>a b. i32 (1 * i32 (int (message_size (shared demo_race)))) = int a \<and>
    read_offset (shared demo_race) 0 = int b \<and>
    a + 2 \<le> length (message_array (shared demo_race)) \<and>
    b + 2 \<le> length (message_array (shared demo_race)) \<and> {a..<a + 2} \<inter> {b..<b + 2} = {}"
  by (rule copies_disjoint [OF demo_empty_ok(1,2) demo_race_reach]) (simp_all add: demo_race_def)

theorem spsc_no_deadlock_witness: "\<exists>t. spsc_step demo_race t \<and> prod t = PStore [5, 6] 2 1 2"
  using spsc_no_deadlock [OF demo_empty_ok(1,2) _ demo_race_reach] demo_empty_ok(3)
  by (auto simp: demo_race_def)

theorem sequential_calls_are_runs_witness:
  "spsc_step\<^sup>*\<^sup>* (spsc_start demo_empty)
    ((spsc_start demo_empty)\<lparr>shared := demo_one, sent := [[7, 8]]\<rparr>)"
proof -
  have "spsc_step\<^sup>*\<^sup>* (spsc_start demo_empty) ((spsc_start demo_empty)\<lparr>shared := demo_one,
      sent := sent (spsc_start demo_empty) @ [take 2 [7, 8]]\<rparr>)"
    by (rule sequential_calls_are_runs [of 2 "spsc_start demo_empty", THEN conjunct1, rule_format, where buf = "[7, 8]"])
      (simp_all add: spsc_start_def demo_push)
  then show ?thesis by (simp add: spsc_start_def)
qed

end
