(* ===== verification/Mem.thy ===== *)
theory Mem
  imports Prelude
begin

text \<open>
  The memory layer, \<open>src/libnotnets/include/mem.h\<close> and \<open>src/libnotnets/src/mem.cpp\<close>.
  The System V calls are not code of the repository: they are the fields of a record
  \<open>sysv\<close> over an unknown kernel state, passed to every definition that makes such a
  call. \<open>sysv_shm\<close> names the documented behaviour of the shared memory calls that the
  other components rely on. The reference kernel of theory Ref_Kernel satisfies it.
\<close>

section \<open>Pointers and the system call interface\<close>

text \<open>
  What \<open>shmat\<close> can return: the null pointer never, \<open>(void *) -1\<close> on failure, otherwise a
  mapping of the segment it was given. A pointer into a mapping is represented by the
  segment it designates, so two processes that attach the same segment share its bytes.
\<close>

datatype ptr = Null | Failed | Shm int

datatype errno = EEXIST | ETIME | EOTHER

record ('k, 'r) sysv =
  shmget :: "int \<Rightarrow> int \<Rightarrow> int \<Rightarrow> 'k \<Rightarrow> int \<times> 'k"
  shmat :: "int \<Rightarrow> 'k \<Rightarrow> ptr \<times> 'k"
  shmdt :: "ptr \<Rightarrow> 'k \<Rightarrow> int \<times> 'k"
  shmctl_rmid :: "int \<Rightarrow> 'k \<Rightarrow> int \<times> 'k"
  semget :: "int \<Rightarrow> int \<Rightarrow> int \<Rightarrow> 'k \<Rightarrow> (int \<times> errno) \<times> 'k"
  semop :: "int \<Rightarrow> int \<Rightarrow> int \<Rightarrow> 'k \<Rightarrow> (int \<times> 'k) outcome"
  semctl_rmid :: "int \<Rightarrow> 'k \<Rightarrow> int \<times> 'k"
  sem_otime :: "int \<Rightarrow> int \<Rightarrow> 'k \<Rightarrow> int"
  load_seg :: "int \<Rightarrow> 'k \<Rightarrow> 'r option"
  store_seg :: "int \<Rightarrow> 'r \<Rightarrow> 'k \<Rightarrow> 'k"
  key_names :: "int \<Rightarrow> 'k \<Rightarrow> int option"
  sleeping :: "nat \<Rightarrow> 'k \<Rightarrow> 'k"

text \<open>
  \<open>load_seg\<close> and \<open>store_seg\<close> are the C++ reads and writes through a mapping, and
  \<open>key_names\<close> observes the IPC namespace: the segment a key currently names. \<open>sleeping\<close> is
  what the other processes do while the caller is in \<open>sleep\<close> or \<open>usleep\<close>. A \<open>semop\<close> that
  blocks with nobody left to wake it is \<open>Hang\<close>.
  The flags: \<open>IPC_CREAT\<close> is \<open>01000\<close>, \<open>IPC_EXCL\<close> \<open>02000\<close>, \<open>SHM_RDONLY\<close> \<open>010000\<close> (octal).
\<close>

definition IPC_CREAT :: int where "IPC_CREAT = 512"

definition IPC_EXCL :: int where "IPC_EXCL = 1024"

definition create_flag :: int where "create_flag = IPC_CREAT + 420"

definition attach_flag :: int where "attach_flag = 420"

definition only_read_flag :: int where "only_read_flag = 4096"

definition has_flag :: "int \<Rightarrow> int \<Rightarrow> bool" where
  "has_flag flg f \<longleftrightarrow> (flg div f) mod 2 = 1"

lemma create_flag_creates [simp]: "has_flag create_flag IPC_CREAT"
  by (simp add: has_flag_def create_flag_def IPC_CREAT_def)

lemma create_flag_shares [simp]: "\<not> has_flag create_flag IPC_EXCL"
  by (simp add: has_flag_def create_flag_def IPC_CREAT_def IPC_EXCL_def)

lemma attach_flag_opens [simp]: "\<not> has_flag attach_flag IPC_CREAT" "\<not> has_flag attach_flag IPC_EXCL"
  by (simp_all add: has_flag_def attach_flag_def IPC_CREAT_def IPC_EXCL_def)

section \<open>The wrappers of mem.cpp\<close>

text \<open>
  Each wrapper makes its call, writes a diagnostic to \<open>stderr\<close> when the call failed (not
  modelled) and hands the result of the call on in both cases.
\<close>

definition shm_create :: "('k, 'r) sysv \<Rightarrow> int \<Rightarrow> int \<Rightarrow> int \<Rightarrow> 'k \<Rightarrow> int \<times> 'k" where
  "shm_create K key sz shmflg k =
     (let (shmid, k') = shmget K key sz shmflg k in (shmid, k'))"

definition shm_attach :: "('k, 'r) sysv \<Rightarrow> int \<Rightarrow> 'k \<Rightarrow> ptr \<times> 'k" where
  "shm_attach K shmid k = (let (shmaddr, k') = shmat K shmid k in (shmaddr, k'))"

definition shm_detach :: "('k, 'r) sysv \<Rightarrow> ptr \<Rightarrow> 'k \<Rightarrow> int \<times> 'k" where
  "shm_detach K shmaddr k = (let (err, k') = shmdt K shmaddr k in (err, k'))"

definition shm_remove :: "('k, 'r) sysv \<Rightarrow> int \<Rightarrow> 'k \<Rightarrow> int \<times> 'k" where
  "shm_remove K shmid k = (let (err, k') = shmctl_rmid K shmid k in (err, k'))"

lemma shm_wrappers [simp]:
  "shm_create K = shmget K" "shm_attach K = shmat K"
  "shm_detach K = shmdt K" "shm_remove K = shmctl_rmid K"
  by (simp_all add: fun_eq_iff shm_create_def shm_attach_def shm_detach_def shm_remove_def)

text \<open>Reading and writing through a pointer of the program.\<close>

definition deref :: "('k, 'r) sysv \<Rightarrow> ptr \<Rightarrow> 'k \<Rightarrow> 'r outcome" where
  "deref K p k =
     (case p of
        Null \<Rightarrow> Fault NullDeref
      | Failed \<Rightarrow> Fault BadPointer
      | Shm i \<Rightarrow> (case load_seg K i k of None \<Rightarrow> Fault BadPointer | Some r \<Rightarrow> Ret r))"

definition write_through :: "('k, 'r) sysv \<Rightarrow> ptr \<Rightarrow> 'r \<Rightarrow> 'k \<Rightarrow> 'k outcome" where
  "write_through K p r k =
     (case p of
        Null \<Rightarrow> Fault NullDeref
      | Failed \<Rightarrow> Fault BadPointer
      | Shm i \<Rightarrow> (case load_seg K i k of None \<Rightarrow> Fault BadPointer | Some _ \<Rightarrow> Ret (store_seg K i r k)))"

lemma deref_simps [simp]:
  "deref K Null k = Fault NullDeref"
  "deref K Failed k = Fault BadPointer"
  "load_seg K i k = Some r \<Longrightarrow> deref K (Shm i) k = Ret r"
  "load_seg K i k = None \<Longrightarrow> deref K (Shm i) k = Fault BadPointer"
  by (simp_all add: deref_def)

lemma write_through_simps [simp]:
  "write_through K Null r k = Fault NullDeref"
  "write_through K Failed r k = Fault BadPointer"
  "load_seg K i k = Some r' \<Longrightarrow> write_through K (Shm i) r k = Ret (store_seg K i r k)"
  "load_seg K i k = None \<Longrightarrow> write_through K (Shm i) r k = Fault BadPointer"
  by (simp_all add: write_through_def)

section \<open>What the shared memory calls promise\<close>

text \<open>
  The laws are those of \<open>shmget(2)\<close>, \<open>shmat(2)\<close>, \<open>shmdt(2)\<close> and \<open>shmctl(2)\<close>: a key names
  at most one segment and a segment has at most one key; \<open>shmget\<close> returns the segment the
  key names, without \<open>IPC_CREAT\<close> fails when there is none, and with it makes a fresh one
  whose bytes are zero (\<open>zeroed\<close>); attaching fails or yields a mapping of that segment;
  detaching keeps every segment that a key still names; \<open>IPC_RMID\<close> takes the segment's key
  away; failing calls change nothing. \<open>IPC_PRIVATE\<close> is key 0.
\<close>

locale sysv_shm =
  fixes K :: "('k, 'r) sysv" and zeroed :: "int \<Rightarrow> 'r"
  assumes shmget_ret: "shmget K key sz flg k = (i, k') \<Longrightarrow> i = -1 \<or> 0 \<le> i"
    and shmget_fail: "shmget K key sz flg k = (-1, k') \<Longrightarrow> k' = k"
    and shmget_names:
      "shmget K key sz flg k = (i, k') \<Longrightarrow> i \<noteq> -1 \<Longrightarrow> key \<noteq> 0 \<Longrightarrow> key_names K key k' = Some i"
    and shmget_existing:
      "shmget K key sz flg k = (i, k') \<Longrightarrow> i \<noteq> -1 \<Longrightarrow> key \<noteq> 0 \<Longrightarrow>
       key_names K key k = Some j \<Longrightarrow> i = j \<and> k' = k"
    and shmget_new:
      "shmget K key sz flg k = (i, k') \<Longrightarrow> i \<noteq> -1 \<Longrightarrow> key = 0 \<or> key_names K key k = None \<Longrightarrow>
       load_seg K i k = None \<and> load_seg K i k' = Some (zeroed sz) \<and>
       (\<forall>j. j \<noteq> i \<longrightarrow> load_seg K j k' = load_seg K j k) \<and>
       (\<forall>a. a \<noteq> key \<longrightarrow> key_names K a k' = key_names K a k)"
    and shmget_absent:
      "key \<noteq> 0 \<Longrightarrow> key_names K key k = None \<Longrightarrow> \<not> has_flag flg IPC_CREAT \<Longrightarrow>
       shmget K key sz flg k = (-1, k)"
    and load_ids: "load_seg K i k \<noteq> None \<Longrightarrow> 0 \<le> i"
    and key_names_load: "key_names K a k = Some i \<Longrightarrow> load_seg K i k \<noteq> None"
    and key_names_inj: "key_names K a k = Some i \<Longrightarrow> key_names K b k = Some i \<Longrightarrow> a = b"
    and shmat_ret:
      "shmat K i k = (p, k') \<Longrightarrow> p = Failed \<or> (p = Shm i \<and> load_seg K i k \<noteq> None)"
    and shmat_frame:
      "shmat K i k = (p, k') \<Longrightarrow> load_seg K j k' = load_seg K j k \<and> key_names K a k' = key_names K a k"
    and shmdt_frame:
      "shmdt K p k = (e, k') \<Longrightarrow>
       key_names K a k' = key_names K a k \<and>
       (key_names K a k = Some j \<longrightarrow> load_seg K j k' = load_seg K j k)"
    and rmid_frame:
      "shmctl_rmid K i k = (e, k') \<Longrightarrow>
       (key_names K a k \<noteq> Some i \<longrightarrow> key_names K a k' = key_names K a k) \<and>
       (j \<noteq> i \<longrightarrow> load_seg K j k' = load_seg K j k)"
    and rmid_unnames:
      "shmctl_rmid K i k = (0, k') \<Longrightarrow> key_names K a k' \<noteq> Some i"
    and load_store:
      "load_seg K i k \<noteq> None \<Longrightarrow>
       load_seg K j (store_seg K i r k) = (if j = i then Some r else load_seg K j k)"
    and store_names: "key_names K a (store_seg K i r k) = key_names K a k"
begin

lemma shmget_live:
  assumes "shmget K key sz flg k = (i, k')" "i \<noteq> -1" "key \<noteq> 0"
  shows "load_seg K i k' \<noteq> None"
  using shmget_names [OF assms] by (rule key_names_load)

lemma shmget_cases:
  assumes "shmget K key sz flg k = (i, k')"
  obtains (same) "k' = k"
  | (new) "i \<noteq> -1" "key = 0 \<or> key_names K key k = None"
proof (cases "i = -1")
  case True
  with assms have "k' = k" using shmget_fail by simp
  then show thesis by (rule same)
next
  case False
  show thesis
  proof (cases "key = 0 \<or> key_names K key k = None")
    case True
    with False show thesis by (rule new)
  next
    case other: False
    then obtain j where "key_names K key k = Some j" by auto
    with assms False other have "k' = k" using shmget_existing by blast
    then show thesis by (rule same)
  qed
qed

lemma shmget_keeps:
  assumes "shmget K key sz flg k = (i, k')" "load_seg K j k = Some r"
  shows "load_seg K j k' = Some r"
  using assms(1)
proof (cases rule: shmget_cases)
  case same
  with assms(2) show ?thesis by simp
next
  case new
  from shmget_new [OF assms(1) new] assms(2) show ?thesis by (cases "j = i") auto
qed

lemma shmget_keeps_names:
  assumes "shmget K key sz flg k = (i, k')" "key_names K a k = Some j" "a \<noteq> 0"
  shows "key_names K a k' = Some j"
  using assms(1)
proof (cases rule: shmget_cases)
  case same
  with assms(2) show ?thesis by simp
next
  case new
  from shmget_new [OF assms(1) new] new(2) assms(2,3) show ?thesis by (cases "a = key") auto
qed

text \<open>Two keys that are both named after their calls name two segments.\<close>

lemma shmget_distinct:
  assumes "shmget K a sz flg k = (i, k1)" "i \<noteq> -1" "a \<noteq> 0"
    and "shmget K b sz' flg' k1 = (j, k2)" "j \<noteq> -1" "b \<noteq> 0" "a \<noteq> b"
  shows "i \<noteq> j"
proof
  assume "i = j"
  moreover have "key_names K a k2 = Some i"
    using shmget_names [OF assms(1-3)] shmget_keeps_names [OF assms(4)] assms(3) by blast
  moreover have "key_names K b k2 = Some j"
    using shmget_names [OF assms(4-6)] .
  ultimately show False using key_names_inj \<open>a \<noteq> b\<close> by blast
qed

lemma shmat_live:
  "shmat K i k = (Shm j, k') \<Longrightarrow> j = i \<and> load_seg K i k' = load_seg K i k \<and> load_seg K i k \<noteq> None"
  using shmat_ret shmat_frame by blast

end

text \<open>
  The same kernel while the limits on the number and size of segments are not reached:
  \<open>shmget\<close> with \<open>IPC_CREAT\<close> and without \<open>IPC_EXCL\<close> succeeds unless an existing segment is too
  small (\<open>EINVAL\<close>), and \<open>shmat\<close> on an existing segment succeeds.
\<close>

locale sysv_ample = sysv_shm K zeroed for K :: "('k, 'r) sysv" and zeroed :: "int \<Rightarrow> 'r" +
  fixes seg_size :: "'r \<Rightarrow> int"
  assumes shmget_succeeds:
      "0 < sz \<Longrightarrow> has_flag flg IPC_CREAT \<Longrightarrow> \<not> has_flag flg IPC_EXCL \<Longrightarrow>
       (\<forall>j r. key_names K key k = Some j \<longrightarrow> load_seg K j k = Some r \<longrightarrow> sz \<le> seg_size r) \<Longrightarrow>
       \<exists>i k'. shmget K key sz flg k = (i, k') \<and> i \<noteq> -1"
    and shmget_opens:
      "key \<noteq> 0 \<Longrightarrow> key_names K key k = Some j \<Longrightarrow> load_seg K j k = Some r \<Longrightarrow> sz \<le> seg_size r \<Longrightarrow>
       \<not> has_flag flg IPC_EXCL \<Longrightarrow> shmget K key sz flg k = (j, k)"
    and shmat_succeeds: "load_seg K i k \<noteq> None \<Longrightarrow> \<exists>k'. shmat K i k = (Shm i, k')"
begin

text \<open>Creating and attaching in one go: the segment the key names, new if it named none.\<close>

lemma create_names:
  assumes "0 < sz" "key \<noteq> 0" "has_flag flg IPC_CREAT" "\<not> has_flag flg IPC_EXCL"
    and "\<forall>j r. key_names K key k = Some j \<longrightarrow> load_seg K j k = Some r \<longrightarrow> sz \<le> seg_size r"
  obtains i k' where "shmget K key sz flg k = (i, k')" "key_names K key k' = Some i"
    "key_names K key k = None \<Longrightarrow> load_seg K i k = None \<and> load_seg K i k' = Some (zeroed sz)"
    "\<And>j. key_names K key k = Some j \<Longrightarrow> i = j \<and> k' = k"
    "\<And>j. j \<noteq> i \<Longrightarrow> load_seg K j k' = load_seg K j k" "\<And>a. a \<noteq> key \<Longrightarrow> key_names K a k' = key_names K a k"
proof -
  from shmget_succeeds [OF assms(1,3,4,5)] obtain i k' where g: "shmget K key sz flg k = (i, k')" "i \<noteq> -1" by blast
  show thesis
  proof (rule that [OF g(1) shmget_names [OF g assms(2)]])
    show "key_names K key k = None \<Longrightarrow> load_seg K i k = None \<and> load_seg K i k' = Some (zeroed sz)"
      using shmget_new [OF g] by blast
    show "\<And>j. key_names K key k = Some j \<Longrightarrow> i = j \<and> k' = k"
      using shmget_existing [OF g assms(2)] by blast
    show "\<And>j. j \<noteq> i \<Longrightarrow> load_seg K j k' = load_seg K j k" "\<And>a. a \<noteq> key \<Longrightarrow> key_names K a k' = key_names K a k"
      using shmget_new [OF g] shmget_existing [OF g assms(2)] by (cases "key_names K key k"; auto)+
  qed
qed

end

section \<open>What the semaphore calls promise\<close>

text \<open>
  \<open>semget(2)\<close> and \<open>semop(2)\<close> on sets of one semaphore. \<open>sem_val\<close> observes the value of a
  set's semaphore and \<open>sem_names\<close> the set a key names. A new set has value 0 and no last
  \<open>semop\<close> time; \<open>IPC_EXCL\<close> refuses an existing key with \<open>EEXIST\<close>; decrementing 0 blocks;
  incrementing \<open>SEMVMX = 32767\<close> fails with \<open>ERANGE\<close> and changes nothing; no semaphore call
  touches the shared memory.
\<close>

definition sem_flags :: int where "sem_flags = IPC_CREAT + IPC_EXCL + 438"

lemma sem_flags_create [simp]: "has_flag sem_flags IPC_CREAT" "has_flag sem_flags IPC_EXCL"
  by (simp_all add: sem_flags_def has_flag_def IPC_CREAT_def IPC_EXCL_def)

locale sysv_sem =
  fixes K :: "('k, 'r) sysv"
    and sem_val :: "int \<Rightarrow> 'k \<Rightarrow> nat option" and sem_names :: "int \<Rightarrow> 'k \<Rightarrow> int option"
  assumes semget_new:
      "key = 0 \<or> sem_names key k = None \<Longrightarrow> has_flag flg IPC_CREAT \<Longrightarrow> semget K key 1 flg k = ((i, e), k') \<Longrightarrow>
       0 \<le> i \<Longrightarrow>
       sem_val i k = None \<and> sem_val i k' = Some 0 \<and> (\<forall>j. j \<noteq> i \<longrightarrow> sem_val j k' = sem_val j k) \<and>
       (\<forall>a. a \<noteq> key \<longrightarrow> sem_names a k' = sem_names a k) \<and> (key \<noteq> 0 \<longrightarrow> sem_names key k' = Some i)"
    and semget_refused:
      "key = 0 \<or> sem_names key k = None \<Longrightarrow> semget K key 1 flg k = ((i, e), k') \<Longrightarrow>
       i < 0 \<Longrightarrow> i = -1 \<and> e \<noteq> EEXIST \<and> k' = k"
    and semget_excl:
      "key \<noteq> 0 \<Longrightarrow> sem_names key k = Some j \<Longrightarrow> has_flag flg IPC_EXCL \<Longrightarrow>
       semget K key 1 flg k = ((-1, EEXIST), k)"
    and semget_open:
      "key \<noteq> 0 \<Longrightarrow> sem_names key k = Some j \<Longrightarrow> \<not> has_flag flg IPC_EXCL \<Longrightarrow>
       \<exists>e. semget K key 1 flg k = ((j, e), k)"
    and sem_names_val: "sem_names key k = Some j \<Longrightarrow> 0 \<le> j \<and> sem_val j k \<noteq> None"
    and semop_down:
      "sem_val i k = Some (Suc v) \<Longrightarrow>
       \<exists>k'. semop K i 0 (-1) k = Ret (0, k') \<and> sem_val i k' = Some v \<and> sem_otime K i 0 k' \<noteq> 0"
    and semop_blocks: "sem_val i k = Some 0 \<Longrightarrow> semop K i 0 (-1) k = Hang"
    and semop_up:
      "sem_val i k = Some v \<Longrightarrow> v < 32767 \<Longrightarrow>
       \<exists>k'. semop K i 0 1 k = Ret (0, k') \<and> sem_val i k' = Some (Suc v) \<and> sem_otime K i 0 k' \<noteq> 0"
    and semop_range: "sem_val i k = Some v \<Longrightarrow> 32767 \<le> v \<Longrightarrow> semop K i 0 1 k = Ret (-1, k)"
    and semop_frame:
      "semop K i 0 d k = Ret (r, k') \<Longrightarrow>
       (j \<noteq> i \<longrightarrow> sem_val j k' = sem_val j k \<and> sem_otime K j 0 k' = sem_otime K j 0 k) \<and>
       sem_names a k' = sem_names a k \<and> load_seg K l k' = load_seg K l k \<and> key_names K b k' = key_names K b k"
    and semget_frame:
      "semget K key n flg k = (res, k') \<Longrightarrow>
       load_seg K l k' = load_seg K l k \<and> key_names K b k' = key_names K b k"
begin

text \<open>Either way \<open>sem_post\<close> returns, and the other semaphores keep their values.\<close>

lemma semop_up_total:
  assumes "sem_val i k = Some v"
  shows "\<exists>r k' v'. semop K i 0 1 k = Ret (r, k') \<and> sem_val i k' = Some (Suc v') \<and>
    (\<forall>j. j \<noteq> i \<longrightarrow> sem_val j k' = sem_val j k)"
proof (cases "v < 32767")
  case True
  from semop_up [OF assms True] semop_frame [of i 1 k] show ?thesis by fastforce
next
  case False
  then obtain w where "v = Suc w" by (cases v) auto
  with semop_range [OF assms] False assms show ?thesis by auto
qed

lemma semop_down_total:
  assumes "sem_val i k = Some (Suc v)"
  shows "\<exists>k'. semop K i 0 (-1) k = Ret (0, k') \<and> sem_val i k' = Some v \<and>
    (\<forall>j. j \<noteq> i \<longrightarrow> sem_val j k' = sem_val j k)"
  using semop_down [OF assms] semop_frame [of i "-1" k] by blast

end

end
