(* ===== verification/Ref_Kernel.thy ===== *)
theory Ref_Kernel
  imports Mem
begin

text \<open>
  A reference System V kernel, executable: tables of shared memory segments and of sets of
  one semaphore. It satisfies the laws of \<open>sysv_shm\<close> and \<open>sysv_sem\<close>, so that statements
  made for every kernel with these laws hold of a concrete one and can be evaluated.
  It is not code of the repository.
\<close>

section \<open>State\<close>

record 'r segment =
  seg_key :: int
  seg_removed :: bool
  seg_attached :: nat
  seg_data :: 'r

record semset =
  set_key :: int
  set_value :: nat
  set_otime :: int

record 'r ref_kernel =
  segs :: "int \<Rightarrow> 'r segment option"
  seg_ids :: "int list"
  sems :: "int \<Rightarrow> semset option"
  sem_ids :: "int list"

definition ref_boot :: "'r ref_kernel" where
  "ref_boot = \<lparr>segs = (\<lambda>_. None), seg_ids = [], sems = (\<lambda>_. None), sem_ids = []\<rparr>"

definition fresh_id :: "int list \<Rightarrow> int" where
  "fresh_id ids = foldr (\<lambda>i m. max (i + 1) m) ids 0"

text \<open>The identifier lists only grow; an entry outside them is not in use.\<close>

definition lookup_seg :: "int \<Rightarrow> 'r ref_kernel \<Rightarrow> 'r segment option" where
  "lookup_seg i k = (if i \<in> set (seg_ids k) \<and> 0 \<le> i then segs k i else None)"

definition lookup_sem :: "int \<Rightarrow> 'r ref_kernel \<Rightarrow> semset option" where
  "lookup_sem i k = (if i \<in> set (sem_ids k) \<and> 0 \<le> i then sems k i else None)"

definition ref_names :: "int \<Rightarrow> 'r ref_kernel \<Rightarrow> int option" where
  "ref_names key k =
     (if key = 0 then None
      else List.find (\<lambda>i. case lookup_seg i k of
             None \<Rightarrow> False | Some s \<Rightarrow> seg_key s = key \<and> \<not> seg_removed s) (seg_ids k))"

definition ref_sem_names :: "int \<Rightarrow> 'r ref_kernel \<Rightarrow> int option" where
  "ref_sem_names key k =
     (if key = 0 then None
      else List.find (\<lambda>i. case lookup_sem i k of None \<Rightarrow> False | Some s \<Rightarrow> set_key s = key) (sem_ids k))"

definition ref_sem_val :: "int \<Rightarrow> 'r ref_kernel \<Rightarrow> nat option" where
  "ref_sem_val i k = map_option set_value (lookup_sem i k)"

section \<open>Calls\<close>

definition ref_shmget :: "(int \<Rightarrow> 'r) \<Rightarrow> int \<Rightarrow> int \<Rightarrow> int \<Rightarrow> 'r ref_kernel \<Rightarrow> int \<times> 'r ref_kernel" where
  "ref_shmget z key sz flg k =
     (case ref_names key k of
        Some i \<Rightarrow> if has_flag flg IPC_CREAT \<and> has_flag flg IPC_EXCL then (-1, k) else (i, k)
      | None \<Rightarrow>
          if key = 0 \<or> has_flag flg IPC_CREAT then
            let i = fresh_id (seg_ids k) in
            (i, k\<lparr>segs := (segs k)(i \<mapsto> \<lparr>seg_key = key, seg_removed = False, seg_attached = 0, seg_data = z sz\<rparr>),
                  seg_ids := seg_ids k @ [i]\<rparr>)
          else (-1, k))"

definition ref_shmat :: "int \<Rightarrow> 'r ref_kernel \<Rightarrow> ptr \<times> 'r ref_kernel" where
  "ref_shmat i k =
     (case lookup_seg i k of
        None \<Rightarrow> (Failed, k)
      | Some s \<Rightarrow> (Shm i, k\<lparr>segs := (segs k)(i \<mapsto> s\<lparr>seg_attached := seg_attached s + 1\<rparr>)\<rparr>))"

definition ref_shmdt :: "ptr \<Rightarrow> 'r ref_kernel \<Rightarrow> int \<times> 'r ref_kernel" where
  "ref_shmdt p k =
     (case p of
        Shm i \<Rightarrow>
          (case lookup_seg i k of
             None \<Rightarrow> (-1, k)
           | Some s \<Rightarrow>
               (0, k\<lparr>segs := (segs k)(i :=
                 if seg_removed s \<and> seg_attached s \<le> 1 then None
                 else Some (s\<lparr>seg_attached := seg_attached s - 1\<rparr>))\<rparr>))
      | _ \<Rightarrow> (-1, k))"

definition ref_rmid :: "int \<Rightarrow> 'r ref_kernel \<Rightarrow> int \<times> 'r ref_kernel" where
  "ref_rmid i k =
     (case lookup_seg i k of
        None \<Rightarrow> (-1, k)
      | Some s \<Rightarrow>
          (0, k\<lparr>segs := (segs k)(i :=
            if seg_attached s = 0 then None else Some (s\<lparr>seg_removed := True\<rparr>))\<rparr>))"

definition ref_semget :: "int \<Rightarrow> int \<Rightarrow> int \<Rightarrow> 'r ref_kernel \<Rightarrow> (int \<times> errno) \<times> 'r ref_kernel" where
  "ref_semget key n flg k =
     (case ref_sem_names key k of
        Some i \<Rightarrow> if has_flag flg IPC_EXCL then ((-1, EEXIST), k) else ((i, EOTHER), k)
      | None \<Rightarrow>
          if key = 0 \<or> has_flag flg IPC_CREAT then
            let i = fresh_id (sem_ids k) in
            ((i, EOTHER), k\<lparr>sems := (sems k)(i \<mapsto> \<lparr>set_key = key, set_value = 0, set_otime = 0\<rparr>),
                  sem_ids := sem_ids k @ [i]\<rparr>)
          else ((-1, EOTHER), k))"

definition ref_semop :: "int \<Rightarrow> int \<Rightarrow> int \<Rightarrow> 'r ref_kernel \<Rightarrow> (int \<times> 'r ref_kernel) outcome" where
  "ref_semop i num d k =
     (case lookup_sem i k of
        None \<Rightarrow> Ret (-1, k)
      | Some s \<Rightarrow>
          if num \<noteq> 0 then Ret (-1, k)
          else if int (set_value s) + d < 0 then Hang
          else if 0 < d \<and> 32767 < int (set_value s) + d then Ret (-1, k)
          else Ret (0, k\<lparr>sems := (sems k)(i \<mapsto> s\<lparr>set_value := nat (int (set_value s) + d), set_otime := 1\<rparr>)\<rparr>))"

definition ref_sem_rmid :: "int \<Rightarrow> 'r ref_kernel \<Rightarrow> int \<times> 'r ref_kernel" where
  "ref_sem_rmid i k =
     (case lookup_sem i k of None \<Rightarrow> (-1, k) | Some s \<Rightarrow> (0, k\<lparr>sems := (sems k)(i := None)\<rparr>))"

definition ref_otime :: "int \<Rightarrow> int \<Rightarrow> 'r ref_kernel \<Rightarrow> int" where
  "ref_otime i num k = (case lookup_sem i k of None \<Rightarrow> 0 | Some s \<Rightarrow> set_otime s)"

definition ref_load :: "int \<Rightarrow> 'r ref_kernel \<Rightarrow> 'r option" where
  "ref_load i k = map_option seg_data (lookup_seg i k)"

definition ref_store :: "int \<Rightarrow> 'r \<Rightarrow> 'r ref_kernel \<Rightarrow> 'r ref_kernel" where
  "ref_store i r k =
     (case lookup_seg i k of None \<Rightarrow> k | Some s \<Rightarrow> k\<lparr>segs := (segs k)(i \<mapsto> s\<lparr>seg_data := r\<rparr>)\<rparr>)"

definition ref_sysv :: "(int \<Rightarrow> 'r) \<Rightarrow> ('r ref_kernel, 'r) sysv" where
  "ref_sysv z = \<lparr>shmget = ref_shmget z, shmat = ref_shmat, shmdt = ref_shmdt, shmctl_rmid = ref_rmid,
     semget = ref_semget, semop = ref_semop, semctl_rmid = ref_sem_rmid, sem_otime = ref_otime,
     load_seg = ref_load, store_seg = ref_store, key_names = ref_names, sleeping = (\<lambda>_ k. k)\<rparr>"

lemma ref_sysv_simps [simp]:
  "shmget (ref_sysv z) = ref_shmget z" "shmat (ref_sysv z) = ref_shmat" "shmdt (ref_sysv z) = ref_shmdt"
  "shmctl_rmid (ref_sysv z) = ref_rmid" "semget (ref_sysv z) = ref_semget" "semop (ref_sysv z) = ref_semop"
  "semctl_rmid (ref_sysv z) = ref_sem_rmid" "sem_otime (ref_sysv z) = ref_otime"
  "load_seg (ref_sysv z) = ref_load" "store_seg (ref_sysv z) = ref_store"
  "key_names (ref_sysv z) = ref_names" "sleeping (ref_sysv z) = (\<lambda>_ k. k)"
  by (simp_all add: ref_sysv_def)

lemmas ref_call_defs [kernel_defs] =
  ref_shmget_def ref_shmat_def ref_shmdt_def ref_rmid_def ref_semget_def ref_semop_def
  ref_sem_rmid_def ref_otime_def ref_load_def ref_store_def ref_names_def ref_sem_names_def
  ref_sem_val_def lookup_seg_def lookup_sem_def fresh_id_def

section \<open>The laws hold\<close>

lemma fresh_id_new: "fresh_id ids \<notin> set ids" "0 \<le> fresh_id ids"
proof -
  have "\<forall>i \<in> set ids. i < fresh_id ids" "0 \<le> fresh_id ids"
    by (induction ids) (auto simp: fresh_id_def)
  then show "fresh_id ids \<notin> set ids" "0 \<le> fresh_id ids" by auto
qed

lemma find_cong_set: "(\<And>x. x \<in> set xs \<Longrightarrow> P x = Q x) \<Longrightarrow> List.find P xs = List.find Q xs"
  by (induction xs) auto

lemma find_except: "List.find P xs \<noteq> Some i \<Longrightarrow> List.find (\<lambda>x. x \<noteq> i \<and> P x) xs = List.find P xs"
  by (induction xs) auto

lemma find_snoc: "List.find P (xs @ [y]) = (case List.find P xs of None \<Rightarrow> if P y then Some y else None | r \<Rightarrow> r)"
  by (induction xs) auto

definition seg_named :: "int \<Rightarrow> 'r ref_kernel \<Rightarrow> int \<Rightarrow> bool" where
  "seg_named key k i = (case lookup_seg i k of None \<Rightarrow> False | Some s \<Rightarrow> seg_key s = key \<and> \<not> seg_removed s)"

lemma ref_names_eq: "ref_names key k = (if key = 0 then None else List.find (seg_named key k) (seg_ids k))"
  by (simp add: ref_names_def seg_named_def [abs_def])

lemma ref_names_SomeD: "ref_names key k = Some i \<Longrightarrow> key \<noteq> 0 \<and> seg_named key k i \<and> 0 \<le> i"
  by (auto simp: ref_names_eq find_Some_iff seg_named_def lookup_seg_def split: if_splits)

text \<open>Changing one entry in place: how lookups, names and data follow.\<close>

lemma lookup_seg_upd:
  "lookup_seg j (k\<lparr>segs := (segs k)(i := x)\<rparr>) =
     (if j = i then (if lookup_seg i k = None then (if i \<in> set (seg_ids k) \<and> 0 \<le> i then x else None) else x) else lookup_seg j k)"
  by (auto simp: lookup_seg_def)

lemma lookup_seg_live: "lookup_seg i k = Some s \<Longrightarrow> lookup_seg j (k\<lparr>segs := (segs k)(i := x)\<rparr>) = (if j = i then x else lookup_seg j k)"
  by (simp add: lookup_seg_upd)

lemma names_same:
  assumes "lookup_seg i k = Some s" "seg_key s' = seg_key s" "seg_removed s' = seg_removed s"
  shows "ref_names a (k\<lparr>segs := (segs k)(i \<mapsto> s')\<rparr>) = ref_names a k"
proof -
  have "seg_named a (k\<lparr>segs := (segs k)(i \<mapsto> s')\<rparr>) = seg_named a k"
    using assms by (auto simp: seg_named_def lookup_seg_live fun_eq_iff)
  then show ?thesis by (simp add: ref_names_eq)
qed

lemma names_removed:
  assumes "lookup_seg i k = Some s" "\<forall>s'. x = Some s' \<longrightarrow> seg_removed s'"
  shows "seg_named a (k\<lparr>segs := (segs k)(i := x)\<rparr>) = (\<lambda>j. j \<noteq> i \<and> seg_named a k j)"
  using assms by (auto simp: seg_named_def lookup_seg_live fun_eq_iff split: option.splits)

lemma ref_new_seg:
  assumes "i = fresh_id (seg_ids k)"
    and "k' = k\<lparr>segs := (segs k)(i \<mapsto> s), seg_ids := seg_ids k @ [i]\<rparr>"
  shows "lookup_seg j k' = (if j = i then Some s else lookup_seg j k)" "lookup_seg i k = None"
    "seg_named a k' j = (if j = i then seg_key s = a \<and> \<not> seg_removed s else seg_named a k j)"
    "List.find (seg_named a k') (seg_ids k) = List.find (seg_named a k) (seg_ids k)"
proof -
  note f = fresh_id_new [of "seg_ids k", folded assms(1)]
  show l: "lookup_seg j k' = (if j = i then Some s else lookup_seg j k)" for j
    using f by (simp add: assms(2) lookup_seg_def)
  show "lookup_seg i k = None" using f by (simp add: lookup_seg_def)
  show n: "seg_named a k' j = (if j = i then seg_key s = a \<and> \<not> seg_removed s else seg_named a k j)" for j
    by (simp add: seg_named_def l)
  show "List.find (seg_named a k') (seg_ids k) = List.find (seg_named a k) (seg_ids k)"
    using f by (intro find_cong_set) (auto simp: n)
qed

interpretation ref_shm: sysv_shm "ref_sysv z" z for z :: "int \<Rightarrow> 'r"
proof (unfold_locales, unfold ref_sysv_simps)
  fix key sz flg i and k k' :: "'r ref_kernel"
  assume g: "ref_shmget z key sz flg k = (i, k')"
  let ?n = "fresh_id (seg_ids k)"
  let ?s = "\<lparr>seg_key = key, seg_removed = False, seg_attached = 0, seg_data = z sz\<rparr>"
  let ?k = "k\<lparr>segs := (segs k)(?n \<mapsto> ?s), seg_ids := seg_ids k @ [?n]\<rparr>"
  note new = ref_new_seg(1,3,4) [OF refl refl, where k = k and s = ?s]
  have free: "lookup_seg ?n k = None" by (simp add: lookup_seg_def fresh_id_new)
  have c: "(i = -1 \<and> k' = k) \<or> (ref_names key k = Some i \<and> k' = k) \<or>
      (ref_names key k = None \<and> i = ?n \<and> k' = ?k)"
    using g by (auto simp: ref_shmget_def Let_def split: option.splits if_splits)
  show "i = - 1 \<or> 0 \<le> i"
    using c fresh_id_new(2) ref_names_SomeD by blast
  show "ref_names key k' = Some i" if "i \<noteq> - 1" "key \<noteq> 0"
    using c that new(2) [of key] new(3) [of key]
    by (auto simp: ref_names_eq find_snoc split: option.splits)
  show "i = j \<and> k' = k" if "i \<noteq> - 1" "key \<noteq> 0" "ref_names key k = Some j" for j
    using c that by auto
  show "ref_load i k = None \<and> ref_load i k' = Some (z sz) \<and>
      (\<forall>j. j \<noteq> i \<longrightarrow> ref_load j k' = ref_load j k) \<and> (\<forall>a. a \<noteq> key \<longrightarrow> ref_names a k' = ref_names a k)"
    if "i \<noteq> - 1" "key = 0 \<or> ref_names key k = None"
  proof -
    have "ref_names key k = None" using that by (auto simp: ref_names_eq)
    then have e: "i = ?n" "k' = ?k" using c that by auto
    show ?thesis unfolding e
      using new free by (auto simp: ref_load_def ref_names_eq find_snoc split: option.splits)
  qed
next
  fix key sz flg and k k' :: "'r ref_kernel"
  assume "ref_shmget z key sz flg k = (- 1, k')"
  then show "k' = k"
    using fresh_id_new(2) [of "seg_ids k"] by (auto simp: ref_shmget_def Let_def split: option.splits if_splits)
next
  fix key flg sz and k :: "'r ref_kernel"
  assume "key \<noteq> 0" "ref_names key k = None" "\<not> has_flag flg IPC_CREAT"
  then show "ref_shmget z key sz flg k = (- 1, k)" by (simp add: ref_shmget_def)
next
  fix i and k :: "'r ref_kernel"
  assume "ref_load i k \<noteq> None"
  then show "0 \<le> i" by (auto simp: ref_load_def lookup_seg_def split: if_splits)
next
  fix a b i and k :: "'r ref_kernel"
  assume "ref_names a k = Some i"
  then show "ref_load i k \<noteq> None"
    using ref_names_SomeD by (fastforce simp: ref_load_def seg_named_def split: option.splits)
  assume "ref_names b k = Some i"
  with \<open>ref_names a k = Some i\<close> show "a = b"
    using ref_names_SomeD [of a k i] ref_names_SomeD [of b k i] by (simp add: seg_named_def split: option.splits)
next
  fix i p j a and k k' :: "'r ref_kernel"
  assume g: "ref_shmat i k = (p, k')"
  then show "p = Failed \<or> p = Shm i \<and> ref_load i k \<noteq> None"
    by (auto simp: ref_shmat_def ref_load_def split: option.splits)
  from g show "ref_load j k' = ref_load j k \<and> ref_names a k' = ref_names a k"
    by (auto simp: ref_shmat_def ref_load_def lookup_seg_live names_same split: option.splits)
next
  fix p e j a and k k' :: "'r ref_kernel"
  assume g: "ref_shmdt p k = (e, k')"
  show "ref_names a k' = ref_names a k \<and> (ref_names a k = Some j \<longrightarrow> ref_load j k' = ref_load j k)"
  proof (cases "\<exists>i s. p = Shm i \<and> lookup_seg i k = Some s \<and> seg_removed s \<and> seg_attached s \<le> 1")
    case True
    then obtain i s where i: "p = Shm i" "lookup_seg i k = Some s" "seg_removed s" "seg_attached s \<le> 1" by blast
    with g have k': "k' = k\<lparr>segs := (segs k)(i := None)\<rparr>" by (auto simp: ref_shmdt_def)
    have "\<not> seg_named a k i" using i by (simp add: seg_named_def)
    then have "seg_named a k' = seg_named a k" "ref_names a k \<noteq> Some i"
      using names_removed [OF i(2), of None] ref_names_SomeD [of a k i] unfolding k' by (auto simp: fun_eq_iff)
    then show ?thesis
      unfolding ref_names_eq using lookup_seg_live [OF i(2)] by (auto simp: k' ref_load_def ref_names_eq)
  next
    case False
    then show ?thesis
      using g by (auto simp: ref_shmdt_def ref_load_def lookup_seg_live names_same split: option.splits ptr.splits)
  qed
next
  fix i e a j and k k' :: "'r ref_kernel"
  assume g: "ref_rmid i k = (e, k')"
  show "(ref_names a k \<noteq> Some i \<longrightarrow> ref_names a k' = ref_names a k) \<and> (j \<noteq> i \<longrightarrow> ref_load j k' = ref_load j k)"
    using g names_removed [of i k] find_except [of "seg_named a k" "seg_ids k" i]
    by (auto simp: ref_rmid_def ref_load_def lookup_seg_live ref_names_eq split: option.splits)
next
  fix i a and k k' :: "'r ref_kernel"
  assume g: "ref_rmid i k = (0, k')"
  then have "\<not> seg_named a k' i"
    by (auto simp: ref_rmid_def seg_named_def lookup_seg_live split: option.splits if_splits)
  then show "ref_names a k' \<noteq> Some i" using ref_names_SomeD by blast
next
  fix i j r and k :: "'r ref_kernel"
  assume "ref_load i k \<noteq> None"
  then show "ref_load j (ref_store i r k) = (if j = i then Some r else ref_load j k)"
    by (auto simp: ref_load_def ref_store_def lookup_seg_live)
next
  fix a i r and k :: "'r ref_kernel"
  show "ref_names a (ref_store i r k) = ref_names a k"
    by (auto simp: ref_store_def names_same split: option.splits)
qed

interpretation ref_ample: sysv_ample "ref_sysv z" z seg_size for z :: "int \<Rightarrow> 'r" and seg_size :: "'r \<Rightarrow> int"
proof (unfold_locales, unfold ref_sysv_simps)
  fix sz flg key and k :: "'r ref_kernel"
  assume "has_flag flg IPC_CREAT" "\<not> has_flag flg IPC_EXCL"
  then show "\<exists>i k'. ref_shmget z key sz flg k = (i, k') \<and> i \<noteq> - 1"
    using fresh_id_new(2) [of "seg_ids k"]
    by (auto simp: ref_shmget_def Let_def dest: ref_names_SomeD split: option.splits)
next
  fix key flg j r sz and k :: "'r ref_kernel"
  assume "ref_names key k = Some j" "\<not> has_flag flg IPC_EXCL"
  then show "ref_shmget z key sz flg k = (j, k)" by (simp add: ref_shmget_def)
next
  fix i and k :: "'r ref_kernel"
  assume "ref_load i k \<noteq> None"
  then show "\<exists>k'. ref_shmat i k = (Shm i, k')" by (auto simp: ref_load_def ref_shmat_def)
qed

lemma lookup_sem_live:
  "lookup_sem i k = Some s \<Longrightarrow> lookup_sem j (k\<lparr>sems := (sems k)(i := x)\<rparr>) = (if j = i then x else lookup_sem j k)"
  by (auto simp: lookup_sem_def split: if_splits)

lemma sem_names_SomeD:
  "ref_sem_names key k = Some i \<Longrightarrow> key \<noteq> 0 \<and> 0 \<le> i \<and> (\<exists>s. lookup_sem i k = Some s \<and> set_key s = key)"
  by (auto simp: ref_sem_names_def find_Some_iff lookup_sem_def split: if_splits option.splits)

lemma sem_names_same:
  assumes "lookup_sem i k = Some s" "set_key s' = set_key s"
  shows "ref_sem_names a (k\<lparr>sems := (sems k)(i \<mapsto> s')\<rparr>) = ref_sem_names a k"
proof -
  have "(\<lambda>j. case lookup_sem j (k\<lparr>sems := (sems k)(i \<mapsto> s')\<rparr>) of None \<Rightarrow> False | Some s \<Rightarrow> set_key s = a) =
      (\<lambda>j. case lookup_sem j k of None \<Rightarrow> False | Some s \<Rightarrow> set_key s = a)"
    using assms by (auto simp: lookup_sem_live fun_eq_iff)
  then show ?thesis by (simp add: ref_sem_names_def)
qed

lemma ref_new_sem:
  assumes "i = fresh_id (sem_ids k)" "k' = k\<lparr>sems := (sems k)(i \<mapsto> s), sem_ids := sem_ids k @ [i]\<rparr>"
  shows "lookup_sem j k' = (if j = i then Some s else lookup_sem j k)" "lookup_sem i k = None"
    "ref_sem_names a k' =
      (case ref_sem_names a k of
         None \<Rightarrow> if a \<noteq> 0 \<and> set_key s = a then Some i else None | Some j \<Rightarrow> Some j)"
proof -
  note f = fresh_id_new [of "sem_ids k", folded assms(1)]
  show l: "lookup_sem j k' = (if j = i then Some s else lookup_sem j k)" for j
    using f by (simp add: assms(2) lookup_sem_def)
  show "lookup_sem i k = None" using f by (simp add: lookup_sem_def)
  have "List.find (\<lambda>j. case lookup_sem j k' of None \<Rightarrow> False | Some s \<Rightarrow> set_key s = a) (sem_ids k) =
      List.find (\<lambda>j. case lookup_sem j k of None \<Rightarrow> False | Some s \<Rightarrow> set_key s = a) (sem_ids k)"
    using f by (intro find_cong_set) (auto simp: l)
  then show "ref_sem_names a k' =
      (case ref_sem_names a k of
         None \<Rightarrow> if a \<noteq> 0 \<and> set_key s = a then Some i else None | Some j \<Rightarrow> Some j)"
    using assms(2) l [of i] by (auto simp: ref_sem_names_def find_snoc split: option.splits)
qed

lemma ref_sem_frame:
  "ref_load l (k\<lparr>sems := x\<rparr>) = ref_load l k" "ref_names b (k\<lparr>sems := x\<rparr>) = ref_names b k"
  "ref_load l (k\<lparr>sem_ids := y\<rparr>) = ref_load l k" "ref_names b (k\<lparr>sem_ids := y\<rparr>) = ref_names b k"
  by (simp_all add: ref_load_def ref_names_def lookup_seg_def)

interpretation ref_sem: sysv_sem "ref_sysv z" ref_sem_val ref_sem_names for z :: "int \<Rightarrow> 'r"
proof (unfold_locales, unfold ref_sysv_simps)
  fix key flg i e and k k' :: "'r ref_kernel"
  let ?n = "fresh_id (sem_ids k)"
  let ?s = "\<lparr>set_key = key, set_value = 0, set_otime = 0\<rparr>"
  note new = ref_new_sem(1,3) [OF refl refl, where k = k and s = ?s]
  have free: "lookup_sem ?n k = None" by (simp add: lookup_sem_def fresh_id_new)
  assume un: "key = 0 \<or> ref_sem_names key k = None" and g: "ref_semget key 1 flg k = ((i, e), k')"
  from un have none: "ref_sem_names key k = None" by (auto simp: ref_sem_names_def)
  show "ref_sem_val i k = None \<and> ref_sem_val i k' = Some 0 \<and> (\<forall>j. j \<noteq> i \<longrightarrow> ref_sem_val j k' = ref_sem_val j k) \<and>
      (\<forall>a. a \<noteq> key \<longrightarrow> ref_sem_names a k' = ref_sem_names a k) \<and> (key \<noteq> 0 \<longrightarrow> ref_sem_names key k' = Some i)"
    if "has_flag flg IPC_CREAT"
    using g that none free
    by (auto simp: ref_semget_def Let_def ref_sem_val_def new split: option.splits)
  show "i = - 1 \<and> e \<noteq> EEXIST \<and> k' = k" if "i < 0"
    using g that none fresh_id_new(2) [of "sem_ids k"]
    by (auto simp: ref_semget_def Let_def split: option.splits if_splits)
next
  fix key j flg and k :: "'r ref_kernel"
  assume "key \<noteq> 0" "ref_sem_names key k = Some j"
  then show "has_flag flg IPC_EXCL \<Longrightarrow> ref_semget key 1 flg k = ((- 1, EEXIST), k)"
    "\<not> has_flag flg IPC_EXCL \<Longrightarrow> \<exists>e. ref_semget key 1 flg k = ((j, e), k)"
    by (simp_all add: ref_semget_def)
next
  fix key j and k :: "'r ref_kernel"
  assume "ref_sem_names key k = Some j"
  then show "0 \<le> j \<and> ref_sem_val j k \<noteq> None" using sem_names_SomeD by (fastforce simp: ref_sem_val_def)
next
  fix i v and k :: "'r ref_kernel"
  assume "ref_sem_val i k = Some (Suc v)"
  then show "\<exists>k'. ref_semop i 0 (- 1) k = Ret (0, k') \<and> ref_sem_val i k' = Some v \<and> ref_otime i 0 k' \<noteq> 0"
    by (auto simp: ref_sem_val_def ref_semop_def ref_otime_def lookup_sem_live)
next
  fix i and k :: "'r ref_kernel"
  assume "ref_sem_val i k = Some 0"
  then show "ref_semop i 0 (- 1) k = Hang" by (auto simp: ref_sem_val_def ref_semop_def)
next
  fix i v and k :: "'r ref_kernel"
  assume v: "ref_sem_val i k = Some v"
  then show "v < 32767 \<Longrightarrow>
      \<exists>k'. ref_semop i 0 1 k = Ret (0, k') \<and> ref_sem_val i k' = Some (Suc v) \<and> ref_otime i 0 k' \<noteq> 0"
    by (auto simp: ref_sem_val_def ref_semop_def ref_otime_def lookup_sem_live)
  from v show "32767 \<le> v \<Longrightarrow> ref_semop i 0 1 k = Ret (- 1, k)"
    by (auto simp: ref_sem_val_def ref_semop_def)
next
  fix i d r j a l b and k k' :: "'r ref_kernel"
  assume "ref_semop i 0 d k = Ret (r, k')"
  then show "(j \<noteq> i \<longrightarrow> ref_sem_val j k' = ref_sem_val j k \<and> ref_otime j 0 k' = ref_otime j 0 k) \<and>
      ref_sem_names a k' = ref_sem_names a k \<and> ref_load l k' = ref_load l k \<and> ref_names b k' = ref_names b k"
    by (auto simp: ref_semop_def ref_sem_val_def ref_otime_def lookup_sem_live sem_names_same ref_sem_frame
        split: option.splits if_splits)
next
  fix key n flg res l b and k k' :: "'r ref_kernel"
  assume "ref_semget key n flg k = (res, k')"
  then show "ref_load l k' = ref_load l k \<and> ref_names b k' = ref_names b k"
    by (auto simp: ref_semget_def Let_def ref_sem_frame split: option.splits if_splits)
qed

end
