(* ===== verification/Sem_Queue.thy ===== *)
theory Sem_Queue
  imports Poll_Queue Ref_Kernel
begin

text \<open>
  The semaphore queue, \<open>src/libnotnets/include/sem_queue.h\<close> and
  \<open>src/libnotnets/src/sem_queue.cpp\<close>: the same ring as the polling queue, with a System V
  semaphore as lock and two more for waiting on a full and on an empty ring. The calls
  run against a kernel \<open>K\<close>; what happens while a call waits is the list \<open>others\<close> of
  actions of the other side, one for each time the loop waits.
\<close>

section \<open>Header and semaphores\<close>

record sem_spsc_queue_header = spsc_queue_header +
  sem_lock :: int
  sem_full :: int
  sem_empty :: int

definition sizeof_sem_spsc_queue_header :: nat where
  "sizeof_sem_spsc_queue_header =
     sizeof_struct [c_int, c_int, c_size_t, c_int, c_int, c_int, c_int, c_bool, c_bool, c_int, c_int, c_int]"

lemma sizeof_sem_spsc_queue_header_48 [simp]: "sizeof_sem_spsc_queue_header = 48"
  by (simp add: sizeof_sem_spsc_queue_header_def sizeof_struct_def align_up_def)

definition sem_wait :: "('k, 'r) sysv \<Rightarrow> int \<Rightarrow> int \<Rightarrow> 'k \<Rightarrow> (int \<times> 'k) outcome" where
  "sem_wait K semid sem_num k = bind_out (semop K semid sem_num (-1) k) (\<lambda>(r, k'). Ret (r, k'))"

definition sem_post :: "('k, 'r) sysv \<Rightarrow> int \<Rightarrow> int \<Rightarrow> 'k \<Rightarrow> (int \<times> 'k) outcome" where
  "sem_post K semid sem_num k = bind_out (semop K semid sem_num 1 k) (\<lambda>(r, k'). Ret (r, k'))"

lemma sem_calls [simp]: "sem_wait K i n k = semop K i n (-1) k" "sem_post K i n k = semop K i n 1 k"
  by (simp_all add: sem_wait_def sem_post_def case_prod_unfold)

text \<open>
  \<open>_initsem\<close>: whoever creates the set increments every semaphore once, which also sets
  the time stamp that the others wait for, at most \<open>MAX_RETRIES\<close> seconds.
\<close>

definition MAX_RETRIES :: nat where "MAX_RETRIES = 10"

fun free_sems :: "('k, 'r) sysv \<Rightarrow> int \<Rightarrow> nat list \<Rightarrow> 'k \<Rightarrow> (bool \<times> 'k) outcome" where
  "free_sems K semid [] k = Ret (True, k)"
| "free_sems K semid (n # ns) k =
     bind_out (semop K semid (int n) 1 k) (\<lambda>(r, k').
       if r = -1 then Ret (False, k') else free_sems K semid ns k')"

fun wait_ready :: "('k, 'r) sysv \<Rightarrow> int \<Rightarrow> int \<Rightarrow> nat \<Rightarrow> 'k \<Rightarrow> bool \<times> 'k" where
  "wait_ready K semid sem_num 0 k = (False, k)"
| "wait_ready K semid sem_num (Suc i) k =
     (if sem_otime K semid sem_num k \<noteq> 0 then (True, k)
      else wait_ready K semid sem_num i (sleeping K 1 k))"

definition initsem :: "('k, 'r) sysv \<Rightarrow> int \<Rightarrow> int \<Rightarrow> 'k \<Rightarrow> (int \<times> 'k) outcome" where
  "initsem K key nsems k =
     (let ((semid, err), k1) = semget K key nsems sem_flags k in
      if 0 \<le> semid then
        bind_out (free_sems K semid [0..<nat nsems] k1) (\<lambda>(ok, k2).
          if ok then Ret (semid, k2)
          else let (r, k3) = semctl_rmid K semid k2 in Ret (-1, k3))
      else if err = EEXIST then
        let ((semid', err'), k2) = semget K key nsems 0 k1 in
        if semid' < 0 then Ret (semid', k2)
        else
          let (ready, k3) = wait_ready K semid' (nsems - 1) MAX_RETRIES k2 in
          if ready then Ret (semid', k3) else Ret (-1, k3)
      else Ret (semid, k1))"

text \<open>The keys of the three sets are derived from the key of the segment.\<close>

definition sem_full_key :: "int \<Rightarrow> int" where "sem_full_key seed = cdiv \<bar>seed\<bar> 2"

definition sem_empty_key :: "int \<Rightarrow> int" where "sem_empty_key seed = cdiv \<bar>seed\<bar> 20"

definition sem_lock_key :: "int \<Rightarrow> int" where "sem_lock_key seed = cdiv \<bar>seed\<bar> 200"

text \<open>
  The second half of \<open>queue_create\<close>: \<open>sem_full\<close> and \<open>sem_lock\<close> start at 1, \<open>sem_empty\<close> is
  decremented to 0. A set that cannot be made ends the process.
\<close>

definition create_sems :: "('k, 'r) sysv \<Rightarrow> int \<Rightarrow> 'k \<Rightarrow> (int \<times> int \<times> int \<times> 'k) outcome" where
  "create_sems K key_seed k =
     bind_out (initsem K (sem_full_key key_seed) 1 k) (\<lambda>(full, k1).
     if full = -1 then Exit 1
     else bind_out (initsem K (sem_empty_key key_seed) 1 k1) (\<lambda>(empty, k2).
     if empty = -1 then Exit 1
     else bind_out (sem_wait K empty 0 k2) (\<lambda>(r, k3).
     bind_out (initsem K (sem_lock_key key_seed) 1 k3) (\<lambda>(lock, k4).
     if lock = -1 then Exit 1 else Ret (full, empty, lock, k4)))))"

definition sem_queue_create ::
  "('k, 'r) sysv \<Rightarrow> byte list \<Rightarrow> int \<Rightarrow> nat \<Rightarrow> nat \<Rightarrow> 'k \<Rightarrow> (int \<times> sem_spsc_queue_header \<times> 'k) outcome"
where
  "sem_queue_create K arr key_seed shm_size msize k =
     (if sz_add msize sizeof_sem_spsc_queue_header > shm_size then Exit 1
      else if msize = 0 then Fault DivByZero
      else
        let num_elements = i32 (int (sz_sub shm_size sizeof_sem_spsc_queue_header div msize));
            leftover_bytes = i32 (int (sz_sub shm_size sizeof_sem_spsc_queue_header mod msize))
        in bind_out (create_sems K key_seed k) (\<lambda>(full, empty, lock, k').
           Ret (int (sz_sub shm_size (u64 leftover_bytes)),
             \<lparr>head = 0, tail = 0, message_size = msize, message_offset = 0,
              queue_size = num_elements, current_count = 0, total_count = 0,
              stop_producer_polling = False, stop_consumer_polling = False,
              message_array = arr, sem_lock = lock, sem_full = full, sem_empty = empty\<rparr>, k')))"

section \<open>The ring\<close>

definition succ :: "int \<Rightarrow> int \<Rightarrow> int outcome" where
  "succ index qsize = (if qsize = 0 then Fault DivByZero else Ret (cmod (i32 (index + 1)) qsize))"

definition is_full :: "sem_spsc_queue_header \<Rightarrow> bool outcome" where
  "is_full q = bind_out (succ (head q) (queue_size q)) (\<lambda>i. Ret (i = tail q))"

definition is_empty :: "sem_spsc_queue_header \<Rightarrow> bool" where
  "is_empty q \<longleftrightarrow> head q = tail q"

definition enqueue :: "sem_spsc_queue_header \<Rightarrow> byte list \<Rightarrow> nat \<Rightarrow> sem_spsc_queue_header outcome" where
  "enqueue q buf buf_size =
     (let msize = i32 (int (message_size q)) in
      bind_out (memcpy_to (message_array q) (i32 (head q * msize)) buf buf_size) (\<lambda>arr.
      bind_out (succ (head q) (queue_size q)) (\<lambda>i.
      Ret (q\<lparr>message_array := arr, current_count := i32 (current_count q + 1),
             total_count := i32 (total_count q + 1), head := i\<rparr>))))"

definition dequeue :: "sem_spsc_queue_header \<Rightarrow> nat \<Rightarrow> (pop_result \<times> sem_spsc_queue_header) outcome" where
  "dequeue q buf_size =
     (let n = clamp_size q buf_size in
      bind_out (memcpy_from (message_array q) (read_offset q (tail q)) n) (\<lambda>out.
      let off = i32 (int (sz_add (u64 (message_offset q)) n)) in
      if u64 off = message_size q then
        bind_out (succ (tail q) (queue_size q)) (\<lambda>i.
        Ret (\<lparr>pop_read = 0, pop_out = out, pop_size = n\<rparr>,
             q\<lparr>message_offset := 0, current_count := i32 (current_count q - 1), tail := i\<rparr>))
      else Ret (\<lparr>pop_read = u64 off, pop_out = out, pop_size = n\<rparr>, q\<lparr>message_offset := off\<rparr>)))"

definition sem_peek :: "sem_spsc_queue_header \<Rightarrow> int \<times> int" where
  "sem_peek q = (int (message_size q), i32 (head q * i32 (int (message_size q))))"

section \<open>sem\_push and sem\_pop\<close>

text \<open>
  The loops \<open>while (is_full(header)) sem_wait(header->sem_full, 0)\<close> and its twin for an
  empty ring. Each round the other side acts, then the semaphore is taken; with no action
  left the condition cannot change any more and the loop does not end.
\<close>

type_synonym 'k sem_state = "sem_spsc_queue_header \<times> 'k"

fun wait_while ::
  "('k, 'r) sysv \<Rightarrow> (sem_spsc_queue_header \<Rightarrow> bool outcome) \<Rightarrow> (sem_spsc_queue_header \<Rightarrow> int) \<Rightarrow>
   ('k sem_state \<Rightarrow> 'k sem_state) list \<Rightarrow> 'k sem_state \<Rightarrow> 'k sem_state outcome"
where
  "wait_while K cond sem [] (q, k) = bind_out (cond q) (\<lambda>c. if c then Hang else Ret (q, k))"
| "wait_while K cond sem (other # others) (q, k) =
     bind_out (cond q) (\<lambda>c.
       if c then
         let (q1, k1) = other (q, k) in
         bind_out (sem_wait K (sem q) 0 k1) (\<lambda>(r, k2). wait_while K cond sem others (q1, k2))
       else Ret (q, k))"

definition sem_push ::
  "('k, 'r) sysv \<Rightarrow> ('k sem_state \<Rightarrow> 'k sem_state) list \<Rightarrow> 'k sem_state \<Rightarrow> byte list \<Rightarrow> nat \<Rightarrow>
   (int \<times> 'k sem_state) outcome"
where
  "sem_push K others st buf buf_size =
     (let (q, k) = st in
      if buf_size > message_size q then Ret (-1, q, k)
      else
        bind_out (sem_wait K (sem_lock q) 0 k) (\<lambda>(r, k1).
        let was_empty = is_empty q in
        bind_out (is_full q) (\<lambda>full.
        bind_out
          (if full then
             bind_out (sem_post K (sem_lock q) 0 k1) (\<lambda>(r, k2).
             bind_out (wait_while K is_full sem_full others (q, k2)) (\<lambda>(q3, k3).
             bind_out (sem_wait K (sem_lock q3) 0 k3) (\<lambda>(r, k4). Ret (q3, k4))))
           else Ret (q, k1)) (\<lambda>(q5, k5).
        bind_out (enqueue q5 buf buf_size) (\<lambda>q6.
        bind_out (sem_post K (sem_lock q6) 0 k5) (\<lambda>(r, k6).
        if was_empty then bind_out (sem_post K (sem_empty q6) 0 k6) (\<lambda>(r, k7). Ret (0, q6, k7))
        else Ret (0, q6, k6)))))))"

definition sem_pop ::
  "('k, 'r) sysv \<Rightarrow> ('k sem_state \<Rightarrow> 'k sem_state) list \<Rightarrow> 'k sem_state \<Rightarrow> nat \<Rightarrow>
   (pop_result \<times> 'k sem_state) outcome"
where
  "sem_pop K others st buf_size =
     (let (q, k) = st in
      if stop_consumer_polling q then Ret (\<lparr>pop_read = 0, pop_out = [], pop_size = buf_size\<rparr>, q, k)
      else
        bind_out (sem_wait K (sem_lock q) 0 k) (\<lambda>(r, k1).
        bind_out (is_full q) (\<lambda>was_full.
        bind_out
          (if is_empty q then
             bind_out (sem_post K (sem_lock q) 0 k1) (\<lambda>(r, k2).
             bind_out (wait_while K (\<lambda>q. Ret (is_empty q)) sem_empty others (q, k2)) (\<lambda>(q3, k3).
             bind_out (sem_wait K (sem_lock q3) 0 k3) (\<lambda>(r, k4). Ret (q3, k4))))
           else Ret (q, k1)) (\<lambda>(q5, k5).
        bind_out (dequeue q5 buf_size) (\<lambda>(res, q6).
        bind_out (sem_post K (sem_lock q6) 0 k5) (\<lambda>(r, k6).
        if was_full then bind_out (sem_post K (sem_full q6) 0 k6) (\<lambda>(r, k7). Ret (res, q6, k7))
        else Ret (res, q6, k6)))))))"

section \<open>The ring operations on well-formed queues\<close>

lemma count_update [simp]:
  "queue_inv (q\<lparr>current_count := x\<rparr>) = queue_inv q" "queue_inv (q\<lparr>total_count := x\<rparr>) = queue_inv q"
  "abs_queue (q\<lparr>current_count := x\<rparr>) = abs_queue q" "abs_queue (q\<lparr>total_count := x\<rparr>) = abs_queue q"
  "capacity (q\<lparr>current_count := x\<rparr>) = capacity q" "capacity (q\<lparr>total_count := x\<rparr>) = capacity q"
  "contents (q\<lparr>current_count := x\<rparr>) = contents q" "contents (q\<lparr>total_count := x\<rparr>) = contents q"
  "opos (q\<lparr>current_count := x\<rparr>) = opos q" "opos (q\<lparr>total_count := x\<rparr>) = opos q"
  by (simp_all add: queue_inv_def abs_queue_def contents_def slots_of_def capacity_def pos_defs)

lemma succ_ring:
  assumes "queue_inv q" "i < nslots q"
  shows "succ (int i) (queue_size q) = Ret (int (ring_next (nslots q) i))"
proof -
  have "i32 (int i + 1) = int (Suc i)" using assms queue_invD(11) [OF assms(1)] by (simp add: c_arith)
  moreover have "int (Suc i) mod int (nslots q) = int (ring_next (nslots q) i)"
    using assms(2) by (auto simp: ring_next_def simp flip: of_nat_mod simp del: of_nat_Suc)
  moreover have "0 < queue_size q" using assms(2) queue_invD(5) [OF assms(1)] by linarith
  ultimately show ?thesis
    by (simp add: succ_def cmod_nonneg flip: queue_invD(5) [OF assms(1)] del: of_nat_Suc)
qed

lemma is_full_eq: "queue_inv q \<Longrightarrow> is_full q = Ret (length (contents q) = capacity q)"
  using succ_ring [of q "hpos q"]
  by (simp add: is_full_def contents_full_iff queue_invD flip: queue_invD(3,4))

lemma is_empty_eq: "queue_inv q \<Longrightarrow> is_empty q \<longleftrightarrow> contents q = []"
  by (simp add: is_empty_def contents_empty_iff)

definition enqueued :: "sem_spsc_queue_header \<Rightarrow> byte list \<Rightarrow> nat \<Rightarrow> sem_spsc_queue_header" where
  "enqueued q buf n =
     (pushed q buf n)\<lparr>current_count := i32 (current_count q + 1), total_count := i32 (total_count q + 1)\<rparr>"

lemma enqueue_eq:
  assumes inv: "queue_inv q" and n: "n \<le> message_size q"
  shows "enqueue q buf n = (if length buf < n then Fault OutOfBounds else Ret (enqueued q buf n))"
  using memcpy_slot [OF slot_in_array [OF inv queue_invD(1) [OF inv]] n, of buf]
    succ_ring [OF inv queue_invD(1) [OF inv]]
  by (simp add: enqueue_def Let_def write_offset [OF inv] pushed_def enqueued_def queue_invD(3) [OF inv] del: of_nat_mult)

definition dequeued :: "sem_spsc_queue_header \<Rightarrow> nat \<Rightarrow> sem_spsc_queue_header" where
  "dequeued q c =
     (if opos q + c = message_size q then (popped q)\<lparr>current_count := i32 (current_count q - 1)\<rparr>
      else q\<lparr>message_offset := int (opos q + c)\<rparr>)"

lemma dequeue_eq:
  assumes inv: "queue_inv q" and n: "n < 9223372036854775808" and ne: "contents q \<noteq> []"
  shows "dequeue q n =
    (let c = min n (message_size q - opos q) in
     Ret (\<lparr>pop_read = (if opos q + c = message_size q then 0 else opos q + c),
           pop_out = take c (drop (opos q) (hd (contents q))), pop_size = c\<rparr>, dequeued q c))"
proof -
  define c where "c = min n (message_size q - opos q)"
  have c: "opos q + c \<le> message_size q"
    using queue_invD(8) [OF inv] by (simp add: c_def)
  have off: "i32 (int (sz_add (u64 (message_offset q)) c)) = int (opos q + c)"
    using c queue_invD(8,10) [OF inv]
    by (simp add: c_arith flip: queue_invD(6) [OF inv])
  have u: "u64 (int (opos q + c)) = opos q + c"
    using c queue_invD(10) [OF inv] by (intro u64_int) simp
  have "head q \<noteq> tail q" using ne contents_empty_iff [OF inv] by simp
  then have hd: "hd (contents q) = slots_of q (tpos q)" using contents_Cons [OF inv] by simp
  show ?thesis
    unfolding dequeue_def Let_def clamp_size_eq [OF inv n] c_def [symmetric] read_slot [OF inv c] off u hd
      succ_ring [OF inv queue_invD(2) [OF inv], unfolded queue_invD(4) [OF inv]]
    by (simp add: dequeued_def popped_def del: of_nat_add)
qed

lemma enqueued_simps [simp]:
  "sem_lock (enqueued q buf n) = sem_lock q" "sem_full (enqueued q buf n) = sem_full q"
  "sem_empty (enqueued q buf n) = sem_empty q" "message_size (enqueued q buf n) = message_size q"
  "capacity (enqueued q buf n) = capacity q" "abs_queue (enqueued q buf n) = abs_queue (pushed q buf n)"
  "queue_inv (enqueued q buf n) = queue_inv (pushed q buf n)" "opos (enqueued q buf n) = opos q"
  "contents (enqueued q buf n) = contents (pushed q buf n)"
  "stop_consumer_polling (enqueued q buf n) = stop_consumer_polling q"
  by (simp_all add: enqueued_def) (simp_all add: pushed_def)

lemma dequeued_simps [simp]:
  "sem_lock (dequeued q c) = sem_lock q" "sem_full (dequeued q c) = sem_full q"
  "sem_empty (dequeued q c) = sem_empty q" "message_size (dequeued q c) = message_size q"
  "capacity (dequeued q c) = capacity q" "stop_consumer_polling (dequeued q c) = stop_consumer_polling q"
  by (simp_all add: dequeued_def) (simp_all add: popped_def)

lemma dequeued_inv:
  assumes "queue_inv q" "contents q \<noteq> []" "opos q + c \<le> message_size q"
  shows "queue_inv (dequeued q c)"
  using assms popped_inv [of q] partial_read_inv [of q "opos q + c"] contents_empty_iff [of q]
  by (auto simp: dequeued_def simp del: of_nat_add)

lemma dequeued_whole:
  assumes "queue_inv q" "contents q \<noteq> []" "opos q + c = message_size q"
  shows "contents (dequeued q c) = tl (contents q)" "opos (dequeued q c) = 0"
  using assms contents_Cons [OF assms(1)] contents_empty_iff [OF assms(1)] by (simp_all add: dequeued_def)

text \<open>The new contents are those the abstract \<open>pop\<close> gives.\<close>

lemma dequeue_abs:
  assumes inv: "queue_inv q" and ne: "contents q \<noteq> []" and c: "c = min n (message_size q - opos q)"
  shows "fifo_pop n (abs_queue q) =
    Some ((if opos q + c = message_size q then 0 else opos q + c, take c (drop (opos q) (hd (contents q)))),
      abs_queue (dequeued q c))"
proof -
  have h: "head q \<noteq> tail q" using ne contents_empty_iff [OF inv] by simp
  have len: "length (slots_of q (tpos q)) = message_size q"
    using slot_in_array [OF inv queue_invD(2) [OF inv]] by (simp add: slots_of_def)
  then show ?thesis
    using queue_invD(8) [OF inv]
    by (auto simp: contents_Cons [OF inv h] fifo_pop_def abs_queue_def dequeued_def Let_def c)
qed

section \<open>The queue as a message queue\<close>

definition sem_inv :: "(int \<Rightarrow> 'k \<Rightarrow> nat option) \<Rightarrow> 'k sem_state \<Rightarrow> bool" where
  "sem_inv sem_val st =
     (let (q, k) = st in
      queue_inv q \<and> \<not> stop_consumer_polling q \<and> sem_lock q \<noteq> sem_full q \<and> sem_lock q \<noteq> sem_empty q \<and>
      sem_val (sem_lock q) k = Some 1 \<and> sem_val (sem_full q) k \<noteq> None \<and> sem_val (sem_empty q) k \<noteq> None)"

definition sem_recv ::
  "('k, 'r) sysv \<Rightarrow> 'k sem_state \<Rightarrow> nat \<Rightarrow> ((nat \<times> byte list) \<times> 'k sem_state) outcome" where
  "sem_recv K st n = bind_out (sem_pop K [] st n) (\<lambda>(r, st'). Ret ((pop_read r, pop_out r), st'))"

definition sem_abs :: "'k sem_state \<Rightarrow> fifo" where "sem_abs st = abs_queue (fst st)"

definition sem_cap :: "'k sem_state \<Rightarrow> nat" where "sem_cap st = capacity (fst st)"

definition sem_msz :: "'k sem_state \<Rightarrow> nat" where "sem_msz st = message_size (fst st)"

lemmas sem_obs = sem_abs_def sem_cap_def sem_msz_def

context sysv_sem
begin

text \<open>A lock that is free can be taken and given back; the rest of the semaphores keep.\<close>

lemma lock_round:
  assumes "sem_val l k = Some 1"
  shows "\<exists>k1. semop K l 0 (-1) k = Ret (0, k1) \<and> sem_val l k1 = Some 0 \<and>
    (\<forall>j. j \<noteq> l \<longrightarrow> sem_val j k1 = sem_val j k) \<and>
    (\<forall>k2. sem_val l k2 = Some 0 \<longrightarrow> (\<exists>k3. semop K l 0 1 k2 = Ret (0, k3) \<and> sem_val l k3 = Some 1 \<and>
      (\<forall>j. j \<noteq> l \<longrightarrow> sem_val j k3 = sem_val j k2)))"
proof -
  have "\<exists>k3. semop K l 0 1 k2 = Ret (0, k3) \<and> sem_val l k3 = Some 1 \<and>
      (\<forall>j. j \<noteq> l \<longrightarrow> sem_val j k3 = sem_val j k2)" if "sem_val l k2 = Some 0" for k2
    using semop_up [OF that] semop_frame [of l 1 k2] by fastforce
  with semop_down_total [of l k 0] assms show ?thesis by simp
qed

lemma sem_push_run:
  assumes "sem_inv sem_val (q, k)" "n \<le> message_size q" "length (contents q) \<noteq> capacity q" "n \<le> length buf"
  shows "\<exists>k'. sem_push K others (q, k) buf n = Ret (0, enqueued q buf n, k') \<and>
    sem_inv sem_val (enqueued q buf n, k')"
proof -
  from assms(1) have inv: "queue_inv q" and ids: "sem_lock q \<noteq> sem_full q" "sem_lock q \<noteq> sem_empty q"
    and lock: "sem_val (sem_lock q) k = Some 1" and vals: "sem_val (sem_full q) k \<noteq> None" "sem_val (sem_empty q) k \<noteq> None"
    and stop: "\<not> stop_consumer_polling q"
    by (simp_all add: sem_inv_def)
  from lock_round [OF lock] obtain k1 k3 where k: "semop K (sem_lock q) 0 (-1) k = Ret (0, k1)"
    "semop K (sem_lock q) 0 1 k1 = Ret (0, k3)" "sem_val (sem_lock q) k3 = Some 1"
    "\<And>j. j \<noteq> sem_lock q \<Longrightarrow> sem_val j k3 = sem_val j k" by metis
  have inv': "queue_inv (enqueued q buf n)" using pushed_inv [OF inv assms(2,4,3)] by simp
  obtain v where v: "sem_val (sem_empty q) k3 = Some v" using k(4) vals(2) ids(2) by auto
  from semop_up_total [OF v] obtain r k4 where k4: "semop K (sem_empty q) 0 1 k3 = Ret (r, k4)"
    "sem_val (sem_empty q) k4 \<noteq> None" "\<And>j. j \<noteq> sem_empty q \<Longrightarrow> sem_val j k4 = sem_val j k3" by auto
  have "sem_inv sem_val (enqueued q buf n, k3)" "sem_inv sem_val (enqueued q buf n, k4)"
    using inv' stop ids vals v k(3,4) k4(2) k4(3) [of "sem_lock q"] k4(3) [of "sem_full q"]
    by (cases "sem_full q = sem_empty q"; auto simp: sem_inv_def)+
  then show ?thesis
    using assms(2-4) k(1,2) k4(1) by (auto simp: sem_push_def is_full_eq [OF inv] enqueue_eq [OF inv])
qed

lemma sem_pop_run:
  assumes "sem_inv sem_val (q, k)" "n < 9223372036854775808" "contents q \<noteq> []"
    and c: "c = min n (message_size q - opos q)"
  shows "\<exists>k'. sem_pop K others (q, k) n =
      Ret (\<lparr>pop_read = (if opos q + c = message_size q then 0 else opos q + c),
           pop_out = take c (drop (opos q) (hd (contents q))), pop_size = c\<rparr>, dequeued q c, k') \<and>
    sem_inv sem_val (dequeued q c, k') \<and>
    (length (contents q) = capacity q \<longrightarrow> (\<exists>v. sem_val (sem_full q) k' = Some (Suc v)))"
proof -
  from assms(1) have inv: "queue_inv q" and ids: "sem_lock q \<noteq> sem_full q" "sem_lock q \<noteq> sem_empty q"
    and lock: "sem_val (sem_lock q) k = Some 1" and vals: "sem_val (sem_full q) k \<noteq> None" "sem_val (sem_empty q) k \<noteq> None"
    and stop: "\<not> stop_consumer_polling q"
    by (simp_all add: sem_inv_def)
  from lock_round [OF lock] obtain k1 k3 where k: "semop K (sem_lock q) 0 (-1) k = Ret (0, k1)"
    "semop K (sem_lock q) 0 1 k1 = Ret (0, k3)" "sem_val (sem_lock q) k3 = Some 1"
    "\<And>j. j \<noteq> sem_lock q \<Longrightarrow> sem_val j k3 = sem_val j k" by metis
  have inv': "queue_inv (dequeued q c)"
    using dequeued_inv [OF inv assms(3), of c] queue_invD(8) [OF inv] by (simp add: c)
  obtain v where v: "sem_val (sem_full q) k3 = Some v" using k(4) vals(1) ids(1) by auto
  from semop_up_total [OF v] obtain r k4 where k4: "semop K (sem_full q) 0 1 k3 = Ret (r, k4)"
    "\<exists>v. sem_val (sem_full q) k4 = Some (Suc v)" "\<And>j. j \<noteq> sem_full q \<Longrightarrow> sem_val j k4 = sem_val j k3" by auto
  have "sem_inv sem_val (dequeued q c, k3)" "sem_inv sem_val (dequeued q c, k4)"
    using inv' stop ids vals v k(3,4) k4(2) k4(3) [of "sem_lock q"] k4(3) [of "sem_empty q"]
    by (cases "sem_full q = sem_empty q"; auto simp: sem_inv_def)+
  then show ?thesis
    using assms(2,3) stop k(1,2) k4(1,2)
    by (auto simp: sem_pop_def is_full_eq [OF inv] is_empty_eq [OF inv] dequeue_eq [OF inv] Let_def c)
qed

lemma sem_waits:
  assumes "sem_inv sem_val (q, k)"
  shows "n \<le> message_size q \<Longrightarrow> length (contents q) = capacity q \<Longrightarrow> sem_push K [] (q, k) buf n = Hang"
    "contents q = [] \<Longrightarrow> sem_pop K [] (q, k) n = Hang"
proof -
  from assms have inv: "queue_inv q" and lock: "sem_val (sem_lock q) k = Some 1"
    and stop: "\<not> stop_consumer_polling q"
    by (simp_all add: sem_inv_def)
  from lock_round [OF lock] obtain k1 k3 where k: "semop K (sem_lock q) 0 (-1) k = Ret (0, k1)"
    "semop K (sem_lock q) 0 1 k1 = Ret (0, k3)" by metis
  show "n \<le> message_size q \<Longrightarrow> length (contents q) = capacity q \<Longrightarrow> sem_push K [] (q, k) buf n = Hang"
    by (simp add: sem_push_def k is_full_eq [OF inv])
  show "contents q = [] \<Longrightarrow> sem_pop K [] (q, k) n = Hang"
    by (simp add: sem_pop_def k stop is_full_eq [OF inv] is_empty_eq [OF inv])
qed

end

sublocale sysv_sem \<subseteq> sq: message_queue "sem_inv sem_val" sem_abs sem_cap sem_msz "sem_push K []" "sem_recv K"
proof unfold_locales
  fix st m f
  assume a: "sem_inv sem_val st" "length m = sem_msz st" "fifo_push (sem_cap st) m (sem_abs st) = Some f"
  obtain q k where st: "st = (q, k)" by (cases st)
  from a have inv: "queue_inv q" by (simp add: st sem_inv_def)
  from a have "f = abs_queue (enqueued q m (length m))" "length (contents q) \<noteq> capacity q"
    using abs_pushed [OF inv, of m]
    by (auto simp: st sem_obs fifo_push_def abs_queue_def split: if_splits)
  with a sem_push_run [of q k "length m" m "[]"]
  show "\<exists>st'. sem_push K [] st m (length m) = Ret (0, st') \<and> sem_inv sem_val st' \<and> sem_abs st' = f \<and>
      sem_cap st' = sem_cap st \<and> sem_msz st' = sem_msz st"
    by (auto simp: st sem_obs)
next
  fix st n r out f
  assume a: "sem_inv sem_val st" "n < 9223372036854775808" "fifo_pop n (sem_abs st) = Some ((r, out), f)"
  obtain q k where st: "st = (q, k)" by (cases st)
  define c where "c = min n (message_size q - opos q)"
  from a have inv: "queue_inv q" and ne: "contents q \<noteq> []"
    by (auto simp: st sem_inv_def sem_obs abs_queue_def fifo_pop_def)
  from a dequeue_abs [OF inv ne c_def] sem_pop_run [of q k n c "[]"] ne c_def
  show "\<exists>st'. sem_recv K st n = Ret ((r, out), st') \<and> sem_inv sem_val st' \<and> sem_abs st' = f \<and>
      sem_cap st' = sem_cap st \<and> sem_msz st' = sem_msz st"
    by (auto simp: st sem_obs sem_recv_def)
next
  fix st m n
  assume "sem_inv sem_val st" "n \<le> sem_msz st" "length (msgs (sem_abs st)) = sem_cap st"
  then show "sem_push K [] st m n = Hang"
    using sem_waits(1) by (cases st) (simp add: sem_obs abs_queue_def)
next
  fix st and n :: nat
  assume "sem_inv sem_val st" "n < 9223372036854775808" "msgs (sem_abs st) = []"
  then show "sem_recv K st n = Hang"
    using sem_waits(2) by (cases st) (simp add: sem_obs abs_queue_def sem_recv_def)
next
  fix st m n
  assume "sem_inv sem_val st" "sem_msz st < n"
  then show "sem_push K [] st m n = Ret (- 1, st)"
    by (cases st) (simp add: sem_push_def sem_obs)
qed (auto simp: sem_inv_def sem_obs abs_queue_def contents_le_capacity message_length queue_invD(8)
    dest: queue_invD(10))

section \<open>Setting up the semaphores\<close>

context sysv_sem
begin

lemma initsem_new:
  assumes free: "key = 0 \<or> sem_names key k = None"
  shows "initsem K key 1 k = Ret (-1, k) \<or>
    (\<exists>i k'. initsem K key 1 k = Ret (i, k') \<and> 0 \<le> i \<and> sem_val i k = None \<and> sem_val i k' = Some 1 \<and>
      (\<forall>j. j \<noteq> i \<longrightarrow> sem_val j k' = sem_val j k) \<and> (\<forall>a. a \<noteq> key \<longrightarrow> sem_names a k' = sem_names a k) \<and>
      (key \<noteq> 0 \<longrightarrow> sem_names key k' = Some i) \<and> sem_otime K i 0 k' \<noteq> 0)"
proof -
  obtain i e k1 where g: "semget K key 1 sem_flags k = ((i, e), k1)" by (metis prod.exhaust)
  show ?thesis
  proof (cases "0 \<le> i")
    case False
    with semget_refused [OF free g] g show ?thesis by (simp add: initsem_def)
  next
    case True
    note new = semget_new [OF free sem_flags_create(1) g True]
    from new semop_up [of i k1 0] obtain k2 where k2: "semop K i 0 1 k1 = Ret (0, k2)"
      "sem_val i k2 = Some 1" "sem_otime K i 0 k2 \<noteq> 0" by auto
    with g True have "initsem K key 1 k = Ret (i, k2)" by (simp add: initsem_def)
    with new k2 True semop_frame [OF k2(1)] show ?thesis by auto
  qed
qed

lemma initsem_existing:
  assumes "key \<noteq> 0" "sem_names key k = Some j" "sem_otime K j 0 k \<noteq> 0"
  shows "initsem K key 1 k = Ret (j, k)"
proof -
  have "\<not> has_flag 0 IPC_EXCL" by (simp add: has_flag_def IPC_EXCL_def)
  from semget_open [OF assms(1,2) this] obtain e where "semget K key 1 0 k = ((j, e), k)" by blast
  with semget_excl [OF assms(1,2) sem_flags_create(2)] sem_names_val [OF assms(2)] assms(3)
  show ?thesis by (simp add: initsem_def MAX_RETRIES_def eval_nat_numeral)
qed

end

text \<open>The three keys of one queue differ unless they are 0, which names nothing.\<close>

lemma sem_keys_differ:
  "sem_full_key seed = sem_empty_key seed \<Longrightarrow> sem_empty_key seed = 0"
  "sem_full_key seed = sem_lock_key seed \<Longrightarrow> sem_lock_key seed = 0"
  "sem_empty_key seed = sem_lock_key seed \<Longrightarrow> sem_lock_key seed = 0"
  by (simp_all add: sem_full_key_def sem_empty_key_def sem_lock_key_def cdiv_nonneg)

context sysv_sem
begin

lemma create_sems_ready:
  assumes free: "\<forall>a \<in> {sem_full_key seed, sem_empty_key seed, sem_lock_key seed}. a = 0 \<or> sem_names a k = None"
  shows "create_sems K seed k = Exit 1 \<or>
    (\<exists>full empty lock k'. create_sems K seed k = Ret (full, empty, lock, k') \<and>
      sem_val full k' = Some 1 \<and> sem_val empty k' = Some 0 \<and> sem_val lock k' = Some 1 \<and>
      distinct [full, empty, lock])"
proof (cases "initsem K (sem_full_key seed) 1 k = Ret (-1, k)")
  case True
  then show ?thesis by (simp add: create_sems_def)
next
  case False
  with initsem_new [of "sem_full_key seed" k] free obtain full k1 where
    1: "initsem K (sem_full_key seed) 1 k = Ret (full, k1)" "0 \<le> full" "sem_val full k = None" "sem_val full k1 = Some 1"
      "\<And>a. a \<noteq> sem_full_key seed \<Longrightarrow> sem_names a k1 = sem_names a k"
    by auto
  have free1: "sem_empty_key seed = 0 \<or> sem_names (sem_empty_key seed) k1 = None"
    "sem_lock_key seed = 0 \<or> sem_names (sem_lock_key seed) k1 = None"
    using 1(5) [of "sem_empty_key seed"] 1(5) [of "sem_lock_key seed"] free sem_keys_differ(1,2) [of seed]
    by (metis insertCI)+
  show ?thesis
  proof (cases "initsem K (sem_empty_key seed) 1 k1 = Ret (-1, k1)")
    case True
    with 1 show ?thesis by (simp add: create_sems_def)
  next
    case False
    with initsem_new [OF free1(1)] obtain empty k2 where
      2: "initsem K (sem_empty_key seed) 1 k1 = Ret (empty, k2)" "0 \<le> empty" "sem_val empty k1 = None"
        "sem_val empty k2 = Some 1" "\<And>j. j \<noteq> empty \<Longrightarrow> sem_val j k2 = sem_val j k1"
        "\<And>a. a \<noteq> sem_empty_key seed \<Longrightarrow> sem_names a k2 = sem_names a k1"
      by auto
    from 2(4) semop_down_total [of empty k2 0] obtain k3 where
      3: "semop K empty 0 (-1) k2 = Ret (0, k3)" "sem_val empty k3 = Some 0"
        "\<And>j. j \<noteq> empty \<Longrightarrow> sem_val j k3 = sem_val j k2" by auto
    have free3: "sem_lock_key seed = 0 \<or> sem_names (sem_lock_key seed) k3 = None"
      using free1(2) 2(6) semop_frame [OF 3(1)] sem_keys_differ(3) [of seed] by metis
    from initsem_new [OF free3] show ?thesis
    proof (elim disjE exE conjE)
      assume "initsem K (sem_lock_key seed) 1 k3 = Ret (- 1, k3)"
      with 1 2 3 show ?thesis by (simp add: create_sems_def)
    next
      fix lock k4
      assume 4: "initsem K (sem_lock_key seed) 1 k3 = Ret (lock, k4)" "0 \<le> lock" "sem_val lock k3 = None"
        "sem_val lock k4 = Some 1" "\<forall>j. j \<noteq> lock \<longrightarrow> sem_val j k4 = sem_val j k3"
      have "full \<noteq> empty" using 1(4) 2(3) by auto
      then have d: "full \<noteq> empty" "full \<noteq> lock" "empty \<noteq> lock"
        using 1(4) 2(5) 3(2,3) 4(3) by auto
      with 1 2 3 4 have "sem_val full k4 = Some 1" "sem_val empty k4 = Some 0"
        by simp_all
      with 1 2 3 4 d show ?thesis by (simp add: create_sems_def)
    qed
  qed
qed

lemma sem_push_resumes_run:
  assumes inv: "sem_inv sem_val (q, k)" and full: "length (contents q) = capacity q" and cap: "0 < capacity q"
    and m: "length m = message_size q" and off: "opos q = 0"
  shows "\<exists>q' k'. sem_push K [\<lambda>st. case sem_pop K [] st (message_size q) of Ret (r, st') \<Rightarrow> st' | _ \<Rightarrow> st] (q, k) m (length m) =
      Ret (0, q', k') \<and> sem_inv sem_val (q', k') \<and> contents q' = tl (contents q) @ [m]"
proof -
  let ?n = "message_size q" and ?q1 = "dequeued q (message_size q)"
  from inv have qi: "queue_inv q" and lock: "sem_val (sem_lock q) k = Some 1"
    and ids: "sem_lock q \<noteq> sem_full q" "sem_lock q \<noteq> sem_empty q"
    by (simp_all add: sem_inv_def)
  have ne: "contents q \<noteq> []" using full cap by auto
  from lock_round [OF lock] obtain k1 k2 where k12: "semop K (sem_lock q) 0 (-1) k = Ret (0, k1)"
    "semop K (sem_lock q) 0 1 k1 = Ret (0, k2)" "sem_val (sem_lock q) k2 = Some 1"
    "\<And>j. j \<noteq> sem_lock q \<Longrightarrow> sem_val j k2 = sem_val j k" by metis
  then have inv2: "sem_inv sem_val (q, k2)" using inv ids by (simp add: sem_inv_def)
  have small: "?n < 9223372036854775808" using queue_invD(10) [OF qi] by simp
  obtain r k3 v where pop: "sem_pop K [] (q, k2) ?n = Ret (r, ?q1, k3)" and inv3: "sem_inv sem_val (?q1, k3)"
    and v: "sem_val (sem_full q) k3 = Some (Suc v)"
    using sem_pop_run [OF inv2 small ne refl, of "[]"] off full by auto
  from semop_down_total [OF v] obtain k4 where k4: "semop K (sem_full q) 0 (-1) k3 = Ret (0, k4)"
    "sem_val (sem_full q) k4 = Some v" "\<And>j. j \<noteq> sem_full q \<Longrightarrow> sem_val j k4 = sem_val j k3" by auto
  have inv4: "sem_inv sem_val (?q1, k4)"
    using inv3 k4 ids by (cases "sem_full q = sem_empty q") (auto simp: sem_inv_def)
  have c1: "contents ?q1 = tl (contents q)" using dequeued_whole [OF qi ne, of ?n] off by simp
  then have room: "length (contents ?q1) \<noteq> capacity ?q1" using full cap by simp
  have qi1: "queue_inv ?q1" using inv4 by (simp add: sem_inv_def)
  have lock4: "sem_val (sem_lock q) k4 = Some 1" using inv4 by (simp add: sem_inv_def)
  from lock_round [OF this] obtain k5 k6 where k56: "semop K (sem_lock q) 0 (-1) k4 = Ret (0, k5)"
    "semop K (sem_lock q) 0 1 k5 = Ret (0, k6)" "sem_val (sem_lock q) k6 = Some 1"
    "\<And>j. j \<noteq> sem_lock q \<Longrightarrow> sem_val j k6 = sem_val j k4" by metis
  let ?q2 = "enqueued ?q1 m (length m)"
  have "contents ?q2 = tl (contents q) @ [m]"
    using abs_pushed [OF qi1, of m] room contents_le_capacity [OF qi1] m c1
    by (simp add: abs_queue_def)
  moreover have "sem_inv sem_val (?q2, k6)"
    using inv4 pushed_inv [OF qi1 _ _ room, of "length m" m] m k56(3,4) ids by (auto simp: sem_inv_def)
  moreover have "sem_push K [\<lambda>st. case sem_pop K [] st ?n of Ret (r, st') \<Rightarrow> st' | _ \<Rightarrow> st] (q, k) m (length m) =
      Ret (0, ?q2, k6)"
    using full ne room m k12(1,2) k4(1) k56(1,2)
    by (simp add: sem_push_def is_full_eq [OF qi] is_full_eq [OF qi1] is_empty_eq [OF qi] pop enqueue_eq [OF qi1])
  ultimately show ?thesis by blast
qed

end

lemma sem_queue_create_eq:
  assumes "0 < m" "m + 48 \<le> shm_size" "shm_size < 2147483648"
  shows "sem_queue_create K arr seed shm_size m k =
    bind_out (create_sems K seed k) (\<lambda>(full, empty, lock, k').
      Ret (int (48 + (shm_size - 48) div m * m),
        \<lparr>head = 0, tail = 0, message_size = m, message_offset = 0,
         queue_size = int ((shm_size - 48) div m), current_count = 0, total_count = 0,
         stop_producer_polling = False, stop_consumer_polling = False,
         message_array = arr, sem_lock = lock, sem_full = full, sem_empty = empty\<rparr>, k'))"
proof -
  have le: "(shm_size - 48) div m \<le> shm_size" "(shm_size - 48) mod m \<le> shm_size"
    using div_le_dividend [of "shm_size - 48" m] mod_less_eq_dividend [of "shm_size - 48" m]
    by linarith+
  have "shm_size - (shm_size - 48) mod m = 48 + (shm_size - 48) div m * m"
    using minus_mod_eq_div_mult [of "shm_size - 48" m] mod_less_eq_dividend [of "shm_size - 48" m]
      assms(2) by linarith
  with assms le show ?thesis
    by (simp add: sem_queue_create_def Let_def c_arith del: of_nat_add of_nat_mult)
qed

lemma fresh_ring:
  assumes "head q = 0" "tail q = 0" "message_offset q = 0" "0 < message_size q"
    and "queue_size q = int n" "0 < n" "n * message_size q \<le> length (message_array q)"
    and "length (message_array q) < 2147483648"
  shows "queue_inv q" "abs_queue q = \<lparr>msgs = [], read_off = 0\<rparr>" "capacity q = n - 1"
  using assms
  by (simp_all add: queue_inv_def pos_defs abs_queue_def contents_def ring_idxs_def capacity_def)

context sysv_sem
begin

lemma sem_roundtrip:
  assumes "sem_inv sem_val (q, k)" "contents q = []"
    and "\<forall>m \<in> set ms. length m = message_size q" "length ms \<le> capacity q"
  shows "\<exists>st1 st2. send_all (sem_push K []) ms (q, k) = Ret st1 \<and>
    recv_pieces (sem_recv K) (length ms) (message_size q) st1 = Ret (ms, st2) \<and>
    sem_inv sem_val st2 \<and> contents (fst st2) = []"
proof -
  have "opos q = 0"
    using assms(1,2) contents_empty_iff [of q] by (auto simp: sem_inv_def queue_inv_def pos_defs)
  with assms sq.fifo_roundtrip [of "(q, k)" ms] show ?thesis by (simp add: sem_obs abs_queue_def)
qed

lemma sem_created:
  assumes "0 < m" "m + 48 \<le> shm_size" "shm_size < 2147483648" "length arr = shm_size - 48"
    and "\<forall>a \<in> {sem_full_key seed, sem_empty_key seed, sem_lock_key seed}. a = 0 \<or> sem_names a k = None"
  shows "sem_queue_create K arr seed shm_size m k = Exit 1 \<or>
    (\<exists>q k'. sem_queue_create K arr seed shm_size m k = Ret (int (48 + (shm_size - 48) div m * m), q, k') \<and>
      sem_inv sem_val (q, k') \<and> abs_queue q = \<lparr>msgs = [], read_off = 0\<rparr> \<and> message_size q = m \<and>
      capacity q = (shm_size - 48) div m - 1 \<and> sem_val (sem_full q) k' = Some 1 \<and>
      sem_val (sem_empty q) k' = Some 0 \<and> distinct [sem_full q, sem_empty q, sem_lock q])"
proof (cases "create_sems K seed k = Exit 1")
  case True
  then show ?thesis by (simp add: sem_queue_create_eq [OF assms(1-3)])
next
  case False
  with create_sems_ready [OF assms(5)] obtain full empty lock k' where
    c: "create_sems K seed k = Ret (full, empty, lock, k')" "sem_val full k' = Some 1"
      "sem_val empty k' = Some 0" "sem_val lock k' = Some 1" "distinct [full, empty, lock]" by auto
  define n where "n = (shm_size - 48) div m"
  have n: "0 < n" "n * m \<le> shm_size - 48"
    using assms(1,2) by (simp_all add: n_def div_greater_zero_iff)
  define q where "q = \<lparr>head = 0, tail = 0, message_size = m, message_offset = 0, queue_size = int n,
      current_count = 0, total_count = 0, stop_producer_polling = False, stop_consumer_polling = False,
      message_array = arr, sem_lock = lock, sem_full = full, sem_empty = empty\<rparr>"
  have "queue_inv q" "abs_queue q = \<lparr>msgs = [], read_off = 0\<rparr>" "capacity q = n - 1"
    by (rule fresh_ring; use assms n in \<open>simp add: q_def\<close>)+
  moreover have "sem_queue_create K arr seed shm_size m k = Ret (int (48 + n * m), q, k')"
    by (simp add: sem_queue_create_eq [OF assms(1-3)] c(1) q_def n_def)
  moreover have "message_size q = m" "sem_full q = full" "sem_empty q = empty" "sem_lock q = lock"
    "\<not> stop_consumer_polling q"
    by (simp_all add: q_def)
  ultimately show ?thesis
    using c(2-5) unfolding n_def [symmetric] by (intro disjI2 exI [of _ q] exI [of _ k']) (auto simp: sem_inv_def)
qed

end

section \<open>Properties\<close>

text \<open>
  \<open>queue_create\<close> of the semaphore queue, when no semaphore set has its keys yet, either
  ends the process because a set cannot be made, or leaves an empty well-formed queue
  whose lock is free, \<open>sem_full\<close> is 1 and \<open>sem_empty\<close> 0, on three different sets.
\<close>

theorem sem_queue_create_establishes:
  assumes "sysv_sem K sem_val sem_names" "0 < m" "m + 48 \<le> shm_size" "shm_size < 2147483648"
    and "length arr = shm_size - 48"
    and "\<forall>a \<in> {sem_full_key seed, sem_empty_key seed, sem_lock_key seed}. a = 0 \<or> sem_names a k = None"
  shows "sem_queue_create K arr seed shm_size m k = Exit 1 \<or>
    (\<exists>q k'. sem_queue_create K arr seed shm_size m k = Ret (int (48 + (shm_size - 48) div m * m), q, k') \<and>
      sem_inv sem_val (q, k') \<and> abs_queue q = \<lparr>msgs = [], read_off = 0\<rparr> \<and> message_size q = m \<and>
      capacity q = (shm_size - 48) div m - 1 \<and> sem_val (sem_full q) k' = Some 1 \<and>
      sem_val (sem_empty q) k' = Some 0 \<and> distinct [sem_full q, sem_empty q, sem_lock q])"
  using assms by (rule sysv_sem.sem_created)

theorem sem_queue_create_establishes_witness:
  "sem_queue_create (ref_sysv (\<lambda>_. ())) (replicate 8 0) 500 56 2 ref_boot = Exit 1 \<or>
    (\<exists>q k'. sem_queue_create (ref_sysv (\<lambda>_. ())) (replicate 8 0) 500 56 2 ref_boot =
        Ret (int (48 + (56 - 48) div 2 * 2), q, k') \<and>
      sem_inv ref_sem_val (q, k') \<and> abs_queue q = \<lparr>msgs = [], read_off = 0\<rparr> \<and> message_size q = 2 \<and>
      capacity q = (56 - 48) div 2 - 1 \<and> ref_sem_val (sem_full q) k' = Some 1 \<and>
      ref_sem_val (sem_empty q) k' = Some 0 \<and> distinct [sem_full q, sem_empty q, sem_lock q])"
  by (rule sem_queue_create_establishes [OF ref_sem.sysv_sem_axioms])
    (simp_all add: ref_sem_names_def ref_boot_def)

text \<open>
  C28: on every kernel whose semaphores work as documented, a list of full-size messages sent
  with \<open>sem_push\<close> to an empty semaphore queue is returned by \<open>sem_pop\<close>, in order, and the
  queue is empty and well-formed again.
\<close>

theorem sem_queue_roundtrip:
  assumes "sysv_sem K sem_val sem_names" "sem_inv sem_val (q, k)" "contents q = []"
    and "\<forall>m \<in> set ms. length m = message_size q" "length ms \<le> capacity q"
  shows "\<exists>st1 st2. send_all (sem_push K []) ms (q, k) = Ret st1 \<and>
    recv_pieces (sem_recv K) (length ms) (message_size q) st1 = Ret (ms, st2) \<and>
    sem_inv sem_val st2 \<and> contents (fst st2) = []"
  using assms by (rule sysv_sem.sem_roundtrip)

text \<open>A ring of three slots of two bytes, empty and full, on a kernel with its semaphores.\<close>

definition demo_sem :: "int \<Rightarrow> byte list \<Rightarrow> sem_spsc_queue_header" where
  "demo_sem h arr = \<lparr>head = h, tail = 0, message_size = 2, message_offset = 0, queue_size = 3,
     current_count = 0, total_count = 0, stop_producer_polling = False, stop_consumer_polling = False,
     message_array = arr, sem_lock = 2, sem_full = 0, sem_empty = 1\<rparr>"

definition demo_sems :: "nat \<Rightarrow> nat \<Rightarrow> unit ref_kernel" where
  "demo_sems f e = ref_boot\<lparr>sem_ids := [0, 1, 2],
     sems := [0 \<mapsto> \<lparr>set_key = 250, set_value = f, set_otime = 1\<rparr>,
              1 \<mapsto> \<lparr>set_key = 25, set_value = e, set_otime = 1\<rparr>,
              2 \<mapsto> \<lparr>set_key = 2, set_value = 1, set_otime = 1\<rparr>]\<rparr>"

lemma demo_sem_inv:
  "h \<in> {0, 1, 2} \<Longrightarrow> length arr = 6 \<Longrightarrow> sem_inv ref_sem_val (demo_sem h arr, demo_sems f e)"
  by (auto simp: sem_inv_def demo_sem_def demo_sems_def queue_inv_def pos_defs ref_sem_val_def lookup_sem_def)

lemma demo_sem_contents:
  "contents (demo_sem 0 arr) = []" "capacity (demo_sem h arr) = 2" "message_size (demo_sem h arr) = 2"
  "opos (demo_sem h arr) = 0"
  "contents (demo_sem 2 [1, 2, 3, 4, 0, 0]) = [[1, 2], [3, 4]]"
  by (simp_all add: demo_sem_def contents_def pos_defs capacity_def ring_idxs_def ring_len_def slots_of_def
      slot_at_def upt_rec)

theorem sem_queue_roundtrip_witness:
  "\<exists>st1 st2. send_all (sem_push (ref_sysv (\<lambda>_. ())) []) [[1, 2], [3, 4]] (demo_sem 0 (replicate 6 0), demo_sems 1 0) = Ret st1 \<and>
    recv_pieces (sem_recv (ref_sysv (\<lambda>_. ()))) (length [[1, 2], [3, 4 :: byte]]) 2 st1 = Ret ([[1, 2], [3, 4]], st2) \<and>
    sem_inv ref_sem_val st2 \<and> contents (fst st2) = []"
  using sem_queue_roundtrip [OF ref_sem.sysv_sem_axioms [of "\<lambda>_. ()"] demo_sem_inv [of 0 "replicate 6 0" 1 0],
      where ms = "[[1, 2], [3, 4]]"]
  by (simp add: demo_sem_contents del: send_all.simps recv_pieces.simps)

text \<open>
  A \<open>sem_push\<close> that finds the ring full releases the lock while it waits, so that a
  \<open>sem_pop\<close> of the other side goes through, and then resumes: it returns 0 with its
  message behind those left in the ring.
\<close>

theorem sem_push_resumes:
  assumes "sysv_sem K sem_val sem_names" "sem_inv sem_val (q, k)"
    and "length (contents q) = capacity q" "0 < capacity q" "length m = message_size q" "opos q = 0"
  shows "\<exists>q' k'. sem_push K [\<lambda>st. case sem_pop K [] st (message_size q) of Ret (r, st') \<Rightarrow> st' | _ \<Rightarrow> st]
      (q, k) m (length m) = Ret (0, q', k') \<and> sem_inv sem_val (q', k') \<and> contents q' = tl (contents q) @ [m]"
  using assms by (rule sysv_sem.sem_push_resumes_run)

theorem sem_push_resumes_witness:
  "\<exists>q' k'. sem_push (ref_sysv (\<lambda>_. ()))
      [\<lambda>st. case sem_pop (ref_sysv (\<lambda>_. ())) [] st 2 of Ret (r, st') \<Rightarrow> st' | _ \<Rightarrow> st]
      (demo_sem 2 [1, 2, 3, 4, 0, 0], demo_sems 0 1) [5, 6] (length [5, 6 :: byte]) = Ret (0, q', k') \<and>
    sem_inv ref_sem_val (q', k') \<and> contents q' = [[3, 4], [5, 6]]"
  using sem_push_resumes [OF ref_sem.sysv_sem_axioms [of "\<lambda>_. ()"] demo_sem_inv [of 2 "[1, 2, 3, 4, 0, 0]" 0 1],
      where m = "[5, 6]"]
  by (simp add: demo_sem_contents)

end
