(* ===== verification/Sem_Conc.thy ===== *)
theory Sem_Conc
  imports Sem_Queue "HOL-Library.Sublist"
begin

text \<open>
  One producer in \<open>sem_push\<close> and one consumer in \<open>sem_pop\<close> of
  \<open>src/libnotnets/src/sem_queue.cpp\<close>, interleaved. A step is one semaphore operation, one
  test of the waiting loop, or the body of a critical section: the loops read only \<open>head\<close>
  and \<open>tail\<close>, of which a critical section writes one, once, so its body is one step as far
  as the other side can tell. The semaphores are counters; a \<open>semop\<close> that would block is
  a step that is not enabled.
\<close>

section \<open>Program counters\<close>

datatype sem_producer_pc =
    SPIdle
  | SPLock "byte list" nat
  | SPCheck "byte list" nat
  | SPRelease "byte list" nat bool
  | SPLoop "byte list" nat bool
  | SPWait "byte list" nat bool
  | SPRelock "byte list" nat bool
  | SPEnq "byte list" nat bool
  | SPUnlock bool
  | SPSignal

datatype sem_consumer_pc =
    SCIdle
  | SCLock nat
  | SCCheck nat
  | SCRelease nat bool
  | SCLoop nat bool
  | SCWait nat bool
  | SCRelock nat bool
  | SCDeq nat bool
  | SCUnlock bool
  | SCSignal

text \<open>
  \<open>ssent\<close> and \<open>sgot\<close> record the history: for every message enqueued the bytes its caller
  passed to \<open>sem_push\<close>, whatever the ring holds, and the bytes handed out by \<open>sem_pop\<close>.
\<close>

record sem_sys =
  hdr :: sem_spsc_queue_header
  v_lock :: nat
  v_full :: nat
  v_empty :: nat
  sprod :: sem_producer_pc
  scons :: sem_consumer_pc
  ssent :: "byte list list"
  sgot :: "byte list"

text \<open>Incrementing a semaphore at its maximum fails, and the callers ignore it.\<close>

definition sem_up :: "nat \<Rightarrow> nat" where
  "sem_up v = (if v < 32767 then v + 1 else v)"

section \<open>Steps\<close>

inductive sem_step :: "sem_sys \<Rightarrow> sem_sys \<Rightarrow> bool" where
  spush_call:
    "sprod s = SPIdle \<Longrightarrow> n \<le> message_size (hdr s) \<Longrightarrow> n \<le> length buf \<Longrightarrow>
     sem_step s (s\<lparr>sprod := SPLock buf n\<rparr>)"
| spush_lock:
    "sprod s = SPLock buf n \<Longrightarrow> v_lock s = Suc v \<Longrightarrow>
     sem_step s (s\<lparr>v_lock := v, sprod := SPCheck buf n\<rparr>)"
| spush_check:
    "sprod s = SPCheck buf n \<Longrightarrow> is_full (hdr s) = Ret full \<Longrightarrow>
     sem_step s (s\<lparr>sprod := (if full then SPRelease buf n (is_empty (hdr s)) else SPEnq buf n (is_empty (hdr s)))\<rparr>)"
| spush_release:
    "sprod s = SPRelease buf n wase \<Longrightarrow>
     sem_step s (s\<lparr>v_lock := sem_up (v_lock s), sprod := SPLoop buf n wase\<rparr>)"
| spush_loop:
    "sprod s = SPLoop buf n wase \<Longrightarrow> is_full (hdr s) = Ret full \<Longrightarrow>
     sem_step s (s\<lparr>sprod := (if full then SPWait buf n wase else SPRelock buf n wase)\<rparr>)"
| spush_wait:
    "sprod s = SPWait buf n wase \<Longrightarrow> v_full s = Suc v \<Longrightarrow>
     sem_step s (s\<lparr>v_full := v, sprod := SPLoop buf n wase\<rparr>)"
| spush_relock:
    "sprod s = SPRelock buf n wase \<Longrightarrow> v_lock s = Suc v \<Longrightarrow>
     sem_step s (s\<lparr>v_lock := v, sprod := SPEnq buf n wase\<rparr>)"
| spush_enqueue:
    "sprod s = SPEnq buf n wase \<Longrightarrow> enqueue (hdr s) buf n = Ret q' \<Longrightarrow>
     sem_step s (s\<lparr>hdr := q', sprod := SPUnlock wase, ssent := ssent s @ [take n buf]\<rparr>)"
| spush_unlock:
    "sprod s = SPUnlock wase \<Longrightarrow>
     sem_step s (s\<lparr>v_lock := sem_up (v_lock s), sprod := (if wase then SPSignal else SPIdle)\<rparr>)"
| spush_signal:
    "sprod s = SPSignal \<Longrightarrow> sem_step s (s\<lparr>v_empty := sem_up (v_empty s), sprod := SPIdle\<rparr>)"
| spop_call:
    "scons s = SCIdle \<Longrightarrow> \<not> stop_consumer_polling (hdr s) \<Longrightarrow> n < 9223372036854775808 \<Longrightarrow>
     sem_step s (s\<lparr>scons := SCLock n\<rparr>)"
| spop_lock:
    "scons s = SCLock n \<Longrightarrow> v_lock s = Suc v \<Longrightarrow> sem_step s (s\<lparr>v_lock := v, scons := SCCheck n\<rparr>)"
| spop_check:
    "scons s = SCCheck n \<Longrightarrow> is_full (hdr s) = Ret wasf \<Longrightarrow>
     sem_step s (s\<lparr>scons := (if is_empty (hdr s) then SCRelease n wasf else SCDeq n wasf)\<rparr>)"
| spop_release:
    "scons s = SCRelease n wasf \<Longrightarrow>
     sem_step s (s\<lparr>v_lock := sem_up (v_lock s), scons := SCLoop n wasf\<rparr>)"
| spop_loop:
    "scons s = SCLoop n wasf \<Longrightarrow>
     sem_step s (s\<lparr>scons := (if is_empty (hdr s) then SCWait n wasf else SCRelock n wasf)\<rparr>)"
| spop_wait:
    "scons s = SCWait n wasf \<Longrightarrow> v_empty s = Suc v \<Longrightarrow>
     sem_step s (s\<lparr>v_empty := v, scons := SCLoop n wasf\<rparr>)"
| spop_relock:
    "scons s = SCRelock n wasf \<Longrightarrow> v_lock s = Suc v \<Longrightarrow>
     sem_step s (s\<lparr>v_lock := v, scons := SCDeq n wasf\<rparr>)"
| spop_dequeue:
    "scons s = SCDeq n wasf \<Longrightarrow> dequeue (hdr s) n = Ret (r, q') \<Longrightarrow>
     sem_step s (s\<lparr>hdr := q', scons := SCUnlock wasf, sgot := sgot s @ pop_out r\<rparr>)"
| spop_unlock:
    "scons s = SCUnlock wasf \<Longrightarrow>
     sem_step s (s\<lparr>v_lock := sem_up (v_lock s), scons := (if wasf then SCSignal else SCIdle)\<rparr>)"
| spop_signal:
    "scons s = SCSignal \<Longrightarrow> sem_step s (s\<lparr>v_full := sem_up (v_full s), scons := SCIdle\<rparr>)"

text \<open>The state \<open>queue_create\<close> leaves, and the runs from it all of whose states satisfy \<open>ok\<close>.\<close>

definition sem_start :: "sem_spsc_queue_header \<Rightarrow> sem_sys" where
  "sem_start q = \<lparr>hdr = q, v_lock = 1, v_full = 1, v_empty = 0, sprod = SPIdle, scons = SCIdle,
     ssent = [], sgot = []\<rparr>"

inductive sem_run :: "(sem_sys \<Rightarrow> bool) \<Rightarrow> sem_spsc_queue_header \<Rightarrow> sem_sys \<Rightarrow> bool" for ok q where
  run_start: "sem_run ok q (sem_start q)"
| run_step: "sem_run ok q s \<Longrightarrow> sem_step s t \<Longrightarrow> ok t \<Longrightarrow> sem_run ok q t"

section \<open>Invariant\<close>

fun holds_p :: "sem_producer_pc \<Rightarrow> nat" where
  "holds_p (SPCheck _ _) = 1"
| "holds_p (SPRelease _ _ _) = 1"
| "holds_p (SPEnq _ _ _) = 1"
| "holds_p (SPUnlock _) = 1"
| "holds_p _ = 0"

fun holds_c :: "sem_consumer_pc \<Rightarrow> nat" where
  "holds_c (SCCheck _) = 1"
| "holds_c (SCRelease _ _) = 1"
| "holds_c (SCDeq _ _) = 1"
| "holds_c (SCUnlock _) = 1"
| "holds_c _ = 0"

fun sprod_ok :: "sem_spsc_queue_header \<Rightarrow> sem_producer_pc \<Rightarrow> bool" where
  "sprod_ok q (SPLock buf n) = (n \<le> message_size q \<and> n \<le> length buf)"
| "sprod_ok q (SPCheck buf n) = (n \<le> message_size q \<and> n \<le> length buf)"
| "sprod_ok q (SPRelease buf n wase) = (n \<le> message_size q \<and> n \<le> length buf)"
| "sprod_ok q (SPLoop buf n wase) = (n \<le> message_size q \<and> n \<le> length buf)"
| "sprod_ok q (SPWait buf n wase) = (n \<le> message_size q \<and> n \<le> length buf)"
| "sprod_ok q (SPRelock buf n wase) = (n \<le> message_size q \<and> n \<le> length buf \<and> length (contents q) < capacity q)"
| "sprod_ok q (SPEnq buf n wase) = (n \<le> message_size q \<and> n \<le> length buf \<and> length (contents q) < capacity q)"
| "sprod_ok q _ = True"

fun scons_ok :: "sem_spsc_queue_header \<Rightarrow> sem_consumer_pc \<Rightarrow> bool" where
  "scons_ok q (SCLock n) = (n < 9223372036854775808)"
| "scons_ok q (SCCheck n) = (n < 9223372036854775808)"
| "scons_ok q (SCRelease n wasf) = (n < 9223372036854775808)"
| "scons_ok q (SCLoop n wasf) = (n < 9223372036854775808)"
| "scons_ok q (SCWait n wasf) = (n < 9223372036854775808)"
| "scons_ok q (SCRelock n wasf) = (n < 9223372036854775808 \<and> contents q \<noteq> [])"
| "scons_ok q (SCDeq n wasf) = (n < 9223372036854775808 \<and> contents q \<noteq> [])"
| "scons_ok q _ = True"

definition stream_kept :: "sem_sys \<Rightarrow> bool" where
  "stream_kept s \<longleftrightarrow>
     (\<exists>ms. list_all2 (carries (message_size (hdr s))) (ssent s) ms \<and>
        sgot s @ fifo_stream (abs_queue (hdr s)) = concat ms)"

definition sys_inv :: "sem_sys \<Rightarrow> bool" where
  "sys_inv s \<longleftrightarrow>
     queue_inv (hdr s) \<and> v_lock s + holds_p (sprod s) + holds_c (scons s) = 1 \<and>
     sprod_ok (hdr s) (sprod s) \<and> scons_ok (hdr s) (scons s) \<and>
     stream_kept s"

lemma sem_up_0 [simp]: "sem_up 0 = 1" "0 < sem_up v" "sem_up v \<noteq> 0"
  by (simp_all add: sem_up_def)

text \<open>The critical sections keep the ring and the stream.\<close>

lemma enqueue_keeps:
  assumes inv: "queue_inv q" and n: "n \<le> message_size q" "n \<le> length buf"
    and room: "length (contents q) < capacity q" and e: "enqueue q buf n = Ret q'"
  shows "queue_inv q'" "message_size q' = message_size q" "contents q' = contents q @ [slots_of q' (hpos q)]"
    "fifo_stream (abs_queue q') = fifo_stream (abs_queue q) @ slots_of q' (hpos q)"
    "carries (message_size q) (take n buf) (slots_of q' (hpos q))"
    "stop_consumer_polling q' = stop_consumer_polling q" "capacity q' = capacity q"
proof -
  have q': "q' = enqueued q buf n" using e enqueue_eq [OF inv n(1)] n(2) by simp
  have room': "length (contents q) \<noteq> capacity q" using room by simp
  show "queue_inv q'" "message_size q' = message_size q" "stop_consumer_polling q' = stop_consumer_polling q"
    "capacity q' = capacity q"
    using pushed_inv [OF inv n room'] by (simp_all add: q')
  have slot: "slots_of q' (hpos q) = overlay buf n (slots_of q (hpos q))"
    using slots_of_pushed [OF inv n queue_invD(1) [OF inv]] by (simp add: q' enqueued_def slots_of_def)
  have "length (slots_of q (hpos q)) = message_size q"
    using slot_in_array [OF inv queue_invD(1) [OF inv]] by (simp add: slots_of_def)
  then show "carries (message_size q) (take n buf) (slots_of q' (hpos q))"
    unfolding slot by (rule carries_overlay [OF n(2,1)])
  show c: "contents q' = contents q @ [slots_of q' (hpos q)]"
    unfolding slot using contents_pushed [OF inv n room'] by (simp add: q')
  have "opos q \<le> length (concat (contents q))"
  proof (cases "contents q")
    case Nil
    then have "opos q = 0"
      using contents_empty_iff [OF inv] inv by (auto simp: queue_inv_def pos_defs)
    then show ?thesis by simp
  next
    case (Cons m ms)
    then have "length m = message_size q" using message_length [OF inv, of m] by simp
    with Cons queue_invD(8) [OF inv] show ?thesis by simp
  qed
  then show "fifo_stream (abs_queue q') = fifo_stream (abs_queue q) @ slots_of q' (hpos q)"
    using c by (simp add: fifo_stream_def abs_queue_def q')
qed

lemma dequeue_keeps:
  assumes inv: "queue_inv q" and n: "n < 9223372036854775808" and ne: "contents q \<noteq> []"
    and d: "dequeue q n = Ret (r, q')"
  shows "queue_inv q'" "message_size q' = message_size q" "length (contents q') \<le> length (contents q)"
    "fifo_stream (abs_queue q) = pop_out r @ fifo_stream (abs_queue q')"
    "stop_consumer_polling q' = stop_consumer_polling q" "capacity q' = capacity q"
proof -
  define c where "c = min n (message_size q - opos q)"
  have c: "opos q + c \<le> message_size q" using queue_invD(8) [OF inv] by (simp add: c_def)
  have q': "q' = dequeued q c" and out: "pop_out r = take c (drop (opos q) (hd (contents q)))"
    using d by (auto simp: dequeue_eq [OF inv n ne] Let_def c_def)
  show "queue_inv q'" "message_size q' = message_size q" "stop_consumer_polling q' = stop_consumer_polling q"
    "capacity q' = capacity q"
    using dequeued_inv [OF inv ne c] by (simp_all add: q')
  show "length (contents q') \<le> length (contents q)"
    using dequeued_whole(1) [OF inv ne, of c] by (cases "opos q + c = message_size q") (auto simp: q' dequeued_def)
  have "length (hd (contents q)) = message_size q" using message_length [OF inv] ne by simp
  then show "fifo_stream (abs_queue q) = pop_out r @ fifo_stream (abs_queue q')"
    using fifo_pop_stream [OF dequeue_abs [OF inv ne c_def]] queue_invD(8) [OF inv]
    by (simp add: out q' abs_queue_def)
qed

lemma sprod_ok_dequeue:
  "sprod_ok q p \<Longrightarrow> message_size q' = message_size q \<Longrightarrow> capacity q' = capacity q \<Longrightarrow>
   length (contents q') \<le> length (contents q) \<Longrightarrow> sprod_ok q' p"
  by (cases p) auto

lemma scons_ok_enqueue: "scons_ok q c \<Longrightarrow> contents q' = contents q @ [m] \<Longrightarrow> scons_ok q' c"
  by (cases c) auto

lemma stream_kept_enqueue:
  assumes "stream_kept s" "message_size q' = message_size (hdr s)"
    "fifo_stream (abs_queue q') = fifo_stream (abs_queue (hdr s)) @ m"
    "carries (message_size (hdr s)) (take n buf) m"
  shows "stream_kept (s\<lparr>hdr := q', sprod := p, ssent := ssent s @ [take n buf]\<rparr>)"
proof -
  obtain ms where "list_all2 (carries (message_size (hdr s))) (ssent s) ms"
    "sgot s @ fifo_stream (abs_queue (hdr s)) = concat ms"
    using assms(1) by (auto simp: stream_kept_def)
  with assms(2-4) show ?thesis
    unfolding stream_kept_def
    by (intro exI [of _ "ms @ [m]"]) (simp add: list_all2_appendI flip: append.assoc)
qed

lemma stream_kept_simps [simp]:
  "stream_kept (s\<lparr>sprod := p\<rparr>) = stream_kept s" "stream_kept (s\<lparr>scons := c\<rparr>) = stream_kept s"
  "stream_kept (s\<lparr>v_lock := v\<rparr>) = stream_kept s" "stream_kept (s\<lparr>v_full := v\<rparr>) = stream_kept s"
  "stream_kept (s\<lparr>v_empty := v\<rparr>) = stream_kept s"
  by (simp_all add: stream_kept_def)

lemma sem_step_inv: "sem_step s t \<Longrightarrow> sys_inv s \<Longrightarrow> sys_inv t"
proof (induction rule: sem_step.induct)
  case (spush_check s buf n full)
  then show ?case
    using contents_le_capacity [of "hdr s"] by (auto simp: sys_inv_def is_full_eq)
next
  case (spush_loop s buf n wase full)
  then show ?case
    using contents_le_capacity [of "hdr s"] by (auto simp: sys_inv_def is_full_eq)
next
  case (spush_enqueue s buf n wase q')
  then have i: "queue_inv (hdr s)" "n \<le> message_size (hdr s)" "n \<le> length buf"
    "length (contents (hdr s)) < capacity (hdr s)" by (simp_all add: sys_inv_def)
  note k = enqueue_keeps [OF i spush_enqueue.hyps(2)]
  have "stream_kept (s\<lparr>hdr := q', sprod := SPUnlock wase, ssent := ssent s @ [take n buf]\<rparr>)"
    using spush_enqueue.prems k by (intro stream_kept_enqueue) (auto simp: sys_inv_def)
  with spush_enqueue k show ?case by (auto simp: sys_inv_def intro: scons_ok_enqueue)
next
  case (spop_dequeue s n wasf r q')
  then have i: "queue_inv (hdr s)" "n < 9223372036854775808" "contents (hdr s) \<noteq> []"
    by (simp_all add: sys_inv_def)
  note k = dequeue_keeps [OF i spop_dequeue.hyps(2)]
  have "stream_kept (s\<lparr>hdr := q', scons := SCUnlock wasf, sgot := sgot s @ pop_out r\<rparr>)"
    using spop_dequeue.prems k by (simp add: sys_inv_def stream_kept_def)
  with spop_dequeue k show ?case by (auto simp: sys_inv_def intro: sprod_ok_dequeue)
next
  case (spop_check s n wasf)
  then show ?case by (auto simp: sys_inv_def is_empty_eq)
next
  case (spop_loop s n wasf)
  then show ?case by (auto simp: sys_inv_def is_empty_eq)
qed (auto simp: sys_inv_def)

lemma sem_run_inv:
  assumes "sem_run ok q s" "queue_inv q" "abs_queue q = \<lparr>msgs = [], read_off = 0\<rparr>"
  shows "sys_inv s"
  using assms(1)
  by induction (use assms(2,3) sem_step_inv in \<open>auto simp: sys_inv_def stream_kept_def sem_start_def fifo_stream_def\<close>)

lemma sem_run_message_size: "sem_run ok q s \<Longrightarrow> message_size (hdr s) = message_size q"
proof (induction rule: sem_run.induct)
  case (run_step s t)
  from run_step(2,4) show ?case
    by cases (auto simp: enqueue_def dequeue_def Let_def bind_out_eq_Ret split: if_splits)
qed (simp add: sem_start_def)

section \<open>When nothing is lost\<close>

text \<open>Runs in which \<open>sem_push\<close> never finds the ring full.\<close>

definition never_full :: "sem_sys \<Rightarrow> bool" where
  "never_full s = (case sprod s of SPRelease _ _ _ \<Rightarrow> False | _ \<Rightarrow> True)"

definition wake_inv :: "sem_sys \<Rightarrow> bool" where
  "wake_inv s \<longleftrightarrow> sys_inv s \<and>
     (case sprod s of
        SPEnq buf n wase \<Rightarrow> wase = (contents (hdr s) = [])
      | SPRelease _ _ _ \<Rightarrow> False | SPLoop _ _ _ \<Rightarrow> False | SPWait _ _ _ \<Rightarrow> False | SPRelock _ _ _ \<Rightarrow> False
      | _ \<Rightarrow> True) \<and>
     (\<forall>n wasf. scons s = SCWait n wasf \<longrightarrow> v_empty s = 0 \<longrightarrow>
        contents (hdr s) = [] \<or> sprod s = SPUnlock True \<or> sprod s = SPSignal)"

lemma wake_step:
  assumes "sem_step s t" "wake_inv s" "never_full t"
  shows "wake_inv t"
proof -
  have t: "sys_inv t" using assms sem_step_inv by (simp add: wake_inv_def)
  have s: "sys_inv s" using assms(2) by (simp add: wake_inv_def)
  then have inv: "queue_inv (hdr s)" and lock: "v_lock s + holds_p (sprod s) + holds_c (scons s) = 1"
    by (simp_all add: sys_inv_def)
  from assms(1) show ?thesis
  proof cases
    case (spush_check buf n full)
    with assms(2,3) t inv show ?thesis by (auto simp: wake_inv_def never_full_def is_empty_eq split: if_splits)
  next
    case (spop_loop n wasf)
    with assms(2) t inv show ?thesis
      by (auto simp: wake_inv_def is_empty_eq split: sem_producer_pc.splits)
  next
    case (spop_dequeue n wasf r q')
    then have "holds_p (sprod s) = 0" using lock by simp
    with spop_dequeue assms(2) t show ?thesis
      by (auto simp: wake_inv_def split: sem_producer_pc.splits)
  qed (use assms(2) t in \<open>auto simp: wake_inv_def split: sem_producer_pc.splits if_splits\<close>)
qed

lemma wake_run:
  assumes "sem_run never_full q s" "queue_inv q" "abs_queue q = \<lparr>msgs = [], read_off = 0\<rparr>"
  shows "wake_inv s"
  using assms(1)
proof induction
  case run_start
  have "sys_inv (sem_start q)" using sem_run_inv [OF sem_run.run_start assms(2,3)] .
  then show ?case by (simp add: wake_inv_def sem_start_def)
next
  case (run_step s t)
  then show ?case using wake_step by blast
qed

section \<open>An executable scheduler\<close>

text \<open>The next step of each side, if it is enabled; a call is made with the given arguments.\<close>

definition producer_step :: "byte list \<Rightarrow> nat \<Rightarrow> sem_sys \<Rightarrow> sem_sys option" where
  "producer_step b m s =
     (case sprod s of
        SPIdle \<Rightarrow> if m \<le> message_size (hdr s) \<and> m \<le> length b then Some (s\<lparr>sprod := SPLock b m\<rparr>) else None
      | SPLock buf n \<Rightarrow> if v_lock s = 0 then None else Some (s\<lparr>v_lock := v_lock s - 1, sprod := SPCheck buf n\<rparr>)
      | SPCheck buf n \<Rightarrow>
          (case is_full (hdr s) of
             Ret full \<Rightarrow> Some (s\<lparr>sprod := (if full then SPRelease buf n (is_empty (hdr s)) else SPEnq buf n (is_empty (hdr s)))\<rparr>)
           | _ \<Rightarrow> None)
      | SPRelease buf n e \<Rightarrow> Some (s\<lparr>v_lock := sem_up (v_lock s), sprod := SPLoop buf n e\<rparr>)
      | SPLoop buf n e \<Rightarrow>
          (case is_full (hdr s) of
             Ret full \<Rightarrow> Some (s\<lparr>sprod := (if full then SPWait buf n e else SPRelock buf n e)\<rparr>)
           | _ \<Rightarrow> None)
      | SPWait buf n e \<Rightarrow> if v_full s = 0 then None else Some (s\<lparr>v_full := v_full s - 1, sprod := SPLoop buf n e\<rparr>)
      | SPRelock buf n e \<Rightarrow> if v_lock s = 0 then None else Some (s\<lparr>v_lock := v_lock s - 1, sprod := SPEnq buf n e\<rparr>)
      | SPEnq buf n e \<Rightarrow>
          (case enqueue (hdr s) buf n of
             Ret q' \<Rightarrow> Some (s\<lparr>hdr := q', sprod := SPUnlock e, ssent := ssent s @ [take n buf]\<rparr>)
           | _ \<Rightarrow> None)
      | SPUnlock e \<Rightarrow> Some (s\<lparr>v_lock := sem_up (v_lock s), sprod := (if e then SPSignal else SPIdle)\<rparr>)
      | SPSignal \<Rightarrow> Some (s\<lparr>v_empty := sem_up (v_empty s), sprod := SPIdle\<rparr>))"

definition consumer_step :: "nat \<Rightarrow> sem_sys \<Rightarrow> sem_sys option" where
  "consumer_step m s =
     (case scons s of
        SCIdle \<Rightarrow> if \<not> stop_consumer_polling (hdr s) \<and> m < 9223372036854775808 then Some (s\<lparr>scons := SCLock m\<rparr>) else None
      | SCLock n \<Rightarrow> if v_lock s = 0 then None else Some (s\<lparr>v_lock := v_lock s - 1, scons := SCCheck n\<rparr>)
      | SCCheck n \<Rightarrow>
          (case is_full (hdr s) of
             Ret f \<Rightarrow> Some (s\<lparr>scons := (if is_empty (hdr s) then SCRelease n f else SCDeq n f)\<rparr>)
           | _ \<Rightarrow> None)
      | SCRelease n f \<Rightarrow> Some (s\<lparr>v_lock := sem_up (v_lock s), scons := SCLoop n f\<rparr>)
      | SCLoop n f \<Rightarrow> Some (s\<lparr>scons := (if is_empty (hdr s) then SCWait n f else SCRelock n f)\<rparr>)
      | SCWait n f \<Rightarrow> if v_empty s = 0 then None else Some (s\<lparr>v_empty := v_empty s - 1, scons := SCLoop n f\<rparr>)
      | SCRelock n f \<Rightarrow> if v_lock s = 0 then None else Some (s\<lparr>v_lock := v_lock s - 1, scons := SCDeq n f\<rparr>)
      | SCDeq n f \<Rightarrow>
          (case dequeue (hdr s) n of
             Ret (r, q') \<Rightarrow> Some (s\<lparr>hdr := q', scons := SCUnlock f, sgot := sgot s @ pop_out r\<rparr>)
           | _ \<Rightarrow> None)
      | SCUnlock f \<Rightarrow> Some (s\<lparr>v_lock := sem_up (v_lock s), scons := (if f then SCSignal else SCIdle)\<rparr>)
      | SCSignal \<Rightarrow> Some (s\<lparr>v_full := sem_up (v_full s), scons := SCIdle\<rparr>))"

lemma producer_step_sound: "producer_step b m s = Some t \<Longrightarrow> sem_step s t"
  by (auto simp: producer_step_def gr0_conv_Suc split: sem_producer_pc.splits if_splits outcome.splits
      intro: sem_step.intros)
    (fastforce dest: sem_step.spush_check sem_step.spush_loop sem_step.spush_unlock)+

lemma consumer_step_sound: "consumer_step m s = Some t \<Longrightarrow> sem_step s t"
  by (auto simp: consumer_step_def gr0_conv_Suc split: sem_consumer_pc.splits if_splits outcome.splits
      intro: sem_step.intros)
    (fastforce dest: sem_step.spop_check sem_step.spop_loop sem_step.spop_unlock)+

text \<open>A schedule: \<open>True\<close> lets the producer make a step, \<open>False\<close> the consumer; all states are \<open>ok\<close>.\<close>

fun schedule :: "(sem_sys \<Rightarrow> bool) \<Rightarrow> byte list \<Rightarrow> nat \<Rightarrow> bool list \<Rightarrow> sem_sys \<Rightarrow> sem_sys option" where
  "schedule ok b m [] s = Some s"
| "schedule ok b m (p # ps) s =
     Option.bind (if p then producer_step b m s else consumer_step m s)
       (\<lambda>t. if ok t then schedule ok b m ps t else None)"

lemma schedule_run: "schedule ok b m ps s = Some t \<Longrightarrow> sem_run ok q s \<Longrightarrow> sem_run ok q t"
proof (induction ps arbitrary: s)
  case (Cons p ps)
  then obtain u where u: "(if p then producer_step b m s else consumer_step m s) = Some u" "ok u"
    "schedule ok b m ps u = Some t"
    by (auto simp: bind_eq_Some_conv split: if_splits)
  then have "sem_step s u" using producer_step_sound consumer_step_sound by (metis (full_types))
  with Cons u show ?case by (blast intro: run_step)
qed simp

text \<open>If neither side has a step, the system is stuck.\<close>

lemma both_waiting_stuck:
  assumes "sprod s = SPWait buf n e" "v_full s = 0" "scons s = SCWait m f" "v_empty s = 0"
  shows "\<not> sem_step s t"
  using assms by (auto elim: sem_step.cases)

definition demo_ring :: "int \<Rightarrow> int \<Rightarrow> byte list \<Rightarrow> int \<Rightarrow> int \<Rightarrow> sem_spsc_queue_header" where
  "demo_ring h t arr cc tc = \<lparr>head = h, tail = t, message_size = 1, message_offset = 0, queue_size = 2,
     current_count = cc, total_count = tc, stop_producer_polling = False, stop_consumer_polling = False,
     message_array = arr, sem_lock = 2, sem_full = 0, sem_empty = 1\<rparr>"

lemmas demo_eval = producer_step_def consumer_step_def is_full_def is_empty_def succ_def cmod_def cdiv_def i32_def
  enqueue_def dequeue_def memcpy_to_def memcpy_from_def clamp_size_def sz_add_def sz_sub_def u64_def
  read_offset_def sz_mul_def demo_ring_def sem_start_def sem_up_def slots_of_def slot_at_def hpos_def

definition demo_schedule :: "bool list" where
  "demo_schedule =
     [True, True, True, True, True, True] @
     [True, True, True, True, True, True, True] @
     [False, False, False, False, False, False] @
     [False, False, False, False, False, False, False] @
     [True, True, True, True, True] @
     [True, True, True, True, True]"

lemma demo_deadlock:
  "\<exists>s. schedule (\<lambda>_. True) [7] 1 demo_schedule (sem_start (demo_ring 0 0 [0, 0] 0 0)) = Some s \<and>
     (\<exists>buf n e. sprod s = SPWait buf n e) \<and> v_full s = 0 \<and> (\<exists>n f. scons s = SCWait n f) \<and> v_empty s = 0 \<and>
     head (hdr s) \<noteq> tail (hdr s)"
  by (auto simp: demo_eval demo_schedule_def)

lemma demo_ring_ok:
  "queue_inv (demo_ring 0 0 [0, 0] 0 0)" "abs_queue (demo_ring 0 0 [0, 0] 0 0) = \<lparr>msgs = [], read_off = 0\<rparr>"
  by (simp_all add: demo_ring_def queue_inv_def pos_defs abs_queue_def contents_def ring_idxs_def)

section \<open>Properties\<close>

text \<open>
  C23: mutual exclusion: the lock is held by at most one side, a producer in its critical
  section has room for its message and appends it, a consumer in its own has a message.
\<close>

theorem sem_mutual_exclusion:
  assumes "queue_inv q" "abs_queue q = \<lparr>msgs = [], read_off = 0\<rparr>" "sem_run (\<lambda>_. True) q s"
  shows "v_lock s + holds_p (sprod s) + holds_c (scons s) = 1 \<and>
    (\<forall>buf n wase. sprod s = SPEnq buf n wase \<longrightarrow>
      (\<exists>q'. enqueue (hdr s) buf n = Ret q' \<and> contents q' = contents (hdr s) @ [slots_of q' (hpos (hdr s))])) \<and>
    (\<forall>n wasf. scons s = SCDeq n wasf \<longrightarrow> (\<exists>r q'. dequeue (hdr s) n = Ret (r, q') \<and> queue_inv q'))"
proof -
  have inv: "sys_inv s" by (rule sem_run_inv [OF assms(3,1,2)])
  then have qi: "queue_inv (hdr s)" by (simp add: sys_inv_def)
  have "\<exists>q'. enqueue (hdr s) buf n = Ret q' \<and> contents q' = contents (hdr s) @ [slots_of q' (hpos (hdr s))]"
    if p: "sprod s = SPEnq buf n wase" for buf n wase
  proof -
    from inv p have i: "n \<le> message_size (hdr s)" "n \<le> length buf" "length (contents (hdr s)) < capacity (hdr s)"
      by (simp_all add: sys_inv_def)
    then have e: "enqueue (hdr s) buf n = Ret (enqueued (hdr s) buf n)" by (simp add: enqueue_eq [OF qi])
    show ?thesis using e enqueue_keeps(3) [OF qi i e] by blast
  qed
  moreover have "\<exists>r q'. dequeue (hdr s) n = Ret (r, q') \<and> queue_inv q'" if c: "scons s = SCDeq n wasf" for n wasf
  proof -
    from inv c have i: "n < 9223372036854775808" "contents (hdr s) \<noteq> []" by (simp_all add: sys_inv_def)
    obtain r q' where d: "dequeue (hdr s) n = Ret (r, q')" by (simp add: dequeue_eq [OF qi i] Let_def)
    show ?thesis using d dequeue_keeps(1) [OF qi i d] by blast
  qed
  ultimately show ?thesis using inv by (simp add: sys_inv_def)
qed

text \<open>
  C6: under every interleaving the bytes \<open>sem_pop\<close> has handed out, followed by the bytes still
  unread in the ring, are a sequence of messages of \<open>message_size\<close> bytes, one for every
  message enqueued, in order, each beginning with the bytes its \<open>sem_push\<close> was given; when
  every call passed a full message they are exactly the buffers passed in.
\<close>

theorem sem_conc_fifo:
  assumes "queue_inv q" "abs_queue q = \<lparr>msgs = [], read_off = 0\<rparr>" "sem_run (\<lambda>_. True) q s"
  shows "(\<exists>ms. list_all2 (carries (message_size q)) (ssent s) ms \<and>
      sgot s @ fifo_stream (abs_queue (hdr s)) = concat ms) \<and>
    ((\<forall>p\<in>set (ssent s). length p = message_size q) \<longrightarrow>
      sgot s @ fifo_stream (abs_queue (hdr s)) = concat (ssent s))"
proof -
  have "\<exists>ms. list_all2 (carries (message_size q)) (ssent s) ms \<and>
      sgot s @ fifo_stream (abs_queue (hdr s)) = concat ms"
    using sem_run_inv [OF assms(3,1,2)] sem_run_message_size [OF assms(3)]
    by (simp add: sys_inv_def stream_kept_def)
  then show ?thesis using all_carries_full by metis
qed

text \<open>
  C24: the wake-up can be lost: \<open>was_empty\<close> is computed before \<open>sem_push\<close> waits for room, so
  a consumer that drained the ring meanwhile and went to sleep is not signalled. On a
  ring of two slots both sides end up waiting for ever while a message is in the ring.
\<close>

theorem sem_lost_wakeup:
  "\<exists>s. sem_run (\<lambda>_. True) (demo_ring 0 0 [0, 0] 0 0) s \<and> contents (hdr s) \<noteq> [] \<and>
     (\<exists>n wasf. scons s = SCWait n wasf) \<and> (\<forall>t. \<not> sem_step s t)"
proof -
  obtain s where s: "schedule (\<lambda>_. True) [7] 1 demo_schedule (sem_start (demo_ring 0 0 [0, 0] 0 0)) = Some s"
    "\<exists>buf n e. sprod s = SPWait buf n e" "v_full s = 0" "\<exists>n f. scons s = SCWait n f" "v_empty s = 0"
    "head (hdr s) \<noteq> tail (hdr s)"
    using demo_deadlock by blast
  have run: "sem_run (\<lambda>_. True) (demo_ring 0 0 [0, 0] 0 0) s"
    by (rule schedule_run [OF s(1) run_start])
  then have "queue_inv (hdr s)" using sem_run_inv [OF run demo_ring_ok] by (simp add: sys_inv_def)
  then have "contents (hdr s) \<noteq> []" using s(6) by (simp add: contents_empty_iff)
  with run s both_waiting_stuck show ?thesis by blast
qed

text \<open>
  C25: as long as \<open>sem_push\<close> has never found the ring full, no wake-up is lost: a consumer
  that waits on an unavailable \<open>sem_empty\<close> does so on an empty ring, or the producer is
  about to post.
\<close>

theorem sem_no_lost_wakeup:
  assumes "queue_inv q" "abs_queue q = \<lparr>msgs = [], read_off = 0\<rparr>" "sem_run never_full q s"
    and "scons s = SCWait n wasf" "v_empty s = 0"
  shows "contents (hdr s) = [] \<or> sprod s = SPUnlock True \<or> sprod s = SPSignal"
  using wake_run [OF assms(3,1,2)] assms(4,5) by (simp add: wake_inv_def)

text \<open>Concrete runs of the two-slot ring.\<close>

lemma demo_producer_in:
  "\<exists>s. schedule (\<lambda>_. True) [7] 1 [True, True, True] (sem_start (demo_ring 0 0 [0, 0] 0 0)) = Some s \<and> sprod s = SPEnq [7] 1 True \<and>
     hdr s = demo_ring 0 0 [0, 0] 0 0 \<and> ssent s = [] \<and> sgot s = []"
  by (simp add: demo_eval)

theorem sem_mutual_exclusion_witness:
  "\<exists>s q'. sem_run (\<lambda>_. True) (demo_ring 0 0 [0, 0] 0 0) s \<and> sprod s = SPEnq [7] 1 True \<and>
     holds_c (scons s) = 0 \<and> enqueue (hdr s) [7] 1 = Ret q'"
proof -
  from demo_producer_in obtain s where s: "schedule (\<lambda>_. True) [7] 1 [True, True, True] (sem_start (demo_ring 0 0 [0, 0] 0 0)) = Some s"
    "sprod s = SPEnq [7] 1 True" by blast
  have run: "sem_run (\<lambda>_. True) (demo_ring 0 0 [0, 0] 0 0) s" by (rule schedule_run [OF s(1) run_start])
  from sem_mutual_exclusion [OF demo_ring_ok run] s(2) run show ?thesis by auto
qed

theorem sem_conc_fifo_witness:
  "\<exists>s. sem_run (\<lambda>_. True) (demo_ring 0 0 [0, 0] 0 0) s \<and> ssent s = [[7], [7]] \<and> sgot s = [7] \<and>
     fifo_stream (abs_queue (hdr s)) = [7]"
proof -
  have "\<exists>s. schedule (\<lambda>_. True) [7] 1 demo_schedule (sem_start (demo_ring 0 0 [0, 0] 0 0)) = Some s \<and>
      ssent s = [[7], [7]] \<and> sgot s = [7]"
    by (simp add: demo_eval demo_schedule_def)
  then obtain s where s: "schedule (\<lambda>_. True) [7] 1 demo_schedule (sem_start (demo_ring 0 0 [0, 0] 0 0)) = Some s"
    "ssent s = [[7], [7]]" "sgot s = [7]" by blast
  have run: "sem_run (\<lambda>_. True) (demo_ring 0 0 [0, 0] 0 0) s" by (rule schedule_run [OF s(1) run_start])
  from sem_conc_fifo [OF demo_ring_ok run] s run show ?thesis by (auto simp: demo_ring_def)
qed

theorem sem_no_lost_wakeup_witness:
  "\<exists>s. sem_run never_full (demo_ring 0 0 [0, 0] 0 0) s \<and> scons s = SCWait 1 False \<and> v_empty s = 0 \<and>
     (contents (hdr s) = [] \<or> sprod s = SPUnlock True \<or> sprod s = SPSignal)"
proof -
  have "\<exists>s. schedule never_full [7] 1 [False, False, False, False, False] (sem_start (demo_ring 0 0 [0, 0] 0 0)) = Some s \<and>
      scons s = SCWait 1 False \<and> v_empty s = 0"
    by (simp add: demo_eval never_full_def)
  then obtain s where s: "schedule never_full [7] 1 [False, False, False, False, False] (sem_start (demo_ring 0 0 [0, 0] 0 0)) = Some s"
    "scons s = SCWait 1 False" "v_empty s = 0" by blast
  have run: "sem_run never_full (demo_ring 0 0 [0, 0] 0 0) s" by (rule schedule_run [OF s(1) run_start])
  from sem_no_lost_wakeup [OF demo_ring_ok run s(2,3)] s run show ?thesis by blast
qed

end
