(* ===== verification/Coord.thy ===== *)
theory Coord
  imports Ref_Kernel "HOL-Library.Word"
begin

text \<open>
  The coordination table, \<open>src/libnotnets/include/coord.h\<close> and \<open>src/libnotnets/src/coord.cpp\<close>:
  the address hash, the rows through which clients ask for a pair of queues and the server
  answers, and the operations on them. The operations of this theory work on the header
  as it lies in the segment; theory Region adds the segment around it.
\<close>

unbundle bit_operations_syntax

section \<open>The address hash\<close>

text \<open>
  \<open>hash\<close> reads bytes up to the terminating zero. \<open>result\<close> is an \<open>int\<close> that is passed
  through the unsigned \<open>rol\<close>; both are the same 32 bits, read as signed in the end.
\<close>

definition rol :: "32 word \<Rightarrow> nat \<Rightarrow> 32 word" where
  "rol r k = (push_bit k r) OR (drop_bit (32 - k) r)"

definition hash_step :: "32 word \<Rightarrow> byte \<Rightarrow> 32 word" where
  "hash_step r c = rol (r XOR ucast c) 5"

fun hash_loop :: "32 word \<Rightarrow> byte list \<Rightarrow> 32 word" where
  "hash_loop r [] = r"
| "hash_loop r (c # cs) = (if c = 0 then r else hash_loop (hash_step r c) cs)"

definition hash :: "byte list \<Rightarrow> int" where
  "hash input = sint (hash_loop 0x55555555 input)"

section \<open>The table\<close>

definition SLOT_NUM :: nat where "SLOT_NUM = 40"

definition QUEUE_SIZE :: nat where "QUEUE_SIZE = 16024"

datatype QUEUE_TYPE = POLL | BOOST | SEM

record notnets_shm_info =
  info_key :: int
  info_shmid :: int

record shm_pair =
  request_shm :: notnets_shm_info
  response_shm :: notnets_shm_info
  shm_offset :: int

record coord_row =
  row_client_id :: int
  row_message_size :: int
  row_type :: QUEUE_TYPE
  shm_created :: bool
  client_attached :: bool
  server_attached :: bool
  row_shms :: shm_pair
  detach :: bool

text \<open>\<open>reserve_pair\<close> has one field, \<open>client_reserved\<close>; \<open>mutex\<close> is whether the mutex is held.\<close>

record reserve_pair =
  client_reserved :: bool

record coord_header =
  coord_shmid :: int
  accept_slot :: int
  mutex :: bool
  available_slots :: "reserve_pair list"
  slots :: "coord_row list"

text \<open>What \<open>{}\<close> and \<open>memset(..., 0, ...)\<close> leave.\<close>

definition no_info :: notnets_shm_info where "no_info = \<lparr>info_key = 0, info_shmid = 0\<rparr>"

definition no_shms :: shm_pair where
  "no_shms = \<lparr>request_shm = no_info, response_shm = no_info, shm_offset = 0\<rparr>"

definition zero_row :: coord_row where
  "zero_row = \<lparr>row_client_id = 0, row_message_size = 0, row_type = POLL, shm_created = False,
     client_attached = False, server_attached = False, row_shms = no_shms, detach = False\<rparr>"

definition zero_header :: coord_header where
  "zero_header = \<lparr>coord_shmid = 0, accept_slot = 0, mutex = False,
     available_slots = replicate SLOT_NUM \<lparr>client_reserved = False\<rparr>, slots = replicate SLOT_NUM zero_row\<rparr>"

text \<open>\<open>sizeof(coord_header)\<close>; a \<open>pthread_mutex_t\<close> has 40 bytes aligned to 8.\<close>

definition sizeof_coord_row :: nat where
  "sizeof_coord_row =
     sizeof_struct [c_int, c_int, c_int, c_bool, c_bool, c_bool, c_int, c_int, c_int, c_int, c_int, c_bool]"

definition sizeof_coord_header :: nat where
  "sizeof_coord_header = sizeof_struct [c_int, c_int, (40, 8), (SLOT_NUM, 1), (SLOT_NUM * sizeof_coord_row, 4)]"

lemma sizeof_coord_row_40 [simp]: "sizeof_coord_row = 40"
  by (simp add: sizeof_coord_row_def sizeof_struct_def align_up_def)

lemma sizeof_coord_header_1688 [simp]: "sizeof_coord_header = 1688"
  by (simp add: sizeof_coord_header_def sizeof_struct_def align_up_def SLOT_NUM_def)

section \<open>Operations on the table\<close>

text \<open>An access \<open>slots[slot]\<close>; outside the array it is undefined.\<close>

definition at_slot :: "int \<Rightarrow> (nat \<Rightarrow> 'a outcome) \<Rightarrow> 'a outcome" where
  "at_slot slot f = (if 0 \<le> slot \<and> slot < int SLOT_NUM then f (nat slot) else Fault OutOfBounds)"

definition set_row :: "nat \<Rightarrow> (coord_row \<Rightarrow> coord_row) \<Rightarrow> coord_header \<Rightarrow> coord_header" where
  "set_row i f h = h\<lparr>slots := (slots h)[i := f (slots h ! i)]\<rparr>"

definition set_reserved :: "nat \<Rightarrow> bool \<Rightarrow> coord_header \<Rightarrow> coord_header" where
  "set_reserved i b h = h\<lparr>available_slots := (available_slots h)[i := \<lparr>client_reserved = b\<rparr>]\<rparr>"

definition reserved :: "coord_header \<Rightarrow> nat \<Rightarrow> bool" where
  "reserved h i = client_reserved (available_slots h ! i)"

definition reserve :: "nat \<Rightarrow> int \<Rightarrow> int \<Rightarrow> QUEUE_TYPE \<Rightarrow> coord_header \<Rightarrow> coord_header" where
  "reserve i client_id message_size type h =
     set_reserved i True
       (set_row i (\<lambda>r. r\<lparr>row_client_id := client_id, row_message_size := message_size, detach := False,
          row_type := type, client_attached := False, server_attached := False, shm_created := False\<rparr>) h)"

fun request_loop :: "nat list \<Rightarrow> int \<Rightarrow> int \<Rightarrow> QUEUE_TYPE \<Rightarrow> coord_header \<Rightarrow> int \<times> coord_header" where
  "request_loop [] client_id message_size type h = (-1, h)"
| "request_loop (i # is) client_id message_size type h =
     (if \<not> reserved h i then (int i, reserve i client_id message_size type h)
      else request_loop is client_id message_size type h)"

text \<open>The mutex is not recursive: locking it while it is held does not return.\<close>

definition mutex_lock :: "coord_header \<Rightarrow> coord_header outcome" where
  "mutex_lock h = (if mutex h then Hang else Ret (h\<lparr>mutex := True\<rparr>))"

definition mutex_unlock :: "coord_header \<Rightarrow> coord_header" where
  "mutex_unlock h = h\<lparr>mutex := False\<rparr>"

definition request_slot :: "coord_header \<Rightarrow> int \<Rightarrow> int \<Rightarrow> QUEUE_TYPE \<Rightarrow> (int \<times> coord_header) outcome" where
  "request_slot h client_id message_size type =
     bind_out (mutex_lock h) (\<lambda>h1.
       let (slot, h2) = request_loop [0..<SLOT_NUM] client_id message_size type h1 in
       Ret (slot, mutex_unlock h2))"

definition check_slot :: "coord_header \<Rightarrow> int \<Rightarrow> shm_pair outcome" where
  "check_slot h slot =
     at_slot slot (\<lambda>i. Ret (if shm_created (slots h ! i) then row_shms (slots h ! i) else no_shms))"

definition get_client_id :: "coord_header \<Rightarrow> int \<Rightarrow> int outcome" where
  "get_client_id h slot =
     at_slot slot (\<lambda>i. Ret (if shm_created (slots h ! i) then row_client_id (slots h ! i) else 0))"

definition get_client_attach_state :: "coord_header \<Rightarrow> int \<Rightarrow> bool outcome" where
  "get_client_attach_state h slot =
     at_slot slot (\<lambda>i. Ret (if shm_created (slots h ! i) then client_attached (slots h ! i) else False))"

definition get_server_attach_state :: "coord_header \<Rightarrow> int \<Rightarrow> bool outcome" where
  "get_server_attach_state h slot =
     at_slot slot (\<lambda>i. Ret (if shm_created (slots h ! i) then server_attached (slots h ! i) else False))"

definition set_client_attach_state :: "coord_header \<Rightarrow> int \<Rightarrow> bool \<Rightarrow> (bool \<times> coord_header) outcome" where
  "set_client_attach_state h slot state =
     at_slot slot (\<lambda>i.
       if shm_created (slots h ! i)
       then let h' = set_row i (\<lambda>r. r\<lparr>client_attached := state\<rparr>) h in Ret (client_attached (slots h' ! i), h')
       else Ret (False, h))"

definition set_server_attach_state :: "coord_header \<Rightarrow> int \<Rightarrow> bool \<Rightarrow> (bool \<times> coord_header) outcome" where
  "set_server_attach_state h slot state =
     at_slot slot (\<lambda>i.
       if shm_created (slots h ! i)
       then let h' = set_row i (\<lambda>r. r\<lparr>server_attached := state\<rparr>) h in Ret (server_attached (slots h' ! i), h')
       else Ret (False, h))"

text \<open>
  The two halves of \<open>service_slot\<close> around the call of the allocation function: what it is
  called with, if at all, and the publication of what it returned.
\<close>

definition service_request :: "coord_header \<Rightarrow> int \<Rightarrow> (int \<times> (int \<times> int) option) outcome" where
  "service_request h slot =
     at_slot slot (\<lambda>i.
       let r = slots h ! i in
       Ret (row_client_id r,
            if reserved h i \<and> \<not> shm_created r then Some (row_message_size r, row_client_id r) else None))"

definition service_publish :: "coord_header \<Rightarrow> int \<Rightarrow> shm_pair \<Rightarrow> coord_header outcome" where
  "service_publish h slot shms =
     at_slot slot (\<lambda>i. Ret (set_row i (\<lambda>r. r\<lparr>row_shms := shms, shm_created := True\<rparr>) h))"

definition force_clear_slot ::
  "('k, 'r) sysv \<Rightarrow> coord_header \<Rightarrow> int \<Rightarrow> 'k \<Rightarrow> (coord_header \<times> 'k) outcome" where
  "force_clear_slot K h slot k =
     at_slot slot (\<lambda>i.
       let r = slots h ! i;
           k' = (if shm_created r then
                   let (e1, k1) = shm_remove K (info_shmid (request_shm (row_shms r))) k;
                       (e2, k2) = shm_remove K (info_shmid (response_shm (row_shms r))) k1 in k2
                 else k)
       in Ret (set_reserved i False (set_row i (\<lambda>_. zero_row) h), k'))"

definition clear_slot ::
  "('k, 'r) sysv \<Rightarrow> coord_header \<Rightarrow> int \<Rightarrow> 'k \<Rightarrow> (coord_header \<times> 'k) outcome" where
  "clear_slot K h slot k =
     at_slot slot (\<lambda>i. if detach (slots h ! i) then force_clear_slot K h slot k else Ret (h, k))"

fun shutdown_loop :: "nat list \<Rightarrow> coord_header \<Rightarrow> coord_header" where
  "shutdown_loop [] h = h"
| "shutdown_loop (i # is) h = shutdown_loop is (set_row i (\<lambda>r. r\<lparr>detach := True\<rparr>) h)"

definition coord_shutdown :: "coord_header \<Rightarrow> coord_header" where
  "coord_shutdown h = shutdown_loop [0..<SLOT_NUM] h"

text \<open>The search of \<open>client_close\<close> for its row, and the search of \<open>accept\<close> for a slot to serve.\<close>

fun close_loop :: "nat list \<Rightarrow> int \<Rightarrow> coord_header \<Rightarrow> int \<times> coord_header" where
  "close_loop [] client_id h = (-1, h)"
| "close_loop (i # is) client_id h =
     (if row_client_id (slots h ! i) = client_id then (0, set_row i (\<lambda>r. r\<lparr>detach := True\<rparr>) h)
      else close_loop is client_id h)"

fun accept_loop :: "nat \<Rightarrow> nat \<Rightarrow> coord_header \<Rightarrow> nat option" where
  "accept_loop 0 slot h = None"
| "accept_loop (Suc n) slot h =
     (if detach (slots h ! slot) \<or> \<not> reserved h slot then accept_loop n ((slot + 1) mod SLOT_NUM) h
      else if shm_created (slots h ! slot) then Some slot
      else accept_loop n ((slot + 1) mod SLOT_NUM) h)"

text \<open>The initialisation of \<open>coord_create\<close> over whatever the segment holds.\<close>

fun clear_reservations :: "nat list \<Rightarrow> coord_header \<Rightarrow> coord_header" where
  "clear_reservations [] h = h"
| "clear_reservations (i # is) h = clear_reservations is (set_reserved i False h)"

definition init_header :: "int \<Rightarrow> coord_header \<Rightarrow> coord_header" where
  "init_header shmid h =
     (clear_reservations [0..<SLOT_NUM] (h\<lparr>coord_shmid := shmid, accept_slot := 0\<rparr>))\<lparr>mutex := False\<rparr>"

lemmas coord_ops [coord_defs] =
  set_row_def set_reserved_def reserved_def reserve_def mutex_lock_def mutex_unlock_def

section \<open>The hash\<close>

lemma rol_rotl: "rol r 5 = word_rotl 5 r"
proof (rule bit_word_eqI)
  fix n :: nat
  assume n: "n < LENGTH(32)"
  have "\<not> bit r (27 + n)" if "5 \<le> n"
    using that bit_imp_le_length [of r "27 + n"] by auto
  moreover have "(n + 27) mod 32 = (if n < 5 then 27 + n else n - 5)"
    using n by (auto simp: mod_if)
  ultimately show "bit (rol r 5) n = bit (word_rotl 5 r) n"
    using n by (auto simp: rol_def bit_simps)
qed

lemma rol_inj: "rol a 5 = rol b 5 \<Longrightarrow> a = b"
  unfolding rol_rotl by (metis word_rot_lr)

lemma byte_ucast_ucast: "ucast (ucast (c :: byte) :: 32 word) = c"
  by (rule bit_word_eqI) (simp add: bit_simps)

lemma byte_ucast_inj: "(ucast (c :: byte) :: 32 word) = ucast d \<Longrightarrow> c = d"
  by (metis byte_ucast_ucast)

lemma xor_cancel: "(x :: 32 word) XOR y = x XOR z \<longleftrightarrow> y = z" "x XOR y = z XOR y \<longleftrightarrow> x = z"
  by (metis xor.left_neutral xor.assoc xor_self_eq) (metis xor.right_neutral xor.assoc xor_self_eq)

lemma hash_step_inj:
  "hash_step a c = hash_step b c \<Longrightarrow> a = b" "hash_step a c = hash_step a d \<Longrightarrow> c = d"
  unfolding hash_step_def by (auto simp: xor_cancel dest!: rol_inj intro: byte_ucast_inj)

lemma hash_loop_append: "0 \<notin> set xs \<Longrightarrow> hash_loop r (xs @ ys) = hash_loop (hash_loop r xs) ys"
  by (induction xs arbitrary: r) auto

lemma hash_loop_inj: "0 \<notin> set xs \<Longrightarrow> hash_loop a xs = hash_loop b xs \<Longrightarrow> a = b"
  by (induction xs arbitrary: a b) (auto dest: hash_step_inj)

section \<open>Well-formed tables\<close>

text \<open>
  Queues exist only for a reserved slot, and only a slot with queues can be attached. The
  mutex is free between operations.
\<close>

definition coord_wf :: "coord_header \<Rightarrow> bool" where
  "coord_wf h \<longleftrightarrow> length (slots h) = SLOT_NUM \<and> length (available_slots h) = SLOT_NUM"

definition row_ok :: "bool \<Rightarrow> coord_row \<Rightarrow> bool" where
  "row_ok res r \<longleftrightarrow> (shm_created r \<longrightarrow> res) \<and> (client_attached r \<or> server_attached r \<longrightarrow> shm_created r)"

definition coord_inv :: "coord_header \<Rightarrow> bool" where
  "coord_inv h \<longleftrightarrow> coord_wf h \<and> \<not> mutex h \<and> 0 \<le> accept_slot h \<and> accept_slot h < int SLOT_NUM \<and>
     (\<forall>i < SLOT_NUM. row_ok (reserved h i) (slots h ! i))"

lemma coord_invI:
  assumes "coord_wf h" "\<not> mutex h" "0 \<le> accept_slot h" "accept_slot h < int SLOT_NUM"
    "\<And>i. i < SLOT_NUM \<Longrightarrow> row_ok (reserved h i) (slots h ! i)"
  shows "coord_inv h"
  using assms by (simp add: coord_inv_def)

lemma slot_num_pos [simp]: "0 < SLOT_NUM" by (simp add: SLOT_NUM_def)

lemma at_slot_ok [simp]: "i < SLOT_NUM \<Longrightarrow> at_slot (int i) f = f i"
  by (simp add: at_slot_def)

lemma set_row_simps [simp]:
  "reserved (set_row i f h) = reserved h" "mutex (set_row i f h) = mutex h"
  "accept_slot (set_row i f h) = accept_slot h" "coord_wf (set_row i f h) = coord_wf h"
  "coord_shmid (set_row i f h) = coord_shmid h"
  by (simp_all add: set_row_def reserved_def coord_wf_def fun_eq_iff)

lemma set_reserved_simps [simp]:
  "slots (set_reserved i b h) = slots h" "mutex (set_reserved i b h) = mutex h"
  "accept_slot (set_reserved i b h) = accept_slot h" "coord_wf (set_reserved i b h) = coord_wf h"
  "coord_shmid (set_reserved i b h) = coord_shmid h"
  by (simp_all add: set_reserved_def coord_wf_def)

lemma mutex_simps [simp]:
  "reserved (h\<lparr>mutex := b\<rparr>) = reserved h" "coord_wf (h\<lparr>mutex := b\<rparr>) = coord_wf h"
  "reserved (h\<lparr>accept_slot := a\<rparr>) = reserved h" "coord_wf (h\<lparr>accept_slot := a\<rparr>) = coord_wf h"
  "reserved (h\<lparr>coord_shmid := a\<rparr>) = reserved h" "coord_wf (h\<lparr>coord_shmid := a\<rparr>) = coord_wf h"
  by (simp_all add: reserved_def coord_wf_def fun_eq_iff)

lemma slots_set_row [simp]:
  "coord_wf h \<Longrightarrow> i < SLOT_NUM \<Longrightarrow> j < SLOT_NUM \<Longrightarrow>
   slots (set_row i f h) ! j = (if j = i then f (slots h ! i) else slots h ! j)"
  by (simp add: set_row_def coord_wf_def nth_list_update)

lemma reserved_set_reserved [simp]:
  "coord_wf h \<Longrightarrow> i < SLOT_NUM \<Longrightarrow> j < SLOT_NUM \<Longrightarrow>
   reserved (set_reserved i b h) j = (if j = i then b else reserved h j)"
  by (simp add: set_reserved_def reserved_def coord_wf_def nth_list_update)

text \<open>Changing one row keeps the invariant when the new row is in order.\<close>

lemma inv_set_row:
  assumes "coord_inv h" "i < SLOT_NUM" "row_ok (reserved h i) (f (slots h ! i))"
  shows "coord_inv (set_row i f h)"
  using assms by (auto simp: coord_inv_def)

lemma inv_set_both:
  assumes "coord_inv h" "i < SLOT_NUM" "row_ok b (f (slots h ! i))"
  shows "coord_inv (set_reserved i b (set_row i f h))"
  using assms by (auto simp: coord_inv_def)

section \<open>The operations\<close>

lemma request_loop_cases:
  assumes "coord_wf h" "set is \<subseteq> {..<SLOT_NUM}"
  obtains (full) "\<forall>i \<in> set is. reserved h i" "request_loop is cid msz ty h = (-1, h)"
  | (found) pre i post where "is = pre @ i # post" "\<forall>j \<in> set pre. reserved h j" "\<not> reserved h i"
      "request_loop is cid msz ty h = (int i, reserve i cid msz ty h)"
  using assms
proof (induction "is" arbitrary: thesis)
  case Nil
  then show ?case by simp
next
  case (Cons i "is")
  show ?case
  proof (cases "reserved h i")
    case False
    then show ?thesis using Cons.prems(2) [of "[]" i "is"] by simp
  next
    case True
    show ?thesis
    proof (rule Cons.IH)
      assume "\<forall>j \<in> set is. reserved h j" "request_loop is cid msz ty h = (-1, h)"
      with True show thesis by (intro Cons.prems(1)) simp_all
    next
      fix pre j post
      assume "is = pre @ j # post" "\<forall>j \<in> set pre. reserved h j" "\<not> reserved h j"
        "request_loop is cid msz ty h = (int j, reserve j cid msz ty h)"
      with True show thesis by (intro Cons.prems(2) [of "i # pre" j post]) simp_all
    qed (use Cons.prems in auto)
  qed
qed

definition fresh_row :: "int \<Rightarrow> int \<Rightarrow> QUEUE_TYPE \<Rightarrow> coord_row \<Rightarrow> coord_row" where
  "fresh_row cid msz ty r = r\<lparr>row_client_id := cid, row_message_size := msz, detach := False,
     row_type := ty, client_attached := False, server_attached := False, shm_created := False\<rparr>"

lemma reserve_eq: "reserve i cid msz ty h = set_reserved i True (set_row i (fresh_row cid msz ty) h)"
  by (simp add: reserve_def fresh_row_def [abs_def])

lemma fresh_row_ok [simp]: "row_ok b (fresh_row cid msz ty r)"
  by (simp add: row_ok_def fresh_row_def)

lemma mutex_free: "\<not> mutex h \<Longrightarrow> h\<lparr>mutex := False\<rparr> = h"
  by (cases h) simp

text \<open>\<open>request_slot\<close> as a whole: the first free slot, or -1 and nothing changed.\<close>

lemma request_slot_cases:
  assumes "coord_wf h" "\<not> mutex h"
  obtains (full) "\<forall>i < SLOT_NUM. reserved h i" "request_slot h cid msz ty = Ret (-1, h)"
  | (found) i where "i < SLOT_NUM" "\<not> reserved h i" "\<forall>j < i. reserved h j"
      "request_slot h cid msz ty = Ret (int i, set_reserved i True (set_row i (fresh_row cid msz ty) h))"
proof -
  let ?h = "h\<lparr>mutex := True\<rparr>"
  have wf: "coord_wf ?h" "set [0..<SLOT_NUM] \<subseteq> {..<SLOT_NUM}" using assms by auto
  show thesis
  proof (rule request_loop_cases [OF wf, of cid msz ty])
    assume "\<forall>i \<in> set [0..<SLOT_NUM]. reserved ?h i" "request_loop [0..<SLOT_NUM] cid msz ty ?h = (-1, ?h)"
    with assms(2) show thesis
      by (intro full) (auto simp: request_slot_def mutex_lock_def mutex_unlock_def mutex_free)
  next
    fix pre i post
    assume s: "[0..<SLOT_NUM] = pre @ i # post" "\<forall>j \<in> set pre. reserved ?h j" "\<not> reserved ?h i"
      "request_loop [0..<SLOT_NUM] cid msz ty ?h = (int i, reserve i cid msz ty ?h)"
    have len: "SLOT_NUM = length pre + Suc (length post)" using arg_cong [OF s(1), of length] by simp
    have "i = length pre" using arg_cong [OF s(1), of "\<lambda>xs. xs ! length pre"] len by (simp add: nth_append)
    with len have i: "pre = [0..<i]" "i < SLOT_NUM" using arg_cong [OF s(1), of "take (length pre)"] by (simp_all add: take_upt)
    have "(reserve i cid msz ty ?h)\<lparr>mutex := False\<rparr> = set_reserved i True (set_row i (fresh_row cid msz ty) h)"
      using assms(2) by (cases h) (simp add: reserve_eq set_reserved_def set_row_def)
    with s i assms(2) show thesis
      by (intro found [of i]) (auto simp: request_slot_def mutex_lock_def mutex_unlock_def)
  qed
qed

lemma force_clear_eq:
  "i < SLOT_NUM \<Longrightarrow> \<exists>k'. force_clear_slot K h (int i) k = Ret (set_reserved i False (set_row i (\<lambda>_. zero_row) h), k')"
  by (simp add: force_clear_slot_def Let_def)

lemma clear_slot_eq:
  "i < SLOT_NUM \<Longrightarrow> \<exists>k'. clear_slot K h (int i) k =
     Ret (if detach (slots h ! i) then set_reserved i False (set_row i (\<lambda>_. zero_row) h) else h, k')"
  using force_clear_eq [of i K h k] by (auto simp: clear_slot_def)

lemma zero_row_ok [simp]: "row_ok b zero_row"
  by (simp add: row_ok_def zero_row_def)

lemma shutdown_loop_simps:
  assumes "coord_wf h" "set is \<subseteq> {..<SLOT_NUM}"
  shows "coord_wf (shutdown_loop is h)" "reserved (shutdown_loop is h) = reserved h"
    "mutex (shutdown_loop is h) = mutex h" "accept_slot (shutdown_loop is h) = accept_slot h"
    "coord_shmid (shutdown_loop is h) = coord_shmid h"
    "j < SLOT_NUM \<Longrightarrow> slots (shutdown_loop is h) ! j =
       (if j \<in> set is then (slots h ! j)\<lparr>detach := True\<rparr> else slots h ! j)"
  using assms by (induction "is" arbitrary: h) auto

lemma row_ok_detach [simp]: "row_ok b (r\<lparr>detach := d\<rparr>) = row_ok b r"
  by (simp add: row_ok_def)

lemma close_loop_cases:
  "(\<forall>i \<in> set is. row_client_id (slots h ! i) \<noteq> cid) \<and> close_loop is cid h = (-1, h) \<or>
   (\<exists>i \<in> set is. row_client_id (slots h ! i) = cid \<and>
      close_loop is cid h = (0, set_row i (\<lambda>r. r\<lparr>detach := True\<rparr>) h))"
  by (induction "is") auto

section \<open>Steps of the table\<close>

text \<open>
  Every way in which a process changes the table. The allocation function and the System V
  calls only contribute the identifiers published and the kernel state.
\<close>

inductive coord_step :: "('k, 'r) sysv \<Rightarrow> coord_header \<Rightarrow> coord_header \<Rightarrow> bool" for K where
  step_request: "request_slot h cid msz ty = Ret (slot, h') \<Longrightarrow> coord_step K h h'"
| step_service:
    "service_request h slot = Ret (cid, Some arg) \<Longrightarrow> service_publish h slot shms = Ret h' \<Longrightarrow> coord_step K h h'"
| step_client_attach: "set_client_attach_state h slot b = Ret (r, h') \<Longrightarrow> coord_step K h h'"
| step_server_attach: "set_server_attach_state h slot b = Ret (r, h') \<Longrightarrow> coord_step K h h'"
| step_clear: "clear_slot K h slot k = Ret (h', k') \<Longrightarrow> coord_step K h h'"
| step_close: "close_loop [0..<SLOT_NUM] cid h = (r, h') \<Longrightarrow> coord_step K h h'"
| step_accept:
    "accept_loop SLOT_NUM (nat (accept_slot h)) h = Some slot \<Longrightarrow>
     coord_step K h (h\<lparr>accept_slot := int ((slot + 1) mod SLOT_NUM)\<rparr>)"
| step_shutdown: "coord_step K h (coord_shutdown h)"

text \<open>
  \<open>force_clear_slot\<close> is also exported. The library calls it only from \<open>clear_slot\<close>, for a row that
  asks to be detached; a direct call, as in the tests of the coordinator, frees any row.
\<close>

inductive table_step :: "('k, 'r) sysv \<Rightarrow> coord_header \<Rightarrow> coord_header \<Rightarrow> bool" for K where
  table_coord: "coord_step K h h' \<Longrightarrow> table_step K h h'"
| table_force: "force_clear_slot K h slot k = Ret (h', k') \<Longrightarrow> table_step K h h'"

datatype slot_phase = Free | Requested | Serving | Closing

definition phase :: "coord_header \<Rightarrow> nat \<Rightarrow> slot_phase" where
  "phase h i =
     (if \<not> reserved h i then Free
      else if detach (slots h ! i) then Closing
      else if shm_created (slots h ! i) then Serving else Requested)"

text \<open>
  The life of a slot. A client that closes, or a server that shuts down, before the slot has been
  served takes it from requested to closing.
\<close>

definition phase_edge :: "slot_phase \<Rightarrow> slot_phase \<Rightarrow> bool" where
  "phase_edge a b \<longleftrightarrow> a = b \<or>
     (a, b) \<in> {(Free, Requested), (Requested, Serving), (Requested, Closing), (Serving, Closing), (Closing, Free)}"

lemma at_slot_RetD: "at_slot slot f = Ret x \<Longrightarrow> \<exists>i < SLOT_NUM. slot = int i \<and> f i = Ret x"
  by (auto simp: at_slot_def split: if_splits intro!: exI [of _ "nat slot"])

text \<open>One row changes at a time, except in \<open>coord_shutdown\<close>.\<close>

lemma row_edges:
  assumes "coord_wf h" "i < SLOT_NUM" "phase_edge (phase h i) (phase (set_row i f h) i)"
  shows "\<forall>j < SLOT_NUM. phase_edge (phase h j) (phase (set_row i f h) j)"
proof (intro allI impI)
  fix j assume "j < SLOT_NUM"
  with assms show "phase_edge (phase h j) (phase (set_row i f h) j)"
    by (cases "j = i") (simp_all add: phase_def phase_edge_def)
qed

lemma both_edges:
  assumes "coord_wf h" "i < SLOT_NUM" "phase_edge (phase h i) (phase (set_reserved i b (set_row i f h)) i)"
  shows "\<forall>j < SLOT_NUM. phase_edge (phase h j) (phase (set_reserved i b (set_row i f h)) j)"
proof (intro allI impI)
  fix j assume "j < SLOT_NUM"
  with assms show "phase_edge (phase h j) (phase (set_reserved i b (set_row i f h)) j)"
    by (cases "j = i") (simp_all add: phase_def phase_edge_def)
qed

lemma step_row:
  assumes "coord_inv h" "i < SLOT_NUM" "row_ok (reserved h i) (f (slots h ! i))"
    and "phase_edge (phase h i) (phase (set_row i f h) i)"
  shows "coord_inv (set_row i f h) \<and> (\<forall>j < SLOT_NUM. phase_edge (phase h j) (phase (set_row i f h) j))"
  using inv_set_row [of h i f] row_edges [OF _ assms(2,4)] assms by (simp add: coord_inv_def)

lemma step_both:
  assumes "coord_inv h" "i < SLOT_NUM" "row_ok b (f (slots h ! i))"
    and "phase_edge (phase h i) (phase (set_reserved i b (set_row i f h)) i)"
  shows "coord_inv (set_reserved i b (set_row i f h)) \<and>
    (\<forall>j < SLOT_NUM. phase_edge (phase h j) (phase (set_reserved i b (set_row i f h)) j))"
  using inv_set_both [of h i b f] both_edges [OF _ assms(2,4)] assms by (simp add: coord_inv_def)

lemma step_same: "coord_inv h \<Longrightarrow> coord_inv h \<and> (\<forall>j < SLOT_NUM. phase_edge (phase h j) (phase h j))"
  by (simp add: phase_edge_def)

lemma coord_step_inv:
  assumes "coord_step K h h'" "coord_inv h"
  shows "coord_inv h' \<and> (\<forall>i < SLOT_NUM. phase_edge (phase h i) (phase h' i))"
proof -
  from assms(2) have wf: "coord_wf h" "\<not> mutex h" and rows: "\<And>i. i < SLOT_NUM \<Longrightarrow> row_ok (reserved h i) (slots h ! i)"
    by (simp_all add: coord_inv_def)
  have wf': "set [0..<SLOT_NUM] \<subseteq> {..<SLOT_NUM}" by auto
  note edges = phase_def phase_edge_def wf(1)
  from assms(1) show ?thesis
  proof cases
    case (step_request cid msz ty slot)
    from wf show ?thesis
    proof (cases rule: request_slot_cases [of h cid msz ty])
      case full
      with step_request step_same [OF assms(2)] show ?thesis by simp
    next
      case (found i)
      with step_request have h': "h' = set_reserved i True (set_row i (fresh_row cid msz ty) h)" by simp
      show ?thesis
        unfolding h' using found(1,2) by (intro step_both assms(2)) (simp_all add: edges fresh_row_def row_ok_def)
    qed
  next
    case (step_service slot cid arg shms)
    then obtain i where i: "i < SLOT_NUM" "reserved h i" "\<not> shm_created (slots h ! i)"
      "h' = set_row i (\<lambda>r. r\<lparr>row_shms := shms, shm_created := True\<rparr>) h"
      by (auto simp: service_request_def service_publish_def Let_def dest!: at_slot_RetD split: if_splits)
    show ?thesis
      unfolding i(4) using rows [OF i(1)] i(1-3) by (intro step_row assms(2)) (simp_all add: edges row_ok_def)
  next
    case (step_client_attach slot b r)
    then obtain i where i: "i < SLOT_NUM"
      "h' = h \<or> shm_created (slots h ! i) \<and> h' = set_row i (\<lambda>r. r\<lparr>client_attached := b\<rparr>) h"
      by (auto simp: set_client_attach_state_def Let_def dest!: at_slot_RetD split: if_splits)
    then show ?thesis
      using rows [OF i(1)] step_same [OF assms(2)]
      by (elim disjE conjE; hypsubst; (intro step_row assms(2))?) (simp_all add: edges row_ok_def)
  next
    case (step_server_attach slot b r)
    then obtain i where i: "i < SLOT_NUM"
      "h' = h \<or> shm_created (slots h ! i) \<and> h' = set_row i (\<lambda>r. r\<lparr>server_attached := b\<rparr>) h"
      by (auto simp: set_server_attach_state_def Let_def dest!: at_slot_RetD split: if_splits)
    then show ?thesis
      using rows [OF i(1)] step_same [OF assms(2)]
      by (elim disjE conjE; hypsubst; (intro step_row assms(2))?) (simp_all add: edges row_ok_def)
  next
    case (step_clear slot k k')
    then obtain i where i: "i < SLOT_NUM" "slot = int i"
      by (auto simp: clear_slot_def dest!: at_slot_RetD)
    with step_clear clear_slot_eq [OF i(1), of K h k]
    have "h' = h \<or> detach (slots h ! i) \<and> h' = set_reserved i False (set_row i (\<lambda>_. zero_row) h)" by auto
    then show ?thesis
      using i(1) step_same [OF assms(2)]
      by (elim disjE conjE; hypsubst; (intro step_both assms(2))?) (simp_all add: edges)
  next
    case (step_close cid r)
    with close_loop_cases [of "[0..<SLOT_NUM]" h cid]
    have "h' = h \<or> (\<exists>i < SLOT_NUM. h' = set_row i (\<lambda>r. r\<lparr>detach := True\<rparr>) h)" by auto
    then show ?thesis
      using rows step_same [OF assms(2)]
      by (elim disjE exE conjE; hypsubst; (intro step_row assms(2))?) (simp_all add: edges)
  next
    case (step_accept slot)
    then show ?thesis
      using assms(2) by (auto simp: coord_inv_def phase_def phase_edge_def)
  next
    case step_shutdown
    then show ?thesis
      using assms(2) wf shutdown_loop_simps [OF wf(1) wf']
      by (auto simp: coord_inv_def coord_shutdown_def phase_def phase_edge_def)
  qed
qed

lemma force_step_inv:
  assumes "force_clear_slot K h slot k = Ret (h', k')" "coord_inv h"
  obtains i where "i < SLOT_NUM" "slot = int i" "coord_inv h'" "phase h' i = Free"
    "\<forall>j < SLOT_NUM. j \<noteq> i \<longrightarrow> phase h' j = phase h j"
proof -
  obtain i where i: "i < SLOT_NUM" "slot = int i"
    using assms(1) by (auto simp: force_clear_slot_def dest!: at_slot_RetD)
  then have h': "h' = set_reserved i False (set_row i (\<lambda>_. zero_row) h)" using force_clear_eq [OF i(1), of K h k] assms(1) by auto
  have wf: "coord_wf h" using assms(2) by (simp add: coord_inv_def)
  have "coord_inv h'" unfolding h' by (rule inv_set_both [OF assms(2) i(1)]) simp
  moreover have "phase h' i = Free" "\<forall>j < SLOT_NUM. j \<noteq> i \<longrightarrow> phase h' j = phase h j"
    using wf i(1) by (simp_all add: h' phase_def)
  ultimately show thesis using i by (intro that)
qed

section \<open>The search of accept\<close>

definition ready :: "coord_header \<Rightarrow> nat \<Rightarrow> bool" where
  "ready h i \<longleftrightarrow> reserved h i \<and> \<not> detach (slots h ! i) \<and> shm_created (slots h ! i)"

lemma accept_loop_Suc:
  "accept_loop (Suc n) s h = (if ready h s then Some s else accept_loop n ((s + 1) mod SLOT_NUM) h)"
  by (simp add: ready_def)

lemmas accept_loop_step = accept_loop.simps(1) accept_loop_Suc

lemma accept_loop_first:
  assumes "s < SLOT_NUM" "accept_loop n s h = Some t"
  shows "\<exists>d < n. t = (s + d) mod SLOT_NUM \<and> ready h t \<and> (\<forall>e < d. \<not> ready h ((s + e) mod SLOT_NUM))"
  using assms
proof (induction n arbitrary: s)
  case 0
  then show ?case by simp
next
  case (Suc n)
  show ?case
  proof (cases "ready h s")
    case True
    with Suc.prems show ?thesis by (intro exI [of _ 0]) (simp add: accept_loop_Suc del: accept_loop.simps)
  next
    case False
    with Suc.prems have "accept_loop n ((s + 1) mod SLOT_NUM) h = Some t"
      by (simp add: accept_loop_Suc del: accept_loop.simps)
    with Suc.IH [of "(s + 1) mod SLOT_NUM"] obtain d where d: "d < n" "t = (s + Suc d) mod SLOT_NUM" "ready h t"
      "\<forall>e < d. \<not> ready h ((s + Suc e) mod SLOT_NUM)"
      by (auto simp: mod_add_left_eq)
    have "\<not> ready h ((s + e) mod SLOT_NUM)" if "e < Suc d" for e
      using that d(4) False Suc.prems(1) by (cases e) auto
    with d show ?thesis by (intro exI [of _ "Suc d"]) auto
  qed
qed

lemma accept_loop_finds:
  assumes "s < SLOT_NUM" "d < n" "ready h ((s + d) mod SLOT_NUM)"
  shows "accept_loop n s h \<noteq> None"
  using assms
proof (induction n arbitrary: s d)
  case 0
  then show ?case by simp
next
  case (Suc n)
  show ?case
  proof (cases "ready h s")
    case False
    with Suc.prems obtain e where "d = Suc e" by (cases d) auto
    with Suc.prems False Suc.IH [of "(s + 1) mod SLOT_NUM" e] show ?thesis
      by (simp add: accept_loop_Suc mod_add_left_eq del: accept_loop.simps)
  qed (simp add: accept_loop_Suc del: accept_loop.simps)
qed

text \<open>Consecutive calls of \<open>accept\<close> with nothing else happening: the slots they return.\<close>

fun accept_rounds :: "nat \<Rightarrow> coord_header \<Rightarrow> nat list" where
  "accept_rounds 0 h = []"
| "accept_rounds (Suc n) h =
     (case accept_loop SLOT_NUM (nat (accept_slot h)) h of
        None \<Rightarrow> []
      | Some t \<Rightarrow> t # accept_rounds n (h\<lparr>accept_slot := int ((t + 1) mod SLOT_NUM)\<rparr>))"

lemma ready_accept [simp]: "ready (h\<lparr>accept_slot := a\<rparr>) = ready h"
  by (simp add: ready_def fun_eq_iff)

lemma accept_rounds_reach:
  assumes "nat (accept_slot h) = s" "s < SLOT_NUM" "e < n" "e < SLOT_NUM" "ready h ((s + e) mod SLOT_NUM)"
  shows "(s + e) mod SLOT_NUM \<in> set (accept_rounds n h)"
  using assms
proof (induction n arbitrary: h s e)
  case 0
  then show ?case by simp
next
  case (Suc n)
  then obtain t where t: "accept_loop SLOT_NUM s h = Some t" using accept_loop_finds by blast
  from accept_loop_first [OF Suc.prems(2) t] obtain d where
    d: "t = (s + d) mod SLOT_NUM" "\<forall>e' < d. \<not> ready h ((s + e') mod SLOT_NUM)" by blast
  have de: "d \<le> e" using d(2) Suc.prems(5) by (metis leI)
  show ?case
  proof (cases "d = e")
    case True
    then show ?thesis using t d Suc.prems(1) by simp
  next
    case False
    with de have "d < e" by simp
    let ?s = "(t + 1) mod SLOT_NUM"
    have "(?s + (e - Suc d)) mod SLOT_NUM = (s + d + 1 + (e - Suc d)) mod SLOT_NUM"
      by (metis d(1) mod_add_left_eq)
    also have "\<dots> = (s + e) mod SLOT_NUM" using \<open>d < e\<close> by simp
    finally have eq: "(?s + (e - Suc d)) mod SLOT_NUM = (s + e) mod SLOT_NUM" .
    have "(?s + (e - Suc d)) mod SLOT_NUM \<in> set (accept_rounds n (h\<lparr>accept_slot := int ?s\<rparr>))"
      using Suc.prems \<open>d < e\<close> unfolding eq [symmetric]
      by (intro Suc.IH) (simp_all add: eq)
    then have "(s + e) mod SLOT_NUM \<in> set (accept_rounds n (h\<lparr>accept_slot := int ?s\<rparr>))"
      unfolding eq .
    then show ?thesis using t Suc.prems(1) by simp
  qed
qed

section \<open>Initialisation\<close>

lemma clear_reservations_simps:
  assumes "coord_wf h" "set is \<subseteq> {..<SLOT_NUM}"
  shows "coord_wf (clear_reservations is h)" "slots (clear_reservations is h) = slots h"
    "accept_slot (clear_reservations is h) = accept_slot h" "coord_shmid (clear_reservations is h) = coord_shmid h"
    "j < SLOT_NUM \<Longrightarrow> reserved (clear_reservations is h) j = (j \<notin> set is \<and> reserved h j)"
  using assms by (induction "is" arbitrary: h) auto

lemma init_header_simps:
  assumes "coord_wf h"
  shows "coord_wf (init_header shmid h)" "slots (init_header shmid h) = slots h"
    "accept_slot (init_header shmid h) = 0" "coord_shmid (init_header shmid h) = shmid"
    "j < SLOT_NUM \<Longrightarrow> \<not> reserved (init_header shmid h) j" "\<not> mutex (init_header shmid h)"
proof -
  have wf: "coord_wf (h\<lparr>coord_shmid := shmid, accept_slot := 0\<rparr>)" "set [0..<SLOT_NUM] \<subseteq> {..<SLOT_NUM}"
    using assms by auto
  from clear_reservations_simps [OF wf]
  show "coord_wf (init_header shmid h)" "slots (init_header shmid h) = slots h"
    "accept_slot (init_header shmid h) = 0" "coord_shmid (init_header shmid h) = shmid"
    "j < SLOT_NUM \<Longrightarrow> \<not> reserved (init_header shmid h) j" "\<not> mutex (init_header shmid h)"
    by (simp_all add: init_header_def)
qed

lemma init_zero_inv: "coord_inv (init_header shmid zero_header)"
proof -
  have wf: "coord_wf zero_header" by (simp add: coord_wf_def zero_header_def)
  show ?thesis
    by (rule coord_invI)
      (simp_all add: init_header_simps [OF wf], simp add: zero_header_def row_ok_def zero_row_def)
qed

section \<open>Properties\<close>

text \<open>
  C30: \<open>rol\<close> is the rotation it stands for, and the hash separates any two addresses that
  differ in exactly one byte.
\<close>

theorem hash_separates_one_byte:
  assumes "0 \<notin> set (xs @ c # d # ys)"
  shows "rol r 5 = word_rotl 5 r \<and> (hash (xs @ c # ys) = hash (xs @ d # ys) \<longrightarrow> c = d)"
proof -
  have "c = d" if "hash (xs @ c # ys) = hash (xs @ d # ys)"
  proof -
    let ?r = "hash_loop 0x55555555 xs"
    from that have "hash_loop 0x55555555 (xs @ c # ys) = hash_loop 0x55555555 (xs @ d # ys)"
      unfolding hash_def by (rule signed_word_eqI)
    with assms have "hash_loop (hash_step ?r c) ys = hash_loop (hash_step ?r d) ys"
      by (auto simp: hash_loop_append)
    then have "hash_step ?r c = hash_step ?r d" using assms hash_loop_inj [of ys] by simp
    then show ?thesis by (rule hash_step_inj(2))
  qed
  then show ?thesis using rol_rotl by blast
qed

theorem hash_separates_one_byte_witness:
  "hash [97, 98, 99] \<noteq> hash [97, 100, 99]"
  using hash_separates_one_byte [of "[97]" 98 100 "[99]"] by auto

text \<open>
  The hash is not unique: the addresses "bA" and "ca" name the same server, and give two
  clients the same identifier.
\<close>

theorem hash_collision: "hash [0x62, 0x41] = hash [0x63, 0x61] \<and> [0x62, 0x41] \<noteq> [0x63, 0x61 :: byte]"
  by (simp add: hash_def hash_step_def rol_def)

text \<open>
  \<open>request_slot\<close> reserves the first slot that is not reserved, initialises its row and
  leaves every other row alone; when all are reserved it returns -1 and changes nothing.
  It releases the mutex either way.
\<close>

theorem request_slot_first_free:
  assumes "coord_wf h" "\<not> mutex h"
  shows "if \<forall>i < SLOT_NUM. reserved h i then request_slot h cid msz ty = Ret (-1, h)
    else \<exists>i h'. i < SLOT_NUM \<and> \<not> reserved h i \<and> (\<forall>j < i. reserved h j) \<and>
      request_slot h cid msz ty = Ret (int i, h') \<and> \<not> mutex h' \<and> coord_wf h' \<and> reserved h' i \<and>
      phase h' i = Requested \<and> row_client_id (slots h' ! i) = cid \<and> row_message_size (slots h' ! i) = msz \<and>
      row_type (slots h' ! i) = ty \<and>
      (\<forall>j < SLOT_NUM. j \<noteq> i \<longrightarrow> slots h' ! j = slots h ! j \<and> reserved h' j = reserved h j)"
  using assms
proof (cases rule: request_slot_cases [of h cid msz ty])
  case full
  then show ?thesis by simp
next
  case (found i)
  moreover have "\<not> (\<forall>i < SLOT_NUM. reserved h i)" using found by blast
  ultimately show ?thesis
    using assms by (auto simp: phase_def fresh_row_def intro!: exI [of _ i])
qed

text \<open>The table right after \<open>coord_create\<close>, and with its first slot taken.\<close>

definition demo_table :: coord_header where
  "demo_table = set_reserved 0 True (set_row 0 (fresh_row 5 8 POLL) zero_header)"

lemma zero_header_inv: "coord_inv zero_header"
  by (simp add: coord_inv_def coord_wf_def zero_header_def row_ok_def zero_row_def reserved_def)

lemma demo_table_inv: "coord_inv demo_table"
  unfolding demo_table_def by (intro inv_set_both zero_header_inv) simp_all

lemma demo_table_slots:
  "reserved demo_table 0" "\<not> reserved demo_table 1"
  "i < SLOT_NUM \<Longrightarrow> slots demo_table ! i = (if i = 0 then fresh_row 5 8 POLL zero_row else zero_row)"
  using zero_header_inv
  by (simp_all add: demo_table_def coord_inv_def reserved_def zero_header_def SLOT_NUM_def set_reserved_def set_row_def)

theorem request_slot_first_free_witness:
  "\<exists>h'. request_slot demo_table 7 16 SEM = Ret (1, h') \<and> phase h' 1 = Requested \<and> slots h' ! 0 = slots demo_table ! 0"
proof -
  have "\<not> (\<forall>i < SLOT_NUM. reserved demo_table i)" using demo_table_slots(2) by (auto simp: SLOT_NUM_def intro!: exI [of _ 1])
  then obtain i h' where i: "\<not> reserved demo_table i" "\<forall>j < i. reserved demo_table j"
    "request_slot demo_table 7 16 SEM = Ret (int i, h')" "phase h' i = Requested"
    "\<forall>j < SLOT_NUM. j \<noteq> i \<longrightarrow> slots h' ! j = slots demo_table ! j"
    using request_slot_first_free [of demo_table 7 16 SEM] demo_table_inv
    unfolding coord_inv_def if_not_P [OF \<open>\<not> (\<forall>i < SLOT_NUM. reserved demo_table i)\<close>] by blast
  have "i = 1" using i(1,2) demo_table_slots(1,2) by (metis less_one nat_neq_iff)
  with i show ?thesis by simp
qed

text \<open>
  C3: from a fresh table, whatever sequence of requests, allocations, attachments, closes,
  clears, forced clears, accepts and shutdowns happens, the table stays well-formed with the mutex
  free, queues exist only for reserved slots, and only slots with queues are attached. A step
  leaves a slot in its phase or moves it from free to requested, from requested to
  serving, from requested or serving to closing (a slot may be closed before it is
  served), or from closing to free; only a direct call of \<open>force_clear_slot\<close> on the slot
  frees it from another phase.
\<close>

theorem coord_table_safe:
  assumes "(table_step K)\<^sup>*\<^sup>* (init_header shmid zero_header) h" "table_step K h h'"
  shows "coord_inv h \<and> coord_inv h' \<and>
    (\<forall>i < SLOT_NUM. phase_edge (phase h i) (phase h' i) \<or>
      phase h' i = Free \<and> (\<exists>k k'. force_clear_slot K h (int i) k = Ret (h', k')))"
proof -
  have keeps: "coord_inv g'" if "table_step K g g'" "coord_inv g" for g g'
    using that by cases (auto dest: coord_step_inv elim: force_step_inv)
  have h: "coord_inv h" using assms(1)
  proof induction
    case base
    show ?case by (rule init_zero_inv)
  next
    case (step g h)
    then show ?case using keeps by blast
  qed
  from assms(2) show ?thesis
  proof cases
    case table_coord
    with coord_step_inv h show ?thesis by blast
  next
    case (table_force slot k k')
    obtain i where i: "i < SLOT_NUM" "slot = int i" "coord_inv h'" "phase h' i = Free"
      "\<forall>j < SLOT_NUM. j \<noteq> i \<longrightarrow> phase h' j = phase h j"
      by (rule force_step_inv [OF table_force h])
    then show ?thesis using table_force h by (metis phase_edge_def)
  qed
qed

theorem coord_table_safe_witness:
  "(\<exists>h'. table_step (ref_sysv (\<lambda>_. ())) (init_header 3 zero_header) h' \<and> coord_inv h' \<and>
     phase_edge (phase (init_header 3 zero_header) 0) (phase h' 0)) \<and>
   (\<exists>h h'. table_step (ref_sysv (\<lambda>_. ())) h h' \<and> phase h 0 = Requested \<and> phase h' 0 = Closing \<and> coord_inv h')"
proof -
  let ?K = "ref_sysv (\<lambda>_. ())" and ?h = "init_header 3 zero_header"
  have inv: "coord_wf ?h" "\<not> mutex ?h" using init_zero_inv [of 3] by (simp_all add: coord_inv_def)
  have wf0: "coord_wf zero_header" using zero_header_inv by (simp add: coord_inv_def)
  have none: "\<not> reserved ?h 0" by (simp add: init_header_simps(5) [OF wf0])
  let ?h1 = "set_reserved 0 True (set_row 0 (fresh_row 7 16 SEM) ?h)"
  have req: "request_slot ?h 7 16 SEM = Ret (0, ?h1)"
    using inv
  proof (cases rule: request_slot_cases [of ?h 7 16 SEM])
    case full
    with none show ?thesis by (auto simp: SLOT_NUM_def)
  next
    case (found i)
    then have "i = 0" using none by (metis gr_zeroI)
    with found show ?thesis by simp
  qed
  then have st: "table_step ?K ?h ?h1" by (intro table_coord step_request)
  have 1: "coord_inv ?h1" "phase_edge (phase ?h 0) (phase ?h1 0)"
    using coord_table_safe [OF rtranclp.rtrancl_refl st] none inv(1) by (auto simp: SLOT_NUM_def phase_edge_def phase_def fresh_row_def)
  let ?h2 = "set_row 0 (\<lambda>r. r\<lparr>detach := True\<rparr>) ?h1"
  have "[0..<SLOT_NUM] = 0 # [1..<SLOT_NUM]" by (simp add: upt_conv_Cons)
  then have "close_loop [0..<SLOT_NUM] 7 ?h1 = (0, ?h2)" using inv(1) by (simp add: fresh_row_def)
  then have st2: "table_step ?K ?h1 ?h2" by (intro table_coord step_close)
  have "(table_step ?K)\<^sup>*\<^sup>* ?h ?h1" using st by (rule r_into_rtranclp)
  from coord_table_safe [OF this st2] have "coord_inv ?h2" by blast
  moreover have "phase ?h1 0 = Requested" "phase ?h2 0 = Closing" using inv(1) by (simp_all add: phase_def fresh_row_def)
  ultimately show ?thesis using st st2 1 by blast
qed

text \<open>
  C26: \<open>accept\<close> is fair: if the table does not change otherwise, every slot that is being served
  is returned by one of the next \<open>SLOT_NUM\<close> calls; what a call returns is always such a slot,
  the first one from \<open>accept_slot\<close> on in cyclic order.
\<close>

theorem accept_round_robin:
  assumes "coord_inv h" "i < SLOT_NUM" "ready h i"
  shows "i \<in> set (accept_rounds SLOT_NUM h) \<and>
    (\<exists>d < SLOT_NUM. \<exists>t. accept_loop SLOT_NUM (nat (accept_slot h)) h = Some t \<and>
      t = (nat (accept_slot h) + d) mod SLOT_NUM \<and> ready h t \<and>
      (\<forall>e < d. \<not> ready h ((nat (accept_slot h) + e) mod SLOT_NUM)))"
proof -
  let ?s = "nat (accept_slot h)"
  have s: "?s < SLOT_NUM" using assms(1) by (auto simp: coord_inv_def)
  define e where "e = (i + (SLOT_NUM - ?s)) mod SLOT_NUM"
  have "(?s + e) mod SLOT_NUM = (?s + (i + (SLOT_NUM - ?s))) mod SLOT_NUM"
    unfolding e_def by (rule mod_add_right_eq)
  also have "\<dots> = i" using s assms(2) by simp
  finally have i: "(?s + e) mod SLOT_NUM = i" .
  have e: "e < SLOT_NUM" by (simp add: e_def)
  obtain t where t: "accept_loop SLOT_NUM ?s h = Some t"
    using accept_loop_finds [OF s e] assms(3) i by auto
  show ?thesis
    using accept_rounds_reach [OF refl s e e] accept_loop_first [OF s t] t assms(3) i by auto
qed

definition demo_serving :: coord_header where
  "demo_serving = set_row 0 (\<lambda>r. r\<lparr>shm_created := True\<rparr>) demo_table"

lemma demo_serving_ok: "coord_inv demo_serving" "ready demo_serving 0"
proof -
  have wf: "coord_wf demo_table" using demo_table_inv by (simp add: coord_inv_def)
  show "coord_inv demo_serving"
    unfolding demo_serving_def using demo_table_slots(1) demo_table_slots(3) [of 0]
    by (intro inv_set_row demo_table_inv) (simp_all add: row_ok_def fresh_row_def)
  show "ready demo_serving 0"
    using wf demo_table_slots(1) demo_table_slots(3) [of 0] by (simp add: ready_def demo_serving_def fresh_row_def)
qed

theorem accept_round_robin_witness: "0 \<in> set (accept_rounds SLOT_NUM demo_serving)"
  using accept_round_robin [OF demo_serving_ok(1) slot_num_pos demo_serving_ok(2)] by blast

end
