(* ===== verification/Region.thy ===== *)
theory Region
  imports Coord Sem_Queue
begin

text \<open>
  Segments and what the program lays out in them: the functions of
  \<open>src/libnotnets/src/coord.cpp\<close> that take or return a pointer to the table, and the
  allocation functions of \<open>src/libnotnets/src/rpc.cpp\<close>, \<open>sem_queue.cpp\<close> and \<open>boost_queue.cpp\<close>
  that make a pair of queues for a client. Every access goes through the kernel's
  segments, so that two names for one segment alias.
\<close>

section \<open>Typed segments\<close>

text \<open>
  The bytes of a fresh segment, or the structure last written over it; \<open>'b\<close> is whatever
  the Boost library keeps in its segments. Reading one structure as another is a fault.
\<close>

datatype 'b region =
    Raw "byte list"
  | PollQ spsc_queue_header
  | SemQ sem_spsc_queue_header
  | Table coord_header
  | BoostQ 'b

definition zero_region :: "int \<Rightarrow> 'b region" where
  "zero_region sz = Raw (replicate (nat sz) 0)"

fun as_table :: "'b region \<Rightarrow> coord_header outcome" where
  "as_table (Table h) = Ret h"
| "as_table (Raw bs) =
     (if length bs < sizeof_coord_header then Fault OutOfBounds
      else if list_all (\<lambda>b. b = 0) bs then Ret zero_header else Fault BadCast)"
| "as_table _ = Fault BadCast"

fun as_poll :: "'b region \<Rightarrow> spsc_queue_header outcome" where
  "as_poll (PollQ q) = Ret q"
| "as_poll _ = Fault BadCast"

fun as_sem :: "'b region \<Rightarrow> sem_spsc_queue_header outcome" where
  "as_sem (SemQ q) = Ret q"
| "as_sem _ = Fault BadCast"

text \<open>The bytes behind a queue header of the given size, which \<open>queue_create\<close> leaves as they are.\<close>

fun behind :: "nat \<Rightarrow> 'b region \<Rightarrow> byte list outcome" where
  "behind hsz (Raw bs) = (if length bs < hsz then Fault OutOfBounds else Ret (drop hsz bs))"
| "behind hsz (PollQ q) = (if hsz = sizeof_spsc_queue_header then Ret (message_array q) else Fault BadCast)"
| "behind hsz (SemQ q) = (if hsz = sizeof_sem_spsc_queue_header then Ret (message_array q) else Fault BadCast)"
| "behind hsz _ = Fault BadCast"

type_synonym ('k, 'b) kernel = "('k, 'b region) sysv"

section \<open>The table in its segment\<close>

definition load_table :: "('k, 'b) kernel \<Rightarrow> ptr \<Rightarrow> 'k \<Rightarrow> coord_header outcome" where
  "load_table K p k = bind_out (deref K p k) as_table"

definition store_table :: "('k, 'b) kernel \<Rightarrow> ptr \<Rightarrow> coord_header \<Rightarrow> 'k \<Rightarrow> 'k outcome" where
  "store_table K p h k = write_through K p (Table h) k"

definition coord_attach :: "('k, 'b) kernel \<Rightarrow> byte list \<Rightarrow> 'k \<Rightarrow> ptr \<times> 'k" where
  "coord_attach K coord_address k =
     (let key = hash coord_address;
          (shmid, k1) = shm_create K key (int sizeof_coord_header) attach_flag k
      in if shmid = -1 then (Null, k1)
         else let (shmaddr, k2) = shm_attach K shmid k1 in
              if shmaddr = Null then (Null, k2) else (shmaddr, k2))"

definition coord_detach :: "('k, 'b) kernel \<Rightarrow> ptr \<Rightarrow> 'k \<Rightarrow> 'k" where
  "coord_detach K header k = snd (shm_detach K header k)"

definition coord_create :: "('k, 'b) kernel \<Rightarrow> byte list \<Rightarrow> 'k \<Rightarrow> (ptr \<times> 'k) outcome" where
  "coord_create K coord_address k =
     (let key = hash coord_address;
          (shmid, k1) = shm_create K key (int sizeof_coord_header) create_flag k;
          (shmaddr, k2) = shm_attach K shmid k1
      in bind_out (load_table K shmaddr k2) (\<lambda>h.
         bind_out (store_table K shmaddr (init_header shmid h) k2) (\<lambda>k3. Ret (shmaddr, k3))))"

definition coord_delete :: "('k, 'b) kernel \<Rightarrow> ptr \<Rightarrow> 'k \<Rightarrow> 'k outcome" where
  "coord_delete K header k =
     bind_out (load_table K header k) (\<lambda>h.
       let k1 = coord_detach K header k; (e, k2) = shm_remove K (coord_shmid h) k1 in Ret k2)"

text \<open>
  \<open>service_slot\<close>: the allocation function works on the kernel between the reading of the row
  and its publication, and the row is written into the table as it is by then.
\<close>

type_synonym 'k allocator = "int \<Rightarrow> int \<Rightarrow> 'k \<Rightarrow> (shm_pair \<times> 'k) outcome"

definition service_slot ::
  "('k, 'b) kernel \<Rightarrow> ptr \<Rightarrow> int \<Rightarrow> 'k allocator \<Rightarrow> 'k \<Rightarrow> (int \<times> 'k) outcome" where
  "service_slot K header slot allocation k =
     bind_out (load_table K header k) (\<lambda>h.
     bind_out (service_request h slot) (\<lambda>(client_id, req).
       case req of
         None \<Rightarrow> Ret (-1, k)
       | Some (msize, cid) \<Rightarrow>
           bind_out (allocation msize cid k) (\<lambda>(shms, k1).
           bind_out (load_table K header k1) (\<lambda>h1.
           bind_out (service_publish h1 slot shms) (\<lambda>h2.
           bind_out (store_table K header h2 k1) (\<lambda>k2. Ret (client_id, k2)))))))"

section \<open>Allocation functions\<close>

text \<open>
  The common body: two segments, attached, set up as queues and detached again.
  \<open>setup key addr\<close> is the call of \<open>queue_create\<close>.
\<close>

definition allocate_pair ::
  "('k, 'b) kernel \<Rightarrow> (int \<Rightarrow> ptr \<Rightarrow> 'k \<Rightarrow> 'k outcome) \<Rightarrow> int \<Rightarrow> int \<Rightarrow> 'k \<Rightarrow> (shm_pair \<times> 'k) outcome"
where
  "allocate_pair K setup key1 key2 k =
     (let (request_shmid, k1) = shm_create K key1 (int QUEUE_SIZE) create_flag k;
          (response_shmid, k2) = shm_create K key2 (int QUEUE_SIZE) create_flag k1;
          (request_addr, k3) = shm_attach K request_shmid k2;
          (response_addr, k4) = shm_attach K response_shmid k3
      in bind_out (setup key1 request_addr k4) (\<lambda>k5.
         bind_out (setup key2 response_addr k5) (\<lambda>k6.
           let (e1, k7) = shm_detach K request_addr k6; (e2, k8) = shm_detach K response_addr k7 in
           Ret (\<lparr>request_shm = \<lparr>info_key = key1, info_shmid = request_shmid\<rparr>,
                 response_shm = \<lparr>info_key = key2, info_shmid = response_shmid\<rparr>, shm_offset = 0\<rparr>, k8))))"

definition setup_poll :: "('k, 'b) kernel \<Rightarrow> int \<Rightarrow> int \<Rightarrow> ptr \<Rightarrow> 'k \<Rightarrow> 'k outcome" where
  "setup_poll K msize key p k =
     bind_out (deref K p k) (\<lambda>r.
     bind_out (behind sizeof_spsc_queue_header r) (\<lambda>arr.
     bind_out (queue_create arr QUEUE_SIZE (u64 msize)) (\<lambda>(n, q). write_through K p (PollQ q) k)))"

definition setup_sem :: "('k, 'b) kernel \<Rightarrow> int \<Rightarrow> int \<Rightarrow> ptr \<Rightarrow> 'k \<Rightarrow> 'k outcome" where
  "setup_sem K msize key p k =
     bind_out (deref K p k) (\<lambda>r.
     bind_out (behind sizeof_sem_spsc_queue_header r) (\<lambda>arr.
     bind_out (sem_queue_create K arr key QUEUE_SIZE (u64 msize) k) (\<lambda>(n, q, k1).
       write_through K p (SemQ q) k1)))"

definition SIMPLE_KEY :: int where "SIMPLE_KEY = 17"

definition fake_shm_allocator :: "('k, 'b) kernel \<Rightarrow> 'k allocator" where
  "fake_shm_allocator K msize client_id k = allocate_pair K (setup_poll K msize) SIMPLE_KEY (SIMPLE_KEY + 1) k"

definition hash_shm_allocator :: "('k, 'b) kernel \<Rightarrow> 'k allocator" where
  "hash_shm_allocator K msize client_id k =
     allocate_pair K (setup_poll K msize) client_id (i32 (client_id + 1)) k"

text \<open>\<open>rand()\<close> is seeded with the time; its two results are parameters.\<close>

definition rand_shm_allocator :: "('k, 'b) kernel \<Rightarrow> int \<Rightarrow> int \<Rightarrow> 'k allocator" where
  "rand_shm_allocator K rand1 rand2 msize client_id k = allocate_pair K (setup_poll K msize) rand1 rand2 k"

definition hash_sem_shm_allocator :: "('k, 'b) kernel \<Rightarrow> 'k allocator" where
  "hash_sem_shm_allocator K msize client_id k =
     allocate_pair K (setup_sem K msize) (cdiv client_id 2) (cdiv client_id 3) k"

text \<open>
  Boost makes its own segments: \<open>construct key\<close> opens or creates the managed segment of a
  key, constructs the queue object in it and yields the segment's identifier and the
  object's handle.
\<close>

definition boost_shm_allocator :: "(int \<Rightarrow> 'k \<Rightarrow> ((int \<times> int) \<times> 'k) outcome) \<Rightarrow> 'k allocator" where
  "boost_shm_allocator construct msize client_id k =
     (let key1 = client_id; key2 = i32 (client_id + 1) in
      bind_out (construct key1 k) (\<lambda>((shmid1, handle1), k1).
      bind_out (construct key2 k1) (\<lambda>((shmid2, handle2), k2).
        Ret (\<lparr>request_shm = \<lparr>info_key = key1, info_shmid = shmid1\<rparr>,
              response_shm = \<lparr>info_key = key2, info_shmid = shmid2\<rparr>, shm_offset = i32 handle1\<rparr>, k2))))"

text \<open>\<open>destroy_semaphores\<close> attaches both queues of a slot and removes their semaphore sets.\<close>

definition remove_sems :: "('k, 'b) kernel \<Rightarrow> sem_spsc_queue_header \<Rightarrow> 'k \<Rightarrow> 'k" where
  "remove_sems K q k =
     (let (e1, k1) = semctl_rmid K (sem_full q) k; (e2, k2) = semctl_rmid K (sem_empty q) k1;
          (e3, k3) = semctl_rmid K (sem_lock q) k2 in k3)"

definition destroy_semaphores :: "('k, 'b) kernel \<Rightarrow> ptr \<Rightarrow> int \<Rightarrow> 'k \<Rightarrow> 'k outcome" where
  "destroy_semaphores K header slot k =
     bind_out (load_table K header k) (\<lambda>h.
     at_slot slot (\<lambda>i.
       let shms = row_shms (slots h ! i);
           (hReq, k1) = shm_attach K (info_shmid (request_shm shms)) k;
           (hResp, k2) = shm_attach K (info_shmid (response_shm shms)) k1
       in bind_out (bind_out (deref K hReq k2) as_sem) (\<lambda>q1.
          let k3 = remove_sems K q1 k2 in
          bind_out (bind_out (deref K hResp k3) as_sem) (\<lambda>q2.
          let k4 = remove_sems K q2 k3;
              (e1, k5) = shm_detach K hReq k4; (e2, k6) = shm_detach K hResp k5 in Ret k6))))"

definition clean_up_queue_resources :: "('k, 'b) kernel \<Rightarrow> ptr \<Rightarrow> int \<Rightarrow> 'k \<Rightarrow> 'k outcome" where
  "clean_up_queue_resources K header slot k =
     bind_out (load_table K header k) (\<lambda>h.
     at_slot slot (\<lambda>i.
       if reserved h i then
         if detach (slots h ! i) then
           (case row_type (slots h ! i) of
              POLL \<Rightarrow> Ret k
            | BOOST \<Rightarrow> Ret k
            | SEM \<Rightarrow> destroy_semaphores K header slot k)
         else Ret k
       else Ret k))"

section \<open>Allocation on a kernel with room\<close>

definition fresh_poll :: "nat \<Rightarrow> spsc_queue_header \<Rightarrow> bool" where
  "fresh_poll m q \<longleftrightarrow> poll_inv q \<and> abs_queue q = \<lparr>msgs = [], read_off = 0\<rparr> \<and> message_size q = m \<and>
     capacity q = (QUEUE_SIZE - 40) div m - 1 \<and> length (message_array q) = QUEUE_SIZE - 40"

text \<open>A segment \<open>queue_create\<close> can be run on: fresh, or one that already holds such a queue.\<close>

definition usable :: "'b region \<Rightarrow> bool" where
  "usable r \<longleftrightarrow> (\<exists>arr. behind sizeof_spsc_queue_header r = Ret arr \<and> length arr = QUEUE_SIZE - 40)"

lemma usable_zero [simp]: "usable (zero_region (int QUEUE_SIZE))"
  by (simp add: usable_def zero_region_def QUEUE_SIZE_def)

lemma usable_poll: "length (message_array q) = QUEUE_SIZE - 40 \<Longrightarrow> usable (PollQ q)"
  by (simp add: usable_def)

lemma message_fits:
  assumes "0 < msz" "msz \<le> int (QUEUE_SIZE - 40)"
  shows "0 < u64 msz" "u64 msz + 40 \<le> QUEUE_SIZE" "u64 msz = nat msz" "QUEUE_SIZE < 2147483648"
  using assms by (simp_all add: QUEUE_SIZE_def u64_def nat_mod_distrib)

text \<open>Boost's managed segments have \<open>MEM_SIZE\<close> bytes.\<close>

fun region_size :: "'b region \<Rightarrow> int" where
  "region_size (Raw bs) = int (length bs)"
| "region_size (PollQ q) = int (sizeof_spsc_queue_header + length (message_array q))"
| "region_size (SemQ q) = int (sizeof_sem_spsc_queue_header + length (message_array q))"
| "region_size (Table h) = int sizeof_coord_header"
| "region_size (BoostQ b) = 10000"

lemma usable_size: "usable r \<Longrightarrow> int QUEUE_SIZE \<le> region_size r"
  by (cases r) (auto simp: usable_def QUEUE_SIZE_def split: if_splits)

locale region_kernel = sysv_ample K zero_region region_size for K :: "('k, 'b) kernel"
begin

lemma setup_poll_run:
  assumes "load_seg K i k = Some r" "usable r" "0 < msz" "msz \<le> int (QUEUE_SIZE - 40)"
  shows "\<exists>q. setup_poll K msz key (Shm i) k = Ret (store_seg K i (PollQ q) k) \<and> fresh_poll (nat msz) q"
proof -
  from assms(2) obtain arr where arr: "behind sizeof_spsc_queue_header r = Ret arr" "length arr = QUEUE_SIZE - 40"
    by (auto simp: usable_def)
  note fits = message_fits [OF assms(3,4)]
  from created_queue [OF fits(1,2,4) arr(2)] obtain n q where "queue_create arr QUEUE_SIZE (u64 msz) = Ret (n, q)"
    "fresh_poll (u64 msz) q"
    using arr(2) by (auto simp: fresh_poll_def)
  with assms(1) arr(1) fits(3) show ?thesis by (auto simp: setup_poll_def)
qed

lemma create_usable:
  assumes "key \<noteq> 0" "\<And>j. key_names K key k = Some j \<Longrightarrow> \<exists>r. load_seg K j k = Some r \<and> usable r"
  obtains i k' r where "shmget K key (int QUEUE_SIZE) create_flag k = (i, k')" "key_names K key k' = Some i"
    "load_seg K i k' = Some r" "usable r" "\<And>j. key_names K key k = Some j \<Longrightarrow> i = j"
    "\<And>j. j \<noteq> i \<Longrightarrow> load_seg K j k' = load_seg K j k" "\<And>a. a \<noteq> key \<Longrightarrow> key_names K a k' = key_names K a k"
proof -
  have pos: "0 < int QUEUE_SIZE" by (simp add: QUEUE_SIZE_def)
  have size: "\<forall>j r. key_names K key k = Some j \<longrightarrow> load_seg K j k = Some r \<longrightarrow> int QUEUE_SIZE \<le> region_size r"
    using assms(2) usable_size by fastforce
  obtain i k' where g: "shmget K key (int QUEUE_SIZE) create_flag k = (i, k')" "key_names K key k' = Some i"
    "key_names K key k = None \<Longrightarrow> load_seg K i k = None \<and> load_seg K i k' = Some (zero_region (int QUEUE_SIZE))"
    "\<And>j. key_names K key k = Some j \<Longrightarrow> i = j \<and> k' = k"
    "\<And>j. j \<noteq> i \<Longrightarrow> load_seg K j k' = load_seg K j k" "\<And>a. a \<noteq> key \<Longrightarrow> key_names K a k' = key_names K a k"
    using create_names [OF pos assms(1) create_flag_creates create_flag_shares size] by blast
  have "\<exists>r. load_seg K i k' = Some r \<and> usable r"
  proof (cases "key_names K key k")
    case None
    with g(3) show ?thesis by simp
  next
    case (Some j)
    with g(4) assms(2) show ?thesis by blast
  qed
  then obtain r where "load_seg K i k' = Some r" "usable r" by blast
  with g show thesis by (intro that [of i k' r]) blast+
qed

text \<open>The two \<open>shm_create\<close> calls give two segments, whatever the keys named before.\<close>

lemma create_two:
  assumes keys: "key1 \<noteq> 0" "key2 \<noteq> 0" "key1 \<noteq> key2"
    and old: "\<And>j c. c \<in> {key1, key2} \<Longrightarrow> key_names K c k = Some j \<Longrightarrow> \<exists>r. load_seg K j k = Some r \<and> usable r"
  obtains a b k1 k2 r1 r2 where
    "shmget K key1 (int QUEUE_SIZE) create_flag k = (a, k1)" "shmget K key2 (int QUEUE_SIZE) create_flag k1 = (b, k2)"
    "a \<noteq> b" "key_names K key1 k2 = Some a" "key_names K key2 k2 = Some b"
    "load_seg K a k2 = Some r1" "usable r1" "load_seg K b k2 = Some r2" "usable r2"
    "\<And>c j. c \<in> {key1, key2} \<Longrightarrow> key_names K c k = Some j \<Longrightarrow> key_names K c k2 = Some j"
    "\<And>c. c \<notin> {key1, key2} \<Longrightarrow> key_names K c k2 = key_names K c k"
    "\<And>j. j \<notin> {a, b} \<Longrightarrow> load_seg K j k2 = load_seg K j k"
proof -
  have old0: "\<And>j. key_names K key1 k = Some j \<Longrightarrow> \<exists>r. load_seg K j k = Some r \<and> usable r"
    using old by blast
  obtain a k1 r1 where 1: "shmget K key1 (int QUEUE_SIZE) create_flag k = (a, k1)" "key_names K key1 k1 = Some a"
    "load_seg K a k1 = Some r1" "usable r1" "\<And>j. key_names K key1 k = Some j \<Longrightarrow> a = j"
    "\<And>j. j \<noteq> a \<Longrightarrow> load_seg K j k1 = load_seg K j k" "\<And>c. c \<noteq> key1 \<Longrightarrow> key_names K c k1 = key_names K c k"
    using create_usable [OF keys(1) old0] by blast
  have old1: "\<exists>r. load_seg K j k1 = Some r \<and> usable r" if "key_names K key2 k1 = Some j" for j
  proof -
    have "key_names K key2 k = Some j" using that 1(7) keys(3) by simp
    moreover have "j \<noteq> a" using key_names_inj [OF 1(2), of key2] that keys(3) by blast
    ultimately show ?thesis using old [of key2 j] 1(6) by simp
  qed
  obtain b k2 r2 where 2: "shmget K key2 (int QUEUE_SIZE) create_flag k1 = (b, k2)" "key_names K key2 k2 = Some b"
    "load_seg K b k2 = Some r2" "usable r2" "\<And>j. key_names K key2 k1 = Some j \<Longrightarrow> b = j"
    "\<And>j. j \<noteq> b \<Longrightarrow> load_seg K j k2 = load_seg K j k1" "\<And>c. c \<noteq> key2 \<Longrightarrow> key_names K c k2 = key_names K c k1"
    using create_usable [OF keys(2) old1] by blast
  have n1: "key_names K key1 k2 = Some a" using 2(7) 1(2) keys(3) by simp
  have ab: "a \<noteq> b" using key_names_inj [OF n1, of key2] 2(2) keys(3) by blast
  have "load_seg K a k2 = Some r1" using 2(6) [OF ab] 1(3) by simp
  moreover have "key_names K c k2 = Some j" if "c \<in> {key1, key2}" "key_names K c k = Some j" for c j
    using that 1(5,7) 2(2,5) n1 keys(3) by auto
  ultimately show thesis
    using 1 2 n1 ab by (intro that [of a k1 b k2 r1 r2]) simp_all
qed

text \<open>Attaching two segments, setting both up and detaching them again.\<close>

lemma fill_two:
  assumes ab: "a \<noteq> b" and n: "key_names K key1 k = Some a" "key_names K key2 k = Some b"
    and r: "load_seg K a k = Some r1" "usable r1" "load_seg K b k = Some r2" "usable r2"
    and msz: "0 < msz" "msz \<le> int (QUEUE_SIZE - 40)"
  obtains k3 k4 k5 k6 e1 k7 e2 k8 q1 q2 where
    "shmat K a k = (Shm a, k3)" "shmat K b k3 = (Shm b, k4)"
    "setup_poll K msz key1 (Shm a) k4 = Ret k5" "setup_poll K msz key2 (Shm b) k5 = Ret k6"
    "shmdt K (Shm a) k6 = (e1, k7)" "shmdt K (Shm b) k7 = (e2, k8)"
    "fresh_poll (nat msz) q1" "fresh_poll (nat msz) q2" "\<And>c. key_names K c k8 = key_names K c k"
    "\<And>c j. key_names K c k = Some j \<Longrightarrow> load_seg K j k8 =
       (if j = b then Some (PollQ q2) else if j = a then Some (PollQ q1) else load_seg K j k)"
proof -
  obtain k3 where 3: "shmat K a k = (Shm a, k3)" using shmat_succeeds r(1) by blast
  note f3 = shmat_frame [OF 3]
  obtain k4 where 4: "shmat K b k3 = (Shm b, k4)" using shmat_succeeds f3 r(3) by (metis option.distinct(1))
  note f4 = shmat_frame [OF 4]
  have "load_seg K a k4 = Some r1" using f3 f4 r(1) by simp
  from setup_poll_run [OF this r(2) msz] obtain q1 where
    5: "setup_poll K msz key1 (Shm a) k4 = Ret (store_seg K a (PollQ q1) k4)" "fresh_poll (nat msz) q1" by blast
  let ?k5 = "store_seg K a (PollQ q1) k4"
  have l5: "load_seg K j ?k5 = (if j = a then Some (PollQ q1) else load_seg K j k)" for j
    using load_store [of a k4 j "PollQ q1"] f3 f4 r(1) by simp
  have "load_seg K b ?k5 = Some r2" using l5 ab r(3) by simp
  from setup_poll_run [OF this r(4) msz] obtain q2 where
    6: "setup_poll K msz key2 (Shm b) ?k5 = Ret (store_seg K b (PollQ q2) ?k5)" "fresh_poll (nat msz) q2" by blast
  let ?k6 = "store_seg K b (PollQ q2) ?k5"
  have l6: "load_seg K j ?k6 = (if j = b then Some (PollQ q2) else if j = a then Some (PollQ q1) else load_seg K j k)" for j
    using load_store [of b ?k5 j "PollQ q2"] l5 ab r(3) by simp
  have n6: "key_names K c ?k6 = key_names K c k" for c
    using f3 f4 by (simp add: store_names)
  obtain e1 k7 where 7: "shmdt K (Shm a) ?k6 = (e1, k7)" by (metis prod.exhaust)
  obtain e2 k8 where 8: "shmdt K (Shm b) k7 = (e2, k8)" by (metis prod.exhaust)
  show thesis
  proof (rule that [OF 3 4 5(1) 6(1) 7 8 5(2) 6(2)])
    show "\<And>c. key_names K c k8 = key_names K c k"
      using shmdt_frame [OF 7] shmdt_frame [OF 8] n6 by simp
    show "\<And>c j. key_names K c k = Some j \<Longrightarrow> load_seg K j k8 =
       (if j = b then Some (PollQ q2) else if j = a then Some (PollQ q1) else load_seg K j k)"
      using shmdt_frame [OF 7] shmdt_frame [OF 8] n6 l6 by metis
  qed
qed

lemma allocate_poll_run:
  assumes keys: "key1 \<noteq> 0" "key2 \<noteq> 0" "key1 \<noteq> key2" and msz: "0 < msz" "msz \<le> int (QUEUE_SIZE - 40)"
    and old: "\<And>j c. c \<in> {key1, key2} \<Longrightarrow> key_names K c k = Some j \<Longrightarrow> \<exists>r. load_seg K j k = Some r \<and> usable r"
  obtains a b q1 q2 k' where
    "allocate_pair K (setup_poll K msz) key1 key2 k =
       Ret (\<lparr>request_shm = \<lparr>info_key = key1, info_shmid = a\<rparr>,
             response_shm = \<lparr>info_key = key2, info_shmid = b\<rparr>, shm_offset = 0\<rparr>, k')"
    "a \<noteq> b" "key_names K key1 k' = Some a" "key_names K key2 k' = Some b"
    "load_seg K a k' = Some (PollQ q1)" "load_seg K b k' = Some (PollQ q2)"
    "fresh_poll (nat msz) q1" "fresh_poll (nat msz) q2"
    "\<And>c j. c \<in> {key1, key2} \<Longrightarrow> key_names K c k = Some j \<Longrightarrow> key_names K c k' = Some j"
    "\<And>c. c \<notin> {key1, key2} \<Longrightarrow> key_names K c k' = key_names K c k"
    "\<And>c j. c \<notin> {key1, key2} \<Longrightarrow> key_names K c k = Some j \<Longrightarrow> load_seg K j k' = load_seg K j k"
proof (rule create_two [OF keys old])
  fix a b k1 k2 r1 r2
  assume 1: "shmget K key1 (int QUEUE_SIZE) create_flag k = (a, k1)" "shmget K key2 (int QUEUE_SIZE) create_flag k1 = (b, k2)"
    "a \<noteq> b" "key_names K key1 k2 = Some a" "key_names K key2 k2 = Some b"
    "load_seg K a k2 = Some r1" "usable r1" "load_seg K b k2 = Some r2" "usable r2"
    and same: "\<And>c j. c \<in> {key1, key2} \<Longrightarrow> key_names K c k = Some j \<Longrightarrow> key_names K c k2 = Some j"
    and other: "\<And>c. c \<notin> {key1, key2} \<Longrightarrow> key_names K c k2 = key_names K c k"
    "\<And>j. j \<notin> {a, b} \<Longrightarrow> load_seg K j k2 = load_seg K j k"
  show thesis
  proof (rule fill_two [OF 1(3-9) msz])
    fix k3 k4 k5 k6 e1 k7 e2 k8 q1 q2
    assume 2: "shmat K a k2 = (Shm a, k3)" "shmat K b k3 = (Shm b, k4)"
      "setup_poll K msz key1 (Shm a) k4 = Ret k5" "setup_poll K msz key2 (Shm b) k5 = Ret k6"
      "shmdt K (Shm a) k6 = (e1, k7)" "shmdt K (Shm b) k7 = (e2, k8)"
      "fresh_poll (nat msz) q1" "fresh_poll (nat msz) q2" and n8: "\<And>c. key_names K c k8 = key_names K c k2"
      and l8: "\<And>c j. key_names K c k2 = Some j \<Longrightarrow> load_seg K j k8 =
       (if j = b then Some (PollQ q2) else if j = a then Some (PollQ q1) else load_seg K j k2)"
    show thesis
    proof (rule that [OF _ 1(3) _ _ _ _ 2(7,8)])
      show "allocate_pair K (setup_poll K msz) key1 key2 k =
         Ret (\<lparr>request_shm = \<lparr>info_key = key1, info_shmid = a\<rparr>,
               response_shm = \<lparr>info_key = key2, info_shmid = b\<rparr>, shm_offset = 0\<rparr>, k8)"
        by (simp add: allocate_pair_def 1(1,2) 2)
      show "key_names K key1 k8 = Some a" "key_names K key2 k8 = Some b" using n8 1(4,5) by simp_all
      show "load_seg K a k8 = Some (PollQ q1)" "load_seg K b k8 = Some (PollQ q2)"
        using l8 [OF 1(4)] l8 [OF 1(5)] 1(3) by simp_all
      show "\<And>c j. c \<in> {key1, key2} \<Longrightarrow> key_names K c k = Some j \<Longrightarrow> key_names K c k8 = Some j"
        using same n8 by simp
      fix c assume c: "c \<notin> {key1, key2}"
      show "key_names K c k8 = key_names K c k" using n8 other(1) [OF c] by simp
      fix j assume "key_names K c k = Some j"
      then have j: "key_names K c k2 = Some j" using other(1) [OF c] by simp
      then have "j \<noteq> a" "j \<noteq> b" using key_names_inj [OF j] 1(4,5) c by blast+
      then show "load_seg K j k8 = load_seg K j k" using l8 [OF j] other(2) by simp
    qed
  qed
qed

end

interpretation ref_region: region_kernel "ref_sysv zero_region" ..

context region_kernel
begin

lemma table_zero: "as_table (zero_region (int sizeof_coord_header)) = Ret zero_header"
  by (simp add: zero_region_def list_all_iff)

lemma coord_create_run:
  assumes "hash addr \<noteq> 0" "key_names K (hash addr) k = None"
  obtains i k' where "coord_create K addr k = Ret (Shm i, k')" "key_names K (hash addr) k' = Some i"
    "load_seg K i k' = Some (Table (init_header i zero_header))"
    "\<And>c. c \<noteq> hash addr \<Longrightarrow> key_names K c k' = key_names K c k" "\<And>j. j \<noteq> i \<Longrightarrow> load_seg K j k' = load_seg K j k"
proof -
  have pos: "0 < int sizeof_coord_header" by simp
  obtain i k1 where 1: "shmget K (hash addr) (int sizeof_coord_header) create_flag k = (i, k1)"
    "key_names K (hash addr) k1 = Some i" "load_seg K i k1 = Some (zero_region (int sizeof_coord_header))"
    "\<And>j. j \<noteq> i \<Longrightarrow> load_seg K j k1 = load_seg K j k" "\<And>a. a \<noteq> hash addr \<Longrightarrow> key_names K a k1 = key_names K a k"
    using create_names [OF pos assms(1) create_flag_creates create_flag_shares, of k] assms(2) by (metis option.distinct(1))
  obtain k2 where 2: "shmat K i k1 = (Shm i, k2)" using shmat_succeeds 1(3) by blast
  note f2 = shmat_frame [OF 2]
  let ?k = "store_seg K i (Table (init_header i zero_header)) k2"
  have l2: "load_seg K i k2 = Some (zero_region (int sizeof_coord_header))" using f2 1(3) by simp
  show thesis
  proof (rule that [of i ?k])
    show "coord_create K addr k = Ret (Shm i, ?k)"
      using l2 by (simp add: coord_create_def 1(1) 2 load_table_def store_table_def table_zero del: sizeof_coord_header_1688)
  qed (use f2 l2 1 store_names load_store in auto)
qed

lemma coord_attach_run:
  assumes "hash addr \<noteq> 0" "key_names K (hash addr) k = Some i" "load_seg K i k = Some (Table h)"
  obtains k' where "coord_attach K addr k = (Shm i, k')" "\<And>j. load_seg K j k' = load_seg K j k"
    "\<And>c. key_names K c k' = key_names K c k"
proof -
  have g: "shmget K (hash addr) (int sizeof_coord_header) attach_flag k = (i, k)"
    by (rule shmget_opens [OF assms]) simp_all
  obtain k2 where 2: "shmat K i k = (Shm i, k2)" using shmat_succeeds assms(3) by blast
  have "i \<noteq> -1" using load_ids [of i k] assms(3) by auto
  with g 2 have "coord_attach K addr k = (Shm i, k2)" by (simp add: coord_attach_def del: sizeof_coord_header_1688)
  then show thesis using shmat_frame [OF 2] by (intro that [of k2]) auto
qed

text \<open>A requested slot is served, when the keys of its queues are not those of other segments.\<close>

lemma service_hash_run:
  assumes tab: "load_seg K t k = Some (Table h)" "key_names K tk k = Some t" and inv: "coord_inv h"
    and i: "i < SLOT_NUM" "reserved h i" "\<not> shm_created (slots h ! i)"
    and id: "cid = row_client_id (slots h ! i)" "cid \<noteq> 0" "i32 (cid + 1) \<noteq> 0" "cid \<noteq> i32 (cid + 1)"
    and free: "key_names K cid k = None" "key_names K (i32 (cid + 1)) k = None"
    and msz: "0 < row_message_size (slots h ! i)" "row_message_size (slots h ! i) \<le> int (QUEUE_SIZE - 40)"
  obtains a b q1 q2 h' k' where
    "service_slot K (Shm t) (int i) (hash_shm_allocator K) k = Ret (cid, k')"
    "load_seg K t k' = Some (Table h')" "coord_inv h'" "phase h i \<noteq> Closing \<Longrightarrow> phase h' i = Serving"
    "row_shms (slots h' ! i) = \<lparr>request_shm = \<lparr>info_key = cid, info_shmid = a\<rparr>,
       response_shm = \<lparr>info_key = i32 (cid + 1), info_shmid = b\<rparr>, shm_offset = 0\<rparr>"
    "a \<noteq> b" "load_seg K a k' = Some (PollQ q1)" "load_seg K b k' = Some (PollQ q2)"
    "fresh_poll (nat (row_message_size (slots h ! i))) q1" "fresh_poll (nat (row_message_size (slots h ! i))) q2"
    "\<forall>j < SLOT_NUM. j \<noteq> i \<longrightarrow> slots h' ! j = slots h ! j"
    "h' = set_row i (\<lambda>r. r\<lparr>row_shms := row_shms (slots h' ! i), shm_created := True\<rparr>) h"
    "key_names K tk k' = Some t" "key_names K cid k' = Some a" "key_names K (i32 (cid + 1)) k' = Some b"
    "\<And>c. c \<notin> {cid, i32 (cid + 1)} \<Longrightarrow> key_names K c k' = key_names K c k"
    "\<And>c j. c \<notin> {cid, i32 (cid + 1)} \<Longrightarrow> key_names K c k = Some j \<Longrightarrow> j \<noteq> t \<Longrightarrow> load_seg K j k' = load_seg K j k"
proof (rule allocate_poll_run [OF id(2,3,4) msz, of k])
  fix j c assume "c \<in> {cid, i32 (cid + 1)}" "key_names K c k = Some j"
  then show "\<exists>r. load_seg K j k = Some r \<and> usable r" using free by auto
next
  let ?m = "row_message_size (slots h ! i)"
  fix a b q1 q2 k1
  let ?s = "\<lparr>request_shm = \<lparr>info_key = cid, info_shmid = a\<rparr>,
       response_shm = \<lparr>info_key = i32 (cid + 1), info_shmid = b\<rparr>, shm_offset = 0\<rparr>"
  assume al: "allocate_pair K (setup_poll K ?m) cid (i32 (cid + 1)) k = Ret (?s, k1)" and ab: "a \<noteq> b"
    and n: "key_names K cid k1 = Some a" "key_names K (i32 (cid + 1)) k1 = Some b"
    and q: "load_seg K a k1 = Some (PollQ q1)" "load_seg K b k1 = Some (PollQ q2)" "fresh_poll (nat ?m) q1" "fresh_poll (nat ?m) q2"
    and names: "\<And>c. c \<notin> {cid, i32 (cid + 1)} \<Longrightarrow> key_names K c k1 = key_names K c k"
    and keep: "\<And>c j. c \<notin> {cid, i32 (cid + 1)} \<Longrightarrow> key_names K c k = Some j \<Longrightarrow> load_seg K j k1 = load_seg K j k"
  have tk: "tk \<notin> {cid, i32 (cid + 1)}" using tab(2) free by auto
  from keep [OF tk tab(2)] tab(1) have t1: "load_seg K t k1 = Some (Table h)" by simp
  then have "t \<noteq> a" "t \<noteq> b" using q(1,2) by auto
  let ?h = "set_row i (\<lambda>r. r\<lparr>row_shms := ?s, shm_created := True\<rparr>) h"
  let ?k = "store_seg K t (Table ?h) k1"
  have ls: "load_seg K j ?k = (if j = t then Some (Table ?h) else load_seg K j k1)" for j
    using load_store [of t k1 j "Table ?h"] t1 by simp
  have wf: "coord_wf h" using inv by (simp add: coord_inv_def)
  have req: "service_request h (int i) = Ret (cid, Some (?m, cid))" and pub: "service_publish h (int i) ?s = Ret ?h"
    using i id(1) by (simp_all add: service_request_def service_publish_def Let_def)
  have "service_slot K (Shm t) (int i) (hash_shm_allocator K) k = Ret (cid, ?k)"
    by (simp add: service_slot_def load_table_def store_table_def tab(1) t1 req pub hash_shm_allocator_def al)
  moreover have "coord_inv ?h" using coord_step_inv [OF step_service [OF req pub] inv] by simp
  moreover have "phase ?h i = Serving" if "phase h i \<noteq> Closing"
    using that wf i by (simp add: phase_def split: if_splits)
  ultimately show thesis
    using ab q n ls \<open>t \<noteq> a\<close> \<open>t \<noteq> b\<close> wf i(1) names tk tab(2) keep
    by (intro that [of ?k ?h a b q1 q2]) (simp_all add: store_names)
qed

end

section \<open>Properties\<close>

text \<open>
  \<open>coord_create\<close> makes the table of a new server: a well-formed table of free slots in a
  segment of its own, which every client that attaches by an address with the same hash gets.
\<close>

theorem coord_create_attach:
  assumes "region_kernel K" "hash addr \<noteq> 0" "key_names K (hash addr) k = None"
  shows "\<exists>i k' h. coord_create K addr k = Ret (Shm i, k') \<and> load_seg K i k' = Some (Table h) \<and> coord_inv h \<and>
    coord_shmid h = i \<and> (\<forall>j < SLOT_NUM. phase h j = Free) \<and>
    (\<forall>j. j \<noteq> i \<longrightarrow> load_seg K j k' = load_seg K j k) \<and>
    (\<forall>client. hash client = hash addr \<longrightarrow>
      (\<exists>k''. coord_attach K client k' = (Shm i, k'') \<and> load_seg K i k'' = Some (Table h)))"
proof -
  obtain i k' where c: "coord_create K addr k = Ret (Shm i, k')" "key_names K (hash addr) k' = Some i"
    "load_seg K i k' = Some (Table (init_header i zero_header))"
    "\<And>c. c \<noteq> hash addr \<Longrightarrow> key_names K c k' = key_names K c k" "\<And>j. j \<noteq> i \<Longrightarrow> load_seg K j k' = load_seg K j k"
    by (rule region_kernel.coord_create_run [OF assms], rule that)
  let ?h = "init_header i zero_header"
  have att: "\<exists>k''. coord_attach K client k' = (Shm i, k'') \<and> load_seg K i k'' = Some (Table ?h)"
    if cl: "hash client = hash addr" for client
  proof -
    have "hash client \<noteq> 0" "key_names K (hash client) k' = Some i" using cl assms(2) c(2) by simp_all
    then show ?thesis
      by (rule region_kernel.coord_attach_run [OF assms(1) _ _ c(3)]) (use c(3) in auto)
  qed
  have wf: "coord_wf zero_header" by (simp add: coord_wf_def zero_header_def)
  have h: "coord_inv ?h" "coord_shmid ?h = i" "\<forall>j < SLOT_NUM. phase ?h j = Free"
    using init_zero_inv init_header_simps(4,5) [OF wf] by (simp_all add: phase_def)
  show ?thesis
    using c(1,3) h by (intro exI [of _ i] exI [of _ k'] exI [of _ ?h] conjI allI impI att c(5)) simp_all
qed

theorem coord_create_attach_witness:
  "\<exists>i k' h. coord_create (ref_sysv zero_region :: (unit region ref_kernel, unit) kernel) [97] ref_boot = Ret (Shm i, k') \<and>
    coord_inv h \<and> ref_load i k' = Some (Table h)"
proof -
  have "hash [97] \<noteq> 0" by (simp add: hash_def hash_step_def rol_def)
  then show ?thesis
    using coord_create_attach [OF ref_region.region_kernel_axioms, of "[97]" "ref_boot"]
    by (auto simp: ref_names_def ref_boot_def)
qed

text \<open>
  \<open>coord_attach\<close> compares the result of \<open>shm_attach\<close> with NULL, but a failing \<open>shmat\<close>
  returns \<open>(void*) -1\<close>: the failure is handed on as a valid table and the first access
  through it is a fault.
\<close>

theorem coord_attach_misses_failure:
  assumes "shmget K (hash addr) (int sizeof_coord_header) attach_flag k = (i, k1)" "i \<noteq> -1"
    and "shmat K i k1 = (Failed, k2)"
  shows "coord_attach K addr k = (Failed, k2) \<and> load_table K Failed k2 = Fault BadPointer"
  using assms by (simp add: coord_attach_def load_table_def del: sizeof_coord_header_1688)

theorem coord_attach_misses_failure_witness:
  "\<exists>K :: (unit, unit) kernel. coord_attach K [97] () = (Failed, ()) \<and> load_table K Failed () = Fault BadPointer"
proof -
  let ?K = "\<lparr>shmget = (\<lambda>_ _ _ k. (3, k)), shmat = (\<lambda>_ k. (Failed, k)), shmdt = (\<lambda>_ k. (-1, k)),
    shmctl_rmid = (\<lambda>_ k. (-1, k)), semget = (\<lambda>_ _ _ k. ((-1, EOTHER), k)), semop = (\<lambda>_ _ _ k. Ret (-1, k)),
    semctl_rmid = (\<lambda>_ k. (-1, k)), sem_otime = (\<lambda>_ _ _. 0), load_seg = (\<lambda>_ _. None),
    store_seg = (\<lambda>_ _ k. k), key_names = (\<lambda>_ _. None), sleeping = (\<lambda>_ k. k)\<rparr> :: (unit, unit) kernel"
  show ?thesis
    using coord_attach_misses_failure [of ?K "[97]" "()" 3 "()" "()"] by auto
qed

text \<open>
  C27: \<open>service_slot\<close> with the allocator of the polling queue, on a slot that has been
  requested: two new segments hold empty queues for the client's message size, the row
  names them and is published, and the other rows keep.
\<close>

theorem service_slot_publishes:
  assumes "region_kernel K" "load_seg K t k = Some (Table h)" "key_names K tk k = Some t" "coord_inv h"
    and "i < SLOT_NUM" "phase h i = Requested" "row_client_id (slots h ! i) = cid"
    and "cid \<noteq> 0" "i32 (cid + 1) \<noteq> 0" "cid \<noteq> i32 (cid + 1)"
    and "key_names K cid k = None" "key_names K (i32 (cid + 1)) k = None"
    and "0 < row_message_size (slots h ! i)" "row_message_size (slots h ! i) \<le> int (QUEUE_SIZE - 40)"
  shows "\<exists>a b q1 q2 h' k'. service_slot K (Shm t) (int i) (hash_shm_allocator K) k = Ret (cid, k') \<and>
    load_seg K t k' = Some (Table h') \<and> coord_inv h' \<and> phase h' i = Serving \<and>
    check_slot h' (int i) = Ret \<lparr>request_shm = \<lparr>info_key = cid, info_shmid = a\<rparr>,
       response_shm = \<lparr>info_key = i32 (cid + 1), info_shmid = b\<rparr>, shm_offset = 0\<rparr> \<and>
    a \<noteq> b \<and> load_seg K a k' = Some (PollQ q1) \<and> load_seg K b k' = Some (PollQ q2) \<and>
    fresh_poll (nat (row_message_size (slots h ! i))) q1 \<and> fresh_poll (nat (row_message_size (slots h ! i))) q2 \<and>
    (\<forall>j < SLOT_NUM. j \<noteq> i \<longrightarrow> slots h' ! j = slots h ! j)"
proof -
  have i: "reserved h i" "\<not> shm_created (slots h ! i)" "phase h i \<noteq> Closing"
    using assms(6) by (auto simp: phase_def split: if_splits)
  obtain a b q1 q2 h' k' where s: "service_slot K (Shm t) (int i) (hash_shm_allocator K) k = Ret (cid, k')"
    "load_seg K t k' = Some (Table h')" "coord_inv h'" "phase h' i = Serving"
    "row_shms (slots h' ! i) = \<lparr>request_shm = \<lparr>info_key = cid, info_shmid = a\<rparr>,
       response_shm = \<lparr>info_key = i32 (cid + 1), info_shmid = b\<rparr>, shm_offset = 0\<rparr>"
    "a \<noteq> b" "load_seg K a k' = Some (PollQ q1)" "load_seg K b k' = Some (PollQ q2)"
    "fresh_poll (nat (row_message_size (slots h ! i))) q1" "fresh_poll (nat (row_message_size (slots h ! i))) q2"
    "\<forall>j < SLOT_NUM. j \<noteq> i \<longrightarrow> slots h' ! j = slots h ! j"
    using region_kernel.service_hash_run [OF assms(1-5) i(1,2) assms(7) [symmetric] assms(8-14)] i(3) by metis
  have "shm_created (slots h' ! i)" using s(4) by (auto simp: phase_def split: if_splits)
  then have "check_slot h' (int i) = Ret (row_shms (slots h' ! i))" using assms(5) by (simp add: check_slot_def)
  with s show ?thesis by metis
qed

text \<open>A reference kernel whose segment 0, named 9, is a table with one request.\<close>

definition demo_kernel :: "unit region ref_kernel" where
  "demo_kernel = ref_boot\<lparr>seg_ids := [0], segs := [0 \<mapsto> \<lparr>seg_key = 9, seg_removed = False,
     seg_attached = 1, seg_data = Table demo_table\<rparr>]\<rparr>"

lemma demo_kernel_names: "ref_names a demo_kernel = (if a = 9 then Some 0 else None)"
  "ref_load 0 demo_kernel = Some (Table demo_table)"
  by (simp_all add: ref_names_def ref_load_def lookup_seg_def demo_kernel_def ref_boot_def)

lemma demo_table_row: "slots demo_table ! 0 = fresh_row 5 8 POLL zero_row" "phase demo_table 0 = Requested"
  using demo_table_slots(1) demo_table_slots(3) [of 0] by (simp_all add: phase_def fresh_row_def)

theorem service_slot_publishes_witness:
  "\<exists>k' h'. service_slot (ref_sysv zero_region) (Shm 0) (int 0) (hash_shm_allocator (ref_sysv zero_region)) demo_kernel =
      Ret (5, k') \<and> ref_load 0 k' = Some (Table h') \<and> phase h' 0 = Serving"
proof -
  have "row_client_id (slots demo_table ! 0) = 5" "row_message_size (slots demo_table ! 0) = 8"
    by (simp_all add: demo_table_row fresh_row_def)
  then show ?thesis
    using service_slot_publishes [OF ref_region.region_kernel_axioms, of 0 demo_kernel demo_table 9 0 5]
      demo_table_inv demo_table_row(2)
    by (auto simp: demo_kernel_names i32_def QUEUE_SIZE_def)
qed

text \<open>
  The keys \<open>client_id\<close> and \<open>client_id + 1\<close> of neighbouring clients overlap: the response
  queue of client \<open>c\<close> is the request queue of client \<open>c + 1\<close>, and serving the second
  re-initialises it.
\<close>

theorem neighbour_ids_share_queue:
  assumes "region_kernel K" "0 < c" "c + 2 < 2147483648" "0 < m" "m \<le> int (QUEUE_SIZE - 40)"
    and "\<forall>x \<in> {c, c + 1, c + 2}. key_names K x k = None"
  shows "\<exists>s1 k1 s2 k2 q. hash_shm_allocator K m c k = Ret (s1, k1) \<and> hash_shm_allocator K m (c + 1) k1 = Ret (s2, k2) \<and>
    info_shmid (response_shm s1) = info_shmid (request_shm s2) \<and>
    load_seg K (info_shmid (response_shm s1)) k2 = Some (PollQ q) \<and> fresh_poll (nat m) q"
proof -
  have i: "i32 (c + 1) = c + 1" "i32 (c + 1 + 1) = c + 2" using assms(2,3) by (simp_all add: i32_def)
  have k0: "c \<noteq> 0" "i32 (c + 1) \<noteq> 0" "c \<noteq> i32 (c + 1)" using assms(2) i by simp_all
  have old0: "\<exists>r. load_seg K j k = Some r \<and> usable r" if "x \<in> {c, i32 (c + 1)}" "key_names K x k = Some j" for x j
    using that assms(6) i by auto
  obtain a b q1 q2 k1 where 1:
    "allocate_pair K (setup_poll K m) (c) (i32 (c + 1)) k = Ret (\<lparr>request_shm = \<lparr>info_key = c, info_shmid = a\<rparr>,
       response_shm = \<lparr>info_key = i32 (c + 1), info_shmid = b\<rparr>, shm_offset = 0\<rparr>, k1)"
    "a \<noteq> b" "key_names K (c) k1 = Some a" "key_names K (i32 (c + 1)) k1 = Some b"
    "load_seg K a k1 = Some (PollQ q1)" "load_seg K b k1 = Some (PollQ q2)"
    "fresh_poll (nat m) q1" "fresh_poll (nat m) q2"
    "\<And>x j. x \<in> {c, i32 (c + 1)} \<Longrightarrow> key_names K x k = Some j \<Longrightarrow> key_names K x k1 = Some j"
    "\<And>x. x \<notin> {c, i32 (c + 1)} \<Longrightarrow> key_names K x k1 = key_names K x k"
    "\<And>x j. x \<notin> {c, i32 (c + 1)} \<Longrightarrow> key_names K x k = Some j \<Longrightarrow> load_seg K j k1 = load_seg K j k"
    by (rule region_kernel.allocate_poll_run [OF assms(1) k0 assms(4,5)], rule old0, assumption, assumption, rule that)
  have k1: "c + 1 \<noteq> 0" "i32 (c + 1 + 1) \<noteq> 0" "c + 1 \<noteq> i32 (c + 1 + 1)" using assms(2) i by simp_all
  have old1: "\<exists>r. load_seg K j k1 = Some r \<and> usable r"
    if "x \<in> {c + 1, i32 (c + 1 + 1)}" "key_names K x k1 = Some j" for x j
    using that 1(4,6,8,10) assms(6) i usable_poll [of q2] by (auto simp: fresh_poll_def)
  obtain a' b' p1 p2 k2 where 2:
    "allocate_pair K (setup_poll K m) (c + 1) (i32 (c + 1 + 1)) k1 = Ret (\<lparr>request_shm = \<lparr>info_key = c + 1, info_shmid = a'\<rparr>,
       response_shm = \<lparr>info_key = i32 (c + 1 + 1), info_shmid = b'\<rparr>, shm_offset = 0\<rparr>, k2)"
    "a' \<noteq> b'" "key_names K (c + 1) k2 = Some a'" "key_names K (i32 (c + 1 + 1)) k2 = Some b'"
    "load_seg K a' k2 = Some (PollQ p1)" "load_seg K b' k2 = Some (PollQ p2)"
    "fresh_poll (nat m) p1" "fresh_poll (nat m) p2"
    "\<And>x j. x \<in> {c + 1, i32 (c + 1 + 1)} \<Longrightarrow> key_names K x k1 = Some j \<Longrightarrow> key_names K x k2 = Some j"
    "\<And>x. x \<notin> {c + 1, i32 (c + 1 + 1)} \<Longrightarrow> key_names K x k2 = key_names K x k1"
    "\<And>x j. x \<notin> {c + 1, i32 (c + 1 + 1)} \<Longrightarrow> key_names K x k1 = Some j \<Longrightarrow> load_seg K j k2 = load_seg K j k1"
    by (rule region_kernel.allocate_poll_run [OF assms(1) k1 assms(4,5)], rule old1, assumption, assumption, rule that)
  have "a' = b" using 1(4) 2(3) 2(9) [of "c + 1" b] i by simp
  with 1(1) 2(1,5,7) show ?thesis by (auto simp: hash_shm_allocator_def)
qed

theorem neighbour_ids_share_queue_witness:
  "\<exists>s1 k1 s2 k2. hash_shm_allocator (ref_sysv zero_region) 8 5 demo_kernel = Ret (s1, k1) \<and>
    hash_shm_allocator (ref_sysv zero_region) 8 6 k1 = Ret (s2, k2) \<and>
    info_shmid (response_shm s1) = info_shmid (request_shm s2)"
  using neighbour_ids_share_queue [OF ref_region.region_kernel_axioms, of 5 8 demo_kernel]
  by (auto simp: demo_kernel_names QUEUE_SIZE_def)

end
