(* ===== verification/Boost_Queue.thy ===== *)
theory Boost_Queue
  imports Prelude
begin

text \<open>
  The Boost queue, \<open>src/libnotnets/src/boost_queue.cpp\<close>: \<open>boost_push\<close> and \<open>boost_pop\<close> around
  \<open>boost::lockfree::spsc_queue<buffer_wrapper>\<close>. The library is a parameter, a record of
  its two operations over an unknown queue object \<open>'b\<close> with elements \<open>'a\<close>; \<open>boost_spsc\<close>
  states what its documentation promises. The programs that time the library itself, in
  theory Boost_Bench, use it with other elements and another capacity.
\<close>

definition MESSAGE_SIZE :: nat where "MESSAGE_SIZE = 10"

definition QUEUE_CAPACITY :: nat where "QUEUE_CAPACITY = 100"

record ('a, 'b) boost_lib =
  lib_push :: "'a \<Rightarrow> 'b \<Rightarrow> bool \<times> 'b"
  lib_pop :: "'b \<Rightarrow> ('a \<times> 'b) option"

text \<open>
  Whatever \<open>buf_size\<close> says, \<open>*t\<close> reads \<open>MESSAGE_SIZE\<close> bytes from the caller's buffer, and
  \<open>pop(t, 1)\<close> writes as many; \<open>room\<close> is the memory behind the receiver's pointer. The loop
  of \<open>boost_pop\<close> does not end on a queue that stays empty.
\<close>

definition boost_push :: "(byte list, 'b) boost_lib \<Rightarrow> 'b \<Rightarrow> byte list \<Rightarrow> nat \<Rightarrow> (int \<times> 'b) outcome" where
  "boost_push B q buf buf_size =
     (if length buf < MESSAGE_SIZE then Fault OutOfBounds
      else let (ok, q') = lib_push B (take MESSAGE_SIZE buf) q in
           if ok then Ret (0, q') else Ret (-1, q'))"

definition boost_pop :: "(byte list, 'b) boost_lib \<Rightarrow> 'b \<Rightarrow> nat \<Rightarrow> nat \<Rightarrow> ((nat \<times> byte list) \<times> 'b) outcome" where
  "boost_pop B q room buf_size =
     (case lib_pop B q of
        None \<Rightarrow> Hang
      | Some (m, q') \<Rightarrow> if room < length m then Fault OutOfBounds else Ret ((0, m), q'))"

section \<open>What the library promises\<close>

locale boost_spsc =
  fixes B :: "('a, 'b) boost_lib" and items :: "'b \<Rightarrow> 'a list" and cap :: nat
  assumes lib_push_room:
      "length (items q) < cap \<Longrightarrow> \<exists>q'. lib_push B m q = (True, q') \<and> items q' = items q @ [m]"
    and lib_push_full: "cap \<le> length (items q) \<Longrightarrow> lib_push B m q = (False, q)"
    and lib_pop_some: "items q = m # ms \<Longrightarrow> \<exists>q'. lib_pop B q = Some (m, q') \<and> items q' = ms"
    and lib_pop_none: "items q = [] \<Longrightarrow> lib_pop B q = None"
begin

lemma lib_push_true: "lib_push B m q = (True, q') \<Longrightarrow> items q' = items q @ [m]"
  using lib_push_room [of q m] lib_push_full [of q m] by (cases "length (items q) < cap") auto

lemma lib_pop_iff: "lib_pop B q = Some (v, q') \<Longrightarrow> items q = v # items q'"
  using lib_pop_none [of q] lib_pop_some [of q] by (cases "items q") auto

end

text \<open>A list as the queue object.\<close>

definition bounded_list_lib :: "nat \<Rightarrow> ('a, 'a list) boost_lib" where
  "bounded_list_lib cap = \<lparr>lib_push = (\<lambda>m q. if length q < cap then (True, q @ [m]) else (False, q)),
     lib_pop = (\<lambda>q. case q of [] \<Rightarrow> None | m # ms \<Rightarrow> Some (m, ms))\<rparr>"

abbreviation list_lib :: "(byte list, byte list list) boost_lib" where
  "list_lib \<equiv> bounded_list_lib QUEUE_CAPACITY"

interpretation list_boost: boost_spsc "bounded_list_lib cap" "\<lambda>q. q" cap for cap
  by unfold_locales (simp_all add: bounded_list_lib_def)

lemma push_then_pop:
  assumes "boost_spsc B items QUEUE_CAPACITY" "items q = []" "length buf = MESSAGE_SIZE"
  shows "\<exists>q1 q2. boost_push B q buf n = Ret (0, q1) \<and>
    boost_pop B q1 MESSAGE_SIZE MESSAGE_SIZE = Ret ((0, buf), q2) \<and> items q2 = []"
proof -
  from boost_spsc.lib_push_room [OF assms(1), of q buf] assms(2) obtain q1 where
    q1: "lib_push B buf q = (True, q1)" "items q1 = [buf]"
    by (auto simp: QUEUE_CAPACITY_def)
  from boost_spsc.lib_pop_some [OF assms(1) q1(2)] obtain q2 where q2: "lib_pop B q1 = Some (buf, q2)" "items q2 = []" by auto
  from q1 q2 assms show ?thesis by (auto simp: boost_push_def boost_pop_def)
qed

section \<open>Properties\<close>

text \<open>
  A message of exactly \<open>MESSAGE_SIZE\<close> bytes goes through the Boost queue unchanged; a full
  queue makes \<open>boost_push\<close> return -1 where the other queues wait.
\<close>

theorem boost_roundtrip:
  assumes "boost_spsc B items QUEUE_CAPACITY" "length buf = MESSAGE_SIZE"
  shows "(items q = [] \<longrightarrow> (\<exists>q1 q2. boost_push B q buf n = Ret (0, q1) \<and>
      boost_pop B q1 MESSAGE_SIZE MESSAGE_SIZE = Ret ((0, buf), q2) \<and> items q2 = [])) \<and>
    (length (items q) = QUEUE_CAPACITY \<longrightarrow> boost_push B q buf n = Ret (-1, q))"
  using push_then_pop [OF assms(1) _ assms(2)] boost_spsc.lib_push_full [OF assms(1)] assms(2)
  by (auto simp: boost_push_def)

theorem boost_roundtrip_witness:
  "\<exists>q1. boost_push list_lib [] (replicate 10 7) 10 = Ret (0, q1) \<and>
     boost_pop list_lib q1 MESSAGE_SIZE MESSAGE_SIZE = Ret ((0, replicate 10 7), [])"
  using boost_roundtrip [OF list_boost.boost_spsc_axioms, of "replicate 10 7" "[]" 10]
  by (simp add: MESSAGE_SIZE_def)

text \<open>
  The message size a client asked for is ignored: a buffer shorter than \<open>MESSAGE_SIZE\<close> is
  read past its end, a longer one is cut off.
\<close>

theorem boost_fixed_size:
  assumes "boost_spsc B items QUEUE_CAPACITY" "length (items q) < QUEUE_CAPACITY"
  shows "(length buf < MESSAGE_SIZE \<longrightarrow> boost_push B q buf (length buf) = Fault OutOfBounds) \<and>
    (MESSAGE_SIZE < length buf \<longrightarrow>
      (\<exists>q'. boost_push B q buf (length buf) = Ret (0, q') \<and> items q' = items q @ [take MESSAGE_SIZE buf]))"
  using boost_spsc.lib_push_room [OF assms, of "take MESSAGE_SIZE buf"] by (auto simp: boost_push_def)

theorem boost_fixed_size_witness:
  "boost_push list_lib [] [1, 2, 3, 4] (length [1, 2, 3, 4 :: byte]) = Fault OutOfBounds"
  using boost_fixed_size [OF list_boost.boost_spsc_axioms, of "[]" "[1, 2, 3, 4]"]
  by (simp add: MESSAGE_SIZE_def QUEUE_CAPACITY_def)

end
