(* ===== verification/Rpc.thy ===== *)
theory Rpc
  imports Region Boost_Queue
begin

text \<open>
  Connections, \<open>src/libnotnets/include/rpc.h\<close> and \<open>src/libnotnets/src/rpc.cpp\<close>: opening,
  accepting and closing connections, the pool manager of the server, sending and receiving
  over the queues of a connection, and shutting down. The loops that wait for another
  process take \<open>fuel\<close>, a bound on the number of rounds; what the other processes do
  meanwhile is \<open>sleeping\<close> of the kernel. Running out of fuel is \<open>Hang\<close>.
\<close>

section \<open>Data\<close>

definition NOT_RUNNING :: int where "NOT_RUNNING = 0"

definition RUNNING_NO_SHUTDOWN :: int where "RUNNING_NO_SHUTDOWN = 1"

definition RUNNING_SHUTDOWN :: int where "RUNNING_SHUTDOWN = 2"

definition CLIENT_OPEN_WAIT_INTERVAL :: nat where "CLIENT_OPEN_WAIT_INTERVAL = 200"

definition SERVER_SERVICE_POLL_INTERVAL :: nat where "SERVER_SERVICE_POLL_INTERVAL = 150"

record queue_pair =
  qp_client_id :: int
  request_shmaddr :: ptr
  response_shmaddr :: ptr
  qp_offset :: int

text \<open>The function pointers of \<open>queue_ctx\<close>; a receive yields the return value and the bytes.\<close>

type_synonym 'k send_fun = "queue_pair \<Rightarrow> byte list \<Rightarrow> nat \<Rightarrow> 'k \<Rightarrow> (int \<times> 'k) outcome"

type_synonym 'k recv_fun = "queue_pair \<Rightarrow> nat \<Rightarrow> 'k \<Rightarrow> ((nat \<times> byte list) \<times> 'k) outcome"

record 'k queue_ctx =
  queues :: queue_pair
  ctx_client_send_rpc :: "'k send_fun"
  ctx_client_receive_buf :: "'k recv_fun"
  ctx_server_send_rpc :: "'k send_fun"
  ctx_server_receive_buf :: "'k recv_fun"

record server_context =
  coord_shmaddr :: ptr
  manage_pool_state :: int

text \<open>
  The code outside the repository that a server and its clients rely on: the kernel, the
  Boost queue and the construction of a Boost queue in a segment.
\<close>

record ('k, 'b) platform =
  sysv_of :: "('k, 'b) kernel"
  boost_of :: "(byte list, 'b) boost_lib"
  construct_of :: "int \<Rightarrow> 'k \<Rightarrow> ((int \<times> int) \<times> 'k) outcome"

section \<open>Queue operations through a pointer\<close>

definition push_at :: "('k, 'b) kernel \<Rightarrow> ptr \<Rightarrow> byte list \<Rightarrow> nat \<Rightarrow> 'k \<Rightarrow> (int \<times> 'k) outcome" where
  "push_at K p buf n k =
     bind_out (bind_out (deref K p k) as_poll) (\<lambda>q.
     bind_out (push q buf n) (\<lambda>(r, q').
     bind_out (write_through K p (PollQ q') k) (\<lambda>k'. Ret (r, k'))))"

definition pop_at :: "('k, 'b) kernel \<Rightarrow> ptr \<Rightarrow> nat \<Rightarrow> 'k \<Rightarrow> ((nat \<times> byte list) \<times> 'k) outcome" where
  "pop_at K p n k =
     bind_out (bind_out (deref K p k) as_poll) (\<lambda>q.
     bind_out (pop q n) (\<lambda>(r, q').
     bind_out (write_through K p (PollQ q') k) (\<lambda>k'. Ret ((pop_read r, pop_out r), k'))))"

definition sem_push_at :: "('k, 'b) kernel \<Rightarrow> ptr \<Rightarrow> byte list \<Rightarrow> nat \<Rightarrow> 'k \<Rightarrow> (int \<times> 'k) outcome" where
  "sem_push_at K p buf n k =
     bind_out (bind_out (deref K p k) as_sem) (\<lambda>q.
     bind_out (sem_push K [] (q, k) buf n) (\<lambda>(r, q', k1).
     bind_out (write_through K p (SemQ q') k1) (\<lambda>k2. Ret (r, k2))))"

definition sem_pop_at :: "('k, 'b) kernel \<Rightarrow> ptr \<Rightarrow> nat \<Rightarrow> 'k \<Rightarrow> ((nat \<times> byte list) \<times> 'k) outcome" where
  "sem_pop_at K p n k =
     bind_out (bind_out (deref K p k) as_sem) (\<lambda>q.
     bind_out (sem_pop K [] (q, k) n) (\<lambda>(r, q', k1).
     bind_out (write_through K p (SemQ q') k1) (\<lambda>k2. Ret ((pop_read r, pop_out r), k2))))"

fun as_boost :: "'b region \<Rightarrow> 'b outcome" where
  "as_boost (BoostQ b) = Ret b"
| "as_boost _ = Fault BadCast"

definition boost_push_at :: "('k, 'b) platform \<Rightarrow> ptr \<Rightarrow> byte list \<Rightarrow> nat \<Rightarrow> 'k \<Rightarrow> (int \<times> 'k) outcome" where
  "boost_push_at P p buf n k =
     bind_out (bind_out (deref (sysv_of P) p k) as_boost) (\<lambda>q.
     bind_out (boost_push (boost_of P) q buf n) (\<lambda>(r, q').
     bind_out (write_through (sysv_of P) p (BoostQ q') k) (\<lambda>k'. Ret (r, k'))))"

definition boost_pop_at :: "('k, 'b) platform \<Rightarrow> ptr \<Rightarrow> nat \<Rightarrow> 'k \<Rightarrow> ((nat \<times> byte list) \<times> 'k) outcome" where
  "boost_pop_at P p n k =
     bind_out (bind_out (deref (sysv_of P) p k) as_boost) (\<lambda>q.
     bind_out (boost_pop (boost_of P) q n n) (\<lambda>(r, q').
     bind_out (write_through (sysv_of P) p (BoostQ q') k) (\<lambda>k'. Ret (r, k'))))"

definition client_send_poll :: "('k, 'b) platform \<Rightarrow> 'k send_fun" where
  "client_send_poll P conn buf n k = push_at (sysv_of P) (request_shmaddr conn) buf n k"

definition client_receive_poll :: "('k, 'b) platform \<Rightarrow> 'k recv_fun" where
  "client_receive_poll P conn n k = pop_at (sysv_of P) (response_shmaddr conn) n k"

definition server_send_poll :: "('k, 'b) platform \<Rightarrow> 'k send_fun" where
  "server_send_poll P client buf n k = push_at (sysv_of P) (response_shmaddr client) buf n k"

definition server_receive_poll :: "('k, 'b) platform \<Rightarrow> 'k recv_fun" where
  "server_receive_poll P client n k = pop_at (sysv_of P) (request_shmaddr client) n k"

definition client_send_boost :: "('k, 'b) platform \<Rightarrow> 'k send_fun" where
  "client_send_boost P conn buf n k = boost_push_at P (request_shmaddr conn) buf n k"

definition client_receive_boost :: "('k, 'b) platform \<Rightarrow> 'k recv_fun" where
  "client_receive_boost P conn n k = boost_pop_at P (response_shmaddr conn) n k"

definition server_send_boost :: "('k, 'b) platform \<Rightarrow> 'k send_fun" where
  "server_send_boost P client buf n k = boost_push_at P (response_shmaddr client) buf n k"

definition server_receive_boost :: "('k, 'b) platform \<Rightarrow> 'k recv_fun" where
  "server_receive_boost P client n k = boost_pop_at P (request_shmaddr client) n k"

definition client_send_sem :: "('k, 'b) platform \<Rightarrow> 'k send_fun" where
  "client_send_sem P conn buf n k = sem_push_at (sysv_of P) (request_shmaddr conn) buf n k"

definition client_receive_sem :: "('k, 'b) platform \<Rightarrow> 'k recv_fun" where
  "client_receive_sem P conn n k = sem_pop_at (sysv_of P) (response_shmaddr conn) n k"

definition server_send_sem :: "('k, 'b) platform \<Rightarrow> 'k send_fun" where
  "server_send_sem P client buf n k = sem_push_at (sysv_of P) (response_shmaddr client) buf n k"

definition server_receive_sem :: "('k, 'b) platform \<Rightarrow> 'k recv_fun" where
  "server_receive_sem P client n k = sem_pop_at (sysv_of P) (request_shmaddr client) n k"

definition select_queue_ctx :: "('k, 'b) platform \<Rightarrow> QUEUE_TYPE \<Rightarrow> queue_pair \<Rightarrow> 'k queue_ctx" where
  "select_queue_ctx P t qp =
     (case t of
        POLL \<Rightarrow> \<lparr>queues = qp, ctx_client_send_rpc = client_send_poll P,
          ctx_client_receive_buf = client_receive_poll P, ctx_server_send_rpc = server_send_poll P,
          ctx_server_receive_buf = server_receive_poll P\<rparr>
      | BOOST \<Rightarrow> \<lparr>queues = qp, ctx_client_send_rpc = client_send_boost P,
          ctx_client_receive_buf = client_receive_boost P, ctx_server_send_rpc = server_send_boost P,
          ctx_server_receive_buf = server_receive_boost P\<rparr>
      | SEM \<Rightarrow> \<lparr>queues = qp, ctx_client_send_rpc = client_send_sem P,
          ctx_client_receive_buf = client_receive_sem P, ctx_server_send_rpc = server_send_sem P,
          ctx_server_receive_buf = server_receive_sem P\<rparr>)"

definition client_send_rpc :: "'k queue_ctx \<Rightarrow> byte list \<Rightarrow> nat \<Rightarrow> 'k \<Rightarrow> (int \<times> 'k) outcome" where
  "client_send_rpc ctx buf n k = ctx_client_send_rpc ctx (queues ctx) buf n k"

definition client_receive_buf :: "'k queue_ctx \<Rightarrow> nat \<Rightarrow> 'k \<Rightarrow> ((nat \<times> byte list) \<times> 'k) outcome" where
  "client_receive_buf ctx n k = ctx_client_receive_buf ctx (queues ctx) n k"

definition server_send_rpc :: "'k queue_ctx \<Rightarrow> byte list \<Rightarrow> nat \<Rightarrow> 'k \<Rightarrow> (int \<times> 'k) outcome" where
  "server_send_rpc ctx buf n k = ctx_server_send_rpc ctx (queues ctx) buf n k"

definition server_receive_buf :: "'k queue_ctx \<Rightarrow> nat \<Rightarrow> 'k \<Rightarrow> ((nat \<times> byte list) \<times> 'k) outcome" where
  "server_receive_buf ctx n k = ctx_server_receive_buf ctx (queues ctx) n k"

section \<open>Opening a connection\<close>

text \<open>\<open>while (shms.request_shm.key == 0 || shms.response_shm.key == 0)\<close>, with nothing but the check in it.\<close>

fun await_keys :: "('k, 'b) kernel \<Rightarrow> ptr \<Rightarrow> int \<Rightarrow> nat \<Rightarrow> shm_pair \<Rightarrow> 'k \<Rightarrow> (shm_pair \<times> 'k) outcome" where
  "await_keys K ch slot fuel shms k =
     (if info_key (request_shm shms) = 0 \<or> info_key (response_shm shms) = 0 then
        (case fuel of
           0 \<Rightarrow> Hang
         | Suc n \<Rightarrow>
             let k1 = sleeping K 0 k in
             bind_out (load_table K ch k1) (\<lambda>h.
             bind_out (check_slot h slot) (\<lambda>shms'. await_keys K ch slot n shms' k1)))
      else Ret (shms, k))"

declare await_keys.simps [simp del]

text \<open>\<open>attach_pair\<close>: the end of both functions; an attached slot gets null pointers.\<close>

definition attach_pair ::
  "('k, 'b) kernel \<Rightarrow> ptr \<Rightarrow> int \<Rightarrow> int \<Rightarrow> shm_pair \<Rightarrow> bool \<Rightarrow>
   (coord_header \<Rightarrow> int \<Rightarrow> bool \<Rightarrow> (bool \<times> coord_header) outcome) \<Rightarrow> 'k \<Rightarrow> (queue_pair \<times> 'k) outcome"
where
  "attach_pair K ch slot cid shms attached set_state k =
     (if attached then
        Ret (\<lparr>qp_client_id = cid, request_shmaddr = Null, response_shmaddr = Null, qp_offset = shm_offset shms\<rparr>, k)
      else
        bind_out (load_table K ch k) (\<lambda>h.
        bind_out (set_state h slot True) (\<lambda>(b, h').
        bind_out (store_table K ch h' k) (\<lambda>k1.
          let (req, k2) = shm_attach K (info_shmid (request_shm shms)) k1;
              (resp, k3) = shm_attach K (info_shmid (response_shm shms)) k2
          in Ret (\<lparr>qp_client_id = cid, request_shmaddr = req, response_shmaddr = resp,
                   qp_offset = shm_offset shms\<rparr>, k3)))))"

definition create_client_queue_pair ::
  "('k, 'b) kernel \<Rightarrow> nat \<Rightarrow> ptr \<Rightarrow> int \<Rightarrow> 'k \<Rightarrow> (queue_pair \<times> 'k) outcome" where
  "create_client_queue_pair K fuel ch slot k =
     bind_out (load_table K ch k) (\<lambda>h.
     bind_out (check_slot h slot) (\<lambda>shms.
     bind_out (get_client_id h slot) (\<lambda>cid.
     bind_out (await_keys K ch slot fuel shms k) (\<lambda>(shms', k1).
     bind_out (load_table K ch k1) (\<lambda>h1.
     bind_out (get_client_attach_state h1 slot) (\<lambda>attached.
     attach_pair K ch slot cid shms' attached set_client_attach_state k1))))))"

definition create_server_queue_pair ::
  "('k, 'b) kernel \<Rightarrow> nat \<Rightarrow> ptr \<Rightarrow> int \<Rightarrow> 'k \<Rightarrow> (queue_pair \<times> 'k) outcome" where
  "create_server_queue_pair K fuel ch slot k =
     bind_out (load_table K ch k) (\<lambda>h.
     bind_out (check_slot h slot) (\<lambda>shms.
     bind_out (get_client_id h slot) (\<lambda>cid.
     bind_out (await_keys K ch slot fuel shms k) (\<lambda>(shms', k1).
     bind_out (load_table K ch k1) (\<lambda>h1.
     bind_out (get_server_attach_state h1 slot) (\<lambda>attached.
     attach_pair K ch slot cid shms' attached set_server_attach_state k1))))))"

definition request_at ::
  "('k, 'b) kernel \<Rightarrow> ptr \<Rightarrow> int \<Rightarrow> int \<Rightarrow> QUEUE_TYPE \<Rightarrow> 'k \<Rightarrow> (int \<times> 'k) outcome" where
  "request_at K ch client_id msize type k =
     bind_out (load_table K ch k) (\<lambda>h.
     bind_out (request_slot h client_id msize type) (\<lambda>(slot, h').
     bind_out (store_table K ch h' k) (\<lambda>k1. Ret (slot, k1))))"

text \<open>\<open>while (slot == -1)\<close>: the request is repeated and the client sleeps after each attempt.\<close>

fun await_slot ::
  "('k, 'b) kernel \<Rightarrow> ptr \<Rightarrow> int \<Rightarrow> int \<Rightarrow> QUEUE_TYPE \<Rightarrow> nat \<Rightarrow> int \<Rightarrow> 'k \<Rightarrow> (int \<times> 'k) outcome" where
  "await_slot K ch client_id msize type fuel slot k =
     (if slot = -1 then
        (case fuel of
           0 \<Rightarrow> Hang
         | Suc n \<Rightarrow>
             bind_out (request_at K ch client_id msize type k) (\<lambda>(slot', k1).
             await_slot K ch client_id msize type n slot' (sleeping K CLIENT_OPEN_WAIT_INTERVAL k1)))
      else Ret (slot, k))"

declare await_slot.simps [simp del]

fun await_created :: "('k, 'b) kernel \<Rightarrow> ptr \<Rightarrow> int \<Rightarrow> nat \<Rightarrow> 'k \<Rightarrow> 'k outcome" where
  "await_created K ch slot fuel k =
     bind_out (load_table K ch k) (\<lambda>h.
     at_slot slot (\<lambda>i.
       if shm_created (slots h ! i) then Ret k
       else case fuel of
           0 \<Rightarrow> Hang
         | Suc n \<Rightarrow> await_created K ch slot n (sleeping K CLIENT_OPEN_WAIT_INTERVAL k)))"

declare await_created.simps [simp del]

definition client_open ::
  "('k, 'b) platform \<Rightarrow> nat \<Rightarrow> byte list \<Rightarrow> byte list \<Rightarrow> int \<Rightarrow> QUEUE_TYPE \<Rightarrow> 'k \<Rightarrow>
   ('k queue_ctx option \<times> 'k) outcome"
where
  "client_open P fuel source_addr destination_addr msize type k =
     (let K = sysv_of P; (ch, k1) = coord_attach K destination_addr k in
      if ch = Null then Ret (None, k1)
      else
        let client_id = hash source_addr in
        bind_out (request_at K ch client_id msize type k1) (\<lambda>(slot0, k2).
        bind_out (await_slot K ch client_id msize type fuel slot0 k2) (\<lambda>(slot, k3).
        bind_out (await_created K ch slot fuel k3) (\<lambda>k4.
        bind_out (create_client_queue_pair K fuel ch slot k4) (\<lambda>(qp, k5).
        Ret (Some (select_queue_ctx P type qp), k5))))))"

definition client_close :: "('k, 'b) kernel \<Rightarrow> byte list \<Rightarrow> byte list \<Rightarrow> 'k \<Rightarrow> (int \<times> 'k) outcome" where
  "client_close K source_addr destination_addr k =
     (let client_id = hash source_addr; (ch, k1) = coord_attach K destination_addr k in
      bind_out (load_table K ch k1) (\<lambda>h.
        let (r, h') = close_loop [0..<SLOT_NUM] client_id h in
        bind_out (store_table K ch h' k1) (\<lambda>k2. Ret (r, coord_detach K ch k2))))"

section \<open>The server\<close>

definition clear_at :: "('k, 'b) kernel \<Rightarrow> ptr \<Rightarrow> int \<Rightarrow> 'k \<Rightarrow> 'k outcome" where
  "clear_at K ch slot k =
     bind_out (load_table K ch k) (\<lambda>h.
     bind_out (clear_slot K h slot k) (\<lambda>(h', k1). store_table K ch h' k1))"

definition allocator_of :: "('k, 'b) platform \<Rightarrow> QUEUE_TYPE \<Rightarrow> 'k allocator" where
  "allocator_of P t =
     (case t of
        POLL \<Rightarrow> hash_shm_allocator (sysv_of P)
      | BOOST \<Rightarrow> boost_shm_allocator (construct_of P)
      | SEM \<Rightarrow> hash_sem_shm_allocator (sysv_of P))"

definition manage_slot :: "('k, 'b) platform \<Rightarrow> ptr \<Rightarrow> int \<Rightarrow> 'k \<Rightarrow> 'k outcome" where
  "manage_slot P ch slot k =
     bind_out (load_table (sysv_of P) ch k) (\<lambda>h.
     at_slot slot (\<lambda>i.
       bind_out (service_slot (sysv_of P) ch slot (allocator_of P (row_type (slots h ! i))) k) (\<lambda>(r, k1).
       bind_out (clean_up_queue_resources (sysv_of P) ch slot k1) (\<lambda>k2.
       clear_at (sysv_of P) ch slot k2))))"

fun manage_loop :: "('k, 'b) platform \<Rightarrow> ptr \<Rightarrow> nat list \<Rightarrow> 'k \<Rightarrow> 'k outcome" where
  "manage_loop P ch [] k = Ret k"
| "manage_loop P ch (i # is) k =
     bind_out (manage_slot P ch (int i) k) (\<lambda>k1. manage_loop P ch is k1)"

definition manage_pool :: "('k, 'b) platform \<Rightarrow> server_context \<Rightarrow> 'k \<Rightarrow> 'k outcome" where
  "manage_pool P handler k = manage_loop P (coord_shmaddr handler) [0..<SLOT_NUM] k"

definition accept ::
  "('k, 'b) platform \<Rightarrow> nat \<Rightarrow> server_context \<Rightarrow> 'k \<Rightarrow> ('k queue_ctx option \<times> 'k) outcome" where
  "accept P fuel handler k =
     (let K = sysv_of P; ch = coord_shmaddr handler in
      bind_out (load_table K ch k) (\<lambda>h.
      let slot = accept_slot h in
      bind_out (mutex_lock h) (\<lambda>h1.
        case accept_loop SLOT_NUM (nat slot) h1 of
          None \<Rightarrow> bind_out (store_table K ch (mutex_unlock h1) k) (\<lambda>k1. Ret (None, k1))
        | Some s \<Rightarrow>
            let h2 = mutex_unlock (h1\<lparr>accept_slot := int ((s + 1) mod SLOT_NUM)\<rparr>) in
            bind_out (store_table K ch h2 k) (\<lambda>k1.
            bind_out (create_server_queue_pair K fuel ch (int s) k1) (\<lambda>(qp, k2).
            Ret (Some (select_queue_ctx P (row_type (slots h2 ! s)) qp), k2))))))"

text \<open>
  The wait of \<open>shutdown\<close> for the pool thread. \<open>running\<close> says whether there is such a thread:
  when it next looks at the state and finds \<open>RUNNING_SHUTDOWN\<close>, it sets \<open>NOT_RUNNING\<close>.
\<close>

fun await_runner :: "bool \<Rightarrow> nat \<Rightarrow> server_context \<Rightarrow> server_context outcome" where
  "await_runner running fuel sc =
     (if manage_pool_state sc = NOT_RUNNING then Ret sc
      else case fuel of
          0 \<Rightarrow> Hang
        | Suc n \<Rightarrow>
            await_runner running n
              (if running \<and> manage_pool_state sc = RUNNING_SHUTDOWN
               then sc\<lparr>manage_pool_state := NOT_RUNNING\<rparr> else sc))"

declare await_runner.simps [simp del]

definition shutdown :: "('k, 'b) platform \<Rightarrow> bool \<Rightarrow> nat \<Rightarrow> server_context \<Rightarrow> 'k \<Rightarrow> 'k outcome" where
  "shutdown P running fuel handler k =
     (let K = sysv_of P; ch = coord_shmaddr handler in
      bind_out (await_runner running fuel (handler\<lparr>manage_pool_state := RUNNING_SHUTDOWN\<rparr>)) (\<lambda>sc.
      bind_out (load_table K ch k) (\<lambda>h.
      bind_out (store_table K ch (coord_shutdown h) k) (\<lambda>k1.
      bind_out (manage_pool P sc k1) (\<lambda>k2. coord_delete K ch k2)))))"

text \<open>\<open>err\<close> is the result of \<open>pthread_create\<close>.\<close>

definition register_server ::
  "('k, 'b) platform \<Rightarrow> nat \<Rightarrow> int \<Rightarrow> byte list \<Rightarrow> 'k \<Rightarrow> (server_context option \<times> 'k) outcome" where
  "register_server P fuel err source_addr k =
     bind_out (coord_create (sysv_of P) source_addr k) (\<lambda>(ch, k1).
       let sc = \<lparr>coord_shmaddr = ch, manage_pool_state = RUNNING_NO_SHUTDOWN\<rparr> in
       if err \<noteq> 0 then bind_out (shutdown P False fuel sc k1) (\<lambda>k2. Ret (None, k2))
       else Ret (Some sc, k1))"

text \<open>One pass of the loop of \<open>_manage_pool_runner\<close>: \<open>None\<close> when the thread returns.\<close>

definition runner_pass ::
  "('k, 'b) platform \<Rightarrow> server_context \<Rightarrow> 'k \<Rightarrow> (server_context \<times> 'k option) outcome" where
  "runner_pass P sc k =
     (if manage_pool_state sc = RUNNING_SHUTDOWN then Ret (sc\<lparr>manage_pool_state := NOT_RUNNING\<rparr>, None)
      else bind_out (manage_pool P sc k) (\<lambda>k1.
        Ret (sc, Some (sleeping (sysv_of P) SERVER_SERVICE_POLL_INTERVAL k1))))"

fun manage_pool_runner ::
  "('k, 'b) platform \<Rightarrow> nat \<Rightarrow> (nat \<Rightarrow> server_context \<Rightarrow> server_context) \<Rightarrow> server_context \<Rightarrow> 'k \<Rightarrow>
   (server_context \<times> 'k) outcome"
where
  "manage_pool_runner P 0 others sc k = Hang"
| "manage_pool_runner P (Suc n) others sc k =
     bind_out (runner_pass P sc k) (\<lambda>(sc1, next).
       case next of
         None \<Rightarrow> Ret (sc1, k)
       | Some k1 \<Rightarrow> manage_pool_runner P n others (others n sc1) k1)"

section \<open>A server on a kernel with room\<close>

text \<open>An empty queue for messages of \<open>m\<close> bytes.\<close>

definition empty_poll :: "nat \<Rightarrow> spsc_queue_header \<Rightarrow> bool" where
  "empty_poll m q \<longleftrightarrow> poll_inv q \<and> abs_queue q = \<lparr>msgs = [], read_off = 0\<rparr> \<and> message_size q = m \<and>
     capacity q = (QUEUE_SIZE - 40) div m - 1"

lemma fresh_empty: "fresh_poll m q \<Longrightarrow> empty_poll m q"
  by (simp add: fresh_poll_def empty_poll_def)

locale rpc_server = region_kernel K for K :: "('k, 'b) kernel" +
  fixes P :: "('k, 'b) platform"
  assumes platform: "sysv_of P = K"
begin

text \<open>Two kernel states that no segment and no name distinguishes.\<close>

definition obs_eq :: "'k \<Rightarrow> 'k \<Rightarrow> bool" where
  "obs_eq k k' \<longleftrightarrow> (\<forall>j. load_seg K j k' = load_seg K j k) \<and> (\<forall>c. key_names K c k' = key_names K c k)"

lemma obs_eq_refl [simp]: "obs_eq k k"
  by (simp add: obs_eq_def)

lemma obs_eq_trans: "obs_eq k k1 \<Longrightarrow> obs_eq k1 k2 \<Longrightarrow> obs_eq k k2"
  by (simp add: obs_eq_def)

text \<open>
  What an operation on the table in segment \<open>t\<close> leaves alone: every name but the keys in \<open>C\<close>, and
  every other segment with such a name.
\<close>

definition keeps :: "int set \<Rightarrow> int \<Rightarrow> 'k \<Rightarrow> 'k \<Rightarrow> bool" where
  "keeps C t k k' \<longleftrightarrow> (\<forall>c. c \<notin> C \<longrightarrow> key_names K c k' = key_names K c k \<and>
     (\<forall>j. key_names K c k = Some j \<longrightarrow> j \<noteq> t \<longrightarrow> load_seg K j k' = load_seg K j k))"

lemma obs_keeps: "obs_eq k k' \<Longrightarrow> keeps C t k k'"
  by (simp add: obs_eq_def keeps_def)

lemma keeps_trans: "keeps C t k k1 \<Longrightarrow> keeps C t k1 k2 \<Longrightarrow> keeps C t k k2"
  by (simp add: keeps_def)

lemma keeps_mono: "keeps {} t k k' \<Longrightarrow> keeps C t k k'"
  by (simp add: keeps_def)

lemma store_keeps: "load_seg K t k = Some r \<Longrightarrow> keeps C t k (store_seg K t r' k)"
  using load_store [of t k _ r'] by (simp add: keeps_def store_names)

lemma load_table_Shm: "load_seg K t k = Some (Table h) \<Longrightarrow> load_table K (Shm t) k = Ret h"
  by (simp add: load_table_def)

lemma store_table_Shm: "load_seg K t k = Some r \<Longrightarrow> store_table K (Shm t) h k = Ret (store_seg K t (Table h) k)"
  by (simp add: store_table_def)

lemma store_same: "load_seg K t k = Some r \<Longrightarrow> obs_eq k (store_seg K t r k)"
  using load_store [of t k _ r] by (auto simp: obs_eq_def store_names)

text \<open>A slot with nothing to do for the pool manager.\<close>

definition idle :: "coord_header \<Rightarrow> nat \<Rightarrow> bool" where
  "idle h i \<longleftrightarrow> \<not> detach (slots h ! i) \<and> (reserved h i \<longrightarrow> shm_created (slots h ! i))"

lemma tidy_idle:
  assumes "load_seg K t k = Some (Table h)" "i < SLOT_NUM" "\<not> detach (slots h ! i)"
  shows "\<exists>k'. bind_out (clean_up_queue_resources K (Shm t) (int i) k) (\<lambda>k2. clear_at K (Shm t) (int i) k2) = Ret k' \<and>
    obs_eq k k'"
  using assms store_same [OF assms(1)]
  by (auto simp: clean_up_queue_resources_def clear_at_def clear_slot_def load_table_Shm store_table_Shm)

lemma manage_idle:
  assumes "load_seg K t k = Some (Table h)" "i < SLOT_NUM" "idle h i"
  shows "\<exists>k'. manage_slot P (Shm t) (int i) k = Ret k' \<and> obs_eq k k'"
proof -
  have "service_request h (int i) = Ret (row_client_id (slots h ! i), None)"
    using assms(2,3) by (simp add: service_request_def Let_def idle_def)
  then have "service_slot K (Shm t) (int i) al k = Ret (-1, k)" for al
    by (simp add: service_slot_def load_table_Shm [OF assms(1)])
  with tidy_idle [OF assms(1,2)] assms show ?thesis
    by (auto simp: manage_slot_def load_table_Shm platform idle_def)
qed

lemma manage_loop_idle:
  assumes "load_seg K t k = Some (Table h)" "\<forall>i \<in> set is. i < SLOT_NUM \<and> idle h i"
  shows "\<exists>k'. manage_loop P (Shm t) is k = Ret k' \<and> obs_eq k k'"
  using assms
proof (induction "is" arbitrary: k)
  case Nil
  then show ?case by simp
next
  case (Cons i "is")
  then obtain k1 where k1: "manage_slot P (Shm t) (int i) k = Ret k1" "obs_eq k k1"
    using manage_idle by (metis list.set_intros(1))
  then have "load_seg K t k1 = Some (Table h)" using Cons.prems by (simp add: obs_eq_def)
  with Cons obtain k2 where "manage_loop P (Shm t) is k1 = Ret k2" "obs_eq k1 k2" by auto
  with k1 show ?case using obs_eq_trans by auto
qed

lemma manage_loop_append:
  "manage_loop P ch (xs @ ys) k = bind_out (manage_loop P ch xs k) (manage_loop P ch ys)"
  by (induction xs arbitrary: k) (auto simp: bind_out_assoc intro: bind_out_cong)

text \<open>What serving a request leaves behind, up to what the pool manager does to idle slots.\<close>

definition served :: "'k \<Rightarrow> int \<Rightarrow> int \<Rightarrow> coord_header \<Rightarrow> nat \<Rightarrow> int \<Rightarrow> int \<Rightarrow> nat \<Rightarrow> bool" where
  "served k c t h i a b m \<longleftrightarrow>
     load_seg K t k = Some (Table h) \<and> key_names K c k = Some t \<and> coord_shmid h = t \<and>
     coord_inv h \<and> phase h i = Serving \<and> a \<noteq> b \<and>
     info_shmid (request_shm (row_shms (slots h ! i))) = a \<and> info_key (request_shm (row_shms (slots h ! i))) \<noteq> 0 \<and>
     info_shmid (response_shm (row_shms (slots h ! i))) = b \<and> info_key (response_shm (row_shms (slots h ! i))) \<noteq> 0 \<and>
     key_names K (info_key (request_shm (row_shms (slots h ! i)))) k = Some a \<and>
     key_names K (info_key (response_shm (row_shms (slots h ! i)))) k = Some b \<and>
     (\<exists>q1 q2. load_seg K a k = Some (PollQ q1) \<and> load_seg K b k = Some (PollQ q2) \<and> empty_poll m q1 \<and> empty_poll m q2)"

lemma served_obs: "served k c t h i a b m \<Longrightarrow> obs_eq k k' \<Longrightarrow> served k' c t h i a b m"
  by (simp add: served_def obs_eq_def)

lemma manage_serves:
  assumes tab: "load_seg K t k = Some (Table h)" "key_names K c k = Some t" and inv: "coord_inv h" and shmid: "coord_shmid h = t"
    and i: "i < SLOT_NUM" "phase h i = Requested" "row_type (slots h ! i) = POLL"
    and id: "cid = row_client_id (slots h ! i)" "cid \<noteq> 0" "i32 (cid + 1) \<noteq> 0" "cid \<noteq> i32 (cid + 1)"
    and free: "key_names K cid k = None" "key_names K (i32 (cid + 1)) k = None"
    and msz: "0 < row_message_size (slots h ! i)" "row_message_size (slots h ! i) \<le> int (QUEUE_SIZE - 40)"
  shows "\<exists>k' h' a b shms. manage_slot P (Shm t) (int i) k = Ret k' \<and>
    served k' c t h' i a b (nat (row_message_size (slots h ! i))) \<and>
    h' = set_row i (\<lambda>r. r\<lparr>row_shms := shms, shm_created := True\<rparr>) h \<and>
    info_key (request_shm shms) = cid \<and> info_key (response_shm shms) = i32 (cid + 1) \<and>
    keeps {cid, i32 (cid + 1)} t k k'"
proof -
  have r: "reserved h i" "\<not> shm_created (slots h ! i)" "phase h i \<noteq> Closing" "\<not> detach (slots h ! i)"
    using i(2) by (auto simp: phase_def split: if_splits)
  let ?m = "row_message_size (slots h ! i)"
  show ?thesis
  proof (rule service_hash_run [OF tab inv i(1) r(1,2) id free msz])
    fix a b q1 q2 h' k1
    assume s: "service_slot K (Shm t) (int i) (hash_shm_allocator K) k = Ret (cid, k1)"
      "load_seg K t k1 = Some (Table h')" "coord_inv h'" "phase h i \<noteq> Closing \<Longrightarrow> phase h' i = Serving"
      "row_shms (slots h' ! i) = \<lparr>request_shm = \<lparr>info_key = cid, info_shmid = a\<rparr>,
         response_shm = \<lparr>info_key = i32 (cid + 1), info_shmid = b\<rparr>, shm_offset = 0\<rparr>"
      "a \<noteq> b" "load_seg K a k1 = Some (PollQ q1)" "load_seg K b k1 = Some (PollQ q2)"
      "fresh_poll (nat ?m) q1" "fresh_poll (nat ?m) q2"
      and h': "h' = set_row i (\<lambda>r. r\<lparr>row_shms := row_shms (slots h' ! i), shm_created := True\<rparr>) h"
      and name: "key_names K c k1 = Some t" "key_names K cid k1 = Some a" "key_names K (i32 (cid + 1)) k1 = Some b"
      and keep: "\<And>c. c \<notin> {cid, i32 (cid + 1)} \<Longrightarrow> key_names K c k1 = key_names K c k"
        "\<And>c j. c \<notin> {cid, i32 (cid + 1)} \<Longrightarrow> key_names K c k = Some j \<Longrightarrow> j \<noteq> t \<Longrightarrow> load_seg K j k1 = load_seg K j k"
    have "coord_shmid h' = t" using shmid by (subst h') simp
    then have srv: "served k1 c t h' i a b (nat ?m)"
      using s name r(3) id(2,3) fresh_empty by (auto simp: served_def)
    have kp: "keeps {cid, i32 (cid + 1)} t k k1" using keep by (simp add: keeps_def)
    have "\<not> detach (slots h' ! i)" using s(4) r(3) by (auto simp: phase_def split: if_splits)
    from tidy_idle [OF s(2) i(1) this] obtain k2 where
      "bind_out (clean_up_queue_resources K (Shm t) (int i) k1) (\<lambda>k2. clear_at K (Shm t) (int i) k2) = Ret k2" "obs_eq k1 k2"
      by blast
    then have "manage_slot P (Shm t) (int i) k = Ret k2"
      using i(1,3) s(1) by (simp add: manage_slot_def load_table_Shm [OF tab(1)] platform allocator_of_def)
    moreover have "keeps {cid, i32 (cid + 1)} t k k2" by (rule keeps_trans [OF kp obs_keeps [OF \<open>obs_eq k1 k2\<close>]])
    ultimately show ?thesis using served_obs [OF srv \<open>obs_eq k1 k2\<close>] h' s(5)
      by (intro exI [of _ k2] exI [of _ h'] exI [of _ a] exI [of _ b] exI [of _ "row_shms (slots h' ! i)"]) simp
  qed
qed

lemma manage_pool_serves:
  assumes tab: "load_seg K t k = Some (Table h)" "key_names K c k = Some t" and inv: "coord_inv h" and shmid: "coord_shmid h = t"
    and i: "i < SLOT_NUM" "phase h i = Requested" "row_type (slots h ! i) = POLL"
    and others: "\<forall>j < SLOT_NUM. j \<noteq> i \<longrightarrow> idle h j"
    and id: "cid = row_client_id (slots h ! i)" "cid \<noteq> 0" "i32 (cid + 1) \<noteq> 0" "cid \<noteq> i32 (cid + 1)"
    and free: "key_names K cid k = None" "key_names K (i32 (cid + 1)) k = None"
    and msz: "0 < row_message_size (slots h ! i)" "row_message_size (slots h ! i) \<le> int (QUEUE_SIZE - 40)"
    and sc: "coord_shmaddr sc = Shm t"
  shows "\<exists>k' h' a b shms. manage_pool P sc k = Ret k' \<and>
    served k' c t h' i a b (nat (row_message_size (slots h ! i))) \<and>
    h' = set_row i (\<lambda>r. r\<lparr>row_shms := shms, shm_created := True\<rparr>) h \<and>
    info_key (request_shm shms) = cid \<and> info_key (response_shm shms) = i32 (cid + 1) \<and>
    keeps {cid, i32 (cid + 1)} t k k'"
proof -
  have split: "[0..<SLOT_NUM] = [0..<i] @ i # [Suc i..<SLOT_NUM]"
    by (rule upt_split [OF i(1)])
  obtain k1 where k1: "manage_loop P (Shm t) [0..<i] k = Ret k1" "obs_eq k k1"
    using manage_loop_idle [OF tab(1), of "[0..<i]"] others i(1) by auto
  then have "load_seg K t k1 = Some (Table h)" "key_names K c k1 = Some t" "key_names K cid k1 = None"
    "key_names K (i32 (cid + 1)) k1 = None"
    using tab free by (simp_all add: obs_eq_def)
  from manage_serves [OF this(1,2) inv shmid i id this(3,4) msz] obtain k2 h' a b shms where
    k2: "manage_slot P (Shm t) (int i) k1 = Ret k2" "served k2 c t h' i a b (nat (row_message_size (slots h ! i)))"
      "h' = set_row i (\<lambda>r. r\<lparr>row_shms := shms, shm_created := True\<rparr>) h"
      "info_key (request_shm shms) = cid" "info_key (response_shm shms) = i32 (cid + 1)"
      "keeps {cid, i32 (cid + 1)} t k1 k2" by blast
  have wf: "coord_wf h" using inv by (simp add: coord_inv_def)
  have t2: "load_seg K t k2 = Some (Table h')" using k2(2) by (simp add: served_def)
  have "\<forall>j \<in> set [Suc i..<SLOT_NUM]. j < SLOT_NUM \<and> idle h' j"
    using others wf i(1) by (auto simp: k2(3) idle_def)
  from manage_loop_idle [OF t2 this] obtain k3 where
    k3: "manage_loop P (Shm t) [Suc i..<SLOT_NUM] k2 = Ret k3" "obs_eq k2 k3" by blast
  have "manage_pool P sc k = Ret k3"
    by (simp add: manage_pool_def sc split manage_loop_append k1(1) k2(1) k3(1))
  moreover have "keeps {cid, i32 (cid + 1)} t k k3"
    by (rule keeps_trans [OF obs_keeps [OF k1(2)] keeps_trans [OF k2(6) obs_keeps [OF k3(2)]]])
  ultimately show ?thesis using served_obs [OF k2(2) k3(2)] k2(3-5) by blast
qed

end

context rpc_server
begin

text \<open>Attaching to a served slot.\<close>

lemma attach_two:
  assumes "load_seg K a k = Some r1" "load_seg K b k = Some r2"
  obtains k2 k3 where "shmat K a k = (Shm a, k2)" "shmat K b k2 = (Shm b, k3)" "obs_eq k k3"
proof -
  obtain k2 where 2: "shmat K a k = (Shm a, k2)" using shmat_succeeds assms(1) by blast
  note f2 = shmat_frame [OF 2]
  obtain k3 where 3: "shmat K b k2 = (Shm b, k3)" using shmat_succeeds f2 assms(2) by (metis option.distinct(1))
  show thesis using that [OF 2 3] f2 shmat_frame [OF 3] by (simp add: obs_eq_def)
qed

lemma attach_pair_run:
  assumes srv: "served k c t h i a b m" and i: "i < SLOT_NUM"
    and set: "set_state h (int i) True = Ret (True, h')" and s': "\<And>k'. load_seg K t k' = Some (Table h') \<Longrightarrow> (\<And>x. key_names K x k' = key_names K x k) \<Longrightarrow>
      (\<exists>q1 q2. load_seg K a k' = Some (PollQ q1) \<and> load_seg K b k' = Some (PollQ q2) \<and> empty_poll m q1 \<and> empty_poll m q2) \<Longrightarrow>
      served k' c t h' i a b m"
    and shms: "shms = row_shms (slots h ! i)"
  shows "\<exists>k'. attach_pair K (Shm t) (int i) cid shms False set_state k =
      Ret (\<lparr>qp_client_id = cid, request_shmaddr = Shm a, response_shmaddr = Shm b, qp_offset = shm_offset shms\<rparr>, k') \<and>
    served k' c t h' i a b m \<and> keeps {} t k k'"
proof -
  from srv have t: "load_seg K t k = Some (Table h)" by (simp add: served_def)
  from srv obtain q1 q2 where q: "load_seg K a k = Some (PollQ q1)" "load_seg K b k = Some (PollQ q2)"
    "empty_poll m q1" "empty_poll m q2" by (auto simp: served_def)
  let ?k = "store_seg K t (Table h') k"
  have ls: "load_seg K j ?k = (if j = t then Some (Table h') else load_seg K j k)" for j
    using load_store [of t k j "Table h'"] t by simp
  have ne: "t \<noteq> a" "t \<noteq> b" using t q by auto
  then have "load_seg K a ?k = Some (PollQ q1)" "load_seg K b ?k = Some (PollQ q2)" using ls q by simp_all
  then obtain k2 k3 where at: "shmat K a ?k = (Shm a, k2)" "shmat K b k2 = (Shm b, k3)" "obs_eq ?k k3"
    using attach_two by blast
  have ids: "info_shmid (request_shm shms) = a" "info_shmid (response_shm shms) = b"
    using srv by (simp_all add: served_def shms)
  have "attach_pair K (Shm t) (int i) cid shms False set_state k =
      Ret (\<lparr>qp_client_id = cid, request_shmaddr = Shm a, response_shmaddr = Shm b, qp_offset = shm_offset shms\<rparr>, k3)"
    using at by (simp add: attach_pair_def load_table_Shm [OF t] set store_table_Shm [OF t] ids)
  moreover have "served k3 c t h' i a b m"
    using at(3) ls ne q by (intro s') (auto simp: obs_eq_def store_names)
  moreover have "keeps {} t k k3" by (rule keeps_trans [OF store_keeps [OF t] obs_keeps [OF at(3)]])
  ultimately show ?thesis by blast
qed

lemma served_row:
  assumes "served k c t h i a b m" "i < SLOT_NUM" "\<And>r. row_shms (f r) = row_shms r" "\<And>r. detach (f r) = detach r"
    "\<And>r. shm_created (f r) = shm_created r"
    and "load_seg K t k' = Some (Table (set_row i f h))" "\<And>x. key_names K x k' = key_names K x k"
    and "\<exists>q1 q2. load_seg K a k' = Some (PollQ q1) \<and> load_seg K b k' = Some (PollQ q2) \<and> empty_poll m q1 \<and> empty_poll m q2"
  shows "served k' c t (set_row i f h) i a b m"
proof -
  from assms(1) have h: "coord_inv h" "phase h i = Serving" by (simp_all add: served_def)
  then have c: "shm_created (slots h ! i)" "reserved h i" by (auto simp: phase_def split: if_splits)
  have "coord_inv (set_row i f h)" using c assms(5) by (intro inv_set_row h(1) assms(2)) (simp add: row_ok_def)
  moreover have "phase (set_row i f h) i = Serving" "row_shms (slots (set_row i f h) ! i) = row_shms (slots h ! i)"
    using h assms(2-5) by (auto simp: phase_def coord_inv_def split: if_splits)
  ultimately show ?thesis using assms(1,6-8) by (simp add: served_def)
qed

lemma client_pair_run:
  assumes srv: "served k c t h i a b m" and i: "i < SLOT_NUM" and un: "\<not> client_attached (slots h ! i)"
  shows "\<exists>k'. create_client_queue_pair K fuel (Shm t) (int i) k =
      Ret (\<lparr>qp_client_id = row_client_id (slots h ! i), request_shmaddr = Shm a, response_shmaddr = Shm b,
            qp_offset = shm_offset (row_shms (slots h ! i))\<rparr>, k') \<and>
    served k' c t (set_row i (\<lambda>r. r\<lparr>client_attached := True\<rparr>) h) i a b m \<and> keeps {} t k k'"
proof -
  from srv have t: "load_seg K t k = Some (Table h)" and wf: "coord_wf h" and c: "shm_created (slots h ! i)"
    by (auto simp: served_def coord_inv_def phase_def split: if_splits)
  let ?h = "set_row i (\<lambda>r. r\<lparr>client_attached := True\<rparr>) h"
  have set: "set_client_attach_state h (int i) True = Ret (True, ?h)"
    using i c wf by (simp add: set_client_attach_state_def Let_def)
  have s': "served k' c t ?h i a b m" if "load_seg K t k' = Some (Table ?h)" "\<And>x. key_names K x k' = key_names K x k"
      "\<exists>q1 q2. load_seg K a k' = Some (PollQ q1) \<and> load_seg K b k' = Some (PollQ q2) \<and> empty_poll m q1 \<and> empty_poll m q2" for k'
    by (rule served_row [OF srv i _ _ _ that]) simp_all
  from attach_pair_run [where set_state = set_client_attach_state, OF srv i set s' refl, of "row_client_id (slots h ! i)"]
  obtain k' where "attach_pair K (Shm t) (int i) (row_client_id (slots h ! i)) (row_shms (slots h ! i)) False
      set_client_attach_state k =
      Ret (\<lparr>qp_client_id = row_client_id (slots h ! i), request_shmaddr = Shm a, response_shmaddr = Shm b,
            qp_offset = shm_offset (row_shms (slots h ! i))\<rparr>, k')" "served k' c t ?h i a b m" "keeps {} t k k'" by auto
  moreover have "await_keys K (Shm t) (int i) fuel (row_shms (slots h ! i)) k = Ret (row_shms (slots h ! i), k)"
    using srv by (simp add: await_keys.simps served_def)
  ultimately show ?thesis
    using i c un by (auto simp: create_client_queue_pair_def load_table_Shm [OF t] check_slot_def get_client_id_def
        get_client_attach_state_def)
qed

lemma server_pair_run:
  assumes srv: "served k c t h i a b m" and i: "i < SLOT_NUM" and un: "\<not> server_attached (slots h ! i)"
  shows "\<exists>k'. create_server_queue_pair K fuel (Shm t) (int i) k =
      Ret (\<lparr>qp_client_id = row_client_id (slots h ! i), request_shmaddr = Shm a, response_shmaddr = Shm b,
            qp_offset = shm_offset (row_shms (slots h ! i))\<rparr>, k') \<and>
    served k' c t (set_row i (\<lambda>r. r\<lparr>server_attached := True\<rparr>) h) i a b m \<and> keeps {} t k k'"
proof -
  from srv have t: "load_seg K t k = Some (Table h)" and wf: "coord_wf h" and c: "shm_created (slots h ! i)"
    by (auto simp: served_def coord_inv_def phase_def split: if_splits)
  let ?h = "set_row i (\<lambda>r. r\<lparr>server_attached := True\<rparr>) h"
  have set: "set_server_attach_state h (int i) True = Ret (True, ?h)"
    using i c wf by (simp add: set_server_attach_state_def Let_def)
  have s': "served k' c t ?h i a b m" if "load_seg K t k' = Some (Table ?h)" "\<And>x. key_names K x k' = key_names K x k"
      "\<exists>q1 q2. load_seg K a k' = Some (PollQ q1) \<and> load_seg K b k' = Some (PollQ q2) \<and> empty_poll m q1 \<and> empty_poll m q2" for k'
    by (rule served_row [OF srv i _ _ _ that]) simp_all
  from attach_pair_run [where set_state = set_server_attach_state, OF srv i set s' refl, of "row_client_id (slots h ! i)"]
  obtain k' where "attach_pair K (Shm t) (int i) (row_client_id (slots h ! i)) (row_shms (slots h ! i)) False
      set_server_attach_state k =
      Ret (\<lparr>qp_client_id = row_client_id (slots h ! i), request_shmaddr = Shm a, response_shmaddr = Shm b,
            qp_offset = shm_offset (row_shms (slots h ! i))\<rparr>, k')" "served k' c t ?h i a b m" "keeps {} t k k'" by auto
  moreover have "await_keys K (Shm t) (int i) fuel (row_shms (slots h ! i)) k = Ret (row_shms (slots h ! i), k)"
    using srv by (simp add: await_keys.simps served_def)
  ultimately show ?thesis
    using i c un by (auto simp: create_server_queue_pair_def load_table_Shm [OF t] check_slot_def get_client_id_def
        get_server_attach_state_def)
qed

text \<open>One message through a polling queue in a segment.\<close>

lemma pass_message:
  assumes "load_seg K p k = Some (PollQ q)" "poll_inv q" "abs_queue q = \<lparr>msgs = [], read_off = 0\<rparr>"
    and "0 < capacity q" "length buf = message_size q"
  obtains k1 k2 q' where "push_at K (Shm p) buf (length buf) k = Ret (0, k1)"
    "pop_at K (Shm p) (length buf) k1 = Ret ((0, buf), k2)" "load_seg K p k2 = Some (PollQ q')"
    "poll_inv q'" "abs_queue q' = \<lparr>msgs = [], read_off = 0\<rparr>" "capacity q' = capacity q" "message_size q' = message_size q"
    "\<And>j. j \<noteq> p \<Longrightarrow> load_seg K j k2 = load_seg K j k" "\<And>c. key_names K c k2 = key_names K c k"
proof -
  have "fifo_push (capacity q) buf (abs_queue q) = Some \<lparr>msgs = [buf], read_off = 0\<rparr>"
    using assms(3,4) by (simp add: fifo_push_def)
  from poll.send_refines [OF assms(2,5) this] obtain q1 where q1: "push q buf (length buf) = Ret (0, q1)" "poll_inv q1"
    "abs_queue q1 = \<lparr>msgs = [buf], read_off = 0\<rparr>" "capacity q1 = capacity q" "message_size q1 = message_size q" by blast
  from poll.recv_whole [OF q1(2), of buf "[]"] q1 obtain q2 where q2: "poll_recv q1 (message_size q1) = Ret ((0, buf), q2)" "poll_inv q2"
    "abs_queue q2 = \<lparr>msgs = [], read_off = 0\<rparr>" "capacity q2 = capacity q" "message_size q2 = message_size q" by auto
  let ?k1 = "store_seg K p (PollQ q1) k" let ?k2 = "store_seg K p (PollQ q2) ?k1"
  have l1: "load_seg K j ?k1 = (if j = p then Some (PollQ q1) else load_seg K j k)" for j
    using load_store [of p k j "PollQ q1"] assms(1) by simp
  have l2: "load_seg K j ?k2 = (if j = p then Some (PollQ q2) else load_seg K j k)" for j
    using load_store [of p ?k1 j "PollQ q2"] l1 by simp
  have "push_at K (Shm p) buf (length buf) k = Ret (0, ?k1)" using assms(1) q1(1) by (simp add: push_at_def)
  moreover have "pop_at K (Shm p) (length buf) ?k1 = Ret ((0, buf), ?k2)"
    using l1 q2(1) assms(5) q1(5)
    by (auto simp: pop_at_def poll_recv_def bind_out_eq_Ret)
  ultimately show thesis using l2 q2 by (intro that [of ?k1 ?k2 q2]) (simp_all add: store_names)
qed

end

lemma accept_loop_only:
  assumes inv: "coord_inv h" and i: "i < SLOT_NUM" "ready h i" and only: "\<forall>j < SLOT_NUM. j \<noteq> i \<longrightarrow> \<not> ready h j"
  shows "accept_loop SLOT_NUM (nat (accept_slot h)) (h\<lparr>mutex := True\<rparr>) = Some i"
proof -
  let ?s = "nat (accept_slot h)" and ?h1 = "h\<lparr>mutex := True\<rparr>"
  have s: "?s < SLOT_NUM" using inv by (auto simp: coord_inv_def)
  have rd: "ready ?h1 = ready h" by (simp add: ready_def fun_eq_iff)
  define e where "e = (i + (SLOT_NUM - ?s)) mod SLOT_NUM"
  have "(?s + e) mod SLOT_NUM = i"
    unfolding e_def using s i by (simp add: mod_add_right_eq)
  then obtain u where u: "accept_loop SLOT_NUM ?s ?h1 = Some u"
    using accept_loop_finds [OF s, of e SLOT_NUM ?h1] i(2) by (auto simp: e_def rd)
  from accept_loop_first [OF s this] have "ready h u" "u < SLOT_NUM" by (auto simp: rd)
  with only u show ?thesis by blast
qed

section \<open>A conversation\<close>

text \<open>Rounds of request and response over the two ends of a connection: what each side receives.\<close>

fun rpc_rounds ::
  "'k queue_ctx \<Rightarrow> 'k queue_ctx \<Rightarrow> (byte list \<times> byte list) list \<Rightarrow> 'k \<Rightarrow>
   ((byte list \<times> byte list) list \<times> 'k) outcome"
where
  "rpc_rounds client server [] k = Ret ([], k)"
| "rpc_rounds client server ((req, resp) # rs) k =
     bind_out (client_send_rpc client req (length req) k) (\<lambda>(r1, k1).
     bind_out (server_receive_buf server (length req) k1) (\<lambda>((n1, got1), k2).
     bind_out (server_send_rpc server resp (length resp) k2) (\<lambda>(r2, k3).
     bind_out (client_receive_buf client (length resp) k3) (\<lambda>((n2, got2), k4).
     bind_out (rpc_rounds client server rs k4) (\<lambda>(rest, k5). Ret ((got1, got2) # rest, k5))))))"

context rpc_server
begin

lemma rounds_run:
  assumes "load_seg K a k = Some (PollQ q1)" "load_seg K b k = Some (PollQ q2)" "a \<noteq> b"
    and "empty_poll m q1" "empty_poll m q2" and cap: "0 < (QUEUE_SIZE - 40) div m - 1"
    and "\<forall>(req, resp) \<in> set rs. length req = m \<and> length resp = m"
    and addr: "request_shmaddr qpc = Shm a" "response_shmaddr qpc = Shm b" "request_shmaddr qps = Shm a" "response_shmaddr qps = Shm b"
  shows "\<exists>k' q1' q2'. rpc_rounds (select_queue_ctx P POLL qpc) (select_queue_ctx P POLL qps) rs k = Ret (rs, k') \<and>
    load_seg K a k' = Some (PollQ q1') \<and> load_seg K b k' = Some (PollQ q2') \<and> empty_poll m q1' \<and> empty_poll m q2' \<and>
    (\<forall>j. j \<noteq> a \<longrightarrow> j \<noteq> b \<longrightarrow> load_seg K j k' = load_seg K j k) \<and> (\<forall>c. key_names K c k' = key_names K c k)"
  using assms(1-5,7)
proof (induction rs arbitrary: k q1 q2)
  case Nil
  then show ?case by auto
next
  case (Cons x rs)
  obtain req resp where x: "x = (req, resp)" by (cases x)
  with Cons.prems have len: "length req = message_size q1" "length resp = message_size q2" by (auto simp: empty_poll_def)
  have q: "poll_inv q1" "abs_queue q1 = \<lparr>msgs = [], read_off = 0\<rparr>" "0 < capacity q1"
    "poll_inv q2" "abs_queue q2 = \<lparr>msgs = [], read_off = 0\<rparr>" "0 < capacity q2"
    using Cons.prems(4,5) cap by (simp_all add: empty_poll_def)
  obtain k1 k2 q1' where 1: "push_at K (Shm a) req (length req) k = Ret (0, k1)"
    "pop_at K (Shm a) (length req) k1 = Ret ((0, req), k2)" "load_seg K a k2 = Some (PollQ q1')"
    "poll_inv q1'" "abs_queue q1' = \<lparr>msgs = [], read_off = 0\<rparr>" "capacity q1' = capacity q1" "message_size q1' = message_size q1"
    "\<And>j. j \<noteq> a \<Longrightarrow> load_seg K j k2 = load_seg K j k" "\<And>c. key_names K c k2 = key_names K c k"
    using pass_message [OF Cons.prems(1) q(1-3) len(1)] by blast
  have "load_seg K b k2 = Some (PollQ q2)" using 1(8) Cons.prems(2,3) by simp
  then obtain k3 k4 q2' where 2: "push_at K (Shm b) resp (length resp) k2 = Ret (0, k3)"
    "pop_at K (Shm b) (length resp) k3 = Ret ((0, resp), k4)" "load_seg K b k4 = Some (PollQ q2')"
    "poll_inv q2'" "abs_queue q2' = \<lparr>msgs = [], read_off = 0\<rparr>" "capacity q2' = capacity q2" "message_size q2' = message_size q2"
    "\<And>j. j \<noteq> b \<Longrightarrow> load_seg K j k4 = load_seg K j k2" "\<And>c. key_names K c k4 = key_names K c k2"
    using pass_message [OF _ q(4-6) len(2)] by blast
  have e: "empty_poll m q1'" "empty_poll m q2'" using Cons.prems(4,5) 1(4-7) 2(4-7) by (simp_all add: empty_poll_def)
  have "load_seg K a k4 = Some (PollQ q1')" using 2(8) 1(3) Cons.prems(3) by simp
  from Cons.IH [OF this 2(3) Cons.prems(3) e] Cons.prems(6)
  obtain k5 p1 p2 where "rpc_rounds (select_queue_ctx P POLL qpc) (select_queue_ctx P POLL qps) rs k4 = Ret (rs, k5)"
    "load_seg K a k5 = Some (PollQ p1)" "load_seg K b k5 = Some (PollQ p2)" "empty_poll m p1" "empty_poll m p2"
    "\<forall>j. j \<noteq> a \<longrightarrow> j \<noteq> b \<longrightarrow> load_seg K j k5 = load_seg K j k4" "\<forall>c. key_names K c k5 = key_names K c k4" by auto
  then show ?case
    using 1(1,2,8,9) 2(1,2,8,9) addr
    by (simp add: x select_queue_ctx_def client_send_rpc_def server_receive_buf_def server_send_rpc_def
        client_receive_buf_def client_send_poll_def server_receive_poll_def server_send_poll_def
        client_receive_poll_def platform)
qed

lemma request_at_run:
  assumes t: "load_seg K t k = Some (Table h)" and inv: "coord_inv h"
    and i: "i < SLOT_NUM" "\<not> reserved h i" "\<forall>j < i. reserved h j"
  shows "request_at K (Shm t) cid msz ty k =
    Ret (int i, store_seg K t (Table (set_reserved i True (set_row i (fresh_row cid msz ty) h))) k)"
proof -
  from inv have wf: "coord_wf h" "\<not> mutex h" by (simp_all add: coord_inv_def)
  then have "request_slot h cid msz ty = Ret (int i, set_reserved i True (set_row i (fresh_row cid msz ty) h))"
  proof (cases rule: request_slot_cases [of h cid msz ty])
    case full
    with i show ?thesis by blast
  next
    case (found j)
    then have "j = i" using i by (metis linorder_neqE_nat)
    with found show ?thesis by simp
  qed
  then show ?thesis by (simp add: request_at_def load_table_Shm [OF t] store_table_Shm [OF t])
qed

lemma accept_run:
  assumes srv: "served k c t h i a b m" and i: "i < SLOT_NUM" and un: "\<not> server_attached (slots h ! i)"
    and ty: "row_type (slots h ! i) = POLL" and acc: "accept_loop SLOT_NUM (nat (accept_slot h)) (h\<lparr>mutex := True\<rparr>) = Some i"
    and sc: "coord_shmaddr sc = Shm t"
  shows "\<exists>k' h' qp. accept P fuel sc k = Ret (Some (select_queue_ctx P POLL qp), k') \<and>
    request_shmaddr qp = Shm a \<and> response_shmaddr qp = Shm b \<and> qp_client_id qp = row_client_id (slots h ! i) \<and>
    served k' c t h' i a b m \<and> keeps {} t k k' \<and> accept_slot h' = int (Suc i mod SLOT_NUM) \<and>
    slots h' ! i = (slots h ! i)\<lparr>server_attached := True\<rparr> \<and>
    (\<forall>j < SLOT_NUM. (j \<noteq> i \<longrightarrow> slots h' ! j = slots h ! j) \<and> reserved h' j = reserved h j)"
proof -
  from srv have t: "load_seg K t k = Some (Table h)" and inv: "coord_inv h" and p: "phase h i = Serving"
    by (simp_all add: served_def)
  from inv have free: "\<not> mutex h" by (auto simp: coord_inv_def)
  let ?s = "nat (accept_slot h)" and ?h1 = "h\<lparr>mutex := True\<rparr>"
  let ?h2 = "h\<lparr>accept_slot := int (Suc i mod SLOT_NUM)\<rparr>"
  have h2: "mutex_unlock (?h1\<lparr>accept_slot := int (Suc i mod SLOT_NUM)\<rparr>) = ?h2"
    using free by (cases h) (simp add: mutex_unlock_def)
  let ?k = "store_seg K t (Table ?h2) k"
  have ls: "load_seg K j ?k = (if j = t then Some (Table ?h2) else load_seg K j k)" for j
    using load_store [of t k j "Table ?h2"] t by simp
  have "served ?k c t ?h2 i a b m"
  proof -
    obtain q1 q2 where "load_seg K a k = Some (PollQ q1)" "load_seg K b k = Some (PollQ q2)" using srv by (auto simp: served_def)
    then have "a \<noteq> t" "b \<noteq> t" using t by auto
    moreover have "coord_inv ?h2" using inv by (auto simp: coord_inv_def)
    moreover have "phase ?h2 i = phase h i" by (simp add: phase_def)
    ultimately show ?thesis using srv ls by (simp add: served_def store_names)
  qed
  from server_pair_run [OF this i, of fuel] un obtain k' where
    "create_server_queue_pair K fuel (Shm t) (int i) ?k =
      Ret (\<lparr>qp_client_id = row_client_id (slots h ! i), request_shmaddr = Shm a, response_shmaddr = Shm b,
            qp_offset = shm_offset (row_shms (slots h ! i))\<rparr>, k')"
    "served k' c t (set_row i (\<lambda>r. r\<lparr>server_attached := True\<rparr>) ?h2) i a b m" "keeps {} t ?k k'" by auto
  moreover have "keeps {} t k k'" by (rule keeps_trans [OF store_keeps [OF t] \<open>keeps {} t ?k k'\<close>])
  moreover have "accept P fuel sc k = bind_out (create_server_queue_pair K fuel (Shm t) (int i) ?k)
      (\<lambda>(qp, k2). Ret (Some (select_queue_ctx P POLL qp), k2))"
    using free acc ty
    by (simp add: accept_def platform sc load_table_Shm [OF t] mutex_lock_def h2 store_table_Shm [OF t] Let_def)
  moreover have "coord_wf ?h2" using inv by (simp add: coord_inv_def coord_wf_def)
  ultimately show ?thesis using i ty
    by (intro exI [of _ k'] exI [of _ "set_row i (\<lambda>r. r\<lparr>server_attached := True\<rparr>) ?h2"]
        exI [of _ "\<lparr>qp_client_id = row_client_id (slots h ! i), request_shmaddr = Shm a, response_shmaddr = Shm b,
          qp_offset = shm_offset (row_shms (slots h ! i))\<rparr>"]) simp
qed

text \<open>The pool manager runs while a client sleeps.\<close>

lemma client_open_run:
  assumes tab: "load_seg K t k = Some (Table h)" "hash dest \<noteq> 0" "key_names K (hash dest) k = Some t" and inv: "coord_inv h" "coord_shmid h = t"
    and i: "i < SLOT_NUM" "\<not> reserved h i" "\<forall>j < i. reserved h j" and others: "\<forall>j < SLOT_NUM. idle h j"
    and id: "hash src \<noteq> 0" "i32 (hash src + 1) \<noteq> 0" "hash src \<noteq> i32 (hash src + 1)"
    and free: "key_names K (hash src) k = None" "key_names K (i32 (hash src + 1)) k = None"
    and msz: "0 < msz" "msz \<le> int (QUEUE_SIZE - 40)" and sc: "coord_shmaddr sc = Shm t"
    and runs: "\<forall>k k'. manage_pool P sc k = Ret k' \<longrightarrow> sleeping K CLIENT_OPEN_WAIT_INTERVAL k = k'"
  shows "\<exists>k' h' a b qp. client_open P (Suc fuel) src dest msz POLL k = Ret (Some (select_queue_ctx P POLL qp), k') \<and>
    request_shmaddr qp = Shm a \<and> response_shmaddr qp = Shm b \<and> qp_client_id qp = hash src \<and>
    served k' (hash dest) t h' i a b (nat msz) \<and> \<not> server_attached (slots h' ! i) \<and> row_type (slots h' ! i) = POLL \<and>
    row_client_id (slots h' ! i) = hash src \<and> info_key (request_shm (row_shms (slots h' ! i))) = hash src \<and>
    info_key (response_shm (row_shms (slots h' ! i))) = i32 (hash src + 1) \<and> accept_slot h' = accept_slot h \<and>
    keeps {hash src, i32 (hash src + 1)} t k k' \<and>
    (\<forall>j < SLOT_NUM. j \<noteq> i \<longrightarrow> slots h' ! j = slots h ! j \<and> reserved h' j = reserved h j)"
proof -
  have wf: "coord_wf h" using inv(1) by (simp add: coord_inv_def)
  obtain k1 where k1: "coord_attach K dest k = (Shm t, k1)" "\<And>j. load_seg K j k1 = load_seg K j k"
    "\<And>c. key_names K c k1 = key_names K c k"
    using coord_attach_run [OF tab(2,3,1)] by blast
  let ?h = "set_reserved i True (set_row i (fresh_row (hash src) msz POLL) h)"
  let ?k2 = "store_seg K t (Table ?h) k1"
  have t1: "load_seg K t k1 = Some (Table h)" using k1(2) tab(1) by simp
  note req = request_at_run [OF t1 inv(1) i, of "hash src" msz POLL]
  have t2: "load_seg K t ?k2 = Some (Table ?h)" using load_store [of t k1] t1 by simp
  have n2: "key_names K c ?k2 = key_names K c k" for c using k1(3) by (simp add: store_names)
  have inv2: "coord_inv ?h" using inv(1) i(1) by (intro inv_set_both) simp_all
  have row: "slots ?h ! i = fresh_row (hash src) msz POLL (slots h ! i)" using wf i(1) by simp
  have ph: "phase ?h i = Requested" using wf i(1) by (simp add: phase_def fresh_row_def)
  have idle2: "\<forall>j < SLOT_NUM. j \<noteq> i \<longrightarrow> idle ?h j" using others wf i(1) by (simp add: idle_def)
  have msz': "nat (row_message_size (slots ?h ! i)) = nat msz" by (simp only: row) (simp add: fresh_row_def)
  have "\<exists>k' h' a b shms. manage_pool P sc ?k2 = Ret k' \<and>
      served k' (hash dest) t h' i a b (nat (row_message_size (slots ?h ! i))) \<and>
      h' = set_row i (\<lambda>r. r\<lparr>row_shms := shms, shm_created := True\<rparr>) ?h \<and>
      info_key (request_shm shms) = hash src \<and> info_key (response_shm shms) = i32 (hash src + 1) \<and>
      keeps {hash src, i32 (hash src + 1)} t ?k2 k'"
    by (rule manage_pool_serves [OF t2 _ inv2 _ i(1) ph _ idle2 _ id _ _ _ _ sc, of "hash dest"])
      (use inv(2) tab(3) free msz n2 wf i(1) in \<open>simp_all add: fresh_row_def\<close>)
  then obtain k3 h3 a b shms where k3: "manage_pool P sc ?k2 = Ret k3" "served k3 (hash dest) t h3 i a b (nat msz)"
    and h3: "h3 = set_row i (\<lambda>r. r\<lparr>row_shms := shms, shm_created := True\<rparr>) ?h"
    and key3: "info_key (request_shm shms) = hash src" "info_key (response_shm shms) = i32 (hash src + 1)"
    and keep3: "keeps {hash src, i32 (hash src + 1)} t ?k2 k3"
    unfolding msz' by blast
  have r3: "slots h3 ! i = (fresh_row (hash src) msz POLL (slots h ! i))\<lparr>row_shms := shms, shm_created := True\<rparr>"
    using wf i(1) by (simp add: h3)
  have "await_created K (Shm t) (int i) (Suc fuel) ?k2 = Ret k3"
  proof -
    have t3: "load_seg K t k3 = Some (Table h3)" using k3(2) by (simp add: served_def)
    have "\<not> shm_created (slots ?h ! i)" using wf i(1) by (simp add: fresh_row_def)
    then have "await_created K (Shm t) (int i) (Suc fuel) ?k2 = await_created K (Shm t) (int i) fuel k3"
      using i(1) runs [rule_format, OF k3(1)] by (subst await_created.simps) (simp add: load_table_Shm [OF t2])
    also have "\<dots> = Ret k3"
      using i(1) r3 by (subst await_created.simps) (simp add: load_table_Shm [OF t3])
    finally show ?thesis .
  qed
  moreover have "await_slot K (Shm t) (hash src) msz POLL (Suc fuel) (int i) ?k2 = Ret (int i, ?k2)"
    by (simp add: await_slot.simps)
  moreover from client_pair_run [OF k3(2) i(1), of "Suc fuel"] r3 obtain k4 where
    k4: "create_client_queue_pair K (Suc fuel) (Shm t) (int i) k3 =
      Ret (\<lparr>qp_client_id = hash src, request_shmaddr = Shm a, response_shmaddr = Shm b, qp_offset = shm_offset shms\<rparr>, k4)"
    "served k4 (hash dest) t (set_row i (\<lambda>r. r\<lparr>client_attached := True\<rparr>) h3) i a b (nat msz)" "keeps {} t k3 k4"
    by (auto simp: fresh_row_def)
  ultimately have "client_open P (Suc fuel) src dest msz POLL k =
      Ret (Some (select_queue_ctx P POLL \<lparr>qp_client_id = hash src, request_shmaddr = Shm a, response_shmaddr = Shm b,
        qp_offset = shm_offset shms\<rparr>), k4)"
    by (simp add: client_open_def platform k1(1) req)
  moreover have "keeps {hash src, i32 (hash src + 1)} t k k4"
  proof -
    have "obs_eq k k1" using k1(2,3) by (simp add: obs_eq_def)
    then show ?thesis
      using keeps_trans [OF obs_keeps keeps_trans [OF store_keeps [OF t1] keeps_trans [OF keep3 keeps_mono [OF k4(3)]]]] by blast
  qed
  moreover have "slots (set_row i (\<lambda>r. r\<lparr>client_attached := True\<rparr>) h3) ! j = slots h ! j \<and>
      reserved (set_row i (\<lambda>r. r\<lparr>client_attached := True\<rparr>) h3) j = reserved h j" if "j < SLOT_NUM" "j \<noteq> i" for j
    using that wf i(1) by (simp add: h3)
  moreover have "slots (set_row i (\<lambda>r. r\<lparr>client_attached := True\<rparr>) h3) ! i = (slots h3 ! i)\<lparr>client_attached := True\<rparr>"
    using wf i(1) by (simp add: h3)
  ultimately show ?thesis using k4(2) r3 key3 wf i(1)
    by - (rule exI [of _ k4], rule exI [of _ "set_row i (\<lambda>r. r\<lparr>client_attached := True\<rparr>) h3"], rule exI [of _ a],
      rule exI [of _ b], rule exI [of _ "\<lparr>qp_client_id = hash src, request_shmaddr = Shm a, response_shmaddr = Shm b,
        qp_offset = shm_offset shms\<rparr>"], simp add: fresh_row_def h3)
qed

end

end
