(* ===== verification/Rpc_Session.thy ===== *)
theory Rpc_Session
  imports Rpc
begin

text \<open>
  What the functions of \<open>src/libnotnets/src/rpc.cpp\<close> guarantee together: a session from
  registering to the exchange of messages, closing and recycling a connection, shutting
  down, and the calls that do not return or fault. The reference kernel is extended so
  that the pool thread of the server runs while a client sleeps.
\<close>

section \<open>A kernel on which the pool manager runs while clients sleep\<close>

text \<open>
  Only the wait of \<open>_initsem\<close> inside \<open>manage_pool\<close> sleeps, for one second: another meaning
  of the other sleeps does not change what the pool manager does.
\<close>

lemma sleeping_frame:
  "shmget (K\<lparr>sleeping := s\<rparr>) = shmget K" "shmat (K\<lparr>sleeping := s\<rparr>) = shmat K"
  "shmdt (K\<lparr>sleeping := s\<rparr>) = shmdt K" "shmctl_rmid (K\<lparr>sleeping := s\<rparr>) = shmctl_rmid K"
  "semget (K\<lparr>sleeping := s\<rparr>) = semget K" "semop (K\<lparr>sleeping := s\<rparr>) = semop K"
  "semctl_rmid (K\<lparr>sleeping := s\<rparr>) = semctl_rmid K" "sem_otime (K\<lparr>sleeping := s\<rparr>) = sem_otime K"
  "load_seg (K\<lparr>sleeping := s\<rparr>) = load_seg K" "store_seg (K\<lparr>sleeping := s\<rparr>) = store_seg K"
  "key_names (K\<lparr>sleeping := s\<rparr>) = key_names K"
  by simp_all

lemma sleeping_irrelevant:
  assumes K': "K' = K\<lparr>sleeping := s\<rparr>" and s: "s 1 = sleeping K 1"
  shows "load_table K' = load_table K" "store_table K' = store_table K"
    "hash_shm_allocator K' = hash_shm_allocator K" "hash_sem_shm_allocator K' = hash_sem_shm_allocator K"
    "clean_up_queue_resources K' = clean_up_queue_resources K" "clear_at K' = clear_at K"
    "service_slot K' = service_slot K"
proof -
  note same = K' sleeping_frame shm_wrappers
  have deref: "deref K' = deref K" "write_through K' = write_through K"
    unfolding deref_def [abs_def] write_through_def [abs_def] same by (rule refl)+
  show tab: "load_table K' = load_table K" "store_table K' = store_table K"
    unfolding load_table_def [abs_def] store_table_def [abs_def] deref by (rule refl)+
  have free: "free_sems K' i ns k = free_sems K i ns k" for i ns k
    by (induction ns arbitrary: k) (auto simp: K' intro!: bind_out_cong)
  have wait: "wait_ready K' i n f k = wait_ready K i n f k" for i n f k
    using s by (induction f arbitrary: k) (simp_all add: K')
  have init: "initsem K' = initsem K" unfolding initsem_def [abs_def] free wait unfolding same ..
  have sems: "create_sems K' = create_sems K" unfolding create_sems_def [abs_def] sem_wait_def init unfolding same ..
  have poll: "setup_poll K' = setup_poll K" unfolding setup_poll_def [abs_def] deref ..
  have sem: "setup_sem K' = setup_sem K"
    unfolding setup_sem_def [abs_def] sem_queue_create_def sems deref ..
  have pair: "allocate_pair K' = allocate_pair K" unfolding allocate_pair_def [abs_def] same ..
  show "hash_shm_allocator K' = hash_shm_allocator K" "hash_sem_shm_allocator K' = hash_sem_shm_allocator K"
    unfolding hash_shm_allocator_def [abs_def] hash_sem_shm_allocator_def [abs_def] pair poll sem by (rule refl)+
  have rem: "remove_sems K' = remove_sems K" unfolding remove_sems_def [abs_def] same ..
  have destroy: "destroy_semaphores K' = destroy_semaphores K"
    unfolding destroy_semaphores_def [abs_def] tab deref rem unfolding same ..
  show "clean_up_queue_resources K' = clean_up_queue_resources K"
    unfolding clean_up_queue_resources_def [abs_def] tab destroy ..
  have clr: "force_clear_slot K' = force_clear_slot K" unfolding force_clear_slot_def [abs_def] same ..
  show "clear_at K' = clear_at K" unfolding clear_at_def [abs_def] clear_slot_def [abs_def] tab clr ..
  show "service_slot K' = service_slot K" unfolding service_slot_def [abs_def] tab ..
qed

lemma manage_pool_sleeping:
  assumes "sysv_of P' = (sysv_of P)\<lparr>sleeping := s\<rparr>" "s 1 = sleeping (sysv_of P) 1" "construct_of P' = construct_of P"
  shows "manage_pool P' sc k = manage_pool P sc k"
proof -
  note same = sleeping_irrelevant [OF assms(1,2)]
  have al: "allocator_of P' = allocator_of P"
    unfolding allocator_of_def [abs_def] same assms(3) ..
  have slot: "manage_slot P' = manage_slot P" unfolding manage_slot_def [abs_def] same al ..
  have "manage_loop P' ch is k = manage_loop P ch is k" for ch "is"
    by (induction "is" arbitrary: k) (auto simp: slot intro!: bind_out_cong)
  then show ?thesis by (simp add: manage_pool_def)
qed

lemma region_kernel_sleeping:
  assumes "region_kernel K"
  shows "region_kernel (K\<lparr>sleeping := s\<rparr>)"
  using assms
  unfolding region_kernel_def sysv_ample_def sysv_ample_axioms_def sysv_shm_def sleeping_frame .

definition served_sysv :: "('b region ref_kernel, 'b) platform \<Rightarrow> server_context \<Rightarrow> ('b region ref_kernel, 'b) platform" where
  "served_sysv P sc = P\<lparr>sysv_of := (ref_sysv zero_region)\<lparr>sleeping :=
     (\<lambda>n k. if n = CLIENT_OPEN_WAIT_INTERVAL then
              case manage_pool (P\<lparr>sysv_of := ref_sysv zero_region\<rparr>) sc k of Ret k' \<Rightarrow> k' | _ \<Rightarrow> k
            else k)\<rparr>\<rparr>"

interpretation served_rpc: rpc_server "sysv_of (served_sysv P sc)" "served_sysv P sc" for P sc
proof -
  have "region_kernel (sysv_of (served_sysv P sc))"
    by (simp add: served_sysv_def region_kernel_sleeping ref_region.region_kernel_axioms)
  then show "rpc_server (sysv_of (served_sysv P sc)) (served_sysv P sc)"
    by (simp add: rpc_server_def rpc_server_axioms_def)
qed

lemma served_runs:
  assumes "manage_pool (served_sysv P sc) sc k = Ret k'"
  shows "sleeping (sysv_of (served_sysv P sc)) CLIENT_OPEN_WAIT_INTERVAL k = k'"
proof -
  have "manage_pool (served_sysv P sc) sc k = manage_pool (P\<lparr>sysv_of := ref_sysv zero_region\<rparr>) sc k"
    unfolding served_sysv_def by (rule manage_pool_sleeping [where s = "\<lambda>n k. if n = CLIENT_OPEN_WAIT_INTERVAL then
        case manage_pool (P\<lparr>sysv_of := ref_sysv zero_region\<rparr>) sc k of Ret k' \<Rightarrow> k' | _ \<Rightarrow> k else k"])
      (simp_all add: CLIENT_OPEN_WAIT_INTERVAL_def)
  with assms have "manage_pool (P\<lparr>sysv_of := ref_sysv zero_region\<rparr>) sc k = Ret k'" by simp
  then show ?thesis by (simp add: served_sysv_def)
qed


text \<open>A slot the pool manager can clear without semaphores: its queues, if any, are other segments than the table.\<close>

definition settled :: "int \<Rightarrow> coord_header \<Rightarrow> nat \<Rightarrow> bool" where
  "settled t h i \<longleftrightarrow> (reserved h i \<longrightarrow> shm_created (slots h ! i) \<and> row_type (slots h ! i) \<noteq> SEM) \<and>
     (shm_created (slots h ! i) \<longrightarrow>
       info_shmid (request_shm (row_shms (slots h ! i))) \<noteq> t \<and> info_shmid (response_shm (row_shms (slots h ! i))) \<noteq> t)"

context rpc_server
begin

text \<open>A server, its first client and an \<open>accept\<close>: the state of table and queues when all three calls have returned.\<close>

lemma connection_run:
  assumes reg: "register_server P f0 0 dest k = Ret (Some sc, k1)"
    and runs: "\<forall>k k'. manage_pool P sc k = Ret k' \<longrightarrow> sleeping K CLIENT_OPEN_WAIT_INTERVAL k = k'"
    and keys: "hash dest \<noteq> 0" "hash src \<noteq> 0" "i32 (hash src + 1) \<noteq> 0" "distinct [hash dest, hash src, i32 (hash src + 1)]"
    and free: "\<forall>key \<in> {hash dest, hash src, i32 (hash src + 1)}. key_names K key k = None"
    and msz: "0 < msz" "msz \<le> int (QUEUE_SIZE - 40)"
  obtains qpc k2 qps k3 t h a b where
    "client_open P (Suc fuel) src dest msz POLL k1 = Ret (Some (select_queue_ctx P POLL qpc), k2)"
    "accept P fuel' sc k2 = Ret (Some (select_queue_ctx P POLL qps), k3)"
    "request_shmaddr qpc = Shm a" "response_shmaddr qpc = Shm b" "qp_client_id qpc = hash src"
    "request_shmaddr qps = Shm a" "response_shmaddr qps = Shm b" "qp_client_id qps = hash src"
    "coord_shmaddr sc = Shm t" "served k3 (hash dest) t h 0 a b (nat msz)" "row_type (slots h ! 0) = POLL"
    "\<forall>j < SLOT_NUM. j \<noteq> 0 \<longrightarrow> slots h ! j = zero_row \<and> \<not> reserved h j"
proof -
  obtain t k' where c: "coord_create K dest k = Ret (Shm t, k')" "key_names K (hash dest) k' = Some t"
    "load_seg K t k' = Some (Table (init_header t zero_header))"
    "\<And>c. c \<noteq> hash dest \<Longrightarrow> key_names K c k' = key_names K c k" "\<And>j. j \<noteq> t \<Longrightarrow> load_seg K j k' = load_seg K j k"
    by (rule coord_create_run [OF keys(1), of k]) (use free in simp, rule that)
  from reg have sc: "coord_shmaddr sc = Shm t" and k1: "k1 = k'"
    by (auto simp: register_server_def platform c(1) Let_def)
  let ?h = "init_header t zero_header"
  have wf: "coord_wf zero_header" by (simp add: coord_wf_def zero_header_def)
  note h = init_header_simps [OF wf]
  have rows: "slots ?h ! j = zero_row" if "j < SLOT_NUM" for j using that by (simp add: h(2)) (simp add: zero_header_def)
  have idle: "\<forall>j < SLOT_NUM. idle ?h j" using rows h(5) by (simp add: idle_def zero_row_def)
  have keys': "hash src \<noteq> hash dest" "i32 (hash src + 1) \<noteq> hash dest" "hash src \<noteq> i32 (hash src + 1)" using keys(4) by auto
  have 0: "(0::nat) < SLOT_NUM" by (simp add: SLOT_NUM_def)
  have z: "\<forall>j < 0. reserved ?h j" by simp
  have no: "key_names K (hash src) k' = None" "key_names K (i32 (hash src + 1)) k' = None"
    using c(4) [OF keys'(1)] c(4) [OF keys'(2)] free by simp_all
  have id: "coord_shmid ?h = t" by (rule h(4))
  obtain k2 h2 a b qp where opn: "client_open P (Suc fuel) src dest msz POLL k' = Ret (Some (select_queue_ctx P POLL qp), k2)"
    "request_shmaddr qp = Shm a" "response_shmaddr qp = Shm b" "qp_client_id qp = hash src" "served k2 (hash dest) t h2 0 a b (nat msz)"
    "\<not> server_attached (slots h2 ! 0)" "row_type (slots h2 ! 0) = POLL" "row_client_id (slots h2 ! 0) = hash src"
    "\<forall>j < SLOT_NUM. j \<noteq> 0 \<longrightarrow> slots h2 ! j = slots ?h ! j \<and> reserved h2 j = reserved ?h j"
    using client_open_run [OF c(3) keys(1) c(2) init_zero_inv id 0 h(5) [OF 0] z idle keys(2,3) keys'(3) no msz sc runs,
      where fuel = fuel]
    by - (elim exE conjE, (rule that; assumption))
  have "\<forall>j < SLOT_NUM. j \<noteq> 0 \<longrightarrow> \<not> ready h2 j" using opn(9) h(5) by (simp add: ready_def)
  moreover have "coord_inv h2" "ready h2 0" using opn(5) by (auto simp: served_def ready_def phase_def split: if_splits)
  ultimately have only: "accept_loop SLOT_NUM (nat (accept_slot h2)) (h2\<lparr>mutex := True\<rparr>) = Some 0"
    using accept_loop_only [OF _ 0] by blast
  from accept_run [OF opn(5) 0 opn(6,7) only sc, of fuel', unfolded opn(8)] obtain k3 h3 qp' where acc:
    "accept P fuel' sc k2 = Ret (Some (select_queue_ctx P POLL qp'), k3)" "request_shmaddr qp' = Shm a" "response_shmaddr qp' = Shm b"
    "qp_client_id qp' = hash src" "served k3 (hash dest) t h3 0 a b (nat msz)" "slots h3 ! 0 = (slots h2 ! 0)\<lparr>server_attached := True\<rparr>"
    "\<forall>j < SLOT_NUM. (j \<noteq> 0 \<longrightarrow> slots h3 ! j = slots h2 ! j) \<and> reserved h3 j = reserved h2 j"
    by - (elim exE conjE, (rule that; assumption))
  have "\<forall>j < SLOT_NUM. j \<noteq> 0 \<longrightarrow> slots h3 ! j = zero_row \<and> \<not> reserved h3 j" using acc(7) opn(9) rows h(5) by simp
  moreover have "row_type (slots h3 ! 0) = POLL" using acc(6) opn(7) by simp
  ultimately show thesis using opn(1-4) acc(1-5) sc by (intro that [of qp k2 qp' k3 a b t h3]) (simp_all only: k1)
qed

text \<open>The conversation leaves the table as it was, ready to be shut down.\<close>

lemma session_end:
  assumes reg: "register_server P f0 0 dest k = Ret (Some sc, k1)"
    and runs: "\<forall>k k'. manage_pool P sc k = Ret k' \<longrightarrow> sleeping K CLIENT_OPEN_WAIT_INTERVAL k = k'"
    and keys: "hash dest \<noteq> 0" "hash src \<noteq> 0" "i32 (hash src + 1) \<noteq> 0" "distinct [hash dest, hash src, i32 (hash src + 1)]"
    and free: "\<forall>key \<in> {hash dest, hash src, i32 (hash src + 1)}. key_names K key k = None"
    and msz: "0 < msz" "msz \<le> 7992" and lens: "\<forall>(req, resp) \<in> set rs. length req = nat msz \<and> length resp = nat msz"
  obtains client k2 server k3 k4 t h where
    "client_open P (Suc fuel) src dest msz POLL k1 = Ret (Some client, k2)"
    "accept P fuel' sc k2 = Ret (Some server, k3)"
    "qp_client_id (queues client) = hash src" "qp_client_id (queues server) = hash src"
    "rpc_rounds client server rs k3 = Ret (rs, k4)" "coord_shmaddr sc = Shm t" "load_seg K t k4 = Some (Table h)"
    "key_names K (hash dest) k4 = Some t" "coord_wf h" "coord_shmid h = t" "\<forall>i < SLOT_NUM. settled t h i"
proof -
  have msz': "msz \<le> int (QUEUE_SIZE - 40)" using msz(2) by (simp add: QUEUE_SIZE_def)
  obtain qpc k2 qps k3 t h a b where s:
    "client_open P (Suc fuel) src dest msz POLL k1 = Ret (Some (select_queue_ctx P POLL qpc), k2)"
    "accept P fuel' sc k2 = Ret (Some (select_queue_ctx P POLL qps), k3)"
    "request_shmaddr qpc = Shm a" "response_shmaddr qpc = Shm b" "qp_client_id qpc = hash src"
    "request_shmaddr qps = Shm a" "response_shmaddr qps = Shm b" "qp_client_id qps = hash src"
    "coord_shmaddr sc = Shm t" "served k3 (hash dest) t h 0 a b (nat msz)" "row_type (slots h ! 0) = POLL"
    "\<forall>j < SLOT_NUM. j \<noteq> 0 \<longrightarrow> slots h ! j = zero_row \<and> \<not> reserved h j"
    by (rule connection_run [OF reg runs keys free msz(1) msz', of fuel fuel'])
  from s(10) obtain q1 q2 where q: "load_seg K a k3 = Some (PollQ q1)" "load_seg K b k3 = Some (PollQ q2)" "a \<noteq> b"
    "empty_poll (nat msz) q1" "empty_poll (nat msz) q2" by (auto simp: served_def)
  have cap: "0 < (QUEUE_SIZE - 40) div nat msz - 1"
  proof -
    have "nat msz \<le> 7992" "0 < nat msz" using msz by auto
    then have "2 \<le> 15984 div nat msz" by (simp add: less_eq_div_iff_mult_less_eq)
    then show ?thesis by (simp add: QUEUE_SIZE_def)
  qed
  from rounds_run [OF q cap lens s(3,4,6,7)] obtain k4 where k4: "rpc_rounds (select_queue_ctx P POLL qpc) (select_queue_ctx P POLL qps) rs k3 = Ret (rs, k4)"
    "\<forall>j. j \<noteq> a \<longrightarrow> j \<noteq> b \<longrightarrow> load_seg K j k4 = load_seg K j k3" "\<forall>c. key_names K c k4 = key_names K c k3" by blast
  have t: "load_seg K t k3 = Some (Table h)" "coord_inv h" "phase h 0 = Serving" "a \<noteq> t" "b \<noteq> t"
    "key_names K (hash dest) k3 = Some t" "coord_shmid h = t" "info_shmid (request_shm (row_shms (slots h ! 0))) = a"
    "info_shmid (response_shm (row_shms (slots h ! 0))) = b"
    using s(10) q by (auto simp: served_def)
  have set: "settled t h i" if "i < SLOT_NUM" for i
  proof (cases "i = 0")
    case True
    have "shm_created (slots h ! 0)" using t(3) by (auto simp: phase_def split: if_splits)
    then show ?thesis using True t s(11) by (simp add: settled_def)
  next
    case False
    with s(12) that show ?thesis by (simp add: settled_def zero_row_def)
  qed
  have "queues (select_queue_ctx P POLL x) = x" for x by (simp add: select_queue_ctx_def)
  then show thesis
    using s(5,8,9) k4 t set by (intro that [OF s(1,2) _ _ k4(1), of t h]) (simp_all add: coord_inv_def)
qed

end

text \<open>The server and the clients of the examples: one platform, its context and two addresses.\<close>

abbreviation demo_context :: server_context where
  "demo_context \<equiv> \<lparr>coord_shmaddr = Shm 0, manage_pool_state = RUNNING_NO_SHUTDOWN\<rparr>"

definition demo_platform :: "(byte list list region ref_kernel, byte list list) platform" where
  "demo_platform = served_sysv \<lparr>sysv_of = ref_sysv zero_region, boost_of = list_lib, construct_of = (\<lambda>_ _. Hang)\<rparr>
     \<lparr>coord_shmaddr = Shm 0, manage_pool_state = RUNNING_NO_SHUTDOWN\<rparr>"

lemma demo_hashes: "hash [97] = -1431656822" "hash [98] = -1431656726"
  by (simp_all add: hash_def hash_step_def rol_def)

lemma demo_server: "rpc_server (sysv_of demo_platform) demo_platform"
  unfolding demo_platform_def by (rule served_rpc.rpc_server_axioms)

lemma demo_calls:
  "load_seg (sysv_of demo_platform) = ref_load" "key_names (sysv_of demo_platform) = ref_names"
  "shmctl_rmid (sysv_of demo_platform) = ref_rmid" "sleeping (sysv_of demo_platform) 0 k = k"
  by (simp_all add: demo_platform_def served_sysv_def CLIENT_OPEN_WAIT_INTERVAL_def)

lemma demo_runs:
  "\<forall>k k'. manage_pool demo_platform demo_context k = Ret k' \<longrightarrow>
     sleeping (sysv_of demo_platform) CLIENT_OPEN_WAIT_INTERVAL k = k'"
  unfolding demo_platform_def using served_runs by blast

lemma demo_registered:
  "hash addr \<noteq> 0 \<Longrightarrow> \<exists>k1. register_server demo_platform fuel 0 addr ref_boot = Ret (Some demo_context, k1)"
  by (simp add: register_server_def demo_platform_def served_sysv_def coord_create_def ref_shmget_def ref_names_def
    ref_boot_def fresh_id_def Let_def ref_shmat_def lookup_seg_def load_table_def deref_def ref_load_def
    store_table_def write_through_def ref_region.table_zero del: sizeof_coord_header_1688)

section \<open>Properties\<close>

text \<open>
  C2: a whole session. A server registers an address that nobody uses, a client opens a
  connection to it while the pool manager runs whenever the client sleeps, and the server
  accepts: \<open>client_open\<close> and \<open>accept\<close> return contexts of the same client, and over them every
  request reaches the server and every response the client, unchanged and in order, for
  any number of rounds.
\<close>

theorem rpc_session:
  assumes srv: "rpc_server K P" and reg: "register_server P f0 0 dest k = Ret (Some sc, k1)"
    and runs: "\<forall>k k'. manage_pool P sc k = Ret k' \<longrightarrow> sleeping K CLIENT_OPEN_WAIT_INTERVAL k = k'"
    and keys: "hash dest \<noteq> 0" "hash src \<noteq> 0" "i32 (hash src + 1) \<noteq> 0" "distinct [hash dest, hash src, i32 (hash src + 1)]"
    and free: "\<forall>key \<in> {hash dest, hash src, i32 (hash src + 1)}. key_names K key k = None"
    and msz: "0 < msz" "msz \<le> 7992" and lens: "\<forall>(req, resp) \<in> set rs. length req = nat msz \<and> length resp = nat msz"
  shows "\<exists>client k2 server k3 k4.
    client_open P (Suc fuel) src dest msz POLL k1 = Ret (Some client, k2) \<and>
    accept P fuel' sc k2 = Ret (Some server, k3) \<and>
    qp_client_id (queues client) = hash src \<and> qp_client_id (queues server) = hash src \<and>
    rpc_rounds client server rs k3 = Ret (rs, k4)"
  by (rule rpc_server.session_end [OF srv reg runs keys free msz lens, of fuel fuel']) blast

theorem rpc_session_witness:
  "\<exists>sc k1 client k2 server k3 k4. register_server demo_platform 0 0 [97] ref_boot = Ret (Some sc, k1) \<and>
     client_open demo_platform 1 [98] [97] 4 POLL k1 = Ret (Some client, k2) \<and>
     accept demo_platform 0 sc k2 = Ret (Some server, k3) \<and>
     rpc_rounds client server [([1, 2, 3, 4], [5, 6, 7, 8]), ([9, 9, 9, 9], [0, 0, 0, 0])] k3 =
       Ret ([([1, 2, 3, 4], [5, 6, 7, 8]), ([9, 9, 9, 9], [0, 0, 0, 0])], k4)"
proof -
  obtain k1 where reg: "register_server demo_platform 0 0 [97] ref_boot = Ret (Some demo_context, k1)"
    using demo_registered [of "[97]" 0] by (auto simp: demo_hashes)
  have none: "key_names (sysv_of demo_platform) key ref_boot = None" for key
    by (simp add: demo_calls ref_names_def ref_boot_def)
  show ?thesis
    using rpc_session [OF demo_server reg demo_runs, of "[98]" 4
        "[([1, 2, 3, 4], [5, 6, 7, 8]), ([9, 9, 9, 9], [0, 0, 0, 0])]" 0 0] reg
    by (auto simp: demo_hashes i32_def none simp del: rpc_rounds.simps)
qed

section \<open>Closing and shutting down\<close>

definition freed :: "nat \<Rightarrow> coord_header \<Rightarrow> coord_header" where
  "freed i h = set_reserved i False (set_row i (\<lambda>_. zero_row) h)"

lemma freed_simps [simp]:
  assumes "coord_wf h" "i < SLOT_NUM"
  shows "coord_wf (freed i h)" "j < SLOT_NUM \<Longrightarrow> slots (freed i h) ! j = (if j = i then zero_row else slots h ! j)"
    "j < SLOT_NUM \<Longrightarrow> reserved (freed i h) j = (j \<noteq> i \<and> reserved h j)" "mutex (freed i h) = mutex h"
    "accept_slot (freed i h) = accept_slot h" "coord_shmid (freed i h) = coord_shmid h"
  using assms by (simp_all add: freed_def)

lemma freed_inv: "coord_inv h \<Longrightarrow> i < SLOT_NUM \<Longrightarrow> coord_inv (freed i h)"
  unfolding freed_def by (rule inv_set_both) (simp_all add: row_ok_def zero_row_def)

context rpc_server
begin

lemma rmid_two:
  assumes "a \<noteq> t" "b \<noteq> t" "load_seg K t k = Some r" "key_names K c k = Some t"
    and C: "\<And>x. key_names K x k = Some a \<or> key_names K x k = Some b \<Longrightarrow> x \<in> C"
  obtains e1 k1 e2 k2 where "shmctl_rmid K a k = (e1, k1)" "shmctl_rmid K b k1 = (e2, k2)"
    "load_seg K t k2 = Some r" "key_names K c k2 = Some t" "keeps C t k k2"
proof -
  obtain e1 k1 e2 k2 where e: "shmctl_rmid K a k = (e1, k1)" "shmctl_rmid K b k1 = (e2, k2)" by (metis surj_pair)
  have 1: "load_seg K t k1 = Some r" "key_names K c k1 = Some t"
    using rmid_frame [OF e(1), of c t] assms by simp_all
  have 2: "load_seg K t k2 = Some r" "key_names K c k2 = Some t"
    using rmid_frame [OF e(2), of c t] assms 1 by simp_all
  have "key_names K x k2 = key_names K x k \<and> (\<forall>j. key_names K x k = Some j \<longrightarrow> load_seg K j k2 = load_seg K j k)"
    if x: "x \<notin> C" for x
  proof -
    have ne: "key_names K x k \<noteq> Some a" "key_names K x k \<noteq> Some b" using C x by blast+
    then have n1: "key_names K x k1 = key_names K x k" using rmid_frame [OF e(1), of x] by simp
    have l1: "load_seg K j k1 = load_seg K j k" if "j \<noteq> a" for j using rmid_frame [OF e(1), of x j] that by simp
    have l2: "load_seg K j k2 = load_seg K j k1" if "j \<noteq> b" for j using rmid_frame [OF e(2), of x j] that by simp
    have "key_names K x k2 = key_names K x k" using rmid_frame [OF e(2), of x] n1 ne by simp
    moreover have "load_seg K j k2 = load_seg K j k" if "key_names K x k = Some j" for j
      using that ne l1 l2 by (metis option.inject)
    ultimately show ?thesis by blast
  qed
  then have "keeps C t k k2" by (simp add: keeps_def)
  with e 2 show thesis by (rule that)
qed

text \<open>Clearing a closing slot takes the names of its queues away and no others.\<close>

lemma manage_closing_keeps:
  assumes t: "load_seg K t k = Some (Table h)" "key_names K c k = Some t" and i: "i < SLOT_NUM"
    and d: "detach (slots h ! i)" "settled t h i"
    and C: "\<And>x. shm_created (slots h ! i) \<Longrightarrow> key_names K x k = Some (info_shmid (request_shm (row_shms (slots h ! i)))) \<or>
      key_names K x k = Some (info_shmid (response_shm (row_shms (slots h ! i)))) \<Longrightarrow> x \<in> C"
  shows "\<exists>k'. manage_slot P (Shm t) (int i) k = Ret k' \<and> load_seg K t k' = Some (Table (freed i h)) \<and>
    key_names K c k' = Some t \<and> keeps C t k k'"
proof -
  have "service_request h (int i) = Ret (row_client_id (slots h ! i), None)"
    using i d(2) by (simp add: service_request_def Let_def settled_def)
  then have "service_slot K (Shm t) (int i) al k = Ret (-1, k)" for al
    by (simp add: service_slot_def load_table_Shm [OF t(1)])
  moreover have "clean_up_queue_resources K (Shm t) (int i) k = Ret k"
    using i d by (auto simp: clean_up_queue_resources_def load_table_Shm [OF t(1)] settled_def split: QUEUE_TYPE.splits)
  moreover have "\<exists>k1. clear_slot K h (int i) k = Ret (freed i h, k1) \<and> load_seg K t k1 = Some (Table h) \<and>
      key_names K c k1 = Some t \<and> keeps C t k k1"
  proof (cases "shm_created (slots h ! i)")
    case True
    with d(2) have "info_shmid (request_shm (row_shms (slots h ! i))) \<noteq> t" "info_shmid (response_shm (row_shms (slots h ! i))) \<noteq> t"
      by (simp_all add: settled_def)
    from rmid_two [OF this t C [OF True]] obtain e1 k1 e2 k2 where "shmctl_rmid K (info_shmid (request_shm (row_shms (slots h ! i)))) k = (e1, k1)"
      "shmctl_rmid K (info_shmid (response_shm (row_shms (slots h ! i)))) k1 = (e2, k2)"
      "load_seg K t k2 = Some (Table h)" "key_names K c k2 = Some t" "keeps C t k k2" by metis
    with True i d(1) show ?thesis by (simp add: clear_slot_def force_clear_slot_def freed_def)
  next
    case False
    with t i d(1) show ?thesis by (simp add: clear_slot_def force_clear_slot_def freed_def obs_keeps)
  qed
  then obtain k1 where k1: "clear_slot K h (int i) k = Ret (freed i h, k1)" "load_seg K t k1 = Some (Table h)"
    "key_names K c k1 = Some t" "keeps C t k k1" by blast
  have "clear_at K (Shm t) (int i) k = Ret (store_seg K t (Table (freed i h)) k1)"
    by (simp add: clear_at_def load_table_Shm [OF t(1)] k1(1) store_table_Shm [OF k1(2)])
  ultimately have "manage_slot P (Shm t) (int i) k = Ret (store_seg K t (Table (freed i h)) k1)"
    using i by (simp add: manage_slot_def load_table_Shm [OF t(1)] platform)
  moreover have "load_seg K t (store_seg K t (Table (freed i h)) k1) = Some (Table (freed i h))"
    using load_store [of t k1] k1(2) by simp
  moreover have "keeps C t k (store_seg K t (Table (freed i h)) k1)" by (rule keeps_trans [OF k1(4) store_keeps [OF k1(2)]])
  ultimately show ?thesis using k1(3) by (auto simp: store_names)
qed

lemma manage_closing:
  assumes "load_seg K t k = Some (Table h)" "key_names K c k = Some t" "i < SLOT_NUM" "detach (slots h ! i)" "settled t h i"
  shows "\<exists>k'. manage_slot P (Shm t) (int i) k = Ret k' \<and> load_seg K t k' = Some (Table (freed i h)) \<and>
    key_names K c k' = Some t"
  using manage_closing_keeps [OF assms, of UNIV] by auto

lemma manage_loop_closing:
  assumes "load_seg K t k = Some (Table h)" "key_names K c k = Some t" "coord_wf h" "distinct is"
    and "\<forall>i \<in> set is. i < SLOT_NUM \<and> detach (slots h ! i) \<and> settled t h i"
  shows "\<exists>k'. manage_loop P (Shm t) is k = Ret k' \<and> load_seg K t k' = Some (Table (fold freed is h)) \<and>
    key_names K c k' = Some t"
  using assms
proof (induction "is" arbitrary: k h)
  case Nil
  then show ?case by simp
next
  case (Cons i "is")
  then obtain k1 where k1: "manage_slot P (Shm t) (int i) k = Ret k1" "load_seg K t k1 = Some (Table (freed i h))"
    "key_names K c k1 = Some t"
    using manage_closing [OF Cons.prems(1,2), of i] by auto
  have wf: "coord_wf (freed i h)" using Cons.prems by simp
  have "\<forall>j \<in> set is. j < SLOT_NUM \<and> detach (slots (freed i h) ! j) \<and> settled t (freed i h) j"
    using Cons.prems(3-5) by (auto simp: settled_def)
  with Cons.IH [OF k1(2,3) wf] Cons.prems(4) obtain k2 where
    "manage_loop P (Shm t) is k1 = Ret k2" "load_seg K t k2 = Some (Table (fold freed is (freed i h)))" "key_names K c k2 = Some t"
    by auto
  with k1(1) show ?case by simp
qed

end

lemma fold_freed:
  assumes "coord_wf h" "set is \<subseteq> {..<SLOT_NUM}"
  shows "coord_wf (fold freed is h)" "coord_shmid (fold freed is h) = coord_shmid h"
    "j < SLOT_NUM \<Longrightarrow> reserved (fold freed is h) j = (j \<notin> set is \<and> reserved h j)"
  using assms by (induction "is" arbitrary: h) auto

context rpc_server
begin

lemma shutdown_run:
  assumes t: "load_seg K t k = Some (Table h)" "key_names K c k = Some t" and wf: "coord_wf h" "coord_shmid h = t"
    and s: "\<forall>i < SLOT_NUM. settled t h i" and sc: "coord_shmaddr sc = Shm t"
    and rm: "\<forall>k. key_names K c k = Some t \<longrightarrow> fst (shmctl_rmid K t k) = 0"
  shows "\<exists>k'. shutdown P True (Suc fuel) sc k = Ret k' \<and> key_names K c k' \<noteq> Some t"
proof -
  let ?sc = "sc\<lparr>manage_pool_state := NOT_RUNNING\<rparr>" and ?h = "coord_shutdown h"
  have run: "await_runner True (Suc fuel) (sc\<lparr>manage_pool_state := RUNNING_SHUTDOWN\<rparr>) = Ret ?sc"
    by (subst await_runner.simps) (simp add: RUNNING_SHUTDOWN_def NOT_RUNNING_def await_runner.simps)
  have sub: "set [0..<SLOT_NUM] \<subseteq> {..<SLOT_NUM}" by auto
  note sh = shutdown_loop_simps [OF wf(1) sub, folded coord_shutdown_def]
  let ?k = "store_seg K t (Table ?h) k"
  have t1: "load_seg K t ?k = Some (Table ?h)" "key_names K c ?k = Some t"
    using t load_store [of t k] by (simp_all add: store_names)
  have "\<forall>i \<in> set [0..<SLOT_NUM]. i < SLOT_NUM \<and> detach (slots ?h ! i) \<and> settled t ?h i"
    using s sh by (simp add: settled_def)
  with manage_loop_closing [OF t1 sh(1), of "[0..<SLOT_NUM]"] obtain k2 where
    k2: "manage_loop P (Shm t) [0..<SLOT_NUM] ?k = Ret k2" "load_seg K t k2 = Some (Table (fold freed [0..<SLOT_NUM] ?h))"
      "key_names K c k2 = Some t" by auto
  have id: "coord_shmid (fold freed [0..<SLOT_NUM] ?h) = t" using fold_freed(2) [OF sh(1) sub] sh(5) wf(2) by simp
  obtain e k3 where dt: "shmdt K (Shm t) k2 = (e, k3)" by (cases "shmdt K (Shm t) k2")
  have k3: "key_names K c k3 = Some t" using shmdt_frame [OF dt] k2(3) by simp
  obtain e' k4 where rmid: "shmctl_rmid K t k3 = (e', k4)" by (cases "shmctl_rmid K t k3")
  with rm k3 have "e' = 0" by (metis fst_conv)
  with rmid have "key_names K c k4 \<noteq> Some t" using rmid_unnames by simp
  moreover have "shutdown P True (Suc fuel) sc k = Ret k4"
    using run k2(1) dt rmid id
    by (simp add: shutdown_def platform sc load_table_Shm [OF t(1)] store_table_Shm [OF t(1)] manage_pool_def
        coord_delete_def load_table_Shm [OF k2(2)] coord_detach_def Let_def)
  ultimately show ?thesis by blast
qed

end

context rpc_server
begin

lemma load_stored: "load_seg K t k = Some r \<Longrightarrow> load_seg K t (store_seg K t r' k) = Some r'"
  using load_store [of t k t r'] by simp

lemma no_server_run:
  assumes "hash dest \<noteq> 0" "key_names K (hash dest) k = None"
  shows "client_open P fuel src dest msz ty k = Ret (None, k)" "client_close K src dest k = Fault NullDeref"
proof -
  have "\<not> has_flag attach_flag IPC_CREAT" by (simp add: attach_flag_def has_flag_def IPC_CREAT_def)
  then have "coord_attach K dest k = (Null, k)"
    using shmget_absent [OF assms] by (simp add: coord_attach_def)
  then show "client_open P fuel src dest msz ty k = Ret (None, k)" "client_close K src dest k = Fault NullDeref"
    by (simp_all add: client_open_def platform client_close_def load_table_def)
qed

lemma close_loop_first:
  assumes "i \<in> set is" "row_client_id (slots h ! i) = cid" "\<forall>j \<in> set is. j \<noteq> i \<longrightarrow> row_client_id (slots h ! j) \<noteq> cid"
  shows "close_loop is cid h = (0, set_row i (\<lambda>r. r\<lparr>detach := True\<rparr>) h)"
  using assms by (induction "is") auto

lemma client_close_run:
  assumes tab: "load_seg K t k = Some (Table h)" "hash dest \<noteq> 0" "key_names K (hash dest) k = Some t"
    and i: "i < SLOT_NUM" "row_client_id (slots h ! i) = hash src"
    and only: "\<forall>j < SLOT_NUM. j \<noteq> i \<longrightarrow> row_client_id (slots h ! j) \<noteq> hash src"
  obtains k' where "client_close K src dest k = Ret (0, k')" "load_seg K t k' = Some (Table (set_row i (\<lambda>r. r\<lparr>detach := True\<rparr>) h))"
    "key_names K (hash dest) k' = Some t" "keeps {} t k k'"
proof -
  obtain k1 where k1: "coord_attach K dest k = (Shm t, k1)" "\<And>j. load_seg K j k1 = load_seg K j k"
    "\<And>c. key_names K c k1 = key_names K c k"
    using coord_attach_run [OF tab(2,3,1)] by blast
  let ?h = "set_row i (\<lambda>r. r\<lparr>detach := True\<rparr>) h"
  let ?k = "store_seg K t (Table ?h) k1"
  have t1: "load_seg K t k1 = Some (Table h)" using k1(2) tab(1) by simp
  have cl: "close_loop [0..<SLOT_NUM] (hash src) h = (0, ?h)"
    by (rule close_loop_first) (use i only in auto)
  obtain e k2 where dt: "shmdt K (Shm t) ?k = (e, k2)" by (cases "shmdt K (Shm t) ?k")
  have "key_names K (hash dest) ?k = Some t" "load_seg K t ?k = Some (Table ?h)"
    using k1(3) tab(3) t1 load_store [of t k1] by (simp_all add: store_names)
  then have t2: "load_seg K t k2 = Some (Table ?h)" "key_names K (hash dest) k2 = Some t"
    using shmdt_frame [OF dt, of "hash dest" t] by simp_all
  have close: "client_close K src dest k = Ret (0, k2)"
    by (simp add: client_close_def k1(1) load_table_Shm [OF t1] cl store_table_Shm [OF t1] coord_detach_def dt)
  have "obs_eq k k1" using k1(2,3) by (simp add: obs_eq_def)
  moreover have "keeps {} t ?k k2" using shmdt_frame [OF dt] by (simp add: keeps_def)
  ultimately have "keeps {} t k k2" using keeps_trans [OF obs_keeps keeps_trans [OF store_keeps [OF t1]]] by blast
  with close t2 show thesis by (rule that)
qed

lemma close_run:
  assumes tab: "load_seg K t k = Some (Table h)" "hash dest \<noteq> 0" "key_names K (hash dest) k = Some t" and inv: "coord_inv h"
    and i: "i < SLOT_NUM" "row_client_id (slots h ! i) = hash src" "settled t h i"
    and only: "\<forall>j < SLOT_NUM. j \<noteq> i \<longrightarrow> row_client_id (slots h ! j) \<noteq> hash src \<and> idle h j"
    and sc: "coord_shmaddr sc = Shm t"
  shows "\<exists>k1 k2. client_close K src dest k = Ret (0, k1) \<and> manage_pool P sc k1 = Ret k2 \<and>
    load_seg K t k2 = Some (Table (freed i (set_row i (\<lambda>r. r\<lparr>detach := True\<rparr>) h)))"
proof -
  have wf: "coord_wf h" using inv by (simp add: coord_inv_def)
  let ?h = "set_row i (\<lambda>r. r\<lparr>detach := True\<rparr>) h"
  have "\<forall>j < SLOT_NUM. j \<noteq> i \<longrightarrow> row_client_id (slots h ! j) \<noteq> hash src" using only by blast
  from client_close_run [OF tab i(1,2) this] obtain k2 where close: "client_close K src dest k = Ret (0, k2)"
    and t2: "load_seg K t k2 = Some (Table ?h)" "key_names K (hash dest) k2 = Some t" by blast
  have split: "[0..<SLOT_NUM] = [0..<i] @ i # [Suc i..<SLOT_NUM]" by (rule upt_split [OF i(1)])
  have ids: "\<forall>j < SLOT_NUM. j \<noteq> i \<longrightarrow> idle ?h j" using only wf i(1) by (simp add: idle_def)
  obtain k3 where k3: "manage_loop P (Shm t) [0..<i] k2 = Ret k3" "obs_eq k2 k3"
    using manage_loop_idle [OF t2(1), of "[0..<i]"] ids i(1) by auto
  have t3: "load_seg K t k3 = Some (Table ?h)" "key_names K (hash dest) k3 = Some t" using k3(2) t2 by (simp_all add: obs_eq_def)
  have "detach (slots ?h ! i)" "settled t ?h i" using i wf by (simp_all add: settled_def)
  from manage_closing [OF t3 i(1) this] obtain k4 where
    k4: "manage_slot P (Shm t) (int i) k3 = Ret k4" "load_seg K t k4 = Some (Table (freed i ?h))" by blast
  have "\<forall>j \<in> set [Suc i..<SLOT_NUM]. j < SLOT_NUM \<and> idle (freed i ?h) j"
    using ids wf i(1) by (simp add: idle_def)
  from manage_loop_idle [OF k4(2) this] obtain k5 where
    k5: "manage_loop P (Shm t) [Suc i..<SLOT_NUM] k4 = Ret k5" "obs_eq k4 k5" by blast
  have "manage_pool P sc k2 = Ret k5"
    by (simp add: manage_pool_def sc split manage_loop_append k3(1) k4(1) k5(1))
  moreover have "load_seg K t k5 = Some (Table (freed i ?h))" using k5(2) k4(2) by (simp add: obs_eq_def)
  ultimately show ?thesis using close by blast
qed

end

section \<open>Calls that do not return\<close>

lemma await_runner_stuck: "await_runner False fuel (sc\<lparr>manage_pool_state := RUNNING_SHUTDOWN\<rparr>) = Hang"
  by (induction fuel)
    (subst await_runner.simps, simp add: RUNNING_SHUTDOWN_def NOT_RUNNING_def)+

lemma await_keys_stuck:
  assumes "load_table K (Shm t) k = Ret h" "check_slot h slot = Ret shms" "sleeping K 0 k = k"
    and "info_key (request_shm shms) = 0 \<or> info_key (response_shm shms) = 0"
  shows "await_keys K (Shm t) slot fuel shms k = Hang"
  using assms by (induction fuel) (subst await_keys.simps, simp)+

lemma allocate_pair_keys:
  assumes "allocate_pair K setup key1 key2 k = Ret (shms, k')"
  shows "info_key (request_shm shms) = key1 \<and> info_key (response_shm shms) = key2"
  using assms by (auto simp: allocate_pair_def Let_def bind_out_eq_Ret case_prod_unfold)

section \<open>Properties of closing and failing\<close>

text \<open>
  C7: \<open>shutdown\<close> returns while the pool thread is alive, whatever connections the polling and
  Boost queues still serve, and the address of the server names the table no more. That
  \<open>IPC_RMID\<close> on a named segment succeeds is what \<open>shmctl(2)\<close> promises the owner.
\<close>

theorem shutdown_terminates:
  assumes "rpc_server K P" "load_seg K t k = Some (Table h)" "key_names K c k = Some t"
    and "coord_wf h" "coord_shmid h = t" "\<forall>i < SLOT_NUM. settled t h i" "coord_shmaddr sc = Shm t"
    and "\<forall>k. key_names K c k = Some t \<longrightarrow> fst (shmctl_rmid K t k) = 0"
  shows "\<exists>k'. shutdown P True (Suc fuel) sc k = Ret k' \<and> key_names K c k' \<noteq> Some t"
  by (rule rpc_server.shutdown_run [OF assms])

text \<open>A table with one connection, of the client \<open>"b"\<close>, in segment 0 of a server \<open>"a"\<close>.\<close>

definition conn_table :: coord_header where
  "conn_table = set_reserved 0 True (set_row 0 (\<lambda>r. r\<lparr>row_client_id := hash [98], shm_created := True,
     row_shms := \<lparr>request_shm = \<lparr>info_key = 5, info_shmid = 1\<rparr>, response_shm = \<lparr>info_key = 6, info_shmid = 2\<rparr>,
       shm_offset = 0\<rparr>\<rparr>) (init_header 0 zero_header))"

definition conn_kernel :: "byte list list region ref_kernel" where
  "conn_kernel = ref_boot\<lparr>seg_ids := [0], segs := [0 \<mapsto> \<lparr>seg_key = hash [97], seg_removed = False,
     seg_attached = 1, seg_data = Table conn_table\<rparr>]\<rparr>"

lemma zero_wf: "coord_wf zero_header" by (simp add: coord_wf_def zero_header_def)

lemma conn_table_simps:
  "coord_inv conn_table" "coord_shmid conn_table = 0"
  "j < SLOT_NUM \<Longrightarrow> reserved conn_table j = (j = 0)"
  "j < SLOT_NUM \<Longrightarrow> slots conn_table ! j = (if j = 0 then zero_row\<lparr>row_client_id := hash [98], shm_created := True,
     row_shms := \<lparr>request_shm = \<lparr>info_key = 5, info_shmid = 1\<rparr>, response_shm = \<lparr>info_key = 6, info_shmid = 2\<rparr>,
       shm_offset = 0\<rparr>\<rparr> else zero_row)"
proof -
  note h = init_header_simps [OF zero_wf]
  have z: "j < SLOT_NUM \<Longrightarrow> slots (init_header 0 zero_header) ! j = zero_row" for j
    by (simp add: h(2)) (simp add: zero_header_def)
  show "coord_inv conn_table" unfolding conn_table_def
    by (rule inv_set_both [OF init_zero_inv]) (simp_all add: row_ok_def z zero_row_def)
  show "coord_shmid conn_table = 0" by (simp add: conn_table_def h)
  show "j < SLOT_NUM \<Longrightarrow> reserved conn_table j = (j = 0)" by (simp add: conn_table_def h)
  show "j < SLOT_NUM \<Longrightarrow> slots conn_table ! j = (if j = 0 then zero_row\<lparr>row_client_id := hash [98], shm_created := True,
     row_shms := \<lparr>request_shm = \<lparr>info_key = 5, info_shmid = 1\<rparr>, response_shm = \<lparr>info_key = 6, info_shmid = 2\<rparr>,
       shm_offset = 0\<rparr>\<rparr> else zero_row)" by (simp add: conn_table_def h(1,3-6) z)
qed

lemma conn_settled: "j < SLOT_NUM \<Longrightarrow> settled 0 conn_table j"
  by (simp add: settled_def conn_table_simps zero_row_def)

lemma conn_kernel_names:
  "ref_names a conn_kernel = (if a = hash [97] then Some 0 else None)" "ref_load 0 conn_kernel = Some (Table conn_table)"
  by (simp_all add: ref_names_def ref_load_def lookup_seg_def conn_kernel_def ref_boot_def demo_hashes)

theorem shutdown_terminates_witness:
  "\<exists>k'. shutdown demo_platform True 1 demo_context conn_kernel = Ret k' \<and> ref_names (hash [97]) k' \<noteq> Some 0"
proof -
  have "fst (ref_rmid 0 k) = 0" if "ref_names (hash [97]) k = Some 0" for k :: "byte list list region ref_kernel"
    using ref_names_SomeD [OF that] by (auto simp: seg_named_def ref_rmid_def split: option.splits)
  then show ?thesis
    using shutdown_terminates [OF demo_server, of 0 conn_kernel conn_table "hash [97]" demo_context 0]
      conn_table_simps(1,2) conn_settled
    by (simp add: demo_calls conn_kernel_names coord_inv_def)
qed

text \<open>
  C9: closing gives the slot back. \<open>client_close\<close> marks the one row of its client, and the
  next pass of the pool manager frees exactly that slot: every other row and reservation is
  as before.
\<close>

theorem close_recycles_slot:
  assumes "rpc_server K P" "load_seg K t k = Some (Table h)" "hash dest \<noteq> 0" "key_names K (hash dest) k = Some t"
    and "coord_inv h" "i < SLOT_NUM" "row_client_id (slots h ! i) = hash src" "settled t h i"
    and "\<forall>j < SLOT_NUM. j \<noteq> i \<longrightarrow> row_client_id (slots h ! j) \<noteq> hash src \<and> \<not> detach (slots h ! j) \<and>
      (reserved h j \<longrightarrow> shm_created (slots h ! j))"
    and "coord_shmaddr sc = Shm t"
  shows "\<exists>k1 k2 h2. client_close K src dest k = Ret (0, k1) \<and> manage_pool P sc k1 = Ret k2 \<and>
    load_seg K t k2 = Some (Table h2) \<and> coord_inv h2 \<and> phase h2 i = Free \<and>
    (\<forall>j < SLOT_NUM. j \<noteq> i \<longrightarrow> slots h2 ! j = slots h ! j \<and> phase h2 j = phase h j)"
proof -
  have wf: "coord_wf h" using assms(5) by (simp add: coord_inv_def)
  let ?h = "set_row i (\<lambda>r. r\<lparr>detach := True\<rparr>) h"
  have others: "\<forall>j < SLOT_NUM. j \<noteq> i \<longrightarrow> row_client_id (slots h ! j) \<noteq> hash src \<and> rpc_server.idle h j"
    using assms(9) by (simp add: rpc_server.idle_def [OF assms(1)])
  have "coord_inv (freed i ?h)"
    by (intro freed_inv inv_set_row assms(5,6)) (use assms(5,6) in \<open>simp add: coord_inv_def\<close>)
  moreover have "phase (freed i ?h) i = Free" using wf assms(6) by (simp add: phase_def)
  moreover have "slots (freed i ?h) ! j = slots h ! j \<and> phase (freed i ?h) j = phase h j" if "j < SLOT_NUM" "j \<noteq> i" for j
    using that wf assms(6) by (simp add: phase_def)
  ultimately show ?thesis
    using rpc_server.close_run [OF assms(1-8) others assms(10)] by blast
qed

theorem close_recycles_slot_witness:
  "\<exists>k1 k2 h2. client_close (sysv_of demo_platform) [98] [97] conn_kernel = Ret (0, k1) \<and>
     manage_pool demo_platform demo_context k1 = Ret k2 \<and> ref_load 0 k2 = Some (Table h2) \<and> phase h2 0 = Free"
  using close_recycles_slot [OF demo_server, of 0 conn_kernel conn_table "[97]" 0 "[98]" demo_context]
    conn_table_simps(1) conn_settled [of 0]
  by (simp add: demo_calls conn_kernel_names conn_table_simps zero_row_def demo_hashes) blast

text \<open>
  C38: without a server at the address, \<open>client_open\<close> returns NULL and changes nothing, but
  \<open>client_close\<close> does not look at what \<open>coord_attach\<close> returned and reads through the null
  pointer.
\<close>

theorem client_without_server:
  assumes "rpc_server K P" "hash dest \<noteq> 0" "key_names K (hash dest) k = None"
  shows "client_open P fuel src dest msz ty k = Ret (None, k) \<and> client_close K src dest k = Fault NullDeref"
  using rpc_server.no_server_run [OF assms] by blast

theorem client_without_server_witness:
  "client_open demo_platform 0 [98] [97] 4 POLL ref_boot = Ret (None, ref_boot) \<and>
   client_close (sysv_of demo_platform) [98] [97] ref_boot = Fault NullDeref"
  using client_without_server [OF demo_server, of "[97]" ref_boot 0 "[98]" 4 POLL]
  by (simp add: demo_calls demo_hashes ref_names_def ref_boot_def)

text \<open>
  When \<open>pthread_create\<close> fails, \<open>register_server\<close> never returns: \<open>shutdown\<close> waits for the
  state that only the thread that was not created can set.
\<close>

theorem register_without_thread_hangs:
  assumes "coord_create (sysv_of P) addr k = Ret (ch, k1)" "err \<noteq> 0"
  shows "register_server P fuel err addr k = Hang"
  using assms by (simp add: register_server_def shutdown_def Let_def await_runner_stuck)

theorem register_without_thread_hangs_witness:
  "register_server demo_platform 1000 11 [97] ref_boot = Hang"
proof -
  have rk: "region_kernel (sysv_of demo_platform)" using demo_server by (simp add: rpc_server_def)
  have h0: "hash [97] \<noteq> 0" by (simp add: demo_hashes)
  have none: "key_names (sysv_of demo_platform) (hash [97]) ref_boot = None"
    by (simp add: demo_calls ref_names_def ref_boot_def)
  obtain i k' where "coord_create (sysv_of demo_platform) [97] ref_boot = Ret (Shm i, k')"
    by (rule region_kernel.coord_create_run [OF rk h0 none])
  then show ?thesis by (rule register_without_thread_hangs) simp
qed

text \<open>
  A client whose address hashes to 0 or -1 never gets its connection: one of its queues
  has the key 0, which \<open>_create_client_queue_pair\<close> takes for a slot that is not served yet,
  so that it polls for ever.
\<close>

theorem zero_key_hangs:
  assumes "hash_shm_allocator K msz cid k0 = Ret (shms, k1)" "cid = 0 \<or> cid = -1"
    and "load_seg K t k = Some (Table h)" "i < SLOT_NUM" "row_shms (slots h ! i) = shms" "shm_created (slots h ! i)"
    and "sleeping K 0 k = k"
  shows "create_client_queue_pair K fuel (Shm t) (int i) k = Hang"
proof -
  have keys: "info_key (request_shm shms) = 0 \<or> info_key (response_shm shms) = 0"
    using allocate_pair_keys [of K "setup_poll K msz" cid "i32 (cid + 1)" k0 shms k1] assms(1,2)
    by (auto simp: hash_shm_allocator_def i32_def)
  have t: "load_table K (Shm t) k = Ret h" using assms(3) by (simp add: load_table_def)
  have c: "check_slot h (int i) = Ret shms" using assms(4-6) by (simp add: check_slot_def)
  show ?thesis
    using await_keys_stuck [OF t c assms(7) keys] assms(4)
    by (simp add: create_client_queue_pair_def t c get_client_id_def)
qed

definition private_kernel :: "byte list list region ref_kernel" where
  "private_kernel = \<lparr>segs = [0 \<mapsto> \<lparr>seg_key = -1, seg_removed = False, seg_attached = 1, seg_data = zero_region (int QUEUE_SIZE)\<rparr>,
     1 \<mapsto> \<lparr>seg_key = 0, seg_removed = False, seg_attached = 1, seg_data = zero_region (int QUEUE_SIZE)\<rparr>],
     seg_ids = [0, 1], sems = (\<lambda>_. None), sem_ids = []\<rparr>"

lemma private_pair: "\<exists>shms k1. hash_shm_allocator (ref_sysv zero_region) 8 (-1) (ref_boot :: byte list list region ref_kernel) = Ret (shms, k1)"
proof -
  let ?K = "ref_sysv zero_region :: (byte list list region ref_kernel, byte list list) kernel"
  have msz: "(0::int) < 8" "(8::int) \<le> int (QUEUE_SIZE - 40)" by (simp_all add: QUEUE_SIZE_def)
  have l: "load_seg ?K 0 private_kernel = Some (zero_region (int QUEUE_SIZE))"
    "load_seg ?K 1 private_kernel = Some (zero_region (int QUEUE_SIZE))"
    by (simp_all add: private_kernel_def ref_load_def lookup_seg_def)
  obtain q1 where 1: "setup_poll ?K 8 (-1) (Shm 0) private_kernel = Ret (store_seg ?K 0 (PollQ q1) private_kernel)"
    using ref_region.setup_poll_run [OF l(1) usable_zero msz] by blast
  have "load_seg ?K 1 (store_seg ?K 0 (PollQ q1) private_kernel) = Some (zero_region (int QUEUE_SIZE))"
    by (simp add: private_kernel_def ref_load_def ref_store_def lookup_seg_def)
  then obtain q2 k2 where 2: "setup_poll ?K 8 0 (Shm 1) (store_seg ?K 0 (PollQ q1) private_kernel) = Ret k2"
    using ref_region.setup_poll_run [OF _ usable_zero msz] by blast
  have "ref_shmget zero_region (-1) (int QUEUE_SIZE) create_flag ref_boot = (0, (ref_boot :: byte list list region ref_kernel)\<lparr>segs := [0 \<mapsto> \<lparr>seg_key = -1,
      seg_removed = False, seg_attached = 0, seg_data = zero_region (int QUEUE_SIZE)\<rparr>], seg_ids := [0]\<rparr>)" (is "_ = (0, ?k1)")
    by (simp add: ref_shmget_def ref_names_def ref_boot_def fresh_id_def Let_def)
  moreover have "ref_shmget zero_region 0 (int QUEUE_SIZE) create_flag ?k1 = (1, ?k1\<lparr>segs := (segs ?k1)(1 \<mapsto> \<lparr>seg_key = 0,
      seg_removed = False, seg_attached = 0, seg_data = zero_region (int QUEUE_SIZE)\<rparr>), seg_ids := [0, 1]\<rparr>)" (is "_ = (1, ?k2)")
    by (simp add: ref_shmget_def ref_names_def ref_boot_def fresh_id_def Let_def)
  moreover have "\<exists>k3. ref_shmat 0 ?k2 = (Shm 0, k3) \<and> ref_shmat 1 k3 = (Shm 1, private_kernel)"
    by (simp add: ref_shmat_def lookup_seg_def private_kernel_def ref_boot_def fun_upd_twist)
  ultimately show ?thesis
    using 1 2 by (auto simp: hash_shm_allocator_def allocate_pair_def i32_def case_prod_unfold Let_def)
qed

theorem zero_key_hangs_witness:
  "\<exists>t k i. create_client_queue_pair (ref_sysv zero_region) 1000 (Shm t) (int i) (k :: byte list list region ref_kernel) = Hang"
proof -
  let ?K = "ref_sysv zero_region :: (byte list list region ref_kernel, byte list list) kernel"
  obtain shms k1 where a: "hash_shm_allocator ?K 8 (-1) ref_boot = Ret (shms, k1)" using private_pair by blast
  define h where "h = set_row 0 (\<lambda>r. r\<lparr>row_shms := shms, shm_created := True\<rparr>) conn_table"
  have wf: "coord_wf conn_table" using conn_table_simps(1) by (simp add: coord_inv_def)
  have "ref_load 0 (ref_store 0 (Table h) conn_kernel) = Some (Table h)"
    by (simp add: ref_load_def ref_store_def lookup_seg_def conn_kernel_def ref_boot_def)
  moreover have "row_shms (slots h ! 0) = shms" "shm_created (slots h ! 0)" by (simp_all add: h_def wf)
  ultimately have "create_client_queue_pair ?K 1000 (Shm 0) (int 0) (ref_store 0 (Table h) conn_kernel) = Hang"
    using zero_key_hangs [OF a, of 0 "ref_store 0 (Table h) conn_kernel" h 0 1000] by simp
  then show ?thesis by blast
qed

text \<open>
  \<open>accept\<close> does not skip a connection that is already attached: it returns a context
  whose addresses are null, and the first message received over it is a fault.
\<close>

theorem second_accept_null:
  assumes "load_seg (sysv_of P) t k = Some (Table h)" "coord_inv h" "coord_shmaddr sc = Shm t"
    and "i < SLOT_NUM" "ready h i" "\<forall>j < SLOT_NUM. j \<noteq> i \<longrightarrow> \<not> ready h j" "server_attached (slots h ! i)"
    and "info_key (request_shm (row_shms (slots h ! i))) \<noteq> 0" "info_key (response_shm (row_shms (slots h ! i))) \<noteq> 0"
    and "rpc_server (sysv_of P) P"
  shows "\<exists>ctx k'. accept P fuel sc k = Ret (Some ctx, k') \<and> qp_client_id (queues ctx) = row_client_id (slots h ! i) \<and>
    (\<forall>n k. server_receive_buf ctx n k = Fault NullDeref)"
proof -
  let ?h = "h\<lparr>accept_slot := int (Suc i mod SLOT_NUM)\<rparr>" and ?K = "sysv_of P"
  let ?k = "store_seg ?K t (Table ?h) k"
  have free: "\<not> mutex h" using assms(2) by (simp add: coord_inv_def)
  have h2: "mutex_unlock (h\<lparr>mutex := True, accept_slot := int (Suc i mod SLOT_NUM)\<rparr>) = ?h"
    using free by (cases h) (simp add: mutex_unlock_def)
  have tab: "load_table ?K (Shm t) k = Ret h" "store_table ?K (Shm t) ?h k = Ret ?k"
    using assms(1) by (simp_all add: load_table_def store_table_def)
  have "load_seg ?K t ?k = Some (Table ?h)"
    by (rule rpc_server.load_stored [OF assms(10,1)])
  then have tab': "load_table ?K (Shm t) ?k = Ret ?h" by (simp add: load_table_def)
  let ?qp = "\<lparr>qp_client_id = row_client_id (slots h ! i), request_shmaddr = Null, response_shmaddr = Null,
    qp_offset = shm_offset (row_shms (slots h ! i))\<rparr>"
  have "create_server_queue_pair ?K fuel (Shm t) (int i) ?k = Ret (?qp, ?k)"
    using assms(4,5,7-9)
    by (simp add: create_server_queue_pair_def tab' check_slot_def get_client_id_def await_keys.simps
        get_server_attach_state_def attach_pair_def ready_def)
  then have "accept P fuel sc k = Ret (Some (select_queue_ctx P (row_type (slots h ! i)) ?qp), ?k)"
    using accept_loop_only [OF assms(2,4-6)] free
    by (simp add: accept_def assms(3) tab mutex_lock_def h2 Let_def)
  moreover have "server_receive_buf (select_queue_ctx P ty ?qp) n k' = Fault NullDeref" for ty n k'
    by (cases ty) (simp_all add: server_receive_buf_def select_queue_ctx_def server_receive_poll_def server_receive_sem_def
        server_receive_boost_def pop_at_def sem_pop_at_def boost_pop_at_def)
  moreover have "queues (select_queue_ctx P ty ?qp) = ?qp" for ty by (cases ty) (simp_all add: select_queue_ctx_def)
  ultimately show ?thesis by auto
qed

text \<open>The same table once the server has attached.\<close>

definition attached_kernel :: "byte list list region ref_kernel" where
  "attached_kernel = ref_store 0 (Table (set_row 0 (\<lambda>r. r\<lparr>server_attached := True\<rparr>) conn_table)) conn_kernel"

theorem second_accept_null_witness:
  "\<exists>ctx k'. accept demo_platform 0 demo_context attached_kernel = Ret (Some ctx, k') \<and>
     server_receive_buf ctx 4 k' = Fault NullDeref"
proof -
  let ?h = "set_row 0 (\<lambda>r. r\<lparr>server_attached := True\<rparr>) conn_table"
  have wf: "coord_wf conn_table" using conn_table_simps(1) by (simp add: coord_inv_def)
  have "coord_inv ?h" by (rule inv_set_row [OF conn_table_simps(1)]) (simp_all add: row_ok_def conn_table_simps)
  moreover have "ref_load 0 attached_kernel = Some (Table ?h)"
    by (simp add: attached_kernel_def ref_load_def ref_store_def lookup_seg_def conn_kernel_def ref_boot_def)
  moreover have "ready ?h 0" "\<forall>j < SLOT_NUM. j \<noteq> 0 \<longrightarrow> \<not> ready ?h j"
    by (simp_all add: ready_def wf conn_table_simps zero_row_def)
  ultimately show ?thesis
    using second_accept_null [of demo_platform 0 attached_kernel ?h demo_context 0 0] demo_server
    by (auto simp: demo_calls wf conn_table_simps)
qed

end
