(* ===== verification/Doubles.thy ===== *)
theory Doubles
  imports Complex_Main Prelude
begin

text \<open>
  What the experiments and the benchmarks use of \<open>double\<close>: a finite \<open>double\<close> is a real
  number (rounding is not modelled), a division by zero yields an infinity or not a number,
  and the conversion to \<open>long\<close> drops the fraction. Nothing here models a file of the
  repository.
\<close>

datatype ieee = Num real | PosInf | NegInf | NaN

definition fdiv :: "real \<Rightarrow> real \<Rightarrow> ieee" where
  "fdiv x y = (if y \<noteq> 0 then Num (x / y) else if x > 0 then PosInf else if x < 0 then NegInf else NaN)"

definition trunc :: "real \<Rightarrow> int" where
  "trunc x = (if 0 \<le> x then \<lfloor>x\<rfloor> else \<lceil>x\<rceil>)"

lemma trunc_of_int [simp]: "trunc (of_int n) = n"
  by (simp add: trunc_def)

lemma trunc_div: "0 < b \<Longrightarrow> trunc (of_int a / of_int b) = cdiv a b"
proof -
  assume b: "0 < b"
  show ?thesis
  proof (cases "0 \<le> a")
    case True
    with b show ?thesis by (simp add: trunc_def cdiv_nonneg floor_divide_of_int_eq)
  next
    case False
    then have "(of_int a / of_int b :: real) < 0" using b by (simp add: divide_neg_pos)
    moreover have "\<lceil>of_int a / of_int b :: real\<rceil> = - ((- a) div b)"
      using floor_divide_of_int_eq [of "- a" b, where ?'a = real] by (simp add: ceiling_def)
    ultimately show ?thesis using False b by (simp add: trunc_def cdiv_def)
  qed
qed

end
