(* ===== verification/Running_Stat.thy ===== *)
theory Running_Stat
  imports Doubles
begin

text \<open>
  Running mean and variance, \<open>src/experiments/include/notnets/util/RunningStat.h\<close>. A
  \<open>double\<close> is a real number: rounding is not modelled. The constructor sets only \<open>m_n\<close>, so
  the other members start with any value.
\<close>

record RunningStat =
  m_n :: int
  m_oldM :: real
  m_newM :: real
  m_oldS :: real
  m_newS :: real

text \<open>\<open>junk\<close> is what the memory of the new object held.\<close>

definition RunningStat_new :: "RunningStat \<Rightarrow> RunningStat" where
  "RunningStat_new junk = junk\<lparr>m_n := 0\<rparr>"

definition clear :: "RunningStat \<Rightarrow> RunningStat" where
  "clear s = s\<lparr>m_n := 0\<rparr>"

definition push_value :: "real \<Rightarrow> RunningStat \<Rightarrow> RunningStat" where
  "push_value x s =
     (let s = s\<lparr>m_n := i32 (m_n s + 1)\<rparr> in
      if m_n s = 1 then s\<lparr>m_oldM := x, m_newM := x, m_oldS := 0\<rparr>
      else
        let s = s\<lparr>m_newM := m_oldM s + (x - m_oldM s) / of_int (m_n s)\<rparr>;
            s = s\<lparr>m_newS := m_oldS s + (x - m_oldM s) * (x - m_newM s)\<rparr>
        in s\<lparr>m_oldM := m_newM s, m_oldS := m_newS s\<rparr>)"

definition getNumDataValues :: "RunningStat \<Rightarrow> int" where
  "getNumDataValues s = m_n s"

definition getMean :: "RunningStat \<Rightarrow> real" where
  "getMean s = (if m_n s > 0 then m_newM s else 0)"

definition getVariance :: "RunningStat \<Rightarrow> real" where
  "getVariance s = (if m_n s > 1 then m_newS s / of_int (m_n s - 1) else 0)"

definition getStandardDeviation :: "RunningStat \<Rightarrow> real" where
  "getStandardDeviation s = sqrt (getVariance s)"

section \<open>The textbook definitions\<close>

definition mean :: "real list \<Rightarrow> real" where
  "mean xs = sum_list xs / of_nat (length xs)"

definition sum_sq_dev :: "real list \<Rightarrow> real" where
  "sum_sq_dev xs = (\<Sum>x \<leftarrow> xs. (x - mean xs)\<^sup>2)"

definition variance :: "real list \<Rightarrow> real" where
  "variance xs = sum_sq_dev xs / of_nat (length xs - 1)"

lemma dev_expand: "(\<Sum>x \<leftarrow> xs. (x - m)\<^sup>2) = (\<Sum>x \<leftarrow> xs. x\<^sup>2) - 2 * m * sum_list xs + of_nat (length xs) * m\<^sup>2"
  for m :: real
  by (induction xs) (simp_all add: algebra_simps power2_eq_square)

lemma sum_is_mean: "xs \<noteq> [] \<Longrightarrow> sum_list xs = of_nat (length xs) * mean xs"
  by (simp add: mean_def)

lemma sum_sq_dev_alt: "xs \<noteq> [] \<Longrightarrow> sum_sq_dev xs = (\<Sum>x \<leftarrow> xs. x\<^sup>2) - of_nat (length xs) * (mean xs)\<^sup>2"
  unfolding sum_sq_dev_def dev_expand sum_is_mean [of xs] by (simp add: power2_eq_square)

lemma mean_snoc:
  assumes "xs \<noteq> []"
  shows "mean (xs @ [x]) = mean xs + (x - mean xs) / of_nat (length xs + 1)"
proof -
  let ?n = "of_nat (length xs) :: real"
  have "mean (xs @ [x]) = (?n * mean xs + x) / (?n + 1)"
    unfolding mean_def [of "xs @ [x]"] using sum_is_mean [OF assms] by (simp add: add.commute)
  also have "\<dots> = mean xs + (x - mean xs) / (?n + 1)"
    by (simp add: field_simps)
  finally show ?thesis by (simp add: add.commute)
qed

lemma sum_sq_dev_snoc:
  assumes "xs \<noteq> []"
  shows "sum_sq_dev (xs @ [x]) = sum_sq_dev xs + (x - mean xs) * (x - mean (xs @ [x]))"
proof -
  define n where "n = (of_nat (length xs) :: real)"
  define m where "m = mean xs"
  define m' where "m' = mean (xs @ [x])"
  have n: "n + 1 \<noteq> 0" by (simp add: n_def add_eq_0_iff)
  have m': "m' = m + (x - m) / (n + 1)"
    unfolding m'_def m_def n_def using mean_snoc [OF assms] by (simp add: add.commute)
  have "(n + 1) * m' = n * m + x" using n by (simp add: m' field_simps)
  then have step: "x\<^sup>2 - (n + 1) * m'\<^sup>2 = - n * m\<^sup>2 + (x - m) * (x - m')"
    by algebra
  have "sum_sq_dev (xs @ [x]) = (\<Sum>y \<leftarrow> xs. y\<^sup>2) + x\<^sup>2 - (n + 1) * m'\<^sup>2"
    unfolding m'_def n_def by (simp add: sum_sq_dev_alt add.commute)
  also have "\<dots> = sum_sq_dev xs + (x - m) * (x - m')"
    using step unfolding sum_sq_dev_alt [OF assms] m_def [symmetric] n_def [symmetric] by algebra
  finally show ?thesis by (simp add: m_def m'_def)
qed

lemma sum_sq_dev_nonneg: "0 \<le> sum_sq_dev xs"
  unfolding sum_sq_dev_def by (rule sum_list_nonneg) auto

section \<open>What the object holds\<close>

definition holds :: "real list \<Rightarrow> RunningStat \<Rightarrow> bool" where
  "holds xs s \<longleftrightarrow> m_n s = int (length xs) \<and>
     (xs \<noteq> [] \<longrightarrow> m_oldM s = mean xs \<and> m_newM s = mean xs \<and> m_oldS s = sum_sq_dev xs) \<and>
     (1 < length xs \<longrightarrow> m_newS s = sum_sq_dev xs)"

lemma holds_nil [simp]: "holds [] s \<longleftrightarrow> m_n s = 0"
  by (simp add: holds_def)

lemma push_holds:
  assumes "holds xs s" "length xs + 1 < 2147483648"
  shows "holds (xs @ [x]) (push_value x s)"
proof (cases "xs = []")
  case True
  with assms show ?thesis by (simp add: holds_def push_value_def i32_def mean_def sum_sq_dev_def)
next
  case False
  have i: "i32 (1 + int (length xs)) = 1 + int (length xs)" using assms(2) by (simp add: i32_def)
  show ?thesis
    using False assms(1) mean_snoc [OF False, of x] sum_sq_dev_snoc [OF False, of x]
    by (simp add: holds_def push_value_def Let_def i add.commute)
qed

lemma fold_push_holds:
  "holds xs s \<Longrightarrow> length xs + length ys < 2147483648 \<Longrightarrow> holds (xs @ ys) (fold push_value ys s)"
proof (induction ys arbitrary: xs s)
  case (Cons y ys)
  then have "holds (xs @ [y]) (push_value y s)" by (intro push_holds) simp_all
  with Cons.IH [of "xs @ [y]"] Cons.prems(2) show ?case by simp
qed simp

section \<open>Properties\<close>

text \<open>
  C19: the one-pass update computes the textbook statistics: after any sequence of values, on
  an object that was new or has been cleared, whatever it held before, \<open>getMean\<close> is the
  arithmetic mean and \<open>getVariance\<close> the sample variance, and it is not negative, so that
  \<open>getStandardDeviation\<close> is its root.
\<close>

theorem running_stat_equivalent:
  assumes "m_n s = 0" "length xs < 2147483648"
  shows "getNumDataValues (fold push_value xs s) = int (length xs) \<and>
    getMean (fold push_value xs s) = (if xs = [] then 0 else mean xs) \<and>
    getVariance (fold push_value xs s) = (if length xs < 2 then 0 else variance xs) \<and>
    (getStandardDeviation (fold push_value xs s))\<^sup>2 = getVariance (fold push_value xs s)"
proof -
  have h: "holds xs (fold push_value xs s)"
    using fold_push_holds [of "[]" s xs] assms by simp
  have "getVariance (fold push_value xs s) = (if length xs < 2 then 0 else variance xs)"
    using h by (auto simp: holds_def getVariance_def variance_def of_nat_diff)
  moreover have "0 \<le> variance xs" by (simp add: variance_def sum_sq_dev_nonneg)
  ultimately show ?thesis
    using h by (auto simp: holds_def getNumDataValues_def getMean_def getStandardDeviation_def)
qed

theorem running_stat_equivalent_witness:
  "getMean (fold push_value [0, 1, 2] (clear \<lparr>m_n = 7, m_oldM = 5, m_newM = 5, m_oldS = 9, m_newS = 9\<rparr>)) = mean [0, 1, 2] \<and>
   getVariance (fold push_value [0, 1, 2] (clear \<lparr>m_n = 7, m_oldM = 5, m_newM = 5, m_oldS = 9, m_newS = 9\<rparr>)) = variance [0, 1, 2]"
  using running_stat_equivalent [of "clear \<lparr>m_n = 7, m_oldM = 5, m_newM = 5, m_oldS = 9, m_newS = 9\<rparr>" "[0, 1, 2]"]
  by (simp add: clear_def)

end
