(* ===== verification/Experiments.thy ===== *)
theory Experiments
  imports Running_Stat
begin

text \<open>
  The experiments library, \<open>src/experiments/\<close>: the table of results (\<open>ExperimentalData\<close>), the
  timer (\<open>AutoTimer\<close>), the frame of a run (\<open>ExperimentalRun\<close>) and \<open>ExampleExperiment\<close>. What
  the file system allows and how a \<open>double\<close> is printed are parameters (\<open>env\<close>), the clock
  is an argument, and messages on the console are left out except in \<open>run\<close>.
\<close>

section \<open>ExperimentalData\<close>

record env =
  can_create :: "string \<Rightarrow> bool"
  can_open :: "string \<Rightarrow> bool"
  show_double :: "real \<Rightarrow> string"

datatype any_value = Size nat | Double real | Str string

record fstream =
  is_open :: bool
  good :: bool
  written :: string

definition put :: "string \<Rightarrow> fstream \<Rightarrow> fstream" where
  "put t f = (if is_open f \<and> good f then f\<lparr>written := written f @ t\<rparr> else f\<lparr>good := False\<rparr>)"

definition fstream_open :: "bool \<Rightarrow> fstream \<Rightarrow> fstream" where
  "fstream_open ok f = (if is_open f \<or> \<not> ok then f\<lparr>good := False\<rparr> else \<lparr>is_open = True, good = True, written = []\<rparr>)"

definition fstream_close :: "fstream \<Rightarrow> fstream" where
  "fstream_close f = (if is_open f then f\<lparr>is_open := False\<rparr> else f\<lparr>good := False\<rparr>)"

record ExperimentalData =
  keepValues :: bool
  currentFieldIndex :: nat
  description :: string
  expName :: string
  dirName :: string
  ext :: string
  fileName :: string
  out_file :: fstream
  fieldNames :: "string list"
  fieldNameIndices :: "string \<rightharpoonup> nat"
  recorded :: "any_value list list"

definition ExperimentalData_new :: "string \<Rightarrow> string \<Rightarrow> ExperimentalData" where
  "ExperimentalData_new name dir =
     \<lparr>keepValues = False, currentFieldIndex = 0, description = [], expName = name, dirName = dir, ext = ''.dat'',
      fileName = name @ ''.dat'', out_file = \<lparr>is_open = False, good = True, written = []\<rparr>,
      fieldNames = [], fieldNameIndices = Map.empty, recorded = []\<rparr>"

definition setDescription :: "string \<Rightarrow> ExperimentalData \<Rightarrow> ExperimentalData" where
  "setDescription desc d = d\<lparr>description := desc\<rparr>"

definition setKeepValues :: "bool \<Rightarrow> ExperimentalData \<Rightarrow> ExperimentalData" where
  "setKeepValues keep d = d\<lparr>keepValues := keep\<rparr>"

text \<open>\<open>unordered_map::insert\<close> does not overwrite.\<close>

definition addField :: "string \<Rightarrow> ExperimentalData \<Rightarrow> ExperimentalData" where
  "addField field d =
     d\<lparr>fieldNameIndices := (case fieldNameIndices d field of
         None \<Rightarrow> (fieldNameIndices d)(field \<mapsto> length (fieldNames d)) | Some _ \<Rightarrow> fieldNameIndices d),
       fieldNames := fieldNames d @ [field]\<rparr>"

abbreviation newline :: string where "newline \<equiv> [CHR 0x0A]"

abbreviation tab :: string where "tab \<equiv> [CHR 0x09]"

definition open_data :: "env \<Rightarrow> ExperimentalData \<Rightarrow> ExperimentalData outcome" where
  "open_data e d =
     (if \<not> can_create e (dirName d) then Abort ''filesystem_error''
      else
        let f = fstream_open (can_open e (dirName d @ ''/'' @ fileName d)) (out_file d);
            f = (if description d \<noteq> [] then put (''# '' @ description d @ newline) f else f);
            f = put ''# '' f;
            f = fold (\<lambda>n. put (n @ tab)) (fieldNames d) f
        in Ret (d\<lparr>out_file := f\<rparr>))"

definition addRecord :: "ExperimentalData \<Rightarrow> ExperimentalData" where
  "addRecord d =
     (let d = d\<lparr>out_file := put newline (out_file d)\<rparr> in
      if keepValues d then
        d\<lparr>currentFieldIndex := 0, recorded := recorded d @ [replicate (length (fieldNames d)) (Size 0)]\<rparr>
      else d)"

fun digits :: "nat \<Rightarrow> string" where
  "digits n = (if n < 10 then [char_of (48 + n)] else digits (n div 10) @ [char_of (48 + n mod 10)])"

declare digits.simps [simp del]

fun show_value :: "env \<Rightarrow> any_value \<Rightarrow> string" where
  "show_value e (Size n) = digits n"
| "show_value e (Double x) = show_double e x"
| "show_value e (Str s) = s"

text \<open>Both overloads of \<open>setFieldValue\<close>.\<close>

definition setFieldValue :: "env \<Rightarrow> int \<Rightarrow> any_value \<Rightarrow> ExperimentalData \<Rightarrow> ExperimentalData outcome" where
  "setFieldValue e fieldIndex v d =
     (let d = d\<lparr>out_file := put (show_value e v @ tab) (out_file d)\<rparr> in
      if keepValues d then
        if recorded d = [] \<or> length (last (recorded d)) \<le> u64 fieldIndex then Fault OutOfBounds
        else Ret (d\<lparr>recorded := butlast (recorded d) @ [(last (recorded d))[u64 fieldIndex := v]]\<rparr>)
      else Ret d)"

definition setFieldValue_name :: "env \<Rightarrow> string \<Rightarrow> any_value \<Rightarrow> ExperimentalData \<Rightarrow> ExperimentalData outcome" where
  "setFieldValue_name e name v d =
     (case fieldNameIndices d name of
        None \<Rightarrow> Abort (''field '' @ [CHR 0x27] @ name @ [CHR 0x27] @ '' not found!'')
      | Some index \<Rightarrow> setFieldValue e (i32 (int index)) v d)"

definition appendFieldValue :: "env \<Rightarrow> any_value \<Rightarrow> ExperimentalData \<Rightarrow> ExperimentalData outcome" where
  "appendFieldValue e v d =
     setFieldValue e (i32 (int (currentFieldIndex d))) v (d\<lparr>currentFieldIndex := sz_add (currentFieldIndex d) 1\<rparr>)"

definition close_data :: "ExperimentalData \<Rightarrow> ExperimentalData" where
  "close_data d = d\<lparr>out_file := fstream_close (out_file d)\<rparr>"

definition getValues :: "ExperimentalData \<Rightarrow> any_value list list" where
  "getValues d = recorded d"

section \<open>AutoTimer\<close>

text \<open>A reading of \<open>process_cpu_clock\<close>: real, user and system time in nanoseconds.\<close>

record cpu_times =
  real_ns :: int
  user_ns :: int
  system_ns :: int

record AutoTimer =
  time_start :: cpu_times
  time_end :: cpu_times

definition timer_start :: "cpu_times \<Rightarrow> AutoTimer \<Rightarrow> AutoTimer" where
  "timer_start now t = t\<lparr>time_start := now\<rparr>"

definition timer_stop :: "cpu_times \<Rightarrow> AutoTimer \<Rightarrow> AutoTimer" where
  "timer_stop now t = t\<lparr>time_end := now\<rparr>"

definition seconds :: "int \<Rightarrow> real" where
  "seconds ns = of_int ns / 10 ^ 9"

definition getCPUTimeInSeconds :: "AutoTimer \<Rightarrow> real" where
  "getCPUTimeInSeconds t =
     seconds (user_ns (time_end t) - user_ns (time_start t)) + seconds (system_ns (time_end t) - system_ns (time_start t))"

definition getRealTimeInSeconds :: "AutoTimer \<Rightarrow> real" where
  "getRealTimeInSeconds t = seconds (real_ns (time_end t) - real_ns (time_start t))"

definition getCPUUtilization :: "AutoTimer \<Rightarrow> ieee" where
  "getCPUUtilization t =
     fdiv (seconds (user_ns (time_end t) - user_ns (time_start t)) + seconds (system_ns (time_end t) - system_ns (time_start t)))
       (seconds (real_ns (time_end t) - real_ns (time_start t)))"

section \<open>ExperimentalRun\<close>

text \<open>\<open>find_last_of("::")\<close> looks for the last character that is a colon.\<close>

fun find_last :: "char \<Rightarrow> string \<Rightarrow> nat option" where
  "find_last c [] = None"
| "find_last c (x # xs) =
     (case find_last c xs of Some i \<Rightarrow> Some (Suc i) | None \<Rightarrow> if x = c then Some 0 else None)"

definition getClassName :: "string \<Rightarrow> string" where
  "getClassName fqname = (case find_last (CHR '':'') fqname of None \<Rightarrow> fqname | Some loc \<Rightarrow> drop (loc + 1) fqname)"

text \<open>
  \<open>run\<close> over the virtual methods of the experiment, which work on a state of their own; the
  clock is read twice and the messages are collected.
\<close>

definition run ::
  "env \<Rightarrow> string \<Rightarrow> ('s \<Rightarrow> 's outcome) \<Rightarrow> ('s \<Rightarrow> 's outcome) \<Rightarrow> ('s \<Rightarrow> 's outcome) \<Rightarrow>
   cpu_times \<Rightarrow> cpu_times \<Rightarrow> AutoTimer \<Rightarrow> 's \<Rightarrow> (string list \<times> 's) outcome"
where
  "run e fqname setUp process tearDown t0 t1 timer s =
     (let title = ''Experiment '' @ [CHR 0x27] @ getClassName fqname @ [CHR 0x27] in
      bind_out (setUp s) (\<lambda>s1.
      bind_out (process s1) (\<lambda>s2.
        let timer = timer_stop t1 (timer_start t0 timer) in
        bind_out (tearDown s2) (\<lambda>s3.
        Ret ([title @ '' set up...'', title @ '' started...'',
              title @ '' ended (took '' @ show_double e (getRealTimeInSeconds timer) @ '' seconds).'',
              title @ '' tear down...''], s3)))))"

section \<open>ExampleExperiment\<close>

definition numRuns :: nat where "numRuns = 3"

definition parameters :: "nat list" where "parameters = [1024, 2048, 4096]"

definition makeExampleExperiment :: "ExperimentalData \<Rightarrow> ExperimentalData" where
  "makeExampleExperiment d =
     setKeepValues False (addField ''deviation'' (addField ''metric'' (addField ''parameter''
       (addField ''configuration'' (setDescription ''SomeDescription'' d)))))"

text \<open>\<open>operator[]\<close> on a \<open>vector\<close> does not check the index.\<close>

definition metric_at :: "RunningStat list \<Rightarrow> nat \<Rightarrow> RunningStat outcome" where
  "metric_at ms i = (if i < length ms then Ret (ms ! i) else Fault OutOfBounds)"

fun run_configurations :: "nat \<Rightarrow> nat list \<Rightarrow> RunningStat list \<Rightarrow> RunningStat list outcome" where
  "run_configurations i [] ms = Ret ms"
| "run_configurations i (c # cs) ms =
     bind_out (metric_at ms c) (\<lambda>s. run_configurations i cs (ms[c := push_value (of_nat i) s]))"

fun run_loop :: "nat list \<Rightarrow> nat list \<Rightarrow> RunningStat list \<Rightarrow> RunningStat list outcome" where
  "run_loop [] cs ms = Ret ms"
| "run_loop (i # is) cs ms = bind_out (run_configurations i cs ms) (run_loop is cs)"

definition configuration_name :: "nat \<Rightarrow> string" where
  "configuration_name configuration = ''configuration_'' @ digits configuration"

fun record_configurations ::
  "env \<Rightarrow> nat \<Rightarrow> nat list \<Rightarrow> ExperimentalData \<times> RunningStat list \<Rightarrow> (ExperimentalData \<times> RunningStat list) outcome"
where
  "record_configurations e p [] st = Ret st"
| "record_configurations e p (c # cs) (d, ms) =
     bind_out (setFieldValue_name e ''configuration'' (Str (configuration_name c)) (addRecord d)) (\<lambda>d1.
     bind_out (setFieldValue_name e ''parameter'' (Str (digits p)) d1) (\<lambda>d2.
     bind_out (metric_at ms c) (\<lambda>s.
     bind_out (setFieldValue_name e ''metric'' (Double (getMean s)) d2) (\<lambda>d3.
     bind_out (setFieldValue_name e ''deviation'' (Double (getStandardDeviation s)) d3) (\<lambda>d4.
     record_configurations e p cs (d4, ms[c := clear s]))))))"

fun parameter_loop ::
  "env \<Rightarrow> nat list \<Rightarrow> nat list \<Rightarrow> ExperimentalData \<times> RunningStat list \<Rightarrow> (ExperimentalData \<times> RunningStat list) outcome"
where
  "parameter_loop e [] cs st = Ret st"
| "parameter_loop e (p # ps) cs (d, ms) =
     bind_out (run_loop [0..<numRuns] cs ms) (\<lambda>ms1.
     bind_out (record_configurations e p cs (d, ms1)) (parameter_loop e ps cs))"

text \<open>
  The sizes are those of \<open>process\<close>: the metrics have one entry per configuration and are
  indexed with the configurations themselves.
\<close>

definition process_configurations :: "env \<Rightarrow> RunningStat \<Rightarrow> nat list \<Rightarrow> ExperimentalData outcome" where
  "process_configurations e junk configurations =
     bind_out (open_data e (makeExampleExperiment (ExperimentalData_new ''exampleExp'' ''expData''))) (\<lambda>d.
     bind_out (parameter_loop e parameters configurations (d, map (\<lambda>_. RunningStat_new junk) configurations)) (\<lambda>(d1, ms).
     Ret (close_data d1)))"

definition ExampleExperiment_process :: "env \<Rightarrow> RunningStat \<Rightarrow> ExperimentalData outcome" where
  "ExampleExperiment_process e junk = process_configurations e junk [1, 2, 3]"

text \<open>\<open>setUp\<close> and \<open>tearDown\<close> of the experiment print a line each and do nothing else.\<close>

definition ExampleExperiment_setUp :: "'s \<Rightarrow> 's outcome" where
  "ExampleExperiment_setUp s = Ret s"

definition ExampleExperiment_tearDown :: "'s \<Rightarrow> 's outcome" where
  "ExampleExperiment_tearDown s = Ret s"

text \<open>\<open>Main.cpp\<close> runs the experiment, whose state is the table of results, once there is one.\<close>

definition run_experiment ::
  "env \<Rightarrow> RunningStat \<Rightarrow> cpu_times \<Rightarrow> cpu_times \<Rightarrow> AutoTimer \<Rightarrow> (string list \<times> ExperimentalData option) outcome"
where
  "run_experiment e junk t0 t1 timer =
     run e ''notnets::experiments::ExampleExperiment'' ExampleExperiment_setUp
       (\<lambda>_. bind_out (ExampleExperiment_process e junk) (\<lambda>d. Ret (Some d))) ExampleExperiment_tearDown t0 t1 timer None"

section \<open>The table of results\<close>

text \<open>Every field name has the column of its first occurrence, and every column is named.\<close>

definition data_inv :: "ExperimentalData \<Rightarrow> bool" where
  "data_inv d \<longleftrightarrow> length (fieldNames d) < 2147483648 \<and>
     dom (fieldNameIndices d) = set (fieldNames d) \<and>
     (\<forall>f i. fieldNameIndices d f = Some i \<longrightarrow> i < length (fieldNames d) \<and> fieldNames d ! i = f)"

lemma new_inv: "data_inv (ExperimentalData_new name dir)"
  by (simp add: data_inv_def ExperimentalData_new_def)

lemma addField_inv:
  assumes "data_inv d" "length (fieldNames d) + 1 < 2147483648"
  shows "data_inv (addField f d)"
proof (cases "fieldNameIndices d f")
  case None
  with assms show ?thesis by (auto simp: data_inv_def addField_def nth_append less_Suc_eq)
next
  case (Some i)
  then have "f \<in> set (fieldNames d)" using assms(1) by (auto simp: data_inv_def)
  with Some assms show ?thesis by (auto simp: data_inv_def addField_def nth_append less_Suc_eq)
qed

lemma column_inj:
  "data_inv d \<Longrightarrow> fieldNameIndices d f = Some i \<Longrightarrow> fieldNameIndices d g = Some i \<Longrightarrow> f = g"
  by (metis data_inv_def)

text \<open>The last row, while values are kept.\<close>

definition current :: "ExperimentalData \<Rightarrow> any_value list" where
  "current d = last (recorded d)"

definition row_open :: "ExperimentalData \<Rightarrow> bool" where
  "row_open d \<longleftrightarrow> data_inv d \<and> keepValues d \<and> recorded d \<noteq> [] \<and> length (current d) = length (fieldNames d)"

lemma addRecord_open:
  assumes "data_inv d" "keepValues d"
  shows "row_open (addRecord d)" "current (addRecord d) = replicate (length (fieldNames d)) (Size 0)"
    "fieldNameIndices (addRecord d) = fieldNameIndices d" "butlast (recorded (addRecord d)) = recorded d"
  using assms by (simp_all add: row_open_def addRecord_def current_def data_inv_def)

lemma set_known:
  assumes "row_open d" "fieldNameIndices d f = Some i"
  obtains d' where "setFieldValue_name e f v d = Ret d'" "row_open d'" "current d' = (current d)[i := v]"
    "fieldNameIndices d' = fieldNameIndices d" "butlast (recorded d') = butlast (recorded d)"
proof -
  have i: "i < length (fieldNames d)" "length (fieldNames d) < 2147483648" "\<not> length (fieldNames d) \<le> i"
    using assms by (auto simp: row_open_def data_inv_def not_le)
  then have "u64 (i32 (int i)) = i" by (simp add: i32_def)
  then show thesis
    using assms i
    by (intro that [of "d\<lparr>out_file := put (show_value e v @ tab) (out_file d),
        recorded := butlast (recorded d) @ [(current d)[i := v]]\<rparr>"])
      (simp_all add: setFieldValue_name_def setFieldValue_def Let_def row_open_def current_def data_inv_def)
qed

fun set_fields :: "env \<Rightarrow> (string \<times> any_value) list \<Rightarrow> ExperimentalData \<Rightarrow> ExperimentalData outcome" where
  "set_fields e [] d = Ret d"
| "set_fields e ((f, v) # fvs) d = bind_out (setFieldValue_name e f v d) (set_fields e fvs)"

lemma set_fields_run:
  assumes "row_open d" "fst ` set fvs \<subseteq> dom (fieldNameIndices d)" "distinct (map fst fvs)"
  shows "\<exists>d'. set_fields e fvs d = Ret d' \<and> row_open d' \<and> fieldNameIndices d' = fieldNameIndices d \<and>
    butlast (recorded d') = butlast (recorded d) \<and>
    (\<forall>f i. fieldNameIndices d f = Some i \<longrightarrow>
      current d' ! i = (case map_of fvs f of Some v \<Rightarrow> v | None \<Rightarrow> current d ! i))"
  using assms
proof (induction fvs arbitrary: d)
  case Nil
  then show ?case by simp
next
  case (Cons fv fvs)
  obtain f v where fv: "fv = (f, v)" by (cases fv)
  with Cons.prems obtain i where i: "fieldNameIndices d f = Some i" by auto
  obtain d1 where d1: "setFieldValue_name e f v d = Ret d1" "row_open d1" "current d1 = (current d)[i := v]"
    "fieldNameIndices d1 = fieldNameIndices d" "butlast (recorded d1) = butlast (recorded d)"
    by (rule set_known [OF Cons.prems(1) i, of e v])
  from Cons.IH [OF d1(2)] Cons.prems(2,3) d1(4) fv obtain d2 where d2: "set_fields e fvs d1 = Ret d2" "row_open d2"
    "fieldNameIndices d2 = fieldNameIndices d" "butlast (recorded d2) = butlast (recorded d)"
    "\<forall>g j. fieldNameIndices d g = Some j \<longrightarrow> current d2 ! j = (case map_of fvs g of Some w \<Rightarrow> w | None \<Rightarrow> current d1 ! j)"
    using d1(5) by auto
  have len: "i < length (current d)" using Cons.prems(1) i by (auto simp: row_open_def data_inv_def)
  have "current d2 ! j = (case map_of (fv # fvs) g of Some w \<Rightarrow> w | None \<Rightarrow> current d ! j)"
    if g: "fieldNameIndices d g = Some j" for g j
  proof (cases "g = f")
    case True
    then have "map_of fvs g = None" using Cons.prems(3) fv by (auto simp: map_of_eq_None_iff)
    with True g i len d1(3) d2(5) fv show ?thesis by auto
  next
    case False
    then have "j \<noteq> i" using column_inj [of d g i f] Cons.prems(1) g i by (auto simp: row_open_def)
    with False g d1(3) d2(5) fv show ?thesis by (auto split: option.splits)
  qed
  with d1(1) d2 fv show ?case by auto
qed

section \<open>Filling the table of the example\<close>

definition recordable :: "ExperimentalData \<Rightarrow> bool" where
  "recordable d \<longleftrightarrow> \<not> keepValues d \<and>
     {''configuration'', ''parameter'', ''metric'', ''deviation''} \<subseteq> dom (fieldNameIndices d)"

lemma recordable_set:
  assumes "recordable d" "f \<in> {''configuration'', ''parameter'', ''metric'', ''deviation''}"
  obtains d' where "setFieldValue_name e f v d = Ret d'" "recordable d'"
proof -
  from assms obtain i where "fieldNameIndices d f = Some i" by (auto simp: recordable_def)
  with assms(1) show thesis
    by (intro that [of "d\<lparr>out_file := put (show_value e v @ tab) (out_file d)\<rparr>"])
      (simp_all add: setFieldValue_name_def setFieldValue_def recordable_def)
qed

lemma record_configurations_run:
  assumes "recordable d" "\<forall>c \<in> set cs. c < length ms"
  shows "\<exists>d' ms'. record_configurations e p cs (d, ms) = Ret (d', ms') \<and> recordable d' \<and> length ms' = length ms"
  using assms
proof (induction cs arbitrary: d ms)
  case (Cons c cs)
  let ?s = "ms ! c"
  have "recordable (addRecord d)" using Cons.prems by (simp add: addRecord_def Let_def recordable_def)
  then obtain d1 where 1: "setFieldValue_name e ''configuration'' (Str (configuration_name c)) (addRecord d) = Ret d1" "recordable d1"
    using recordable_set [where f = "''configuration''"] by blast
  obtain d2 where 2: "setFieldValue_name e ''parameter'' (Str (digits p)) d1 = Ret d2" "recordable d2"
    using recordable_set [OF 1(2), where f = "''parameter''"] by blast
  obtain d3 where 3: "setFieldValue_name e ''metric'' (Double (getMean ?s)) d2 = Ret d3" "recordable d3"
    using recordable_set [OF 2(2), where f = "''metric''"] by blast
  obtain d4 where 4: "setFieldValue_name e ''deviation'' (Double (getStandardDeviation ?s)) d3 = Ret d4" "recordable d4"
    using recordable_set [OF 3(2), where f = "''deviation''"] by blast
  from Cons.IH [OF 4(2), of "ms[c := clear ?s]"] Cons.prems(2) show ?case
    by (simp add: 1(1) 2(1) 3(1) 4(1) metric_at_def)
qed simp

lemma run_configurations_run:
  "\<forall>c \<in> set cs. c < length ms \<Longrightarrow> \<exists>ms'. run_configurations i cs ms = Ret ms' \<and> length ms' = length ms"
proof (induction cs arbitrary: ms)
  case (Cons c cs)
  from Cons.IH [of "ms[c := push_value (of_nat i) (ms ! c)]"] Cons.prems show ?case by (simp add: metric_at_def)
qed simp

lemma run_loop_run:
  "\<forall>c \<in> set cs. c < length ms \<Longrightarrow> \<exists>ms'. run_loop is cs ms = Ret ms' \<and> length ms' = length ms"
proof (induction "is" arbitrary: ms)
  case (Cons i "is")
  from run_configurations_run [OF Cons.prems, of i] obtain ms1 where
    1: "run_configurations i cs ms = Ret ms1" "length ms1 = length ms" by blast
  with Cons.IH [of ms1] Cons.prems show ?case by simp
qed simp

lemma parameter_loop_run:
  assumes "recordable d" "\<forall>c \<in> set cs. c < length ms"
  shows "\<exists>d' ms'. parameter_loop e ps cs (d, ms) = Ret (d', ms')"
  using assms
proof (induction ps arbitrary: d ms)
  case (Cons p ps)
  from run_loop_run [OF Cons.prems(2), of "[0..<numRuns]"] obtain ms1 where
    1: "run_loop [0..<numRuns] cs ms = Ret ms1" "length ms1 = length ms" by blast
  with Cons.prems record_configurations_run [of d cs ms1 e p] obtain d2 ms2 where
    2: "record_configurations e p cs (d, ms1) = Ret (d2, ms2)" "recordable d2" "length ms2 = length ms" by auto
  with 1 Cons.IH [of d2 ms2] Cons.prems(2) show ?case by simp
qed simp

section \<open>Properties\<close>

text \<open>
  C37: while values are kept, a new record filled field by field, by name and in any order,
  never faults and reads back as set: each named column holds its value, the other columns
  the default, and the earlier records are as they were.
\<close>

theorem experiment_record_roundtrip:
  assumes "data_inv d" "keepValues d" "fst ` set fvs \<subseteq> set (fieldNames d)" "distinct (map fst fvs)"
  shows "\<exists>d'. set_fields e fvs (addRecord d) = Ret d' \<and> data_inv d' \<and> butlast (getValues d') = getValues d \<and>
    (\<forall>f i. fieldNameIndices d f = Some i \<longrightarrow>
      last (getValues d') ! i = (case map_of fvs f of Some v \<Rightarrow> v | None \<Rightarrow> Size 0))"
proof -
  note new = addRecord_open [OF assms(1,2)]
  have sub: "fst ` set fvs \<subseteq> dom (fieldNameIndices (addRecord d))" using assms(1,3) new(3) by (auto simp: data_inv_def)
  obtain d' where d': "set_fields e fvs (addRecord d) = Ret d'" "row_open d'" "butlast (recorded d') = recorded d"
    "\<forall>f i. fieldNameIndices d f = Some i \<longrightarrow>
      current d' ! i = (case map_of fvs f of Some v \<Rightarrow> v | None \<Rightarrow> current (addRecord d) ! i)"
    using set_fields_run [OF new(1) sub assms(4), of e] new(3,4) by auto
  have zero: "current (addRecord d) ! i = Size 0" if "fieldNameIndices d f = Some i" for f i
    using that assms(1) new(2) by (auto simp: data_inv_def)
  have "last (getValues d') ! i = (case map_of fvs f of Some v \<Rightarrow> v | None \<Rightarrow> Size 0)"
    if "fieldNameIndices d f = Some i" for f i
    using that d'(4) zero [OF that] by (cases "map_of fvs f") (auto simp: getValues_def current_def)
  with d'(1-3) show ?thesis by (auto simp: getValues_def row_open_def)
qed

definition demo_env :: env where
  "demo_env = \<lparr>can_create = (\<lambda>_. True), can_open = (\<lambda>_. True), show_double = (\<lambda>_. ''0'')\<rparr>"

theorem experiment_record_roundtrip_witness:
  "\<exists>d'. set_fields demo_env [(''b'', Size 7)]
      (addRecord (setKeepValues True (addField ''b'' (addField ''a'' (ExperimentalData_new ''x'' ''d''))))) = Ret d' \<and>
    last (getValues d') ! 1 = Size 7 \<and> last (getValues d') ! 0 = Size 0"
proof -
  let ?d = "setKeepValues True (addField ''b'' (addField ''a'' (ExperimentalData_new ''x'' ''d'')))"
  have "data_inv ?d" "fieldNameIndices ?d ''a'' = Some 0" "fieldNameIndices ?d ''b'' = Some 1"
    by (auto simp: data_inv_def setKeepValues_def addField_def ExperimentalData_new_def nth_append split: if_splits)
  then show ?thesis
    using experiment_record_roundtrip [of ?d "[(''b'', Size 7)]" demo_env]
    by (auto simp: setKeepValues_def addField_def ExperimentalData_new_def split: if_splits)
qed

text \<open>
  C40: \<open>ExampleExperiment::process\<close> indexes its three metrics with the configurations 1, 2 and
  3 instead of their positions: the first run already writes past the end of the vector,
  whatever the file system does after opening. With the positions as configurations the
  same code runs to its end.
\<close>

theorem example_experiment_out_of_bounds:
  assumes "can_create e ''expData''"
  shows "ExampleExperiment_process e junk = Fault OutOfBounds \<and> run_experiment e junk t0 t1 timer = Fault OutOfBounds \<and>
    (\<exists>d. process_configurations e junk [0, 1, 2] = Ret d)"
proof -
  let ?d0 = "makeExampleExperiment (ExperimentalData_new ''exampleExp'' ''expData'')"
  obtain d where d: "open_data e ?d0 = Ret d" "recordable d"
    using assms by (simp add: open_data_def Let_def makeExampleExperiment_def setKeepValues_def addField_def setDescription_def
      ExperimentalData_new_def recordable_def)
  have "run_loop [0..<numRuns] [1, 2, 3] [a, b, c] = Fault OutOfBounds" for a b c
    by (simp add: numRuns_def upt_rec metric_at_def)
  then have "ExampleExperiment_process e junk = Fault OutOfBounds"
    by (simp add: ExampleExperiment_process_def process_configurations_def d(1) parameters_def)
  moreover obtain d' ms' where "parameter_loop e parameters [0, 1, 2] (d, map (\<lambda>_. RunningStat_new junk) [0, 1, 2 :: nat]) = Ret (d', ms')"
    using parameter_loop_run [OF d(2), of "[0, 1, 2]" "map (\<lambda>_. RunningStat_new junk) [0, 1, 2 :: nat]" e parameters] by auto
  ultimately show ?thesis by (simp add: process_configurations_def d(1) run_experiment_def run_def ExampleExperiment_setUp_def Let_def)
qed

theorem example_experiment_out_of_bounds_witness:
  "ExampleExperiment_process demo_env \<lparr>m_n = 0, m_oldM = 0, m_newM = 0, m_oldS = 0, m_newS = 0\<rparr> = Fault OutOfBounds"
  using example_experiment_out_of_bounds [of demo_env] by (simp add: demo_env_def)

text \<open>
  A field that was never added makes \<open>setFieldValue\<close> throw before anything is written;
  without kept values a known field only goes to the file.
\<close>

theorem unknown_field_throws:
  assumes "data_inv d"
  shows "(f \<notin> set (fieldNames d) \<longrightarrow>
      setFieldValue_name e f v d = Abort (''field '' @ [CHR 0x27] @ f @ [CHR 0x27] @ '' not found!'')) \<and>
    (f \<in> set (fieldNames d) \<and> \<not> keepValues d \<longrightarrow>
      setFieldValue_name e f v d = Ret (d\<lparr>out_file := put (show_value e v @ tab) (out_file d)\<rparr>))"
proof -
  have "f \<notin> set (fieldNames d) \<Longrightarrow> fieldNameIndices d f = None" "f \<in> set (fieldNames d) \<Longrightarrow> \<exists>i. fieldNameIndices d f = Some i"
    using assms by (auto simp: data_inv_def)
  then show ?thesis by (auto simp: setFieldValue_name_def setFieldValue_def)
qed

theorem unknown_field_throws_witness:
  "setFieldValue_name demo_env ''z'' (Size 1) (ExperimentalData_new ''x'' ''d'') =
     Abort (''field '' @ [CHR 0x27] @ ''z'' @ [CHR 0x27] @ '' not found!'')"
  using unknown_field_throws [OF new_inv, of "''z''" "''x''" "''d''" demo_env "Size 1"] by (simp add: ExperimentalData_new_def)

end
