(* ===== verification/Bench_Stats.thy ===== *)
theory Bench_Stats
  imports Doubles
begin

text \<open>
  The figures of the benchmarks, \<open>src/bench_rpc/src/bench_utils.cpp\<close>, the averages of
  \<open>src/bench_rpc/src/bench.cpp\<close> and the same functions in
  \<open>src/bench_tcp/src/tcp_bench_utils.cpp\<close>, which differ in \<open>NUM_ITEMS\<close> only; and the
  comparison and search by which the benchmarks tell repeated clients. What goes to
  standard output is the list of printed values.
\<close>

section \<open>Times\<close>

definition NUM_ITEMS :: int where "NUM_ITEMS = 100000"

definition tcp_NUM_ITEMS :: int where "tcp_NUM_ITEMS = 10000000"

definition MAX_CLIENTS :: nat where "MAX_CLIENTS = 20"

record timespec =
  tv_sec :: int
  tv_nsec :: int

record connection_args =
  conn_client_id :: int
  start_time :: timespec
  end_time :: timespec

definition sec_diff :: "connection_args \<Rightarrow> int" where
  "sec_diff a = tv_sec (end_time a) - tv_sec (start_time a)"

definition nsec_diff :: "connection_args \<Rightarrow> int" where
  "nsec_diff a = tv_nsec (end_time a) - tv_nsec (start_time a)"

text \<open>\<open>long ms = (sec) * 1.0e+03; ms += (nsec) / 1.0e+06\<close>, and the same in nanoseconds.\<close>

definition elapsed_ms :: "connection_args \<Rightarrow> int" where
  "elapsed_ms a = (let ms = trunc (of_int (sec_diff a) * 1000) in trunc (of_int ms + of_int (nsec_diff a) / 1000000))"

definition elapsed_ns :: "connection_args \<Rightarrow> int" where
  "elapsed_ns a = (let ns = trunc (of_int (sec_diff a) * 1000000000) in ns + nsec_diff a)"

section \<open>Reports\<close>

datatype out_line = Long string int | Float string ieee

definition long_div :: "int \<Rightarrow> int \<Rightarrow> int outcome" where
  "long_div a b = (if b = 0 then Fault DivByZero else Ret (cdiv a b))"

definition rtt_report :: "int \<Rightarrow> connection_args \<Rightarrow> out_line list outcome" where
  "rtt_report items a =
     (if sec_diff a > 0 then
        let ms = elapsed_ms a; ns = elapsed_ns a in
        bind_out (long_div ns items) (\<lambda>latency.
        bind_out (long_div items ms) (\<lambda>throughput.
        Ret [Long ''ns/op'' latency, Long ''ops/ms'' throughput]))
      else
        let ns = elapsed_ns a in
        bind_out (long_div ns items) (\<lambda>latency.
        let ms = trunc (of_int ns / 1000000) in
        bind_out (long_div items ms) (\<lambda>throughput.
        Ret [Long ''ns/op'' latency, Long ''ops/ms'' throughput])))"

definition report_single_rtt_stats :: "connection_args \<Rightarrow> out_line list outcome" where
  "report_single_rtt_stats a = rtt_report NUM_ITEMS a"

definition tcp_report_single_rtt_stats :: "connection_args \<Rightarrow> out_line list outcome" where
  "tcp_report_single_rtt_stats a = rtt_report tcp_NUM_ITEMS a"

definition report_connection_stats :: "connection_args \<Rightarrow> out_line list" where
  "report_connection_stats a =
     (if sec_diff a > 0 then [Long ''ms/op'' (elapsed_ms a)] else [Long ''ns/op'' (nsec_diff a)])"

definition tcp_report_connection_stats :: "connection_args \<Rightarrow> out_line list" where
  "tcp_report_connection_stats a =
     (if sec_diff a > 0 then [Long ''ms/op'' (elapsed_ms a)] else [Long ''ns/op'' (nsec_diff a)])"

definition after_connect_report :: "int \<Rightarrow> connection_args \<Rightarrow> out_line list outcome" where
  "after_connect_report items a =
     (if sec_diff a > 0 then Ret [Float ''ns/op'' (fdiv (of_int (elapsed_ms a) * 1000000) (of_int items))]
      else bind_out (long_div (nsec_diff a) items) (\<lambda>latency. Ret [Long ''ns/op'' latency]))"

definition report_rtt_stats_after_connect :: "connection_args \<Rightarrow> out_line list outcome" where
  "report_rtt_stats_after_connect a = after_connect_report NUM_ITEMS a"

definition tcp_report_rtt_stats_after_connect :: "connection_args \<Rightarrow> out_line list outcome" where
  "tcp_report_rtt_stats_after_connect a = after_connect_report tcp_NUM_ITEMS a"

definition print_ns_op :: "int \<Rightarrow> int \<Rightarrow> int outcome" where
  "print_ns_op items average_ns = long_div average_ns items"

definition print_avg_ops_ms :: "int \<Rightarrow> int \<Rightarrow> ieee" where
  "print_avg_ops_ms items average_ns = fdiv (of_int items) (of_int average_ns / 1000000)"

definition print_ops_ms :: "int \<Rightarrow> int \<Rightarrow> ieee" where
  "print_ops_ms items average_ns = fdiv (of_int (i32 (items * int MAX_CLIENTS))) (of_int average_ns / 1000000)"

text \<open>The functions that print a constant, and the row of figures that ends the tests with many clients.\<close>

definition print_num_clients :: out_line where "print_num_clients = Long ''num_clients'' (int MAX_CLIENTS)"

definition print_rtt_num_items :: "int \<Rightarrow> out_line" where "print_rtt_num_items items = Long ''rtt_num_items'' items"

definition print_msg_size :: out_line where "print_msg_size = Long ''msg_size'' 4"

definition rtt_row :: "int \<Rightarrow> int \<Rightarrow> out_line list outcome" where
  "rtt_row slots average_ns =
     bind_out (print_ns_op NUM_ITEMS average_ns) (\<lambda>ns_op.
     Ret [print_num_clients, Long ''coord_slots'' slots, print_rtt_num_items NUM_ITEMS, print_msg_size, Long ''ns/op'' ns_op,
       Float ''avg_ops/ms'' (print_avg_ops_ms NUM_ITEMS average_ns), Float ''ops/ms'' (print_ops_ms NUM_ITEMS average_ns)])"

text \<open>The loops over the clients that end every benchmark.\<close>

definition client_ns :: "connection_args \<Rightarrow> int" where
  "client_ns a = (if sec_diff a > 0 then trunc (of_int (elapsed_ms a) * 1000000) else elapsed_ns a)"

definition total_ns :: "connection_args list \<Rightarrow> int" where
  "total_ns as = fold (\<lambda>a t. t + client_ns a) as 0"

definition average_ns :: "connection_args list \<Rightarrow> int outcome" where
  "average_ns as = long_div (total_ns as) (int MAX_CLIENTS)"

text \<open>\<open>connection_stress_test\<close> sums the clients above a second and the others apart.\<close>

definition stress_totals :: "connection_args list \<Rightarrow> int \<times> int" where
  "stress_totals as =
     fold (\<lambda>a (ms, ns). if sec_diff a > 0 then (ms + elapsed_ms a, ns) else (ms, ns + elapsed_ns a)) as (0, 0)"

section \<open>Repeated clients\<close>

definition cmpfunc :: "int \<Rightarrow> int \<Rightarrow> int" where
  "cmpfunc a b = i32 (a - b)"

text \<open>\<open>bsearch\<close> of the C library: a binary search over \<open>l..<u\<close>.\<close>

function bsearch_loop :: "(int \<Rightarrow> int \<Rightarrow> int) \<Rightarrow> int \<Rightarrow> int list \<Rightarrow> nat \<Rightarrow> nat \<Rightarrow> nat option" where
  "bsearch_loop cmp key xs l u =
     (if l < u then
        let idx = (l + u) div 2; c = cmp key (xs ! idx) in
        if c < 0 then bsearch_loop cmp key xs l idx
        else if c > 0 then bsearch_loop cmp key xs (idx + 1) u
        else Some idx
      else None)"
  by auto
termination by (relation "measure (\<lambda>(_, _, _, l, u). u - l)") auto

declare bsearch_loop.simps [simp del]

definition bsearch :: "int \<Rightarrow> int list \<Rightarrow> nat option" where
  "bsearch key xs = bsearch_loop cmpfunc key xs 0 (length xs)"

text \<open>
  The accept loop of the benchmarks: \<open>rs\<close> are the results of \<open>accept\<close>, as the client's
  identifier and whether the request queue is attached. \<open>cl\<close> is the array \<open>client_list\<close>,
  which starts with whatever the stack held, and the result lists the accepted clients; the
  loop ends when the array is full.
\<close>

fun accept_clients :: "int list \<Rightarrow> nat \<Rightarrow> (int \<times> bool) option list \<Rightarrow> int list \<times> nat \<times> int list" where
  "accept_clients cl i [] = (cl, i, [])"
| "accept_clients cl i (r # rs) =
     (if i < length cl then
        (case r of
           None \<Rightarrow> accept_clients cl i rs
         | Some (key, attached) \<Rightarrow>
             if bsearch key cl \<noteq> None then accept_clients cl i rs
             else if attached then
               (let (cl', i', acc) = accept_clients (cl[i := key]) (i + 1) rs in (cl', i', key # acc))
             else accept_clients cl i rs)
      else (cl, i, []))"

text \<open>
  The loop of \<open>single_rtt_during_connection_test\<close>: the client that exchanges messages is
  written twice.
\<close>

definition put_client :: "nat \<Rightarrow> int \<Rightarrow> int list \<Rightarrow> int list outcome" where
  "put_client i key cl = (if i < length cl then Ret (cl[i := key]) else Fault OutOfBounds)"

fun accept_rtt :: "int \<Rightarrow> int list \<Rightarrow> nat \<Rightarrow> (int \<times> bool) option list \<Rightarrow> (int list \<times> nat) outcome" where
  "accept_rtt rtt cl i [] = Ret (cl, i)"
| "accept_rtt rtt cl i (r # rs) =
     (if i < length cl then
        (case r of
           None \<Rightarrow> accept_rtt rtt cl i rs
         | Some (key, attached) \<Rightarrow>
             if bsearch key cl \<noteq> None then accept_rtt rtt cl i rs
             else if attached then
               bind_out (if key = rtt then bind_out (put_client i key cl) (\<lambda>cl1. Ret (cl1, i + 1)) else Ret (cl, i)) (\<lambda>(cl1, j).
               bind_out (put_client j key cl1) (\<lambda>cl2. accept_rtt rtt cl2 (j + 1) rs))
             else accept_rtt rtt cl i rs)
      else Ret (cl, i))"

section \<open>Lemmas\<close>

text \<open>The clock was read with \<open>clock_gettime\<close>, the end after the start.\<close>

definition valid_times :: "connection_args \<Rightarrow> bool" where
  "valid_times a \<longleftrightarrow> 0 \<le> tv_nsec (start_time a) \<and> tv_nsec (start_time a) < 1000000000 \<and>
     0 \<le> tv_nsec (end_time a) \<and> tv_nsec (end_time a) < 1000000000 \<and> 0 \<le> sec_diff a \<and>
     0 \<le> sec_diff a * 1000000000 + nsec_diff a"

lemma elapsed_ns_eq: "elapsed_ns a = sec_diff a * 1000000000 + nsec_diff a"
proof -
  have "(of_int (sec_diff a) * 1000000000 :: real) = of_int (sec_diff a * 1000000000)" by simp
  then show ?thesis by (simp only: elapsed_ns_def Let_def trunc_of_int)
qed

lemma elapsed_ms_eq: "elapsed_ms a = cdiv (elapsed_ns a) 1000000"
proof -
  have "(of_int (sec_diff a) * 1000 :: real) = of_int (sec_diff a * 1000)" by simp
  then have 1: "trunc (of_int (sec_diff a) * 1000) = sec_diff a * 1000" by (simp only: trunc_of_int)
  have "of_int (sec_diff a * 1000) + of_int (nsec_diff a) / 1000000 = (of_int (elapsed_ns a) / of_int 1000000 :: real)"
    by (simp add: elapsed_ns_eq field_simps)
  then show ?thesis unfolding elapsed_ms_def Let_def 1 by (simp only: trunc_div [of 1000000])
qed

lemma ns_to_ms: "trunc (of_int ns / 1000000) = cdiv ns 1000000"
  using trunc_div [of 1000000 ns] by simp

lemma elapsed_nonneg: "valid_times a \<Longrightarrow> 0 \<le> elapsed_ns a"
  by (simp add: valid_times_def elapsed_ns_eq)

lemma rtt_report_eq:
  "rtt_report items a =
     bind_out (long_div (elapsed_ns a) items) (\<lambda>latency.
     bind_out (long_div items (cdiv (elapsed_ns a) 1000000)) (\<lambda>throughput.
     Ret [Long ''ns/op'' latency, Long ''ops/ms'' throughput]))"
  by (simp add: rtt_report_def elapsed_ms_eq ns_to_ms Let_def)

lemma client_ns_bounds:
  assumes "valid_times a"
  shows "client_ns a \<le> elapsed_ns a \<and> elapsed_ns a < client_ns a + 1000000"
proof (cases "sec_diff a > 0")
  case True
  have "(of_int (elapsed_ms a) * 1000000 :: real) = of_int (elapsed_ms a * 1000000)" by simp
  then have "client_ns a = elapsed_ns a div 1000000 * 1000000"
    using True elapsed_nonneg [OF assms] by (simp only: client_ns_def trunc_of_int elapsed_ms_eq) (simp add: cdiv_nonneg)
  then show ?thesis by (simp add: minus_mod_eq_div_mult [symmetric] pos_mod_bound)
next
  case False
  then show ?thesis by (simp add: client_ns_def)
qed

lemma total_ns_sum: "total_ns as = sum_list (map client_ns as)"
proof -
  have "fold (\<lambda>a t. t + client_ns a) as t = t + sum_list (map client_ns as)" for t
    by (induction as arbitrary: t) simp_all
  then show ?thesis by (simp add: total_ns_def)
qed

lemma total_ns_bounds:
  assumes "\<forall>a \<in> set as. valid_times a"
  shows "total_ns as \<le> sum_list (map elapsed_ns as)"
    "sum_list (map elapsed_ns as) \<le> total_ns as + int (length as) * 999999"
  using assms
proof (induction as)
  case (Cons a as)
  { case 1 with Cons client_ns_bounds [of a] show ?case by (simp add: total_ns_sum) }
  { case 2 with Cons client_ns_bounds [of a] show ?case by (simp add: total_ns_sum algebra_simps) }
qed (simp_all add: total_ns_sum)

lemma total_ns_nonneg:
  assumes "\<forall>a \<in> set as. valid_times a"
  shows "0 \<le> total_ns as"
proof -
  have "0 \<le> client_ns a" if "a \<in> set as" for a
  proof (cases "sec_diff a > 0")
    case True
    have "(of_int (elapsed_ms a) * 1000000 :: real) = of_int (elapsed_ms a * 1000000)" by simp
    with True elapsed_nonneg [of a] assms that show ?thesis
      by (simp only: client_ns_def trunc_of_int elapsed_ms_eq) (simp add: cdiv_nonneg pos_imp_zdiv_nonneg_iff)
  next
    case False
    with elapsed_nonneg [of a] assms that show ?thesis by (simp add: client_ns_def)
  qed
  then show ?thesis unfolding total_ns_sum by (intro sum_list_nonneg) auto
qed

text \<open>The comparison is exact at zero, and has the right sign while the difference fits.\<close>

lemma cmpfunc_zero: "int32 a \<Longrightarrow> int32 b \<Longrightarrow> cmpfunc a b = 0 \<longleftrightarrow> a = b"
proof
  assume r: "int32 a" "int32 b" and "cmpfunc a b = 0"
  then have "(a - b + 2147483648) mod 4294967296 = 2147483648 mod 4294967296" by (simp add: cmpfunc_def i32_def)
  then have "4294967296 dvd (a - b)" by (simp only: mod_eq_dvd_iff) simp
  moreover have "\<bar>a - b\<bar> < 4294967296" using r by linarith
  ultimately show "a = b" using dvd_imp_le_int [of "a - b" 4294967296] by fastforce
qed (simp add: cmpfunc_def i32_def)

lemma cmpfunc_sign: "int32 (a - b) \<Longrightarrow> cmpfunc a b = a - b"
  by (simp add: cmpfunc_def i32_id)

lemma bsearch_loop_sound:
  "bsearch_loop cmp key xs l u = Some i \<Longrightarrow> l \<le> i \<and> i < u \<and> cmp key (xs ! i) = 0"
proof (induction cmp key xs l u rule: bsearch_loop.induct)
  case (1 cmp key xs l u)
  let ?i = "(l + u) div 2"
  have m: "l < u \<Longrightarrow> l \<le> ?i \<and> ?i < u" by auto
  from 1(3) have lu: "l < u" by (subst (asm) bsearch_loop.simps) (auto split: if_splits)
  consider "cmp key (xs ! ?i) < 0" | "cmp key (xs ! ?i) > 0" | "cmp key (xs ! ?i) = 0" by linarith
  then show ?case
  proof cases
    case 1
    with "1.prems" lu have "bsearch_loop cmp key xs l ?i = Some i" by (subst (asm) bsearch_loop.simps) (simp add: Let_def)
    with "1.IH"(1) [OF lu refl refl 1] m [OF lu] show ?thesis by auto
  next
    case 2
    with "1.prems" lu have "bsearch_loop cmp key xs (?i + 1) u = Some i" by (subst (asm) bsearch_loop.simps) (simp add: Let_def)
    with "1.IH"(2) [OF lu refl refl _ 2] 2 m [OF lu] show ?thesis by auto
  next
    case 3
    with "1.prems" lu have "i = ?i" by (subst (asm) bsearch_loop.simps) (simp add: Let_def)
    with 3 m [OF lu] show ?thesis by simp
  qed
qed

lemma bsearch_absent:
  assumes "int32 key" "\<forall>x \<in> set xs. int32 x" "key \<notin> set xs"
  shows "bsearch key xs = None"
proof (rule ccontr)
  assume "bsearch key xs \<noteq> None"
  then obtain i where "i < length xs" "cmpfunc key (xs ! i) = 0" using bsearch_loop_sound unfolding bsearch_def by blast
  then show False using cmpfunc_zero [of key "xs ! i"] assms by auto
qed

lemma bsearch_loop_complete:
  assumes "sorted xs" "u \<le> length xs" "l \<le> p" "p < u" "xs ! p = key"
    and cmp: "\<And>x. x \<in> set xs \<Longrightarrow> cmp key x = key - x"
  shows "bsearch_loop cmp key xs l u \<noteq> None"
  using assms(2-4)
proof (induction "u - l" arbitrary: l u rule: less_induct)
  case less
  let ?i = "(l + u) div 2"
  have i: "l \<le> ?i" "?i < u" "?i < length xs" using less.prems by auto
  have c: "cmp key (xs ! ?i) = key - xs ! ?i" using i(3) by (intro cmp) simp
  have unfold: "bsearch_loop cmp key xs l u = (if key - xs ! ?i < 0 then bsearch_loop cmp key xs l ?i
      else if key - xs ! ?i > 0 then bsearch_loop cmp key xs (?i + 1) u else Some ?i)"
    using less.prems by (subst bsearch_loop.simps) (simp add: Let_def c)
  consider "key < xs ! ?i" | "xs ! ?i < key" | "xs ! ?i = key" by linarith
  then show ?case
  proof cases
    case 1
    then have "\<not> ?i \<le> p" using sorted_nth_mono [OF assms(1), of ?i p] assms(5) less.prems by fastforce
    with less.hyps [of ?i l] less.prems i 1 show ?thesis by (simp add: unfold)
  next
    case 2
    then have "\<not> p \<le> ?i" using sorted_nth_mono [OF assms(1), of p ?i] assms(5) i by fastforce
    with less.hyps [of u "?i + 1"] less.prems i 2 show ?thesis by (simp add: unfold)
  next
    case 3
    then show ?thesis by (simp add: unfold)
  qed
qed

lemma single_rtt_report:
  assumes "valid_times a"
  shows "report_single_rtt_stats a =
    (if elapsed_ns a < 1000000 then Fault DivByZero
     else Ret [Long ''ns/op'' (elapsed_ns a div 100000), Long ''ops/ms'' (100000 div (elapsed_ns a div 1000000))])"
proof -
  have n: "0 \<le> elapsed_ns a" by (rule elapsed_nonneg [OF assms])
  then have "elapsed_ns a div 1000000 = 0 \<longleftrightarrow> elapsed_ns a < 1000000" by (auto simp: zdiv_eq_0_iff)
  with n show ?thesis
    by (auto simp: report_single_rtt_stats_def rtt_report_eq long_div_def NUM_ITEMS_def cdiv_nonneg pos_imp_zdiv_nonneg_iff
        less_le)
qed

section \<open>Properties\<close>

text \<open>
  With times as \<open>clock_gettime\<close> gives them, \<open>report_single_rtt_stats\<close> divides by zero
  exactly when less than a millisecond has passed, and otherwise prints the elapsed
  nanoseconds per operation and the operations per whole millisecond.
\<close>

theorem rtt_report_faults_iff:
  assumes "valid_times a"
  shows "report_single_rtt_stats a =
    (if elapsed_ns a < 1000000 then Fault DivByZero
     else Ret [Long ''ns/op'' (elapsed_ns a div 100000), Long ''ops/ms'' (100000 div (elapsed_ns a div 1000000))])"
  by (rule single_rtt_report [OF assms])

definition demo_args :: "int \<Rightarrow> int \<Rightarrow> connection_args" where
  "demo_args s ns = \<lparr>conn_client_id = 1, start_time = \<lparr>tv_sec = 7, tv_nsec = 0\<rparr>, end_time = \<lparr>tv_sec = 7 + s, tv_nsec = ns\<rparr>\<rparr>"

theorem rtt_report_faults_iff_witness:
  "report_single_rtt_stats (demo_args 0 999999) = Fault DivByZero \<and>
   report_single_rtt_stats (demo_args 2 500000) = Ret [Long ''ns/op'' 20005, Long ''ops/ms'' 50]"
  using rtt_report_faults_iff [of "demo_args 0 999999"] rtt_report_faults_iff [of "demo_args 2 500000"]
  by (simp add: demo_args_def valid_times_def sec_diff_def nsec_diff_def elapsed_ns_eq)

text \<open>
  \<open>bsearch\<close> with \<open>cmpfunc\<close> never takes a new client for a repeated one, and finds every
  client it should in an array that is sorted and whose differences fit an \<open>int\<close>.
\<close>

theorem bsearch_correct:
  assumes "int32 key" "\<forall>x \<in> set xs. int32 x"
  shows "(\<forall>i. bsearch key xs = Some i \<longrightarrow> i < length xs \<and> xs ! i = key) \<and>
    (sorted xs \<and> (\<forall>x \<in> set xs. int32 (key - x)) \<and> key \<in> set xs \<longrightarrow> bsearch key xs \<noteq> None)"
proof (intro conjI allI impI)
  fix i assume "bsearch key xs = Some i"
  then have "i < length xs \<and> cmpfunc key (xs ! i) = 0" using bsearch_loop_sound by (auto simp: bsearch_def)
  then show "i < length xs" "xs ! i = key" using cmpfunc_zero [of key "xs ! i"] assms by auto
next
  assume a: "sorted xs \<and> (\<forall>x \<in> set xs. int32 (key - x)) \<and> key \<in> set xs"
  then obtain p where "p < length xs" "xs ! p = key" by (auto simp: in_set_conv_nth)
  with a show "bsearch key xs \<noteq> None"
    unfolding bsearch_def by (intro bsearch_loop_complete [where p = p]) (auto simp: cmpfunc_sign)
qed

theorem bsearch_correct_witness: "bsearch 5 [1, 5, 9] \<noteq> None"
  using bsearch_correct [of 5 "[1, 5, 9]"] by simp

text \<open>
  The benchmarks search \<open>client_list\<close> in the order of acceptance, over entries that have
  never been written: a client that is in the array can be missed, and one that is new is
  rejected for ever when the stack held its identifier.
\<close>

theorem unsorted_search_fails:
  "bsearch 9 [9, 5, 1] = None \<and> accept_clients [0, 42, 7] 0 (replicate n (Some (42, True))) = ([0, 42, 7], 0, [])"
proof -
  have "bsearch 42 [0, 42, 7] \<noteq> None"
    by (simp add: bsearch_def bsearch_loop.simps cmpfunc_def i32_def)
  then have "accept_clients [0, 42, 7] 0 (replicate n (Some (42, True))) = ([0, 42, 7], 0, [])"
    by (induction n) simp_all
  moreover have "bsearch 9 [9, 5, 1] = None"
    by (simp add: bsearch_def bsearch_loop.simps cmpfunc_def i32_def Let_def)
  ultimately show ?thesis by blast
qed

text \<open>
  \<open>single_rtt_during_connection_test\<close> writes the client that exchanges messages twice, so
  that it overruns \<open>client_list\<close> when that client is accepted last.
\<close>

theorem rtt_client_last_overruns:
  assumes "length cl = Suc i" "bsearch rtt cl = None"
  shows "accept_rtt rtt cl i [Some (rtt, True)] = Fault OutOfBounds"
  using assms by (simp add: put_client_def)

theorem rtt_client_last_overruns_witness:
  "accept_rtt 8 [3, 0] 1 [Some (8, True)] = Fault OutOfBounds"
  using rtt_client_last_overruns [of "[3, 0]" 1 8]
  by (simp add: bsearch_def bsearch_loop.simps cmpfunc_def i32_def Let_def)

end
