(* ===== verification/Turns.thy ===== *)
theory Turns
  imports Prelude
begin

text \<open>
  Threads that take turns: a program is a step function that says what one turn of a thread does to
  the state, and a schedule is a list of turns. The locale \<open>turn_system\<close> is the contract of
  such a program with an invariant: no turn faults, hangs or breaks the invariant. Its lemmas are proved
  once: what every schedule keeps, and what a schedule with enough turns of one thread achieves.
\<close>

fun run_steps :: "('u \<Rightarrow> 's \<Rightarrow> 's outcome) \<Rightarrow> 'u list \<Rightarrow> 's \<Rightarrow> 's outcome" where
  "run_steps step [] s = Ret s"
| "run_steps step (u # us) s = bind_out (step u s) (run_steps step us)"

lemma run_steps_append: "run_steps step (us @ vs) s = bind_out (run_steps step us s) (run_steps step vs)"
  by (induction us arbitrary: s) (auto simp: bind_out_assoc intro!: bind_out_cong)

locale turn_system =
  fixes step :: "'u \<Rightarrow> 's \<Rightarrow> 's outcome" and inv :: "'s \<Rightarrow> bool" and ok :: "'u \<Rightarrow> bool"
  assumes step_inv: "inv s \<Longrightarrow> ok u \<Longrightarrow> \<exists>s'. step u s = Ret s' \<and> inv s'"
begin

lemma run_inv: "inv s \<Longrightarrow> list_all ok us \<Longrightarrow> \<exists>s'. run_steps step us s = Ret s' \<and> inv s'"
proof (induction us arbitrary: s)
  case (Cons u us)
  then obtain s1 where "step u s = Ret s1" "inv s1" using step_inv [of s u] by auto
  with Cons show ?case by simp
qed simp

text \<open>What a turn never undoes.\<close>

definition stable :: "('s \<Rightarrow> bool) \<Rightarrow> bool" where
  "stable G \<longleftrightarrow> (\<forall>s u s'. inv s \<longrightarrow> ok u \<longrightarrow> step u s = Ret s' \<longrightarrow> G s \<longrightarrow> G s')"

lemma run_stable: "stable G \<Longrightarrow> inv s \<Longrightarrow> list_all ok us \<Longrightarrow> run_steps step us s = Ret s' \<Longrightarrow> G s \<Longrightarrow> G s'"
proof (induction us arbitrary: s)
  case (Cons u us)
  then obtain s1 where s1: "step u s = Ret s1" "inv s1" using step_inv [of s u] by auto
  with Cons.prems have "G s1" by (auto simp: stable_def)
  with s1 Cons show ?case by simp
qed simp

text \<open>From \<open>G\<close>, turns \<open>x\<close> lead to \<open>H\<close>: each brings it nearer, and other turns not farther away.\<close>

definition leads :: "'u \<Rightarrow> ('s \<Rightarrow> nat) \<Rightarrow> ('s \<Rightarrow> bool) \<Rightarrow> ('s \<Rightarrow> bool) \<Rightarrow> bool" where
  "leads x dist G H \<longleftrightarrow> (\<forall>s u s'. inv s \<longrightarrow> ok u \<longrightarrow> step u s = Ret s' \<longrightarrow> G s \<longrightarrow> \<not> H s \<longrightarrow>
     H s' \<or> G s' \<and> dist s' \<le> dist s \<and> (u = x \<longrightarrow> dist s' < dist s))"

lemma run_leads:
  assumes "leads x dist G H" "stable H"
  shows "inv s \<Longrightarrow> list_all ok us \<Longrightarrow> run_steps step us s = Ret s' \<Longrightarrow> G s \<Longrightarrow> H s \<or> dist s < count_list us x \<Longrightarrow> H s'"
proof (induction us arbitrary: s)
  case (Cons u us)
  then obtain s1 where s1: "step u s = Ret s1" "inv s1" "list_all ok us" "run_steps step us s1 = Ret s'"
    using step_inv [of s u] by auto
  show ?case
  proof (cases "H s \<or> H s1")
    case True
    then have "H s1" using assms(2) Cons.prems(1,2) s1(1) by (auto simp: stable_def)
    then show ?thesis by (rule run_stable [OF assms(2) s1(2-4)])
  next
    case False
    with assms(1) Cons.prems s1(1) have "G s1" "dist s1 \<le> dist s" "u = x \<longrightarrow> dist s1 < dist s" by (auto simp: leads_def)
    with Cons.prems(5) False have "G s1" "dist s1 < count_list us x" by (auto split: if_splits)
    then show ?thesis using Cons.IH [OF s1(2-4)] by blast
  qed
qed simp

end

end
