(* ===== verification/Bench_Queue.thy ===== *)
theory Bench_Queue
  imports Region Bench_Stats Turns
begin

text \<open>
  The queue benchmark, \<open>src/bench_queue/src/bench.cpp\<close>: a producer pushes 0, 1, 2, ... into
  one polling queue, a consumer checks that it pops the same sequence, and the main thread
  stops both with a flag and joins them. A schedule is a list of turns. A turn of a
  thread is its test of \<open>stop_flag\<close> or its call of \<open>push\<close> or \<open>pop\<close> with what follows it in the
  loop; a thread whose call can only poll stays inside the call. The joins return
  when both threads have left.
\<close>

section \<open>State and threads\<close>

definition BENCH_MESSAGE_SIZE :: nat where "BENCH_MESSAGE_SIZE = 4"

text \<open>
  Where a thread is: before \<open>start_flag\<close>, at the test of \<open>stop_flag\<close>, inside its call, or past
  \<open>pthread_exit\<close>.
\<close>

datatype thread_pc = Entered | Testing | Calling | Exited

text \<open>The queue in its segment, \<open>run1\<close> and the local variables of both threads.\<close>

record bench =
  bench_queue :: spsc_queue_header
  run_start :: timespec
  run_end :: timespec
  run_total :: timespec
  max_queue_depth :: int
  average_queue_depth :: int
  items_consumed :: int
  producer_i :: "32 word"
  queue_depth_samples :: int
  consumer_i :: "32 word"
  pop_buf :: "byte list"
  pop_buf_size :: nat
  stop_flag :: bool
  producer_at :: thread_pc
  consumer_at :: thread_pc

definition queue_depth :: "spsc_queue_header \<Rightarrow> int outcome" where
  "queue_depth q =
     (if queue_size q = 0 then Fault DivByZero
      else Ret (Prelude.cmod (i32 (i32 (tail q - head q) + queue_size q)) (queue_size q)))"

definition sample :: "bench \<Rightarrow> bench outcome" where
  "sample s =
     bind_out (queue_depth (bench_queue s)) (\<lambda>d.
     Ret (s\<lparr>queue_depth_samples := i32 (queue_depth_samples s + 1),
            max_queue_depth := (if d > max_queue_depth s then d else max_queue_depth s),
            average_queue_depth := i32 (average_queue_depth s + d)\<rparr>))"

definition push_item :: "bench \<Rightarrow> bench outcome" where
  "push_item s =
     bind_out (push (bench_queue s) (int_bytes (producer_i s)) BENCH_MESSAGE_SIZE) (\<lambda>(r, q).
     let s1 = s\<lparr>bench_queue := q\<rparr> in
     bind_out (if producer_i s mod 1000000 = 0 then sample s1 else Ret s1) (\<lambda>s2.
     Ret (s2\<lparr>producer_i := producer_i s2 + 1\<rparr>)))"

definition producer_end :: "bench \<Rightarrow> bench outcome" where
  "producer_end s =
     (if queue_depth_samples s = 0 then Fault DivByZero
      else Ret (s\<lparr>average_queue_depth := cdiv (average_queue_depth s) (queue_depth_samples s)\<rparr>))"

definition pop_item :: "bench \<Rightarrow> bench outcome" where
  "pop_item s =
     bind_out (pop (bench_queue s) (pop_buf_size s)) (\<lambda>(r, q).
     let buf = pop_out r @ drop (length (pop_out r)) (pop_buf s);
         s1 = s\<lparr>bench_queue := q, pop_buf := buf, pop_buf_size := pop_size r\<rparr> in
     if bytes_int (take 4 buf) = consumer_i s1 then Ret (s1\<lparr>consumer_i := consumer_i s1 + 1\<rparr>)
     else Abort ''Assertion failed'')"

definition consumer_end :: "bench \<Rightarrow> bench" where
  "consumer_end s = s\<lparr>items_consumed := i32 (uint (consumer_i s))\<rparr>"

text \<open>A call that polls is not over: the thread stays where it is.\<close>

definition poll_on :: "bench outcome \<Rightarrow> bench \<Rightarrow> (bench \<Rightarrow> bench outcome) \<Rightarrow> bench outcome" where
  "poll_on r s after = (case r of Hang \<Rightarrow> Ret s | _ \<Rightarrow> bind_out r after)"

definition producer_push :: "bench \<Rightarrow> bench outcome" where
  "producer_push s =
     (case producer_at s of
        Entered \<Rightarrow> Ret (s\<lparr>producer_at := Testing\<rparr>)
      | Testing \<Rightarrow>
          if stop_flag s then bind_out (producer_end s) (\<lambda>s1. Ret (s1\<lparr>producer_at := Exited\<rparr>))
          else Ret (s\<lparr>producer_at := Calling\<rparr>)
      | Calling \<Rightarrow> poll_on (push_item s) s (\<lambda>s1. Ret (s1\<lparr>producer_at := Testing\<rparr>))
      | Exited \<Rightarrow> Ret s)"

text \<open>A turn of the consumer has a reading \<open>t\<close> of the clock, for the places where the code reads it.\<close>

definition consumer_pop :: "timespec \<Rightarrow> bench \<Rightarrow> bench outcome" where
  "consumer_pop t s =
     (case consumer_at s of
        Entered \<Rightarrow> Ret (s\<lparr>run_start := t, consumer_at := Testing\<rparr>)
      | Testing \<Rightarrow>
          if stop_flag s then Ret ((consumer_end (s\<lparr>run_end := t\<rparr>))\<lparr>consumer_at := Exited\<rparr>)
          else Ret (s\<lparr>consumer_at := Calling\<rparr>)
      | Calling \<Rightarrow> poll_on (pop_item s) s (\<lambda>s1. Ret (s1\<lparr>consumer_at := Testing\<rparr>))
      | Exited \<Rightarrow> Ret s)"

text \<open>The interval variant times every \<open>pop\<close> and keeps the nanoseconds of the last one.\<close>

definition interval_consumer_pop :: "timespec \<Rightarrow> bench \<Rightarrow> bench outcome" where
  "interval_consumer_pop t s =
     (case consumer_at s of
        Entered \<Rightarrow> Ret (s\<lparr>consumer_at := Testing\<rparr>)
      | Testing \<Rightarrow>
          if stop_flag s then Ret ((consumer_end s)\<lparr>consumer_at := Exited\<rparr>)
          else Ret (s\<lparr>run_start := t, consumer_at := Calling\<rparr>)
      | Calling \<Rightarrow> poll_on (pop_item s) s (\<lambda>s1.
          Ret (s1\<lparr>run_end := t, run_total := (run_total s1)\<lparr>tv_nsec := tv_nsec t - tv_nsec (run_start s1)\<rparr>,
                  consumer_at := Testing\<rparr>))
      | Exited \<Rightarrow> Ret s)"

text \<open>The main thread's only turn between creating and joining the others sets \<open>stop_flag\<close>.\<close>

datatype turn = Producer | Consumer timespec | Stop

fun bench_step :: "(timespec \<Rightarrow> bench \<Rightarrow> bench outcome) \<Rightarrow> turn \<Rightarrow> bench \<Rightarrow> bench outcome" where
  "bench_step cons Producer s = producer_push s"
| "bench_step cons (Consumer t) s = cons t s"
| "bench_step cons Stop s = Ret (s\<lparr>stop_flag := True\<rparr>)"

definition bench_report_stats :: "bench \<Rightarrow> out_line list" where
  "bench_report_stats s =
     (let total_us = of_int (tv_sec (run_total s)) * 1000000 + of_int (tv_nsec (run_total s)) / 1000;
          total_ms = of_int (tv_sec (run_total s)) * 1000 + of_int (tv_nsec (run_total s)) / 1000000
      in [Long ''Time'' (tv_sec (run_total s)), Long ''ItemsConsumed'' (items_consumed s),
          Long ''MaxQueueDepth'' (max_queue_depth s), Long ''AverageQueueDepth'' (average_queue_depth s),
          Float ''ns/op'' (fdiv (total_us * 1000) (of_int (items_consumed s))),
          Float ''ops/ms'' (fdiv (of_int (items_consumed s)) total_ms)])"

section \<open>The benchmark\<close>

definition bench_key :: int where "bench_key = 1"

text \<open>\<open>while (shmid == -1)\<close>, at most \<open>fuel\<close> further attempts.\<close>

fun create_segment :: "('k, 'b) kernel \<Rightarrow> nat \<Rightarrow> 'k \<Rightarrow> (int \<times> 'k) outcome" where
  "create_segment K fuel k =
     (let (shmid, k1) = shm_create K bench_key (int QUEUE_SIZE) create_flag k in
      if shmid \<noteq> -1 then Ret (shmid, k1)
      else case fuel of 0 \<Rightarrow> Hang | Suc n \<Rightarrow> create_segment K n k1)"

declare create_segment.simps [simp del]

definition bench_start :: "bench \<Rightarrow> spsc_queue_header \<Rightarrow> bench" where
  "bench_start run1 q = run1\<lparr>bench_queue := q, producer_i := 0, queue_depth_samples := 0, consumer_i := 0,
     pop_buf_size := BENCH_MESSAGE_SIZE, producer_at := Entered, consumer_at := Entered\<rparr>"

text \<open>
  The body both benchmarks share: \<open>cons\<close> is the consumer, \<open>totals\<close> what follows the joins before
  the report. While a thread has not left, its join does not return.
\<close>

definition bench_driver ::
  "('k, 'b) kernel \<Rightarrow> nat \<Rightarrow> (timespec \<Rightarrow> bench \<Rightarrow> bench outcome) \<Rightarrow> (bench \<Rightarrow> bench) \<Rightarrow> turn list \<Rightarrow> bench \<Rightarrow> 'k \<Rightarrow>
   (out_line list \<times> bench \<times> 'k) outcome"
where
  "bench_driver K fuel cons totals turns run1 k =
     bind_out (create_segment K fuel k) (\<lambda>(shmid, k1).
     let (shmaddr, k2) = shm_attach K shmid k1 in
     bind_out (setup_poll K (int BENCH_MESSAGE_SIZE) bench_key shmaddr k2) (\<lambda>k3.
     bind_out (bind_out (deref K shmaddr k3) as_poll) (\<lambda>q.
     bind_out (run_steps (bench_step cons) turns (bench_start run1 q)) (\<lambda>s.
     if producer_at s = Exited \<and> consumer_at s = Exited then
       bind_out (write_through K shmaddr (PollQ (bench_queue s)) k3) (\<lambda>k4.
       let s1 = totals s; (e1, k5) = shm_detach K shmaddr k4; (e2, k6) = shm_remove K shmid k5 in
       Ret (bench_report_stats s1, s1, k6))
     else Hang))))"

definition batch_total :: "bench \<Rightarrow> bench" where
  "batch_total s = s\<lparr>run_total := \<lparr>tv_sec = tv_sec (run_end s) - tv_sec (run_start s),
     tv_nsec = tv_nsec (run_end s) - tv_nsec (run_start s)\<rparr>\<rparr>"

definition notnets_bench_enqueue_dequeue ::
  "('k, 'b) kernel \<Rightarrow> nat \<Rightarrow> turn list \<Rightarrow> bench \<Rightarrow> 'k \<Rightarrow> (out_line list \<times> bench \<times> 'k) outcome"
where
  "notnets_bench_enqueue_dequeue K fuel turns run1 k = bench_driver K fuel consumer_pop batch_total turns run1 k"

definition notnets_bench_enqueue_dequeue_interval ::
  "('k, 'b) kernel \<Rightarrow> nat \<Rightarrow> turn list \<Rightarrow> bench \<Rightarrow> 'k \<Rightarrow> (out_line list \<times> bench \<times> 'k) outcome"
where
  "notnets_bench_enqueue_dequeue_interval K fuel turns run1 k =
     bench_driver K fuel interval_consumer_pop (\<lambda>s. s) turns (run1\<lparr>max_queue_depth := 0, stop_flag := False\<rparr>) k"

text \<open>The threads pin themselves to cores first; \<open>res\<close> is the result of \<open>pthread_setaffinity_np\<close>.\<close>

definition pinThread :: "int \<Rightarrow> int \<Rightarrow> unit outcome" where
  "pinThread cpu res = (if cpu < 0 then Ret () else if res = -1 then Exit 1 else Ret ())"

text \<open>
  \<open>pthread_setaffinity_np\<close> returns 0 or a positive error number, so that no failure is noticed.
\<close>

lemma pinThread_ignores_errors: "0 \<le> res \<Longrightarrow> pinThread cpu res = Ret ()"
  by (simp add: pinThread_def)

section \<open>The invariant of the two threads\<close>

text \<open>The queue holds the numbers the producer is ahead of the consumer.\<close>

definition numbers :: "nat \<Rightarrow> nat \<Rightarrow> byte list list" where
  "numbers c p = map (\<lambda>n. int_bytes (of_nat n)) [c..<p]"

definition bench_inv :: "nat \<Rightarrow> nat \<Rightarrow> bench \<Rightarrow> bool" where
  "bench_inv c p s \<longleftrightarrow> c \<le> p \<and> poll_inv (bench_queue s) \<and> message_size (bench_queue s) = 4 \<and>
     abs_queue (bench_queue s) = \<lparr>msgs = numbers c p, read_off = 0\<rparr> \<and>
     producer_i s = of_nat p \<and> consumer_i s = of_nat c \<and> pop_buf_size s = 4 \<and>
     queue_depth_samples s \<le> int p \<and> 0 \<le> queue_depth_samples s \<and> (0 < p \<longrightarrow> 0 < queue_depth_samples s)"

lemma queue_depth_eq:
  assumes "queue_inv q" "2 \<le> message_size q"
  shows "queue_depth q = Ret (if contents q = [] then 0 else queue_size q - int (length (contents q)))"
proof -
  note d = queue_invD [OF assms(1)]
  have "nslots q * 2 \<le> nslots q * message_size q" using assms(2) by simp
  also have "\<dots> \<le> length (message_array q)" by (rule d(9))
  also have "\<dots> < 2147483648" using assms(1) by (simp add: queue_inv_def)
  finally have "nslots q * 2 < 2147483648" .
  then have "i32 (i32 (tail q - head q) + queue_size q) = tail q - head q + queue_size q"
    using d(1,2,11) by (simp add: i32_id flip: d(3-5))
  moreover have "Prelude.cmod (tail q - head q + queue_size q) (queue_size q) =
      (if head q = tail q then 0 else queue_size q - int (ring_len (nslots q) (tpos q) (hpos q)))"
  proof -
    let ?x = "tail q - head q + queue_size q"
    have pos: "0 \<le> ?x" "0 < queue_size q" using d(1,2) by (simp_all flip: d(3-5))
    consider "head q = tail q" | "tail q < head q" | "head q < tail q" by linarith
    then have "?x mod queue_size q = (if head q = tail q then 0 else queue_size q - int (ring_len (nslots q) (tpos q) (hpos q)))"
    proof cases
      case 2
      then have "?x mod queue_size q = ?x" using pos by (intro mod_pos_pos_trivial) simp_all
      with 2 show ?thesis by (simp add: ring_len_def flip: d(3-5))
    next
      case 3
      then have "?x mod queue_size q = tail q - head q" using d(1,2) by (simp flip: d(3-5))
      with 3 d(1,2) show ?thesis by (simp add: ring_len_def flip: d(3-5))
    qed simp
    with pos show ?thesis by (simp add: cmod_nonneg)
  qed
  ultimately show ?thesis
    using d(1,5) contents_empty_iff [OF assms(1)] length_contents [OF assms(1)] by (auto simp: queue_depth_def)
qed

lemma sample_run:
  assumes "poll_inv (bench_queue s)" "message_size (bench_queue s) = 4"
  obtains s' where "sample s = Ret s'" "bench_queue s' = bench_queue s" "producer_i s' = producer_i s"
    "consumer_i s' = consumer_i s" "pop_buf_size s' = pop_buf_size s"
    "queue_depth_samples s' = i32 (queue_depth_samples s + 1)" "stop_flag s' = stop_flag s"
    "consumer_at s' = consumer_at s" "items_consumed s' = items_consumed s"
  using assms queue_depth_eq [of "bench_queue s"] by (auto simp: sample_def poll_inv_def)

lemma push_item_run:
  assumes inv: "bench_inv c p s" and small: "p + 1 < 2147483648"
  shows "if p - c < capacity (bench_queue s)
    then \<exists>s'. push_item s = Ret s' \<and> bench_inv c (Suc p) s' \<and> capacity (bench_queue s') = capacity (bench_queue s) \<and>
      stop_flag s' = stop_flag s \<and> consumer_at s' = consumer_at s \<and> items_consumed s' = items_consumed s
    else push_item s = Hang"
proof (cases "length (numbers c p) < capacity (bench_queue s)")
  case True
  let ?q = "bench_queue s" and ?m = "int_bytes (of_nat p)"
  have "fifo_push (capacity ?q) ?m (abs_queue ?q) = Some \<lparr>msgs = numbers c p @ [?m], read_off = 0\<rparr>"
    using True inv by (simp add: fifo_push_def bench_inv_def)
  moreover have "numbers c p @ [?m] = numbers c (Suc p)" using inv by (simp add: numbers_def bench_inv_def)
  ultimately obtain q where q: "push ?q ?m 4 = Ret (0, q)" "poll_inv q" "message_size q = 4"
    "abs_queue q = \<lparr>msgs = numbers c (Suc p), read_off = 0\<rparr>" "capacity q = capacity ?q"
    using poll.send_refines [of ?q ?m] inv by (auto simp: bench_inv_def)
  let ?s1 = "s\<lparr>bench_queue := q\<rparr>"
  have "\<exists>s2. (if producer_i s mod 1000000 = 0 then sample ?s1 else Ret ?s1) = Ret s2 \<and>
      bench_queue s2 = q \<and> producer_i s2 = producer_i s \<and> consumer_i s2 = consumer_i s \<and> pop_buf_size s2 = pop_buf_size s \<and>
      stop_flag s2 = stop_flag s \<and> consumer_at s2 = consumer_at s \<and> items_consumed s2 = items_consumed s \<and>
      queue_depth_samples s2 = queue_depth_samples s + (if producer_i s mod 1000000 = 0 then 1 else 0)"
  proof (cases "producer_i s mod 1000000 = 0")
    case True
    obtain s' where "sample ?s1 = Ret s'" "bench_queue s' = q" "producer_i s' = producer_i s"
      "consumer_i s' = consumer_i s" "pop_buf_size s' = pop_buf_size s" "queue_depth_samples s' = i32 (queue_depth_samples s + 1)"
      "stop_flag s' = stop_flag s" "consumer_at s' = consumer_at s" "items_consumed s' = items_consumed s"
      using sample_run [of ?s1] q(2,3) by auto
    moreover have "i32 (queue_depth_samples s + 1) = queue_depth_samples s + 1"
      using inv small by (intro i32_id) (auto simp: bench_inv_def)
    ultimately show ?thesis using True by auto
  qed simp
  then obtain s2 where s2:
    "(if producer_i s mod 1000000 = 0 then sample ?s1 else Ret ?s1) = Ret s2"
    "bench_queue s2 = q" "producer_i s2 = producer_i s" "consumer_i s2 = consumer_i s" "pop_buf_size s2 = pop_buf_size s"
    "stop_flag s2 = stop_flag s" "consumer_at s2 = consumer_at s" "items_consumed s2 = items_consumed s"
    "queue_depth_samples s2 = queue_depth_samples s + (if producer_i s mod 1000000 = 0 then 1 else 0)" by blast
  have "push_item s = Ret (s2\<lparr>producer_i := producer_i s2 + 1\<rparr>)"
    using q(1) s2 inv by (simp add: push_item_def BENCH_MESSAGE_SIZE_def bench_inv_def Let_def)
  moreover have "bench_inv c (Suc p) (s2\<lparr>producer_i := producer_i s2 + 1\<rparr>)"
    using inv q s2 by (cases "p = 0") (auto simp: bench_inv_def)
  ultimately show ?thesis using True s2 q(5) by (auto simp: numbers_def)
next
  case False
  with inv poll.abs_bounded [of "bench_queue s"] have "length (msgs (abs_queue (bench_queue s))) = capacity (bench_queue s)"
    by (simp add: bench_inv_def)
  then have "push (bench_queue s) (int_bytes (producer_i s)) 4 = Hang"
    using inv poll.send_blocks [of "bench_queue s" 4] by (simp add: bench_inv_def)
  with inv False show ?thesis by (auto simp: push_item_def BENCH_MESSAGE_SIZE_def numbers_def)
qed

lemma pop_item_run:
  assumes inv: "bench_inv c p s"
  shows "if c < p
    then \<exists>s'. pop_item s = Ret s' \<and> bench_inv (Suc c) p s' \<and> capacity (bench_queue s') = capacity (bench_queue s) \<and>
      stop_flag s' = stop_flag s \<and> producer_at s' = producer_at s
    else pop_item s = Hang"
proof (cases "c < p")
  case False
  with inv have "c = p" by (simp add: bench_inv_def)
  with inv have "poll_recv (bench_queue s) 4 = Hang" by (intro poll.recv_blocks) (simp_all add: bench_inv_def numbers_def)
  then have "pop (bench_queue s) 4 = Hang" by (cases "pop (bench_queue s) 4") (auto simp: poll_recv_def)
  with inv False show ?thesis by (auto simp: pop_item_def bench_inv_def)
next
  case True
  let ?q = "bench_queue s" and ?m = "int_bytes (of_nat c)"
  have n: "numbers c p = ?m # numbers (Suc c) p" using True by (simp add: numbers_def upt_conv_Cons)
  then have f: "fifo_pop 4 (abs_queue ?q) = Some ((0, ?m), \<lparr>msgs = numbers (Suc c) p, read_off = 0\<rparr>)"
    using inv by (simp add: fifo_pop_def bench_inv_def)
  have "opos ?q = 0" using inv by (simp add: bench_inv_def abs_queue_def)
  with pop_refines [OF _ _ f] inv obtain q where q: "pop ?q 4 = Ret (\<lparr>pop_read = 0, pop_out = ?m, pop_size = 4\<rparr>, q)"
    "poll_inv q" "abs_queue q = \<lparr>msgs = numbers (Suc c) p, read_off = 0\<rparr>" "message_size q = 4" "capacity q = capacity ?q"
    by (auto simp: bench_inv_def)
  let ?s = "s\<lparr>bench_queue := q, pop_buf := ?m @ drop 4 (pop_buf s), pop_buf_size := 4, consumer_i := of_nat c + 1\<rparr>"
  have "pop_item s = Ret ?s" using q(1) inv by (simp add: pop_item_def bench_inv_def Let_def)
  moreover have "bench_inv (Suc c) p ?s" using inv q True by (simp add: bench_inv_def)
  ultimately show ?thesis using True q(5) by auto
qed

section \<open>The two threads as counters\<close>

text \<open>
  What matters of a run: how many numbers were pushed and popped, where the threads are, and the
  flag. \<open>cap\<close> is the capacity of the ring. The benchmark implements this machine step by step.
\<close>

record view =
  n_pushed :: nat
  n_popped :: nat
  p_at :: thread_pc
  c_at :: thread_pc
  stopped :: bool

fun view_step :: "nat \<Rightarrow> turn \<Rightarrow> view \<Rightarrow> view outcome" where
  "view_step cap Producer v =
     (case p_at v of
        Entered \<Rightarrow> Ret (v\<lparr>p_at := Testing\<rparr>)
      | Testing \<Rightarrow>
          if \<not> stopped v then Ret (v\<lparr>p_at := Calling\<rparr>)
          else if n_pushed v = 0 then Fault DivByZero else Ret (v\<lparr>p_at := Exited\<rparr>)
      | Calling \<Rightarrow> if n_pushed v - n_popped v < cap then Ret (v\<lparr>n_pushed := Suc (n_pushed v), p_at := Testing\<rparr>) else Ret v
      | Exited \<Rightarrow> Ret v)"
| "view_step cap (Consumer t) v =
     (case c_at v of
        Entered \<Rightarrow> Ret (v\<lparr>c_at := Testing\<rparr>)
      | Testing \<Rightarrow> Ret (v\<lparr>c_at := if stopped v then Exited else Calling\<rparr>)
      | Calling \<Rightarrow> if n_popped v < n_pushed v then Ret (v\<lparr>n_popped := Suc (n_popped v), c_at := Testing\<rparr>) else Ret v
      | Exited \<Rightarrow> Ret v)"
| "view_step cap Stop v = Ret (v\<lparr>stopped := True\<rparr>)"

definition bench_rel :: "nat \<Rightarrow> view \<Rightarrow> bench \<Rightarrow> bool" where
  "bench_rel cap v s \<longleftrightarrow> bench_inv (n_popped v) (n_pushed v) s \<and> capacity (bench_queue s) = cap \<and>
     producer_at s = p_at v \<and> consumer_at s = c_at v \<and> stop_flag s = stopped v \<and>
     (c_at v = Exited \<longrightarrow> items_consumed s = int (n_popped v))"

text \<open>What a consumer has to do; both do.\<close>

definition consumer_ok :: "(timespec \<Rightarrow> bench \<Rightarrow> bench outcome) \<Rightarrow> bool" where
  "consumer_ok cons \<longleftrightarrow> (\<forall>cap v s t v'. bench_rel cap v s \<and> n_pushed v < 2147483648 \<and> view_step cap (Consumer t) v = Ret v' \<longrightarrow>
     (\<exists>s'. cons t s = Ret s' \<and> bench_rel cap v' s'))"

lemma consumer_end_items:
  assumes "bench_inv c p s" "p < 2147483648"
  shows "items_consumed (consumer_end s) = int c"
proof -
  have "c < 2147483648" using assms by (simp add: bench_inv_def)
  then have "unat (consumer_i s) = c" using assms by (simp add: bench_inv_def unat_of_nat)
  with \<open>c < 2147483648\<close> show ?thesis by (simp add: consumer_end_def uint_nat i32_id)
qed

lemma bench_inv_frame [simp]:
  "bench_inv c p (s\<lparr>producer_at := a\<rparr>) = bench_inv c p s" "bench_inv c p (s\<lparr>consumer_at := a\<rparr>) = bench_inv c p s"
  "bench_inv c p (s\<lparr>stop_flag := b\<rparr>) = bench_inv c p s" "bench_inv c p (s\<lparr>run_start := t\<rparr>) = bench_inv c p s"
  "bench_inv c p (s\<lparr>run_end := t\<rparr>) = bench_inv c p s" "bench_inv c p (s\<lparr>run_total := t\<rparr>) = bench_inv c p s"
  "bench_inv c p (s\<lparr>average_queue_depth := i\<rparr>) = bench_inv c p s" "bench_inv c p (consumer_end s) = bench_inv c p s"
  by (simp_all add: bench_inv_def consumer_end_def)

lemma consumer_end_frame [simp]:
  "bench_queue (consumer_end s) = bench_queue s" "producer_at (consumer_end s) = producer_at s"
  "stop_flag (consumer_end s) = stop_flag s" "consumer_at (consumer_end s) = consumer_at s"
  by (simp_all add: consumer_end_def)

lemma consumers_ok: "consumer_ok consumer_pop" "consumer_ok interval_consumer_pop"
proof -
  have "(\<exists>s'. consumer_pop t s = Ret s' \<and> bench_rel cap v' s') \<and> (\<exists>s'. interval_consumer_pop t s = Ret s' \<and> bench_rel cap v' s')"
    if r: "bench_rel cap v s" "n_pushed v < 2147483648" "view_step cap (Consumer t) v = Ret v'" for cap v s t v'
  proof -
    have inv: "bench_inv (n_popped v) (n_pushed v) s" and at: "consumer_at s = c_at v" using r(1) by (simp_all add: bench_rel_def)
    have items: "items_consumed (consumer_end (s\<lparr>run_end := t\<rparr>)) = int (n_popped v)" "items_consumed (consumer_end s) = int (n_popped v)"
      by (rule consumer_end_items [OF _ r(2)], simp add: inv)+
    show ?thesis
    proof (cases "c_at v")
      case Calling
      with pop_item_run [OF inv] at r(1,3) show ?thesis
        by (auto simp: consumer_pop_def interval_consumer_pop_def poll_on_def bench_rel_def split: if_splits)
    qed (use r at items in \<open>auto simp: consumer_pop_def interval_consumer_pop_def bench_rel_def\<close>)
  qed
  then show "consumer_ok consumer_pop" "consumer_ok interval_consumer_pop" unfolding consumer_ok_def by blast+
qed

lemma step_refines:
  assumes ok: "consumer_ok cons" and r: "bench_rel cap v s" and small: "n_pushed v + 1 < 2147483648"
    and step: "view_step cap u v = Ret v'"
  shows "\<exists>s'. bench_step cons u s = Ret s' \<and> bench_rel cap v' s'"
proof (cases u)
  case Producer
  have inv: "bench_inv (n_popped v) (n_pushed v) s" and at: "producer_at s = p_at v" "capacity (bench_queue s) = cap"
    using r by (simp_all add: bench_rel_def)
  show ?thesis
  proof (cases "p_at v")
    case Calling
    with push_item_run [OF inv small] at r step Producer show ?thesis
      by (auto simp: producer_push_def poll_on_def bench_rel_def split: if_splits)
  next
    case Testing
    have "queue_depth_samples s \<noteq> 0" if "n_pushed v \<noteq> 0" using inv that by (simp add: bench_inv_def)
    with Testing at r step Producer show ?thesis
      by (auto simp: producer_push_def producer_end_def bench_rel_def split: if_splits)
  qed (use r at step Producer in \<open>auto simp: producer_push_def bench_rel_def\<close>)
next
  case (Consumer t)
  then show ?thesis
    using ok [unfolded consumer_ok_def, rule_format, of cap v s t v'] r small step by (simp del: view_step.simps)
next
  case Stop
  with r step show ?thesis by (auto simp: bench_rel_def)
qed

lemma view_step_pushed: "view_step cap u v = Ret v' \<Longrightarrow> n_pushed v' \<le> Suc (n_pushed v)"
  by (cases u) (auto split: thread_pc.splits if_splits)

lemma run_refines:
  assumes "consumer_ok cons" "bench_rel cap v s" "n_pushed v + length us < 2147483648" "run_steps (view_step cap) us v = Ret v'"
  shows "\<exists>s'. run_steps (bench_step cons) us s = Ret s' \<and> bench_rel cap v' s'"
  using assms(2-4)
proof (induction us arbitrary: v s)
  case (Cons u us)
  then obtain v1 where v1: "view_step cap u v = Ret v1" "run_steps (view_step cap) us v1 = Ret v'" by (auto simp: bind_out_eq_Ret)
  obtain s1 where s1: "bench_step cons u s = Ret s1" "bench_rel cap v1 s1"
    using step_refines [OF assms(1) Cons.prems(1) _ v1(1)] Cons.prems(2) by auto
  have "n_pushed v1 + length us < 2147483648" using view_step_pushed [OF v1(1)] Cons.prems(2) by simp
  from Cons.IH [OF s1(2) this v1(2)] s1(1) show ?case by simp
qed auto

section \<open>How a run ends\<close>

text \<open>The first three turns of the producer push the first number, whatever the consumer does.\<close>

fun stage :: "thread_pc \<Rightarrow> nat" where
  "stage Entered = 0" | "stage Testing = 1" | "stage Calling = 2" | "stage Exited = 3"

definition running :: "nat \<Rightarrow> view \<Rightarrow> bool" where
  "running cap v \<longleftrightarrow> \<not> stopped v \<and> n_popped v \<le> n_pushed v \<and> n_pushed v - n_popped v \<le> cap \<and> (n_pushed v = 0 \<longrightarrow> p_at v \<noteq> Exited)"

lemma running_step:
  assumes "0 < cap" "u \<noteq> Stop" "running cap v"
  obtains v' where "view_step cap u v = Ret v'" "running cap v'" "n_pushed v \<le> n_pushed v'"
    "0 < n_pushed v' \<or> stage (p_at v') = stage (p_at v) + (if u = Producer then 1 else 0)"
proof -
  have "\<exists>v'. view_step cap u v = Ret v'"
    using assms by (cases u) (auto simp: running_def split: thread_pc.split)
  then obtain v' where v': "view_step cap u v = Ret v'" ..
  have "running cap v'" "n_pushed v \<le> n_pushed v'"
    "0 < n_pushed v' \<or> stage (p_at v') = stage (p_at v) + (if u = Producer then 1 else 0)"
    using v' assms by (cases u; auto simp: running_def split: thread_pc.splits if_splits)+
  with v' show thesis by (rule that)
qed

lemma view_running:
  assumes "0 < cap" "Stop \<notin> set us" "running cap v"
  obtains v' where "run_steps (view_step cap) us v = Ret v'" "running cap v'"
    "0 < n_pushed v \<or> 3 \<le> stage (p_at v) + count_list us Producer \<Longrightarrow> 0 < n_pushed v'"
  using assms(2,3)
proof (induction us arbitrary: v thesis)
  case Nil
  then show ?case by (cases "p_at v") (auto simp: running_def)
next
  case (Cons u us)
  then have u: "u \<noteq> Stop" "Stop \<notin> set us" by auto
  obtain v1 where v1: "view_step cap u v = Ret v1" "running cap v1" "n_pushed v \<le> n_pushed v1"
    "0 < n_pushed v1 \<or> stage (p_at v1) = stage (p_at v) + (if u = Producer then 1 else 0)"
    by (rule running_step [OF assms(1) u(1) Cons.prems(3)])
  obtain v2 where v2: "run_steps (view_step cap) us v1 = Ret v2" "running cap v2"
    "0 < n_pushed v1 \<or> 3 \<le> stage (p_at v1) + count_list us Producer \<Longrightarrow> 0 < n_pushed v2"
    using Cons.IH [OF _ u(2) v1(2)] by blast
  show ?case
    by (rule Cons.prems(1) [of v2]) (use v1 v2 in \<open>auto split: if_splits\<close>)
qed

text \<open>
  After the stop every thread makes at most two rest moves. A thread that is neither out nor
  stuck in its call stays so until it has moved, and a move brings the end nearer.
\<close>

fun moves_left :: "thread_pc \<Rightarrow> nat" where
  "moves_left Entered = 2" | "moves_left Testing = 1" | "moves_left Calling = 2" | "moves_left Exited = 0"

definition to_go :: "view \<Rightarrow> nat" where
  "to_go v = moves_left (p_at v) + moves_left (c_at v)"

definition stopping :: "nat \<Rightarrow> view \<Rightarrow> bool" where
  "stopping cap v \<longleftrightarrow> stopped v \<and> 0 < n_pushed v \<and> n_popped v \<le> n_pushed v \<and> n_pushed v - n_popped v \<le> cap"

definition p_moves :: "nat \<Rightarrow> view \<Rightarrow> bool" where
  "p_moves cap v \<longleftrightarrow> p_at v \<noteq> Exited \<and> (p_at v = Calling \<longrightarrow> n_pushed v - n_popped v < cap)"

definition c_moves :: "view \<Rightarrow> bool" where
  "c_moves v \<longleftrightarrow> c_at v \<noteq> Exited \<and> (c_at v = Calling \<longrightarrow> n_popped v < n_pushed v)"

lemma stopped_again: "stopped v \<Longrightarrow> v\<lparr>stopped := True\<rparr> = v"
  by (cases v) simp

lemma stopping_step:
  assumes "stopping cap v"
  obtains v' where "view_step cap u v = Ret v'" "stopping cap v'" "to_go v' \<le> to_go v"
    "u = Producer \<Longrightarrow> p_moves cap v \<Longrightarrow> to_go v' < to_go v" "(\<exists>t. u = Consumer t) \<Longrightarrow> c_moves v \<Longrightarrow> to_go v' < to_go v"
    "u \<noteq> Producer \<Longrightarrow> p_moves cap v \<Longrightarrow> p_moves cap v'" "(\<forall>t. u \<noteq> Consumer t) \<Longrightarrow> c_moves v \<Longrightarrow> c_moves v'"
    "\<not> p_moves cap v \<and> \<not> c_moves v \<Longrightarrow> v' = v"
proof -
  have "\<exists>v'. view_step cap u v = Ret v'"
    using assms by (cases u) (auto simp: stopping_def split: thread_pc.split)
  then obtain v' where v': "view_step cap u v = Ret v'" ..
  note defs = stopping_def to_go_def p_moves_def c_moves_def stopped_again
  have "stopping cap v'" "to_go v' \<le> to_go v"
    "u = Producer \<Longrightarrow> p_moves cap v \<Longrightarrow> to_go v' < to_go v" "(\<exists>t. u = Consumer t) \<Longrightarrow> c_moves v \<Longrightarrow> to_go v' < to_go v"
    "u \<noteq> Producer \<Longrightarrow> p_moves cap v \<Longrightarrow> p_moves cap v'" "(\<forall>t. u \<noteq> Consumer t) \<Longrightarrow> c_moves v \<Longrightarrow> c_moves v'"
    "\<not> p_moves cap v \<and> \<not> c_moves v \<Longrightarrow> v' = v"
    using v' assms by (cases u; auto simp: defs split: thread_pc.splits if_splits)+
  with v' show thesis by (rule that)
qed

lemma stopping_run:
  assumes "stopping cap v"
  obtains v' where "run_steps (view_step cap) us v = Ret v'" "stopping cap v'" "to_go v' \<le> to_go v"
    "Producer \<in> set us \<Longrightarrow> p_moves cap v \<Longrightarrow> to_go v' < to_go v" "Consumer t \<in> set us \<Longrightarrow> c_moves v \<Longrightarrow> to_go v' < to_go v"
    "\<not> p_moves cap v \<and> \<not> c_moves v \<Longrightarrow> v' = v"
  using assms
proof (induction us arbitrary: v thesis)
  case Nil
  show ?case by (rule Nil.prems(1) [of v]) (use Nil.prems(2) in auto)
next
  case (Cons u us)
  obtain v1 where v1: "view_step cap u v = Ret v1" "stopping cap v1" "to_go v1 \<le> to_go v"
    "u = Producer \<Longrightarrow> p_moves cap v \<Longrightarrow> to_go v1 < to_go v" "(\<exists>t. u = Consumer t) \<Longrightarrow> c_moves v \<Longrightarrow> to_go v1 < to_go v"
    "u \<noteq> Producer \<Longrightarrow> p_moves cap v \<Longrightarrow> p_moves cap v1" "(\<forall>t. u \<noteq> Consumer t) \<Longrightarrow> c_moves v \<Longrightarrow> c_moves v1"
    "\<not> p_moves cap v \<and> \<not> c_moves v \<Longrightarrow> v1 = v"
    by (rule stopping_step [OF Cons.prems(2), of u]) (rule that)
  obtain v2 where v2: "run_steps (view_step cap) us v1 = Ret v2" "stopping cap v2" "to_go v2 \<le> to_go v1"
    "Producer \<in> set us \<Longrightarrow> p_moves cap v1 \<Longrightarrow> to_go v2 < to_go v1" "Consumer t \<in> set us \<Longrightarrow> c_moves v1 \<Longrightarrow> to_go v2 < to_go v1"
    "\<not> p_moves cap v1 \<and> \<not> c_moves v1 \<Longrightarrow> v2 = v1"
    by (rule Cons.IH [OF _ v1(2)]) (rule that)
  have p: "to_go v2 < to_go v" if "Producer \<in> set (u # us)" "p_moves cap v"
  proof (cases "u = Producer")
    case True
    with v1(4) v2(3) that show ?thesis by simp
  next
    case False
    with v1(6) v2(4) that have "to_go v2 < to_go v1" by simp
    with v1(3) show ?thesis by simp
  qed
  have c: "to_go v2 < to_go v" if "Consumer t \<in> set (u # us)" "c_moves v"
  proof (cases "\<exists>t. u = Consumer t")
    case True
    with v1(5) v2(3) that show ?thesis by simp
  next
    case False
    with v1(7) v2(5) that have "to_go v2 < to_go v1" by auto
    with v1(3) show ?thesis by simp
  qed
  show ?case
  proof (rule Cons.prems(1) [of v2])
    show "run_steps (view_step cap) (u # us) v = Ret v2" using v1(1) v2(1) by simp
    show "to_go v2 \<le> to_go v" using v1(3) v2(3) by simp
    show "v2 = v" if "\<not> p_moves cap v \<and> \<not> c_moves v" using v1(8) [OF that] v2(6) that by simp
    show "stopping cap v2" by (rule v2(2))
    show "to_go v2 < to_go v" if "Producer \<in> set (u # us)" "p_moves cap v" by (rule p [OF that])
    show "to_go v2 < to_go v" if "Consumer t \<in> set (u # us)" "c_moves v" by (rule c [OF that])
  qed
qed

definition full_round :: "turn list \<Rightarrow> bool" where
  "full_round us \<longleftrightarrow> Producer \<in> set us \<and> (\<exists>t. Consumer t \<in> set us)"

text \<open>After enough rounds no thread moves: both have left, or one has and the other is stuck in its call.\<close>

lemma rounds_settle:
  assumes "stopping cap v" "list_all full_round rs" "to_go v \<le> length rs"
  obtains v' where "run_steps (view_step cap) (concat rs) v = Ret v'" "stopping cap v'" "\<not> p_moves cap v'" "\<not> c_moves v'"
  using assms
proof (induction rs arbitrary: v thesis)
  case Nil
  then have "p_at v = Exited" "c_at v = Exited" by (cases "p_at v"; cases "c_at v"; simp add: to_go_def)+
  with Nil show ?case by (auto simp: p_moves_def c_moves_def)
next
  case (Cons r rs)
  then obtain t where t: "Producer \<in> set r" "Consumer t \<in> set r" by (auto simp: full_round_def)
  obtain v1 where v1: "run_steps (view_step cap) r v = Ret v1" "stopping cap v1" "to_go v1 \<le> to_go v"
    "p_moves cap v \<or> c_moves v \<Longrightarrow> to_go v1 < to_go v" "\<not> p_moves cap v \<and> \<not> c_moves v \<Longrightarrow> v1 = v"
    by (rule stopping_run [OF Cons.prems(2), of r t]) (use t in blast)
  show ?case
  proof (cases "p_moves cap v \<or> c_moves v")
    case True
    then have "to_go v1 \<le> length rs" using v1(4) Cons.prems(4) by simp
    then obtain v2 where "run_steps (view_step cap) (concat rs) v1 = Ret v2" "stopping cap v2" "\<not> p_moves cap v2" "\<not> c_moves v2"
      using Cons.IH [OF _ v1(2)] Cons.prems(3) by auto
    then show ?thesis using v1(1) by (intro Cons.prems(1)) (simp_all add: run_steps_append)
  next
    case False
    then have "v1 = v" using v1(5) by blast
    obtain v2 where v2: "run_steps (view_step cap) (concat rs) v = Ret v2" "\<not> p_moves cap v \<and> \<not> c_moves v \<Longrightarrow> v2 = v"
      by (rule stopping_run [OF Cons.prems(2), of "concat rs" t]) blast
    with False have "v2 = v" by blast
    with v1(1) v2(1) False Cons.prems(2) \<open>v1 = v\<close> show ?thesis
      by (intro Cons.prems(1) [of v]) (simp_all add: run_steps_append)
  qed
qed

text \<open>Then nothing changes any rest, in the benchmark itself either.\<close>

lemma settled_refines:
  assumes "consumer_ok cons" "stopping cap v" "\<not> p_moves cap v" "\<not> c_moves v" "bench_rel cap v s" "n_pushed v + 1 < 2147483648"
  shows "\<exists>s'. run_steps (bench_step cons) us s = Ret s' \<and> bench_rel cap v s'"
  using assms(5)
proof (induction us arbitrary: s)
  case (Cons u us)
  obtain v1 where "view_step cap u v = Ret v1" "v1 = v" by (rule stopping_step [OF assms(2), of u]) (use assms(3,4) in blast)
  with step_refines [OF assms(1) Cons.prems assms(6), of u v] obtain s1 where "bench_step cons u s = Ret s1" "bench_rel cap v s1" by blast
  with Cons.IH show ?case by auto
qed simp

lemma view_pushed: "run_steps (view_step cap) us v = Ret v' \<Longrightarrow> n_pushed v' \<le> n_pushed v + length us"
proof (induction us arbitrary: v)
  case (Cons u us)
  then obtain v1 where v1: "view_step cap u v = Ret v1" "run_steps (view_step cap) us v1 = Ret v'" by (auto simp: bind_out_eq_Ret)
  from Cons.IH [OF v1(2)] view_step_pushed [OF v1(1)] show ?case by simp
qed simp

definition view0 :: view where
  "view0 = \<lparr>n_pushed = 0, n_popped = 0, p_at = Entered, c_at = Entered, stopped = False\<rparr>"

lemma start_rel: "fresh_poll 4 q \<Longrightarrow> \<not> stop_flag run1 \<Longrightarrow> bench_rel 3995 view0 (bench_start run1 q)"
  by (simp add: bench_rel_def view0_def bench_inv_def bench_start_def fresh_poll_def numbers_def BENCH_MESSAGE_SIZE_def QUEUE_SIZE_def)

text \<open>A complete schedule: some turns, at least three of the producer's, the stop, and some rest.\<close>

lemma stopped_run:
  assumes "Stop \<notin> set pre" "3 \<le> count_list pre Producer"
  obtains v1 v where "run_steps (view_step 3995) (pre @ [Stop]) view0 = Ret v1" "stopping 3995 v1"
    "run_steps (view_step 3995) (pre @ Stop # post) view0 = run_steps (view_step 3995) post v1"
proof -
  have "running 3995 view0" by (simp add: running_def view0_def)
  then obtain v0 where v0: "run_steps (view_step 3995) pre view0 = Ret v0" "running 3995 v0"
    "3 \<le> stage (p_at view0) + count_list pre Producer \<Longrightarrow> 0 < n_pushed v0"
    by (rule view_running [of 3995 pre view0, rotated 2]) (use assms(1) in auto)
  then have "stopping 3995 (v0\<lparr>stopped := True\<rparr>)" using assms(2) by (simp add: running_def stopping_def)
  then show thesis by (intro that [of "v0\<lparr>stopped := True\<rparr>"]) (simp_all add: run_steps_append v0(1))
qed

context region_kernel
begin

lemma driver_run:
  assumes free: "key_names K bench_key k = None"
    and threads: "\<And>q. fresh_poll 4 q \<Longrightarrow> \<exists>s. run_steps (bench_step cons) turns (bench_start run1 q) = Ret s \<and> bench_rel 3995 v s"
    and totals: "\<And>s. items_consumed (totals s) = items_consumed s"
  shows "if p_at v = Exited \<and> c_at v = Exited
    then \<exists>s k'. bench_driver K fuel cons totals turns run1 k = Ret (bench_report_stats s, s, k') \<and> items_consumed s = int (n_popped v)
    else bench_driver K fuel cons totals turns run1 k = Hang"
proof -
  have key: "bench_key \<noteq> 0" by (simp add: bench_key_def)
  obtain i k1 r where c: "shmget K bench_key (int QUEUE_SIZE) create_flag k = (i, k1)" "load_seg K i k1 = Some r" "usable r"
    by (rule create_usable [OF key, of k]) (use free in auto)
  have i: "i \<noteq> -1" using load_ids [of i k1] c(2) by auto
  obtain k2 where at: "shmat K i k1 = (Shm i, k2)" using shmat_succeeds c(2) by blast
  have l2: "load_seg K i k2 = Some r" using shmat_frame [OF at] c(2) by simp
  have msz: "0 < int BENCH_MESSAGE_SIZE" "int BENCH_MESSAGE_SIZE \<le> int (QUEUE_SIZE - 40)"
    by (simp_all add: BENCH_MESSAGE_SIZE_def QUEUE_SIZE_def)
  obtain q where q: "setup_poll K (int BENCH_MESSAGE_SIZE) bench_key (Shm i) k2 = Ret (store_seg K i (PollQ q) k2)" "fresh_poll 4 q"
    using setup_poll_run [OF l2 c(3) msz] by (auto simp: BENCH_MESSAGE_SIZE_def)
  let ?k3 = "store_seg K i (PollQ q) k2"
  have l3: "load_seg K i ?k3 = Some (PollQ q)" using load_store [of i k2] l2 by simp
  obtain s where s: "run_steps (bench_step cons) turns (bench_start run1 q) = Ret s" "bench_rel 3995 v s"
    using threads [OF q(2)] by blast
  obtain e1 k5 e2 k6 where dt: "shmdt K (Shm i) (store_seg K i (PollQ (bench_queue s)) ?k3) = (e1, k5)" "shmctl_rmid K i k5 = (e2, k6)"
    by (metis surj_pair)
  have "create_segment K fuel k = Ret (i, k1)" using c(1) i by (subst create_segment.simps) simp
  with at q(1) l3 s dt show ?thesis using totals by (auto simp: bench_driver_def bench_rel_def Let_def)
qed

lemma driver_outcomes:
  assumes free: "key_names K bench_key k = None" and ok: "consumer_ok cons" and run1: "\<not> stop_flag run1"
    and totals: "\<And>s. items_consumed (totals s) = items_consumed s"
    and turns: "turns = pre @ Stop # post" "Stop \<notin> set pre" "3 \<le> count_list pre Producer" "length turns < 2147483647"
    and bench: "bench = (\<lambda>ts. bench_driver K fuel cons totals ts run1 k)"
  shows "bench turns = Hang \<or>
      (\<exists>s k'. bench turns = Ret (bench_report_stats s, s, k') \<and> 0 \<le> items_consumed s \<and> items_consumed s \<le> int (length turns))"
    "post = concat rs \<Longrightarrow> 4 \<le> length rs \<Longrightarrow> list_all full_round rs \<Longrightarrow> bench turns = Hang \<Longrightarrow> bench (turns @ rest) = Hang"
    "bench ([Producer, Producer, Producer, Consumer a, Consumer b, Consumer c, Consumer d, Stop, Producer] @ rest) = Hang"
    "\<exists>s k'. bench [Producer, Producer, Producer, Consumer a, Consumer b, Consumer c, Stop, Producer, Consumer d] =
       Ret (bench_report_stats s, s, k') \<and> items_consumed s = 1"
proof -
  let ?run = "run_steps (view_step 3995)"
  have ret: "if p_at v = Exited \<and> c_at v = Exited
      then \<exists>s k'. bench ts = Ret (bench_report_stats s, s, k') \<and> items_consumed s = int (n_popped v) else bench ts = Hang"
    if "?run ts view0 = Ret v" "length ts < 2147483648" for ts v
    unfolding bench
  proof (rule driver_run [OF free _ totals])
    fix q assume "fresh_poll 4 q"
    from run_refines [OF ok start_rel [OF this run1] _ that(1)] that(2)
    show "\<exists>s. run_steps (bench_step cons) ts (bench_start run1 q) = Ret s \<and> bench_rel 3995 v s" by (simp add: view0_def)
  qed
  have ever: "bench (ts @ rest) = Hang"
    if v: "?run ts view0 = Ret v" "length ts < 2147483647" "stopping 3995 v" "\<not> p_moves 3995 v" "\<not> c_moves v" "\<not> (p_at v = Exited \<and> c_at v = Exited)"
    for ts v
  proof -
    have p: "n_pushed v \<le> length ts" using view_pushed [OF v(1)] by (simp add: view0_def)
    have "if p_at v = Exited \<and> c_at v = Exited
      then \<exists>s k'. bench (ts @ rest) = Ret (bench_report_stats s, s, k') \<and> items_consumed s = int (n_popped v) else bench (ts @ rest) = Hang"
      unfolding bench
    proof (rule driver_run [OF free _ totals])
      fix q assume "fresh_poll 4 q"
      from run_refines [OF ok start_rel [OF this run1] _ v(1)] v(2) obtain s where
        s: "run_steps (bench_step cons) ts (bench_start run1 q) = Ret s" "bench_rel 3995 v s" by (auto simp: view0_def)
      obtain s' where "run_steps (bench_step cons) rest s = Ret s'" "bench_rel 3995 v s'"
        using settled_refines [OF ok v(3-5) s(2), of rest] p v(2) by auto
      then show "\<exists>s. run_steps (bench_step cons) (ts @ rest) (bench_start run1 q) = Ret s \<and> bench_rel 3995 v s"
        by (simp add: run_steps_append s(1))
    qed
    then show ?thesis using v(6) by simp
  qed
  obtain v1 where v1: "?run (pre @ [Stop]) view0 = Ret v1" "stopping 3995 v1" "?run turns view0 = ?run post v1"
    unfolding turns(1) by (rule stopped_run [OF turns(2,3)])
  obtain v where v: "?run post v1 = Ret v" "stopping 3995 v" by (rule stopping_run [OF v1(2)])
  have run: "?run turns view0 = Ret v" using v1(3) v(1) by simp
  have le: "n_popped v \<le> length turns"
    using view_pushed [OF run] v(2) by (simp add: view0_def stopping_def)
  have len: "length turns < 2147483648" using turns(4) by simp
  show "bench turns = Hang \<or>
      (\<exists>s k'. bench turns = Ret (bench_report_stats s, s, k') \<and> 0 \<le> items_consumed s \<and> items_consumed s \<le> int (length turns))"
    using ret [OF run len] le by (auto split: if_splits)
  show "bench (turns @ rest) = Hang" if rs: "post = concat rs" "4 \<le> length rs" "list_all full_round rs" "bench turns = Hang"
  proof -
    have "to_go v1 \<le> length rs" using rs(2) by (cases "p_at v1"; cases "c_at v1") (simp_all add: to_go_def)
    with rs(1,3) v(1) have "\<not> p_moves 3995 v" "\<not> c_moves v"
      using rounds_settle [OF v1(2), of rs] by fastforce+
    moreover have "\<not> (p_at v = Exited \<and> c_at v = Exited)" using ret [OF run len] rs(4) by auto
    ultimately show ?thesis by (rule ever [OF run turns(4) v(2)])
  qed
  show "bench ([Producer, Producer, Producer, Consumer a, Consumer b, Consumer c, Consumer d, Stop, Producer] @ rest) = Hang"
    by (rule ever [where v = "\<lparr>n_pushed = 1, n_popped = 1, p_at = Exited, c_at = Calling, stopped = True\<rparr>"])
      (simp_all add: view0_def stopping_def p_moves_def c_moves_def)
  show "\<exists>s k'. bench [Producer, Producer, Producer, Consumer a, Consumer b, Consumer c, Stop, Producer, Consumer d] =
       Ret (bench_report_stats s, s, k') \<and> items_consumed s = 1"
    using ret [of _ "\<lparr>n_pushed = 1, n_popped = 1, p_at = Exited, c_at = Exited, stopped = True\<rparr>"] by (simp add: view0_def)
qed

end

section \<open>Properties\<close>

text \<open>
  C31: how the queue benchmarks end. On a kernel with room, with the key of the segment free and \<open>stop_flag\<close>
  clear, under every interleaving of the two threads of fewer than \<open>2 ^ 31 - 1\<close> turns in which the producer makes three turns before the main thread sets \<open>stop_flag\<close> (which is enough for its first
  \<open>push\<close>), no assertion of the consumer fails and nothing faults, and no more items are reported than turns were
  taken. Once both threads have had a turn in each of four rounds after the stop, a benchmark that has not
  printed its figures never will: its joins wait for a thread that polls inside its call. Both
  ends occur: when the consumer has drained the ring and is back inside \<open>pop\<close> at the stop, the producer leaves
  and the benchmark hangs for ever; when the consumer is at its test, the benchmark ends.
\<close>

theorem queue_benchmark_outcomes:
  assumes "region_kernel K" "key_names K bench_key k = None" "\<not> stop_flag run1"
    and "turns = pre @ Stop # post" "Stop \<notin> set pre" "3 \<le> count_list pre Producer" "length turns < 2147483647"
    and "bench = (\<lambda>ts. notnets_bench_enqueue_dequeue K fuel ts run1 k) \<or>
      bench = (\<lambda>ts. notnets_bench_enqueue_dequeue_interval K fuel ts run1 k)"
  shows "(bench turns = Hang \<or>
      (\<exists>s k'. bench turns = Ret (bench_report_stats s, s, k') \<and> 0 \<le> items_consumed s \<and> items_consumed s \<le> int (length turns))) \<and>
    (\<forall>rs rest. post = concat rs \<and> 4 \<le> length rs \<and> list_all full_round rs \<and> bench turns = Hang \<longrightarrow> bench (turns @ rest) = Hang) \<and>
    (\<forall>a b c d rest. bench ([Producer, Producer, Producer, Consumer a, Consumer b, Consumer c, Consumer d, Stop, Producer] @ rest) = Hang) \<and>
    (\<forall>a b c d. \<exists>s k'. bench [Producer, Producer, Producer, Consumer a, Consumer b, Consumer c, Stop, Producer, Consumer d] =
       Ret (bench_report_stats s, s, k') \<and> items_consumed s = 1)"
  using assms(8)
proof
  assume "bench = (\<lambda>ts. notnets_bench_enqueue_dequeue K fuel ts run1 k)"
  then have b: "bench = (\<lambda>ts. bench_driver K fuel consumer_pop batch_total ts run1 k)" by (simp add: notnets_bench_enqueue_dequeue_def)
  have "items_consumed (batch_total s) = items_consumed s" for s by (simp add: batch_total_def)
  from region_kernel.driver_outcomes [OF assms(1,2) consumers_ok(1) assms(3) this assms(4-7) b] show ?thesis by auto
next
  assume "bench = (\<lambda>ts. notnets_bench_enqueue_dequeue_interval K fuel ts run1 k)"
  then have b: "bench = (\<lambda>ts. bench_driver K fuel interval_consumer_pop (\<lambda>s. s) ts (run1\<lparr>max_queue_depth := 0, stop_flag := False\<rparr>) k)"
    by (simp add: notnets_bench_enqueue_dequeue_interval_def)
  have "\<not> stop_flag (run1\<lparr>max_queue_depth := 0, stop_flag := False\<rparr>)" by simp
  from region_kernel.driver_outcomes [OF assms(1,2) consumers_ok(2) this refl assms(4-7) b] show ?thesis by auto
qed

definition demo_bench :: bench where
  "demo_bench = \<lparr>bench_queue = demo_queue, run_start = \<lparr>tv_sec = 0, tv_nsec = 0\<rparr>, run_end = \<lparr>tv_sec = 0, tv_nsec = 0\<rparr>,
     run_total = \<lparr>tv_sec = 0, tv_nsec = 0\<rparr>, max_queue_depth = 0, average_queue_depth = 0, items_consumed = 0,
     producer_i = 0, queue_depth_samples = 0, consumer_i = 0, pop_buf = replicate 4 0, pop_buf_size = 4,
     stop_flag = False, producer_at = Entered, consumer_at = Entered\<rparr>"

definition demo_tick :: timespec where
  "demo_tick = \<lparr>tv_sec = 1, tv_nsec = 5\<rparr>"

theorem queue_benchmark_outcomes_witness:
  "notnets_bench_enqueue_dequeue (ref_sysv zero_region) 0
      ([Producer, Producer, Producer, Consumer demo_tick, Consumer demo_tick, Consumer demo_tick, Consumer demo_tick, Stop, Producer] @ replicate 1000 (Consumer demo_tick))
      demo_bench (ref_boot :: unit region ref_kernel) = Hang \<and>
   (\<exists>s k'. notnets_bench_enqueue_dequeue_interval (ref_sysv zero_region) 0
      [Producer, Producer, Producer, Consumer demo_tick, Consumer demo_tick, Consumer demo_tick, Stop, Producer, Consumer demo_tick] demo_bench
      (ref_boot :: unit region ref_kernel) = Ret (bench_report_stats s, s, k') \<and> items_consumed s = 1)"
proof -
  let ?pre = "[Producer, Producer, Producer]" and ?post = "[Producer, Consumer demo_tick]"
  have free: "key_names (ref_sysv zero_region) bench_key (ref_boot :: unit region ref_kernel) = None"
    by (simp add: ref_names_def ref_boot_def)
  have go: "\<not> stop_flag demo_bench" by (simp add: demo_bench_def)
  have turns: "Stop \<notin> set ?pre" "3 \<le> count_list ?pre Producer" "length (?pre @ Stop # ?post) < 2147483647" by simp_all
  note run = queue_benchmark_outcomes [OF ref_region.region_kernel_axioms free go refl turns]
  from run [OF disjI1 [OF refl], of 0] run [OF disjI2 [OF refl], of 0] show ?thesis by blast
qed

text \<open>
  The sampled queue depth counts the wrong side of the ring: for a queue of \<open>n\<close> slots
  that holds \<open>d > 0\<close> messages the benchmark records \<open>n - d\<close>.
\<close>

theorem queue_depth_inverted:
  assumes "queue_inv q" "2 \<le> message_size q"
  shows "queue_depth q = Ret (if contents q = [] then 0 else queue_size q - int (length (contents q)))"
  by (rule queue_depth_eq [OF assms])

theorem queue_depth_inverted_witness: "queue_depth demo_queue = Ret (queue_size demo_queue - 1) \<and> length (contents demo_queue) = 1"
proof -
  have "contents demo_queue = [[7, 8]]" using demo_queue_abs by (simp add: abs_queue_def)
  then show ?thesis using queue_depth_inverted [OF demo_queue_inv(2)] demo_queue_simps by simp
qed

end
