(* ===== verification/Multi_Conn.thy ===== *)
theory Multi_Conn
  imports Rpc_Session
begin

text \<open>
  Several connections of one server of \<open>src/libnotnets/src/rpc.cpp\<close> at once: which tables and
  queues opening, accepting and exchanging messages leave behind when the clients' keys do not
  overlap. The benchmarks with many clients, in theory Bench_Tests, rest on these lemmas.
\<close>

text \<open>
  The keys of a server \<open>D\<close> and of clients with identifiers \<open>ids\<close>: two for each client, all
  different and none of them 0.
\<close>

definition client_keys :: "int list \<Rightarrow> int list" where
  "client_keys ids = concat (map (\<lambda>c. [c, i32 (c + 1)]) ids)"

definition apart :: "int \<Rightarrow> int list \<Rightarrow> bool" where
  "apart D ids \<longleftrightarrow> distinct (D # client_keys ids) \<and> 0 \<notin> set (D # client_keys ids)"

lemma client_keys_simps [simp]:
  "client_keys [] = []" "client_keys (c # ids) = c # i32 (c + 1) # client_keys ids"
  "set (client_keys ids) = (\<Union>c \<in> set ids. {c, i32 (c + 1)})"
  by (auto simp: client_keys_def)

lemma apart_Cons: "apart D (c # ids) \<longleftrightarrow> apart D ids \<and> c \<noteq> 0 \<and> i32 (c + 1) \<noteq> 0 \<and> c \<noteq> D \<and> i32 (c + 1) \<noteq> D \<and>
  c \<noteq> i32 (c + 1) \<and> c \<notin> set (client_keys ids) \<and> i32 (c + 1) \<notin> set (client_keys ids)"
  by (auto simp: apart_def simp del: client_keys_simps(3))

lemma apartD:
  assumes "apart D ids" "c \<in> set ids"
  shows "D \<noteq> 0" "c \<noteq> 0" "i32 (c + 1) \<noteq> 0" "c \<noteq> D" "i32 (c + 1) \<noteq> D" "c \<noteq> i32 (c + 1)"
  using assms
proof -
  show "D \<noteq> 0" using assms(1) by (simp add: apart_def)
  show "c \<noteq> 0" "i32 (c + 1) \<noteq> 0" "c \<noteq> D" "i32 (c + 1) \<noteq> D" "c \<noteq> i32 (c + 1)"
    using assms by (induction ids) (auto simp: apart_Cons)
qed

lemma apart_other:
  assumes "apart D ids" "c \<in> set ids" "c' \<in> set ids" "c \<noteq> c'"
  shows "{c, i32 (c + 1)} \<inter> {c', i32 (c' + 1)} = {}"
  using assms
proof (induction ids)
  case (Cons x ids)
  then show ?case by (auto simp: apart_Cons)
qed simp

lemma apart_distinct: "apart D ids \<Longrightarrow> distinct ids"
  by (induction ids) (auto simp: apart_Cons)

context rpc_server
begin

text \<open>The table of a server that has just registered.\<close>

lemma register_table:
  assumes reg: "register_server P fuel 0 addr k = Ret (Some sc, k1)" and D: "hash addr \<noteq> 0" "key_names K (hash addr) k = None"
  obtains t where "coord_shmaddr sc = Shm t" "key_names K (hash addr) k1 = Some t" "load_seg K t k1 = Some (Table (init_header t zero_header))"
    "\<And>c. c \<noteq> hash addr \<Longrightarrow> key_names K c k1 = key_names K c k"
proof -
  obtain t k' where c: "coord_create K addr k = Ret (Shm t, k')" "key_names K (hash addr) k' = Some t"
    "load_seg K t k' = Some (Table (init_header t zero_header))" "\<And>c. c \<noteq> hash addr \<Longrightarrow> key_names K c k' = key_names K c k"
    by (rule coord_create_run [OF D]) (rule that; assumption)
  with reg have "k1 = k'" "coord_shmaddr sc = Shm t" by (auto simp: register_server_def platform Let_def)
  with c that show thesis by blast
qed

text \<open>The two ends of client \<open>c\<close>'s connection.\<close>

definition at_conn :: "'k \<Rightarrow> int \<Rightarrow> queue_pair \<Rightarrow> bool" where
  "at_conn k c qp \<longleftrightarrow> qp_client_id qp = c \<and> (\<exists>a b. key_names K c k = Some a \<and> key_names K (i32 (c + 1)) k = Some b \<and>
     request_shmaddr qp = Shm a \<and> response_shmaddr qp = Shm b)"

text \<open>Row \<open>j\<close> serves client \<open>c\<close>, over empty queues for messages of \<open>m\<close> bytes.\<close>

definition conn_row :: "'k \<Rightarrow> int \<Rightarrow> int \<Rightarrow> nat \<Rightarrow> coord_header \<Rightarrow> nat \<Rightarrow> int \<Rightarrow> bool" where
  "conn_row k D t m h j c \<longleftrightarrow> (\<exists>a b. served k D t h j a b m) \<and> row_client_id (slots h ! j) = c \<and>
     row_type (slots h ! j) = POLL \<and> info_key (request_shm (row_shms (slots h ! j))) = c \<and>
     info_key (response_shm (row_shms (slots h ! j))) = i32 (c + 1)"

text \<open>
  The clients \<open>os\<close> have opened connections, in this order and in the rows from 0 on; the keys of the
  other clients in \<open>ids\<close> are free.
\<close>

definition many :: "int \<Rightarrow> int \<Rightarrow> nat \<Rightarrow> int list \<Rightarrow> coord_header \<Rightarrow> int list \<Rightarrow> 'k \<Rightarrow> bool" where
  "many D t m ids h os k \<longleftrightarrow>
     load_seg K t k = Some (Table h) \<and> key_names K D k = Some t \<and> coord_shmid h = t \<and> coord_inv h \<and>
     length os \<le> SLOT_NUM \<and> distinct os \<and> set os \<subseteq> set ids \<and> (\<forall>j < length os. conn_row k D t m h j (os ! j)) \<and>
     (\<forall>j. length os \<le> j \<longrightarrow> j < SLOT_NUM \<longrightarrow> slots h ! j = zero_row \<and> \<not> reserved h j) \<and>
     (\<forall>c \<in> set ids - set os. key_names K c k = None \<and> key_names K (i32 (c + 1)) k = None)"

lemma served_other:
  assumes srv: "served k D t h j a b m" and kp: "keeps C t k k'"
    and C: "D \<notin> C" "info_key (request_shm (row_shms (slots h ! j))) \<notin> C" "info_key (response_shm (row_shms (slots h ! j))) \<notin> C"
    and t: "load_seg K t k' = Some (Table h')" "coord_inv h'" "coord_shmid h' = t"
    and row: "slots h' ! j = slots h ! j" "reserved h' j = reserved h j"
  shows "served k' D t h' j a b m"
proof -
  from srv have "a \<noteq> t" "b \<noteq> t" by (auto simp: served_def)
  moreover have "phase h' j = phase h j" using row by (simp add: phase_def)
  ultimately show ?thesis using srv kp C t row by (auto simp: served_def keeps_def)
qed

lemma conn_row_other:
  assumes "conn_row k D t m h j c" "keeps C t k k'" "D \<notin> C" "c \<notin> C" "i32 (c + 1) \<notin> C"
    and "load_seg K t k' = Some (Table h')" "coord_inv h'" "coord_shmid h' = t"
    and "slots h' ! j = slots h ! j" "reserved h' j = reserved h j"
  shows "conn_row k' D t m h' j c"
proof -
  from assms(1) obtain a b where ab: "served k D t h j a b m" by (auto simp: conn_row_def)
  have "served k' D t h' j a b m"
    using assms(1,4,5) by (intro served_other [OF ab assms(2,3) _ _ assms(6-10)]) (simp_all add: conn_row_def)
  with assms(1,9) show ?thesis by (auto simp: conn_row_def)
qed

lemma conn_row_phase: "conn_row k D t m h j c \<Longrightarrow> phase h j = Serving"
  by (auto simp: conn_row_def served_def)

lemma serving_row: "phase h j = Serving \<Longrightarrow> reserved h j \<and> shm_created (slots h ! j) \<and> \<not> detach (slots h ! j)"
  by (auto simp: phase_def split: if_splits)

lemma many_rows:
  assumes "many D t m ids h os k" "j < SLOT_NUM"
  shows "reserved h j \<longleftrightarrow> j < length os" "ready h j \<longleftrightarrow> j < length os" "idle h j"
proof -
  have "j < length os \<Longrightarrow> reserved h j \<and> shm_created (slots h ! j) \<and> \<not> detach (slots h ! j)"
    using assms conn_row_phase serving_row unfolding many_def by blast
  moreover have "\<not> j < length os \<Longrightarrow> slots h ! j = zero_row \<and> \<not> reserved h j" using assms by (simp add: many_def)
  ultimately show "reserved h j \<longleftrightarrow> j < length os" "ready h j \<longleftrightarrow> j < length os" "idle h j"
    by (cases "j < length os"; simp add: ready_def idle_def zero_row_def)+
qed

lemma at_conn_keeps: "at_conn k c qp \<Longrightarrow> keeps C t k k' \<Longrightarrow> c \<notin> C \<Longrightarrow> i32 (c + 1) \<notin> C \<Longrightarrow> at_conn k' c qp"
  by (auto simp: at_conn_def keeps_def)

lemma served_at_conn:
  assumes "served k D t h j a b m" "conn_row k D t m h j c" "request_shmaddr qp = Shm a" "response_shmaddr qp = Shm b"
    "qp_client_id qp = c"
  shows "at_conn k c qp"
  using assms by (auto simp: at_conn_def conn_row_def served_def)

lemma obs_many: "obs_eq k k' \<Longrightarrow> many D t m ids h os k \<Longrightarrow> many D t m ids h os k'"
proof -
  assume ob: "obs_eq k k'" and mn: "many D t m ids h os k"
  have "conn_row k' D t m h j (os ! j)" if "j < length os" for j
    using mn that served_obs [OF _ ob] unfolding many_def conn_row_def by blast
  with ob mn show ?thesis by (simp add: many_def obs_eq_def)
qed

text \<open>The next client opens its connection.\<close>

lemma many_open:
  assumes mn: "many D t m ids h os k" and ap: "apart D ids" and len: "length ids \<le> SLOT_NUM"
    and c: "hash src \<in> set ids - set os" and D: "hash dest = D" and m: "0 < m" "m \<le> QUEUE_SIZE - 40"
    and sc: "coord_shmaddr sc = Shm t"
    and runs: "\<forall>k k'. manage_pool P sc k = Ret k' \<longrightarrow> sleeping K CLIENT_OPEN_WAIT_INTERVAL k = k'"
  obtains k' h' qp where "client_open P (Suc fuel) src dest (int m) POLL k = Ret (Some (select_queue_ctx P POLL qp), k')"
    "many D t m ids h' (os @ [hash src]) k'" "at_conn k' (hash src) qp" "keeps {hash src, i32 (hash src + 1)} t k k'"
    "accept_slot h' = accept_slot h" "\<not> server_attached (slots h' ! length os)"
    "\<And>j. j < length os \<Longrightarrow> slots h' ! j = slots h ! j"
proof -
  let ?c = "hash src" and ?n = "length os"
  from mn have t: "load_seg K t k = Some (Table h)" "key_names K D k = Some t" "coord_shmid h = t" "coord_inv h"
    and os: "distinct os" "set os \<subseteq> set ids" and rows: "\<And>j. j < ?n \<Longrightarrow> conn_row k D t m h j (os ! j)"
    and free: "key_names K ?c k = None" "key_names K (i32 (?c + 1)) k = None"
    using c by (auto simp: many_def)
  have n: "?n < SLOT_NUM"
  proof -
    have "card (set os) < card (set ids)" using c os(2) by (intro psubset_card_mono) auto
    then show ?thesis using os(1) len card_length [of ids] by (simp add: distinct_card)
  qed
  have cid: "?c \<in> set ids" using c by simp
  note key = apartD [OF ap cid]
  have D': "hash dest \<noteq> 0" "key_names K (hash dest) k = Some t" using key(1) D t(2) by simp_all
  have fst: "\<not> reserved h ?n" "\<forall>j < ?n. reserved h j" using many_rows(1) [OF mn] n by simp_all
  have idle: "\<forall>j < SLOT_NUM. idle h j" using many_rows(3) [OF mn] by blast
  have m': "0 < int m" "int m \<le> int (QUEUE_SIZE - 40)" using m by simp_all
  obtain k' h' a b qp where o: "client_open P (Suc fuel) src dest (int m) POLL k = Ret (Some (select_queue_ctx P POLL qp), k')"
    "request_shmaddr qp = Shm a" "response_shmaddr qp = Shm b" "qp_client_id qp = ?c"
    "served k' D t h' ?n a b m" "\<not> server_attached (slots h' ! ?n)" "row_type (slots h' ! ?n) = POLL"
    "row_client_id (slots h' ! ?n) = ?c" "info_key (request_shm (row_shms (slots h' ! ?n))) = ?c"
    "info_key (response_shm (row_shms (slots h' ! ?n))) = i32 (?c + 1)" "accept_slot h' = accept_slot h"
    "keeps {?c, i32 (?c + 1)} t k k'"
    "\<forall>j < SLOT_NUM. j \<noteq> ?n \<longrightarrow> slots h' ! j = slots h ! j \<and> reserved h' j = reserved h j"
    using client_open_run [OF t(1) D' t(4,3) n fst idle key(2,3,6) free m' sc runs, of fuel]
    unfolding D nat_int by - (elim exE conjE, (rule that; assumption))
  have new: "conn_row k' D t m h' ?n ?c" using o(5,7-10) by (auto simp: conn_row_def)
  have t': "load_seg K t k' = Some (Table h')" "coord_inv h'" "coord_shmid h' = t" "key_names K D k' = Some t"
    using o(5) by (simp_all add: served_def)
  have old: "conn_row k' D t m h' j (os ! j)" if j: "j < ?n" for j
  proof -
    have "os ! j \<in> set ids" "os ! j \<noteq> ?c" using j os(2) c by (auto dest: nth_mem)
    from apart_other [OF ap this(1) cid this(2)] have "os ! j \<notin> {?c, i32 (?c + 1)}" "i32 (os ! j + 1) \<notin> {?c, i32 (?c + 1)}" by auto
    with o(13) j n key(4,5) show ?thesis
      by (intro conn_row_other [OF rows [OF j] o(12) _ _ _ t'(1-3)]) auto
  qed
  have "many D t m ids h' (os @ [?c]) k'"
    unfolding many_def
  proof (intro conjI allI impI ballI)
    fix j assume "j < length (os @ [?c])"
    then show "conn_row k' D t m h' j ((os @ [?c]) ! j)" using old new by (auto simp: nth_append less_Suc_eq)
  next
    fix j assume "length (os @ [?c]) \<le> j" "j < SLOT_NUM"
    then show "slots h' ! j = zero_row" "\<not> reserved h' j" using o(13) mn by (simp_all add: many_def)
  next
    fix c' assume c': "c' \<in> set ids - set (os @ [?c])"
    then have "{c', i32 (c' + 1)} \<inter> {?c, i32 (?c + 1)} = {}" using apart_other [OF ap _ cid] by auto
    moreover have "key_names K c' k = None" "key_names K (i32 (c' + 1)) k = None" using mn c' by (auto simp: many_def)
    ultimately show "key_names K c' k' = None" "key_names K (i32 (c' + 1)) k' = None"
      using o(12) by (auto simp: keeps_def)
  qed (use t' os c n in auto)
  moreover have "at_conn k' ?c qp" by (rule served_at_conn [OF o(5) new o(2-4)])
  ultimately show thesis using o(1,6,11,12,13) n by (intro that [of qp k' h']) auto
qed

lemma accept_loop_ready: "accept_loop n s (h\<lparr>mutex := b\<rparr>) = accept_loop n s h"
  by (induction n arbitrary: s) (simp_all add: accept_loop_Suc ready_def del: accept_loop.simps(2))

lemma many_table:
  assumes mn: "many D t m ids h os k" and kp: "keeps {} t k k'" and t: "load_seg K t k' = Some (Table h')" "coord_inv h'" "coord_shmid h' = t"
    and rows: "\<And>j. j < SLOT_NUM \<Longrightarrow> j \<noteq> u \<Longrightarrow> slots h' ! j = slots h ! j" "\<And>j. j < SLOT_NUM \<Longrightarrow> reserved h' j = reserved h j"
    and u: "u < length os" "conn_row k' D t m h' u (os ! u)"
  shows "many D t m ids h' os k'"
  unfolding many_def
proof (intro conjI allI impI ballI)
  fix j assume j: "j < length os"
  then have "j < SLOT_NUM" using mn by (simp add: many_def)
  with j mn t rows show "conn_row k' D t m h' j (os ! j)"
    by (cases "j = u") (use u in simp, intro conn_row_other [OF _ kp], auto simp: many_def)
qed (use mn kp t rows u in \<open>auto simp: many_def keeps_def\<close>)

text \<open>
  \<open>accept\<close> with several connections: the next ready row; one that is attached yields null
  addresses, any other the server's end of its connection.
\<close>

lemma many_accept_none:
  assumes mn: "many D t m ids h os k" and sc: "coord_shmaddr sc = Shm t"
    and none: "accept_loop SLOT_NUM (nat (accept_slot h)) h = None"
  obtains k' where "accept P fuel sc k = Ret (None, k')" "many D t m ids h os k'" "keeps {} t k k'"
proof -
  from mn have t: "load_seg K t k = Some (Table h)" and inv: "coord_inv h" by (simp_all add: many_def)
  have free: "\<not> mutex h" using inv by (simp add: coord_inv_def)
  have un: "mutex_unlock (h\<lparr>mutex := True\<rparr>) = h" using free by (cases h) (simp add: mutex_unlock_def)
  have acc: "accept P fuel sc k = Ret (None, store_seg K t (Table h) k)"
    by (simp add: accept_def platform sc load_table_Shm [OF t] mutex_lock_def free accept_loop_ready none un store_table_Shm [OF t] Let_def)
  have ob: "obs_eq k (store_seg K t (Table h) k)" by (rule store_same [OF t])
  then have "many D t m ids h os (store_seg K t (Table h) k)"
    using mn obs_many by blast
  then show thesis by (rule that [OF acc _ obs_keeps [OF ob]])
qed

lemma many_accept:
  assumes mn: "many D t m ids h os k" and sc: "coord_shmaddr sc = Shm t"
    and acc: "accept_loop SLOT_NUM (nat (accept_slot h)) h = Some u"
  obtains ctx k' h' where "accept P fuel sc k = Ret (Some ctx, k')" "u < length os" "many D t m ids h' os k'" "keeps {} t k k'"
    "qp_client_id (queues ctx) = os ! u" "accept_slot h' = int (Suc u mod SLOT_NUM)"
    "\<And>j. j < length os \<Longrightarrow> server_attached (slots h' ! j) = (j = u \<or> server_attached (slots h ! j))"
    "server_attached (slots h ! u) \<Longrightarrow> request_shmaddr (queues ctx) = Null"
    "\<not> server_attached (slots h ! u) \<Longrightarrow> \<exists>qp. ctx = select_queue_ctx P POLL qp \<and> at_conn k' (os ! u) qp"
proof -
  from mn have t: "load_seg K t k = Some (Table h)" and inv: "coord_inv h" and len: "length os \<le> SLOT_NUM" by (simp_all add: many_def)
  have s: "nat (accept_slot h) < SLOT_NUM" using inv by (auto simp: coord_inv_def)
  have u: "u < SLOT_NUM" "ready h u" using accept_loop_first [OF s acc] by auto
  then have uo: "u < length os" using many_rows(2) [OF mn] by simp
  with mn have row: "conn_row k D t m h u (os ! u)" by (simp add: many_def)
  then obtain a b where srv: "served k D t h u a b m" by (auto simp: conn_row_def)
  have ty: "row_type (slots h ! u) = POLL" and cid: "row_client_id (slots h ! u) = os ! u" using row by (simp_all add: conn_row_def)
  have acc': "accept_loop SLOT_NUM (nat (accept_slot h)) (h\<lparr>mutex := True\<rparr>) = Some u" using acc by (simp add: accept_loop_ready)
  show thesis
  proof (cases "server_attached (slots h ! u)")
    case False
    obtain k' h' qp where r: "accept P fuel sc k = Ret (Some (select_queue_ctx P POLL qp), k')"
      "request_shmaddr qp = Shm a" "response_shmaddr qp = Shm b" "qp_client_id qp = os ! u" "served k' D t h' u a b m"
      "keeps {} t k k'" "accept_slot h' = int (Suc u mod SLOT_NUM)" "slots h' ! u = (slots h ! u)\<lparr>server_attached := True\<rparr>"
      "\<forall>j < SLOT_NUM. (j \<noteq> u \<longrightarrow> slots h' ! j = slots h ! j) \<and> reserved h' j = reserved h j"
      using accept_run [OF srv u(1) False ty acc' sc, of fuel, unfolded cid] by - (elim exE conjE, (rule that; assumption))
    have row': "conn_row k' D t m h' u (os ! u)" using r(5,8) row by (auto simp: conn_row_def)
    have t': "load_seg K t k' = Some (Table h')" "coord_inv h'" "coord_shmid h' = t" using r(5) by (simp_all add: served_def)
    have "many D t m ids h' os k'" by (rule many_table [OF mn r(6) t' _ _ uo row']) (use r(9) in simp_all)
    moreover have "at_conn k' (os ! u) qp" by (rule served_at_conn [OF r(5) row' r(2-4)])
    moreover have "server_attached (slots h' ! j) = (j = u \<or> server_attached (slots h ! j))" if "j < length os" for j
      using r(8,9) that len by (cases "j = u") simp_all
    moreover have "queues (select_queue_ctx P POLL qp) = qp" by (simp add: select_queue_ctx_def)
    ultimately show ?thesis using r(1,4,6,7) uo False by (intro that [of "select_queue_ctx P POLL qp" k' h']) auto
  next
    case True
    have free: "\<not> mutex h" using inv by (simp add: coord_inv_def)
    let ?h = "h\<lparr>accept_slot := int (Suc u mod SLOT_NUM)\<rparr>" and ?shms = "row_shms (slots h ! u)"
    let ?k = "store_seg K t (Table ?h) k"
    let ?qp = "\<lparr>qp_client_id = os ! u, request_shmaddr = Null, response_shmaddr = Null, qp_offset = shm_offset ?shms\<rparr>"
    have un: "mutex_unlock (h\<lparr>mutex := True, accept_slot := int (Suc u mod SLOT_NUM)\<rparr>) = ?h"
      using free by (cases h) (simp add: mutex_unlock_def)
    have t': "load_seg K t ?k = Some (Table ?h)" using load_store [of t k t] t by simp
    have kp: "keeps {} t k ?k" by (rule store_keeps [OF t])
    have inv': "coord_inv ?h" "coord_shmid ?h = t" using inv mn by (auto simp: coord_inv_def many_def)
    have created: "shm_created (slots h ! u)" using u(2) by (simp add: ready_def)
    have keys: "await_keys K (Shm t) (int u) fuel ?shms ?k = Ret (?shms, ?k)"
      using srv by (simp add: await_keys.simps served_def)
    have pair: "create_server_queue_pair K fuel (Shm t) (int u) ?k = Ret (?qp, ?k)"
      using u(1) created True keys cid
      by (simp add: create_server_queue_pair_def load_table_Shm [OF t'] check_slot_def get_client_id_def
          get_server_attach_state_def attach_pair_def)
    have "accept P fuel sc k = Ret (Some (select_queue_ctx P POLL ?qp), ?k)"
      by (simp add: accept_def platform sc load_table_Shm [OF t] mutex_lock_def free acc' un store_table_Shm [OF t] Let_def pair ty)
    moreover have "conn_row ?k D t m ?h u (os ! u)"
      by (rule conn_row_other [OF row kp _ _ _ t' inv']) simp_all
    then have "many D t m ids ?h os ?k" by (intro many_table [OF mn kp t' inv' _ _ uo]) simp_all
    moreover have "queues (select_queue_ctx P POLL ?qp) = ?qp" by (simp add: select_queue_ctx_def)
    ultimately show ?thesis using uo kp True by (intro that [of "select_queue_ctx P POLL ?qp" ?k ?h]) auto
  qed
qed

text \<open>Messages over one connection leave the others alone.\<close>

lemma many_exchange:
  assumes mn: "many D t m ids h os k" and ap: "apart D ids" and c: "c \<in> set os" and cap: "0 < (QUEUE_SIZE - 40) div m - 1"
    and ends: "at_conn k c qpc" "at_conn k c qps" and lens: "\<forall>(req, resp) \<in> set rs. length req = m \<and> length resp = m"
  obtains k' where "rpc_rounds (select_queue_ctx P POLL qpc) (select_queue_ctx P POLL qps) rs k = Ret (rs, k')"
    "many D t m ids h os k'" "\<And>x. key_names K x k' = key_names K x k"
proof -
  from c obtain u where u: "u < length os" "os ! u = c" by (auto simp: in_set_conv_nth)
  have rows: "conn_row k D t m h j (os ! j)" if "j < length os" for j using mn that by (simp add: many_def)
  from rows [OF u(1)] obtain a b where srv: "served k D t h u a b m" by (auto simp: conn_row_def)
  have names: "key_names K c k = Some a" "key_names K (i32 (c + 1)) k = Some b"
    using srv rows [OF u(1)] u(2) by (auto simp: conn_row_def served_def)
  from srv obtain q1 q2 where q: "load_seg K a k = Some (PollQ q1)" "load_seg K b k = Some (PollQ q2)" "a \<noteq> b"
    "empty_poll m q1" "empty_poll m q2" by (auto simp: served_def)
  have addr: "request_shmaddr qpc = Shm a" "response_shmaddr qpc = Shm b" "request_shmaddr qps = Shm a" "response_shmaddr qps = Shm b"
    using ends names by (auto simp: at_conn_def)
  from rounds_run [OF q cap lens addr] obtain k' p1 p2 where r:
    "rpc_rounds (select_queue_ctx P POLL qpc) (select_queue_ctx P POLL qps) rs k = Ret (rs, k')"
    "load_seg K a k' = Some (PollQ p1)" "load_seg K b k' = Some (PollQ p2)" "empty_poll m p1" "empty_poll m p2"
    "\<forall>j. j \<noteq> a \<longrightarrow> j \<noteq> b \<longrightarrow> load_seg K j k' = load_seg K j k" "\<forall>x. key_names K x k' = key_names K x k" by blast
  have "load_seg K t k = Some (Table h)" using mn by (simp add: many_def)
  moreover from this q have "t \<noteq> a" "t \<noteq> b" by auto
  ultimately have t: "load_seg K t k' = Some (Table h)" using r(6) by simp
  have "conn_row k' D t m h j (os ! j)" if j: "j < length os" for j
  proof (cases "j = u")
    case True
    have "served k' D t h u a b m" using srv t r(2-5,7) by (simp add: served_def)
    then show ?thesis using rows [OF j] True by (auto simp: conn_row_def)
  next
    case False
    from rows [OF j] obtain a' b' where srv': "served k D t h j a' b' m" by (auto simp: conn_row_def)
    have ids: "os ! j \<in> set ids" "c \<in> set ids" "os ! j \<noteq> c"
      using mn j u False by (auto simp: many_def nth_eq_iff_index_eq)
    have names': "key_names K (os ! j) k = Some a'" "key_names K (i32 (os ! j + 1)) k = Some b'"
      using srv' rows [OF j] by (auto simp: conn_row_def served_def)
    have "a' \<notin> {a, b}" "b' \<notin> {a, b}"
      using key_names_inj names names' apart_other [OF ap ids] by blast+
    then have "served k' D t h j a' b' m" using srv' t r(6,7) by (simp add: served_def)
    then show ?thesis using rows [OF j] by (auto simp: conn_row_def)
  qed
  then have "many D t m ids h os k'" using mn t r(7) by (simp add: many_def)
  then show thesis using r(1,7) by (intro that [of k']) simp_all
qed

text \<open>Whatever connections are open, the server can be shut down.\<close>

lemma many_settled:
  assumes "many D t m ids h os k" "i < SLOT_NUM"
  shows "settled t h i"
proof (cases "i < length os")
  case True
  with assms(1) have "conn_row k D t m h i (os ! i)" by (simp add: many_def)
  then obtain a b where "served k D t h i a b m" "row_type (slots h ! i) = POLL" by (auto simp: conn_row_def)
  then have "info_shmid (request_shm (row_shms (slots h ! i))) \<noteq> t" "info_shmid (response_shm (row_shms (slots h ! i))) \<noteq> t"
    "shm_created (slots h ! i)" "row_type (slots h ! i) = POLL"
    by (auto simp: served_def phase_def split: if_splits)
  then show ?thesis by (simp add: settled_def)
next
  case False
  with assms show ?thesis by (simp add: many_def settled_def zero_row_def)
qed

end

end
