(* ===== verification/Bench_Rpc.thy ===== *)
theory Bench_Rpc
  imports Rpc_Session Bench_Stats
begin

text \<open>
  The threads of the RPC benchmark, \<open>src/bench_rpc/src/bench_utils.cpp\<close>: clients that
  connect, exchange numbers with the server and check the echo, and the server thread that
  echoes; and \<open>single_rtt_test\<close> and \<open>single_connection_test\<close> of \<open>src/bench_rpc/src/bench.cpp\<close>. What the server does while a client waits for its response is the argument
  \<open>peer\<close>; the readings of the clock are arguments. The wait for \<open>run_flag\<close>, a variable the
  main thread sets, and the messages about repeated connections are left out.
\<close>

section \<open>Names and messages\<close>

definition RTT_MESSAGE_SIZE :: nat where "RTT_MESSAGE_SIZE = 4"

fun dec_digits :: "nat \<Rightarrow> byte list" where
  "dec_digits n = (if n < 10 then [of_nat (48 + n)] else dec_digits (n div 10) @ [of_nat (48 + n mod 10)])"

declare dec_digits.simps [simp del]

text \<open>\<open>snprintf(name, 32, "%d", client_id)\<close>.\<close>

definition client_name :: "int \<Rightarrow> byte list" where
  "client_name client_id =
     take 31 (if client_id < 0 then 45 # dec_digits (nat (- client_id)) else dec_digits (nat client_id))"

definition test_server_addr :: "byte list" where
  "test_server_addr = map of_char ''test_server_addr''"

section \<open>Threads\<close>

fun client_rtt_loop ::
  "'k queue_ctx \<Rightarrow> ('k \<Rightarrow> 'k outcome) \<Rightarrow> nat list \<Rightarrow> 'k \<Rightarrow> 'k outcome"
where
  "client_rtt_loop qp peer [] k = Ret k"
| "client_rtt_loop qp peer (i # is) k =
     (let buf = int_bytes (of_nat i) in
      bind_out (client_send_rpc qp buf RTT_MESSAGE_SIZE k) (\<lambda>(r, k1).
      bind_out (peer k1) (\<lambda>k2.
      bind_out (client_receive_buf qp RTT_MESSAGE_SIZE k2) (\<lambda>((n, got), k3).
      if bytes_int (take 4 got) = bytes_int buf then client_rtt_loop qp peer is k3
      else Abort ''Assertion failed''))))"

definition rtt_numbers :: "nat list" where
  "rtt_numbers = [1..<nat NUM_ITEMS]"

definition pthread_client_rtt_post_connect ::
  "('k \<Rightarrow> 'k outcome) \<Rightarrow> timespec \<Rightarrow> timespec \<Rightarrow> 'k queue_ctx \<Rightarrow> connection_args \<Rightarrow> 'k \<Rightarrow> (connection_args \<times> 'k) outcome"
where
  "pthread_client_rtt_post_connect peer t0 t1 qp args k =
     bind_out (client_rtt_loop qp peer rtt_numbers k) (\<lambda>k1.
     Ret (args\<lparr>start_time := t0, end_time := t1\<rparr>, k1))"

text \<open>One pass of the loop of \<open>pthread_server_rtt\<close>, and the loop.\<close>

definition server_rtt_step :: "'k queue_ctx \<Rightarrow> 'k \<Rightarrow> 'k outcome" where
  "server_rtt_step qp k =
     bind_out (server_receive_buf qp RTT_MESSAGE_SIZE k) (\<lambda>((n, got), k1).
     bind_out (server_send_rpc qp (int_bytes (bytes_int (take 4 got))) RTT_MESSAGE_SIZE k1) (\<lambda>(r, k2). Ret k2))"

fun pthread_server_rtt :: "'k queue_ctx \<Rightarrow> nat list \<Rightarrow> 'k \<Rightarrow> 'k outcome" where
  "pthread_server_rtt qp [] k = Ret k"
| "pthread_server_rtt qp (i # is) k = bind_out (server_rtt_step qp k) (pthread_server_rtt qp is)"

text \<open>\<open>client_open\<close> until it returns a connection, at most \<open>fuel\<close> further attempts.\<close>

fun open_until :: "('k, 'b) platform \<Rightarrow> nat \<Rightarrow> byte list \<Rightarrow> 'k \<Rightarrow> ('k queue_ctx \<times> 'k) outcome" where
  "open_until P fuel name k =
     bind_out (client_open P fuel name test_server_addr 4 POLL k) (\<lambda>(c_qp, k1).
     case c_qp of
       Some qp \<Rightarrow> Ret (qp, k1)
     | None \<Rightarrow> (case fuel of 0 \<Rightarrow> Hang | Suc n \<Rightarrow> open_until P n name k1))"

declare open_until.simps [simp del]

definition pthread_connect_client ::
  "('k, 'b) platform \<Rightarrow> nat \<Rightarrow> timespec \<Rightarrow> timespec \<Rightarrow> connection_args \<Rightarrow> 'k \<Rightarrow> (connection_args \<times> 'k) outcome" where
  "pthread_connect_client P fuel t0 t1 args k =
     bind_out (open_until P fuel (client_name (conn_client_id args)) k) (\<lambda>(c_qp, k1).
     Ret (args\<lparr>start_time := t0, end_time := t1\<rparr>, k1))"

definition pthread_connect_measure_rtt ::
  "('k, 'b) platform \<Rightarrow> nat \<Rightarrow> ('k \<Rightarrow> 'k outcome) \<Rightarrow> timespec \<Rightarrow> timespec \<Rightarrow> connection_args \<Rightarrow> 'k \<Rightarrow> (connection_args \<times> 'k) outcome"
where
  "pthread_connect_measure_rtt P fuel peer t0 t1 args k =
     bind_out (open_until P fuel (client_name (conn_client_id args)) k) (\<lambda>(c_qp, k1).
     pthread_client_rtt_post_connect peer t0 t1 c_qp args k1)"

definition pthread_measure_connect_and_rtt ::
  "('k, 'b) platform \<Rightarrow> nat \<Rightarrow> ('k \<Rightarrow> 'k outcome) \<Rightarrow> timespec \<Rightarrow> timespec \<Rightarrow> connection_args \<Rightarrow> 'k \<Rightarrow> (connection_args \<times> 'k) outcome"
where
  "pthread_measure_connect_and_rtt P fuel peer t0 t1 args k =
     bind_out (open_until P fuel (client_name (conn_client_id args)) k) (\<lambda>(c_qp, k1).
     bind_out (client_rtt_loop c_qp peer rtt_numbers k1) (\<lambda>k2.
     Ret (args\<lparr>start_time := t0, end_time := t1\<rparr>, k2)))"

text \<open>The result includes what \<open>client_close\<close> returned.\<close>

definition pthread_measure_connect_and_rtt_and_disconnect ::
  "('k, 'b) platform \<Rightarrow> nat \<Rightarrow> ('k \<Rightarrow> 'k outcome) \<Rightarrow> timespec \<Rightarrow> timespec \<Rightarrow> connection_args \<Rightarrow> 'k \<Rightarrow>
   (int \<times> connection_args \<times> 'k) outcome"
where
  "pthread_measure_connect_and_rtt_and_disconnect P fuel peer t0 t1 args k =
     bind_out (open_until P fuel (client_name (conn_client_id args)) k) (\<lambda>(c_qp, k1).
     bind_out (client_rtt_loop c_qp peer rtt_numbers k1) (\<lambda>k2.
     bind_out (client_close (sysv_of P) (client_name (conn_client_id args)) test_server_addr k2) (\<lambda>(err, k3).
     Ret (err, args\<lparr>start_time := t0, end_time := t1\<rparr>, k3))))"

text \<open>
  \<open>single_rtt_test\<close>: a server and its client in one thread, with a thread that echoes.
  \<open>while ((s_qp = accept(sc)) == NULL)\<close> does not sleep; \<open>err\<close> is the result of
  \<open>pthread_create\<close> in \<open>register_server\<close>, and the echoing thread answers each request in turn.
  A null server or connection is dereferenced by \<open>accept\<close> and by the first send.
\<close>

fun accept_until :: "('k, 'b) platform \<Rightarrow> nat \<Rightarrow> nat \<Rightarrow> server_context \<Rightarrow> 'k \<Rightarrow> ('k queue_ctx \<times> 'k) outcome" where
  "accept_until P fuel rounds sc k =
     bind_out (accept P fuel sc k) (\<lambda>(s_qp, k1).
     case s_qp of
       Some qp \<Rightarrow> Ret (qp, k1)
     | None \<Rightarrow> (case rounds of 0 \<Rightarrow> Hang | Suc n \<Rightarrow> accept_until P fuel n sc (sleeping (sysv_of P) 0 k1)))"

declare accept_until.simps [simp del]

definition rtt_server_addr :: "byte list" where
  "rtt_server_addr = map of_char ''single_rtt_test_server''"

definition rtt_client_addr :: "byte list" where
  "rtt_client_addr = map of_char ''single_rtt_test_client''"

definition single_rtt_test ::
  "('k, 'b) platform \<Rightarrow> nat \<Rightarrow> int \<Rightarrow> timespec \<Rightarrow> timespec \<Rightarrow> connection_args \<Rightarrow> 'k \<Rightarrow> (out_line list \<times> 'k) outcome"
where
  "single_rtt_test P fuel err t0 t1 args k =
     bind_out (register_server P fuel err rtt_server_addr k) (\<lambda>(handler, k1).
     bind_out (client_open P fuel rtt_client_addr rtt_server_addr 4 POLL k1) (\<lambda>(c_qp, k2).
     case (handler, c_qp) of
       (Some sc, Some client) \<Rightarrow>
         bind_out (accept_until P fuel fuel sc k2) (\<lambda>(s_qp, k3).
         bind_out (pthread_client_rtt_post_connect (server_rtt_step s_qp) t0 t1 client args k3) (\<lambda>(args', k4).
         bind_out (report_single_rtt_stats args') (\<lambda>report.
         bind_out (shutdown P True fuel sc k4) (\<lambda>k5.
         Ret (Long ''Num Items'' NUM_ITEMS # Long ''Message Size'' (int RTT_MESSAGE_SIZE) # report, k5)))))
     | (Some sc, None) \<Rightarrow> bind_out (accept_until P fuel fuel sc k2) (\<lambda>(s_qp, k3). Fault NullDeref)
     | (None, _) \<Rightarrow> Fault NullDeref))"

text \<open>
  \<open>single_connection_test\<close>: client 1 connects in a thread of its own while the main thread calls
  \<open>accept\<close>; calls of \<open>accept\<close> before the client is there find no row that is ready.
\<close>

definition single_connection_test ::
  "('k, 'b) platform \<Rightarrow> nat \<Rightarrow> int \<Rightarrow> timespec \<Rightarrow> timespec \<Rightarrow> connection_args \<Rightarrow> 'k \<Rightarrow> (out_line list \<times> 'k) outcome"
where
  "single_connection_test P fuel err t0 t1 args k =
     bind_out (register_server P fuel err test_server_addr k) (\<lambda>(handler, k1).
     bind_out (pthread_connect_client P fuel t0 t1 (args\<lparr>conn_client_id := 1\<rparr>) k1) (\<lambda>(args', k2).
     case handler of
       None \<Rightarrow> Fault NullDeref
     | Some sc \<Rightarrow>
         bind_out (accept_until P fuel fuel sc k2) (\<lambda>(s_qp, k3).
         bind_out (shutdown P True fuel sc k3) (\<lambda>k4.
         Ret (Long ''Num Clients'' 1 # Long ''Available Slots'' (int SLOT_NUM) # report_connection_stats args', k4)))))"

section \<open>Lemmas\<close>

lemma rtt_hashes: "hash rtt_server_addr = -1355464498" "hash rtt_client_addr = -1131615222"
  by (simp_all add: rtt_server_addr_def rtt_client_addr_def hash_def hash_step_def rol_def)

lemma dec_digits_induct [case_names small large]:
  assumes "\<And>n. n < 10 \<Longrightarrow> Q n" "\<And>n. 10 \<le> n \<Longrightarrow> Q (n div 10) \<Longrightarrow> Q n"
  shows "Q (n :: nat)"
proof (induction n rule: less_induct)
  case (less n)
  show ?case
  proof (cases "n < 10")
    case False
    then have "n div 10 < n" by simp
    then have "Q (n div 10)" by (rule less)
    moreover have "10 \<le> n" using False by simp
    ultimately show ?thesis by (rule assms(2) [rotated])
  qed (rule assms(1))
qed

fun dec_value :: "nat \<Rightarrow> byte list \<Rightarrow> nat" where
  "dec_value acc [] = acc"
| "dec_value acc (b # bs) = dec_value (acc * 10 + (unat b - 48)) bs"

lemma dec_value_append: "dec_value acc (xs @ ys) = dec_value (dec_value acc xs) ys"
  by (induction xs arbitrary: acc) simp_all

lemma unat_digit: "d < 10 \<Longrightarrow> unat (of_nat (48 + d) :: byte) = 48 + d"
  by (simp add: unat_of_nat del: of_nat_add)

lemma dec_digits_value: "dec_value 0 (dec_digits n) = n"
proof (induction n rule: dec_digits_induct)
  case (small n)
  then show ?case by (subst dec_digits.simps) (simp add: unat_digit del: of_nat_add)
next
  case (large n)
  then show ?case by (subst dec_digits.simps) (simp add: dec_value_append unat_digit del: of_nat_add)
qed

lemma dec_digits_range: "b \<in> set (dec_digits n) \<Longrightarrow> 48 \<le> unat b \<and> unat b < 58"
proof (induction n rule: dec_digits_induct)
  case (small n)
  then show ?case by (subst (asm) dec_digits.simps) (auto simp: unat_digit simp del: of_nat_add)
next
  case (large n)
  have "unat (of_nat (48 + n mod 10) :: byte) = 48 + n mod 10" by (rule unat_digit) simp
  with large show ?case by (subst (asm) dec_digits.simps) (auto simp del: of_nat_add)
qed

lemma dec_digits_length: "n < 10 ^ m \<Longrightarrow> 0 < m \<Longrightarrow> length (dec_digits n) \<le> m"
proof (induction n arbitrary: m rule: dec_digits_induct)
  case (small n)
  then show ?case by (subst dec_digits.simps) simp
next
  case (large n)
  then obtain m' where m: "m = Suc m'" "0 < m'" by (cases m; cases "m - 1") auto
  with large have "n div 10 < 10 ^ m'" by (simp add: less_mult_imp_div_less mult.commute)
  with large(2) [of m'] m large(1) show ?case by (subst dec_digits.simps) simp
qed

lemma echo_from_rounds:
  assumes "rpc_rounds client server (map (\<lambda>i. (int_bytes (of_nat i), int_bytes (of_nat i))) is) k =
    Ret (map (\<lambda>i. (int_bytes (of_nat i), int_bytes (of_nat i))) is, k')"
  shows "client_rtt_loop client (server_rtt_step server) is k = Ret k'"
  using assms
proof (induction "is" arbitrary: k)
  case Nil
  then show ?case by simp
next
  case (Cons i "is")
  let ?m = "int_bytes (of_nat i)"
  from Cons.prems obtain r1 k1 n1 k2 r2 k3 n2 k4 where
    "client_send_rpc client ?m 4 k = Ret (r1, k1)" "server_receive_buf server 4 k1 = Ret ((n1, ?m), k2)"
    "server_send_rpc server ?m 4 k2 = Ret (r2, k3)" "client_receive_buf client 4 k3 = Ret ((n2, ?m), k4)"
    "client_rtt_loop client (server_rtt_step server) is k4 = Ret k'"
    using Cons.IH by (auto simp: bind_out_eq_Ret)
  moreover from this have "server_rtt_step server k1 = Ret k3" by (simp add: server_rtt_step_def RTT_MESSAGE_SIZE_def)
  ultimately show ?case by (simp add: Let_def RTT_MESSAGE_SIZE_def)
qed

lemma client_name_eq:
  assumes "int32 n"
  shows "client_name n = (if n < 0 then 45 # dec_digits (nat (- n)) else dec_digits (nat n))"
    "length (client_name n) \<le> 11"
proof -
  have "length (dec_digits (nat \<bar>n\<bar>)) \<le> 10" using assms by (intro dec_digits_length) (auto simp: nat_less_iff)
  then have l: "length (if n < 0 then 45 # dec_digits (nat (- n)) else dec_digits (nat n)) \<le> 11"
    by (auto simp: abs_if split: if_splits)
  then show "client_name n = (if n < 0 then 45 # dec_digits (nat (- n)) else dec_digits (nat n))"
    unfolding client_name_def by (intro take_all) linarith
  with l show "length (client_name n) \<le> 11" by simp
qed

lemma client_name_bytes: "int32 n \<Longrightarrow> 0 \<notin> set (client_name n)"
  using dec_digits_range [of 0] by (auto simp: client_name_eq)

lemma client_name_inj:
  assumes "int32 m" "int32 n" "client_name m = client_name n"
  shows "m = n"
proof -
  have hd45: "hd (dec_digits j) \<noteq> 45" for j
  proof -
    have "dec_digits j \<noteq> []" by (subst dec_digits.simps) simp
    then have "hd (dec_digits j) \<in> set (dec_digits j)" by simp
    then show ?thesis using dec_digits_range [of "hd (dec_digits j)" j] by auto
  qed
  have val: "dec_digits i = dec_digits j \<Longrightarrow> i = j" for i j by (metis dec_digits_value)
  have sign: "m < 0 \<longleftrightarrow> n < 0" using assms hd45 by (auto simp: client_name_eq split: if_splits) (metis list.sel(1))+
  show ?thesis
  proof (cases "m < 0")
    case True
    with assms sign have "dec_digits (nat (- m)) = dec_digits (nat (- n))" by (simp add: client_name_eq)
    then show ?thesis using val True sign by fastforce
  next
    case False
    with assms sign have "dec_digits (nat m) = dec_digits (nat n)" by (simp add: client_name_eq)
    then show ?thesis using val [of "nat m" "nat n"] False sign by (simp add: nat_eq_iff)
  qed
qed

section \<open>Properties\<close>

text \<open>
  C10: the benchmark \<open>single_rtt_test\<close> as a whole, from \<open>register_server\<close> to \<open>shutdown\<close>: while the
  pool thread runs and the three keys are free, the connection is made, every number comes
  back as it was sent, and the server is shut down and its address names the table no more;
  a run of less than a millisecond ends in the division by zero of the report instead.
\<close>

theorem single_rtt_test_completes:
  assumes srv: "rpc_server K P" and reg: "register_server P (Suc fuel) 0 rtt_server_addr k = Ret (Some sc, k1)"
    and runs: "\<forall>k k'. manage_pool P sc k = Ret k' \<longrightarrow> sleeping K CLIENT_OPEN_WAIT_INTERVAL k = k'"
    and free: "\<forall>key \<in> {hash rtt_server_addr, hash rtt_client_addr, hash rtt_client_addr + 1}. key_names K key k = None"
    and rm: "\<forall>c t k. key_names K c k = Some t \<longrightarrow> fst (shmctl_rmid K t k) = 0"
    and times: "valid_times (args\<lparr>start_time := t0, end_time := t1\<rparr>)"
    and ns: "ns = elapsed_ns (args\<lparr>start_time := t0, end_time := t1\<rparr>)"
  shows "if ns < 1000000 then single_rtt_test P (Suc fuel) 0 t0 t1 args k = Fault DivByZero
    else \<exists>t k'. coord_shmaddr sc = Shm t \<and> key_names K (hash rtt_server_addr) k' \<noteq> Some t \<and>
      single_rtt_test P (Suc fuel) 0 t0 t1 args k =
        Ret ([Long ''Num Items'' 100000, Long ''Message Size'' 4, Long ''ns/op'' (ns div 100000),
              Long ''ops/ms'' (100000 div (ns div 1000000))], k')"
proof -
  let ?rs = "map (\<lambda>i. (int_bytes (of_nat i), int_bytes (of_nat i))) rtt_numbers"
  have lens: "\<forall>(req, resp) \<in> set ?rs. length req = nat 4 \<and> length resp = nat 4" by auto
  have free': "\<forall>key \<in> {hash rtt_server_addr, hash rtt_client_addr, i32 (hash rtt_client_addr + 1)}. key_names K key k = None"
    using free by (simp add: rtt_hashes i32_def)
  obtain client k2 server k3 k4 t h where s:
    "client_open P (Suc fuel) rtt_client_addr rtt_server_addr 4 POLL k1 = Ret (Some client, k2)"
    "accept P (Suc fuel) sc k2 = Ret (Some server, k3)" "rpc_rounds client server ?rs k3 = Ret (?rs, k4)"
    "coord_shmaddr sc = Shm t" "load_seg K t k4 = Some (Table h)"
    "key_names K (hash rtt_server_addr) k4 = Some t" "coord_wf h" "coord_shmid h = t" "\<forall>i < SLOT_NUM. settled t h i"
    by (rule rpc_server.session_end [OF srv reg runs _ _ _ _ free' _ _ lens, of fuel "Suc fuel"])
      (simp_all add: rtt_hashes i32_def)
  obtain k5 where k5: "shutdown P True (Suc fuel) sc k4 = Ret k5" "key_names K (hash rtt_server_addr) k5 \<noteq> Some t"
    using rpc_server.shutdown_run [OF srv s(5-9,4), of fuel] rm by blast
  have "accept_until P (Suc fuel) (Suc fuel) sc k2 = Ret (server, k3)"
    by (subst accept_until.simps) (simp add: s(2))
  with reg s(1) k5(1) echo_from_rounds [OF s(3)] single_rtt_report [OF times]
  have "single_rtt_test P (Suc fuel) 0 t0 t1 args k =
    (if ns < 1000000 then Fault DivByZero
     else Ret ([Long ''Num Items'' 100000, Long ''Message Size'' 4, Long ''ns/op'' (ns div 100000),
              Long ''ops/ms'' (100000 div (ns div 1000000))], k5))"
    by (simp add: single_rtt_test_def pthread_client_rtt_post_connect_def ns NUM_ITEMS_def RTT_MESSAGE_SIZE_def)
  with k5(2) s(4) show ?thesis by auto
qed

lemma test_server_hash: "hash test_server_addr = -1524905460"
  by (simp add: test_server_addr_def hash_def hash_step_def rol_def)

lemma client_one: "client_name 1 = [49]" "hash [49] = -1431655286"
  by (simp_all add: client_name_def dec_digits.simps hash_def hash_step_def rol_def)

lemma demo_rmid: "\<forall>c t k. key_names (sysv_of demo_platform) c k = Some t \<longrightarrow> fst (shmctl_rmid (sysv_of demo_platform) t k) = 0"
  by (auto simp: demo_calls seg_named_def ref_rmid_def dest!: ref_names_SomeD split: option.splits)

theorem single_rtt_test_completes_witness:
  "(\<exists>k'. single_rtt_test demo_platform 1 0 \<lparr>tv_sec = 0, tv_nsec = 0\<rparr> \<lparr>tv_sec = 2, tv_nsec = 500000\<rparr> (demo_args 0 0) ref_boot =
     Ret ([Long ''Num Items'' 100000, Long ''Message Size'' 4, Long ''ns/op'' 20005, Long ''ops/ms'' 50], k') \<and>
     ref_names (hash rtt_server_addr) k' \<noteq> Some 0) \<and>
   single_rtt_test demo_platform 1 0 \<lparr>tv_sec = 0, tv_nsec = 0\<rparr> \<lparr>tv_sec = 0, tv_nsec = 999999\<rparr> (demo_args 0 0) ref_boot =
     Fault DivByZero"
proof -
  obtain k1 where reg: "register_server demo_platform (Suc 0) 0 rtt_server_addr ref_boot = Ret (Some demo_context, k1)"
    using demo_registered [of rtt_server_addr "Suc 0"] by (auto simp: rtt_hashes)
  have free: "\<forall>key \<in> A. key_names (sysv_of demo_platform) key ref_boot = None" for A
    by (simp add: demo_calls ref_names_def ref_boot_def)
  note run = single_rtt_test_completes [OF demo_server reg demo_runs free demo_rmid _ refl, where args = "demo_args 0 0" and ?t0.0 = "\<lparr>tv_sec = 0, tv_nsec = 0\<rparr>"]
  show ?thesis
    using run [where ?t1.0 = "\<lparr>tv_sec = 2, tv_nsec = 500000\<rparr>"] run [where ?t1.0 = "\<lparr>tv_sec = 0, tv_nsec = 999999\<rparr>"]
    by (auto simp: demo_args_def valid_times_def sec_diff_def nsec_diff_def elapsed_ns_eq demo_calls)
qed

text \<open>
  \<open>single_connection_test\<close> runs from \<open>register_server\<close> to \<open>shutdown\<close>, prints the time its client
  took and leaves the address of the server free.
\<close>

theorem single_connection_test_completes:
  assumes srv: "rpc_server K P" and reg: "register_server P (Suc fuel) 0 test_server_addr k = Ret (Some sc, k1)"
    and runs: "\<forall>k k'. manage_pool P sc k = Ret k' \<longrightarrow> sleeping K CLIENT_OPEN_WAIT_INTERVAL k = k'"
    and free: "\<forall>key \<in> {hash test_server_addr, hash (client_name 1), hash (client_name 1) + 1}. key_names K key k = None"
    and rm: "\<forall>c t k. key_names K c k = Some t \<longrightarrow> fst (shmctl_rmid K t k) = 0"
  shows "\<exists>t k'. coord_shmaddr sc = Shm t \<and> key_names K (hash test_server_addr) k' \<noteq> Some t \<and>
    single_connection_test P (Suc fuel) 0 t0 t1 args k =
      Ret (Long ''Num Clients'' 1 # Long ''Available Slots'' 40 # report_connection_stats (args\<lparr>start_time := t0, end_time := t1\<rparr>), k')"
proof -
  have free': "\<forall>key \<in> {hash test_server_addr, hash (client_name 1), i32 (hash (client_name 1) + 1)}. key_names K key k = None"
    using free by (simp add: client_one i32_def)
  obtain client k2 server k3 t h where s: "client_open P (Suc fuel) (client_name 1) test_server_addr 4 POLL k1 = Ret (Some client, k2)"
    "accept P (Suc fuel) sc k2 = Ret (Some server, k3)" "coord_shmaddr sc = Shm t" "load_seg K t k3 = Some (Table h)"
    "key_names K (hash test_server_addr) k3 = Some t" "coord_wf h" "coord_shmid h = t" "\<forall>i < SLOT_NUM. settled t h i"
    by (rule rpc_server.session_end [OF srv reg runs _ _ _ _ free', of 4 "[]" fuel "Suc fuel"])
      (simp_all add: test_server_hash client_one i32_def)
  obtain k4 where k4: "shutdown P True (Suc fuel) sc k3 = Ret k4" "key_names K (hash test_server_addr) k4 \<noteq> Some t"
    using rpc_server.shutdown_run [OF srv s(4-8,3), of fuel] rm by blast
  have "accept_until P (Suc fuel) (Suc fuel) sc k2 = Ret (server, k3)" by (subst accept_until.simps) (simp add: s(2))
  moreover have "open_until P (Suc fuel) (client_name 1) k1 = Ret (client, k2)" by (subst open_until.simps) (simp add: s(1))
  ultimately show ?thesis
    using reg k4 s(3) by (simp add: single_connection_test_def pthread_connect_client_def SLOT_NUM_def report_connection_stats_def
        sec_diff_def nsec_diff_def elapsed_ms_def Let_def)
qed

text \<open>
  The name of a benchmark client always fits its buffer of 32 characters, contains no
  terminator, and no two clients share a name.
\<close>

theorem client_names_fit:
  assumes "int32 n"
  shows "length (client_name n) < 32 \<and> 0 \<notin> set (client_name n) \<and>
    (\<forall>m. int32 m \<longrightarrow> client_name m = client_name n \<longrightarrow> m = n)"
  using client_name_eq(2) [OF assms] client_name_bytes [OF assms] client_name_inj [OF _ assms] by fastforce

theorem client_names_fit_witness: "length (client_name (-2147483648)) < 32 \<and> 0 \<notin> set (client_name (-2147483648))"
  using client_names_fit [of "-2147483648"] by simp

end
