(* ===== verification/Bench_Tests.thy ===== *)
theory Bench_Tests
  imports Multi_Conn Bench_Rpc
begin

text \<open>
  The tests with many clients, \<open>connection_stress_test\<close>, \<open>rtt_steady_state_conn_test\<close> and
  \<open>rtt_during_connection_test\<close> of \<open>src/bench_rpc/src/bench.cpp\<close>: \<open>MAX_CLIENTS\<close> client threads, the
  main thread with its accept loop, and a handler thread for each accepted client. A schedule is a
  list of turns. A turn of the main thread is one pass of its accept loop; a turn of a client is
  its connection or its exchange of messages with its handler, whose queues no other
  thread uses. Turns in which a thread would go on waiting change nothing. The array
  \<open>client_list\<close> and the times in \<open>args\<close> start with whatever the memory held.
\<close>

section \<open>Threads and turns\<close>

text \<open>The kernel, the arguments of the client threads, and the variables of the accept loop.\<close>

record 'k accepting =
  kern :: 'k
  client_args :: "connection_args list"
  client_list :: "int list"
  next_client :: nat
  handlers :: "'k queue_ctx list"

datatype 'k client_state = Starting | Connected "'k queue_ctx" | Ended

record 'k bench_test = "'k accepting" +
  client_states :: "'k client_state list"

datatype turn = Client nat | Server

text \<open>
  The three tests: clients that only connect, clients that wait for \<open>run_flag\<close> between connecting
  and exchanging messages (the flag is set after the accept loop), and clients that do not.
\<close>

datatype test_mode = Stress | Steady | During

definition server_turn ::
  "('k, 'b) platform \<Rightarrow> nat \<Rightarrow> server_context \<Rightarrow> ('k, 'x) accepting_scheme \<Rightarrow> ('k, 'x) accepting_scheme outcome" where
  "server_turn P fuel sc s =
     (if next_client s < MAX_CLIENTS then
        bind_out (accept P fuel sc (kern s)) (\<lambda>(s_qp, k1).
          case s_qp of
            None \<Rightarrow> Ret (s\<lparr>kern := k1\<rparr>)
          | Some qp \<Rightarrow>
              let key = qp_client_id (queues qp) in
              if bsearch key (client_list s) \<noteq> None then Ret (s\<lparr>kern := k1\<rparr>)
              else if request_shmaddr (queues qp) \<noteq> Null then
                Ret (s\<lparr>kern := k1, client_list := (client_list s)[next_client s := key],
                       next_client := next_client s + 1, handlers := handlers s @ [qp]\<rparr>)
              else Ret (s\<lparr>kern := k1\<rparr>))
      else Ret s)"

definition end_client :: "nat \<Rightarrow> connection_args \<Rightarrow> 'k \<Rightarrow> 'k bench_test \<Rightarrow> 'k bench_test" where
  "end_client n args k s =
     s\<lparr>kern := k, client_args := (client_args s)[n := args], client_states := (client_states s)[n := Ended]\<rparr>"

text \<open>The handler that serves a connection, if the server has accepted it.\<close>

definition handler_of :: "'k queue_ctx \<Rightarrow> ('k, 'x) accepting_scheme \<Rightarrow> 'k queue_ctx option" where
  "handler_of qp s = find (\<lambda>h. qp_client_id (queues h) = qp_client_id (queues qp)) (handlers s)"

definition client_turn ::
  "test_mode \<Rightarrow> ('k, 'b) platform \<Rightarrow> nat \<Rightarrow> (nat \<Rightarrow> timespec \<times> timespec) \<Rightarrow> nat \<Rightarrow> 'k bench_test \<Rightarrow> 'k bench_test outcome"
where
  "client_turn mode P fuel clock n s =
     (if n < length (client_states s) then
        let args = client_args s ! n; (t0, t1) = clock n in
        case client_states s ! n of
          Starting \<Rightarrow>
            if mode = Stress then
              bind_out (pthread_connect_client P fuel t0 t1 args (kern s)) (\<lambda>(args', k1). Ret (end_client n args' k1 s))
            else
              bind_out (open_until P fuel (client_name (conn_client_id args)) (kern s)) (\<lambda>(c_qp, k1).
              Ret (s\<lparr>kern := k1, client_states := (client_states s)[n := Connected c_qp]\<rparr>))
        | Connected c_qp \<Rightarrow>
            if mode = Steady \<and> next_client s < MAX_CLIENTS then Ret s
            else
              (case handler_of c_qp s of
                 None \<Rightarrow> Ret s
               | Some s_qp \<Rightarrow>
                   bind_out (pthread_client_rtt_post_connect (server_rtt_step s_qp) t0 t1 c_qp args (kern s)) (\<lambda>(args', k1).
                   Ret (end_client n args' k1 s)))
        | Ended \<Rightarrow> Ret s
      else Ret s)"

fun run_turns ::
  "test_mode \<Rightarrow> ('k, 'b) platform \<Rightarrow> nat \<Rightarrow> server_context \<Rightarrow> (nat \<Rightarrow> timespec \<times> timespec) \<Rightarrow> turn list \<Rightarrow> 'k bench_test \<Rightarrow>
   'k bench_test outcome"
where
  "run_turns mode P fuel sc clock [] s = Ret s"
| "run_turns mode P fuel sc clock (Client n # ts) s =
     bind_out (client_turn mode P fuel clock n s) (run_turns mode P fuel sc clock ts)"
| "run_turns mode P fuel sc clock (Server # ts) s =
     bind_out (server_turn P fuel sc s) (run_turns mode P fuel sc clock ts)"

text \<open>\<open>args[i]->client_id = i + nonce.tv_nsec\<close>, with \<open>nonces\<close> the nanoseconds read for each client.\<close>

definition test_start :: "(nat \<Rightarrow> int) \<Rightarrow> (nat \<Rightarrow> connection_args) \<Rightarrow> int list \<Rightarrow> 'k \<Rightarrow> 'k bench_test" where
  "test_start nonces junk garbage k =
     \<lparr>kern = k, client_args = map (\<lambda>i. (junk i)\<lparr>conn_client_id := i32 (int i + nonces i)\<rparr>) [0..<MAX_CLIENTS],
      client_list = garbage, next_client = 0, handlers = [], client_states = replicate MAX_CLIENTS Starting\<rparr>"

fun has_ended :: "'k client_state \<Rightarrow> bool" where
  "has_ended Ended = True"
| "has_ended _ = False"

text \<open>The main thread gets past its accept loop and its joins when every client is accepted and has ended.\<close>

definition test_over :: "'k bench_test \<Rightarrow> bool" where
  "test_over s \<longleftrightarrow> next_client s = MAX_CLIENTS \<and> list_all has_ended (client_states s)"

definition run_test ::
  "test_mode \<Rightarrow> ('k, 'b) platform \<Rightarrow> nat \<Rightarrow> int \<Rightarrow> (nat \<Rightarrow> int) \<Rightarrow> (nat \<Rightarrow> connection_args) \<Rightarrow> int list \<Rightarrow>
   (nat \<Rightarrow> timespec \<times> timespec) \<Rightarrow> turn list \<Rightarrow> (connection_args list \<Rightarrow> out_line list outcome) \<Rightarrow> 'k \<Rightarrow>
   (out_line list \<times> 'k) outcome"
where
  "run_test mode P fuel err nonces junk garbage clock ts report k =
     bind_out (register_server P fuel err test_server_addr k) (\<lambda>(handler, k1).
     case handler of
       None \<Rightarrow> Fault NullDeref
     | Some sc \<Rightarrow>
         bind_out (run_turns mode P fuel sc clock ts (test_start nonces junk garbage k1)) (\<lambda>s.
         if test_over s then
           bind_out (report (client_args s)) (\<lambda>lines.
           bind_out (shutdown P True fuel sc (kern s)) (\<lambda>k2. Ret (lines, k2)))
         else Hang))"

definition stress_report :: "connection_args list \<Rightarrow> out_line list outcome" where
  "stress_report args =
     (let (total_ms, total_ns) = stress_totals args in
      bind_out (long_div total_ms (int MAX_CLIENTS)) (\<lambda>ms.
      bind_out (long_div total_ns (int MAX_CLIENTS)) (\<lambda>ns.
      Ret [Long ''Num Clients'' (int MAX_CLIENTS), Long ''Available Slots'' (int SLOT_NUM), Long ''ms/op'' ms, Long ''ns/op'' ns])))"

definition connection_stress_test where
  "connection_stress_test P fuel err nonces junk garbage clock ts k =
     run_test Stress P fuel err nonces junk garbage clock ts stress_report k"

definition print_coord_slots :: int where "print_coord_slots = int SLOT_NUM"

definition rtt_report_row :: "connection_args list \<Rightarrow> out_line list outcome" where
  "rtt_report_row args = bind_out (average_ns args) (rtt_row print_coord_slots)"

definition rtt_steady_state_conn_test where
  "rtt_steady_state_conn_test P fuel err nonces junk garbage clock ts k =
     run_test Steady P fuel err nonces junk garbage clock ts rtt_report_row k"

definition rtt_during_connection_test where
  "rtt_during_connection_test P fuel err nonces junk garbage clock ts k =
     run_test During P fuel err nonces junk garbage clock ts rtt_report_row k"

section \<open>What every schedule keeps\<close>

lemma hash_int32: "int32 (hash x)"
  using sint_range_size [of "hash_loop 0x55555555 x"] by (simp add: hash_def word_size)

lemma select_queues [simp]: "queues (select_queue_ctx P t qp) = qp"
  by (cases t) (simp_all add: select_queue_ctx_def)

abbreviation client_hash :: "int \<Rightarrow> int" where
  "client_hash c \<equiv> hash (client_name c)"

lemma run_turns_append:
  "run_turns mode P fuel sc clock (us @ vs) s = bind_out (run_turns mode P fuel sc clock us s) (run_turns mode P fuel sc clock vs)"
proof (induction us arbitrary: s)
  case (Cons u us)
  then show ?case by (cases u) (auto simp: bind_out_assoc intro!: bind_out_cong)
qed simp

text \<open>Turns of the threads there are.\<close>

fun turn_ok :: "turn \<Rightarrow> bool" where
  "turn_ok (Client n) = (n < MAX_CLIENTS)"
| "turn_ok Server = True"

text \<open>A server whose pool thread runs, and \<open>MAX_CLIENTS\<close> clients with keys of their own.\<close>

locale bench_clients = rpc_server K P for K :: "('k, 'b) kernel" and P :: "('k, 'b) platform" +
  fixes sc :: server_context and t :: int and cids :: "int list" and mode :: test_mode and clock :: "nat \<Rightarrow> timespec \<times> timespec"
  assumes sc: "coord_shmaddr sc = Shm t"
    and runs: "\<forall>k k'. manage_pool P sc k = Ret k' \<longrightarrow> sleeping K CLIENT_OPEN_WAIT_INTERVAL k = k'"
    and clients: "length cids = MAX_CLIENTS" "apart (hash test_server_addr) (map client_hash cids)"
begin

abbreviation ids :: "int list" where
  "ids \<equiv> map client_hash cids"

lemma ids: "length ids = MAX_CLIENTS" "apart (hash test_server_addr) ids" "\<forall>c \<in> set ids. int32 c"
  using clients hash_int32 by (simp_all add: ball_Un)

abbreviation opened :: "coord_header \<Rightarrow> int list \<Rightarrow> 'k \<Rightarrow> bool" where
  "opened \<equiv> many (hash test_server_addr) t 4 ids"

definition attached :: "coord_header \<Rightarrow> int list \<Rightarrow> int set" where
  "attached h os = {os ! j | j. j < length os \<and> server_attached (slots h ! j)}"

text \<open>The threads: who has connected, and over which queues.\<close>

definition thread_ok :: "int list \<Rightarrow> 'k \<Rightarrow> nat \<Rightarrow> connection_args \<Rightarrow> 'k client_state \<Rightarrow> bool" where
  "thread_ok os k n args st \<longleftrightarrow> conn_client_id args = cids ! n \<and> (st = Starting \<longleftrightarrow> ids ! n \<notin> set os) \<and>
     (\<forall>c. st = Connected c \<longrightarrow> mode \<noteq> Stress \<and> (\<exists>q. c = select_queue_ctx P POLL q \<and> at_conn k (ids ! n) q)) \<and>
     (st = Ended \<longrightarrow> (start_time args, end_time args) = clock n)"

definition threads_ok :: "int list \<Rightarrow> 'k bench_test \<Rightarrow> bool" where
  "threads_ok os s \<longleftrightarrow> length (client_args s) = MAX_CLIENTS \<and> length (client_states s) = MAX_CLIENTS \<and>
     (\<forall>n < MAX_CLIENTS. thread_ok os (kern s) n (client_args s ! n) (client_states s ! n))"

text \<open>The server: \<open>client_list\<close> up to \<open>i\<close> holds each accepted client once, in the order of the handlers.\<close>

definition server_ok :: "coord_header \<Rightarrow> int list \<Rightarrow> 'k bench_test \<Rightarrow> bool" where
  "server_ok h os s \<longleftrightarrow> length (client_list s) = MAX_CLIENTS \<and> (\<forall>x \<in> set (client_list s). int32 x) \<and>
     next_client s \<le> MAX_CLIENTS \<and> distinct (take (next_client s) (client_list s)) \<and>
     set (take (next_client s) (client_list s)) = attached h os \<and> set (drop (next_client s) (client_list s)) \<inter> set ids = {} \<and>
     map (\<lambda>c. qp_client_id (queues c)) (handlers s) = take (next_client s) (client_list s) \<and>
     (\<forall>c \<in> set (handlers s). \<exists>q. c = select_queue_ctx P POLL q \<and> at_conn (kern s) (qp_client_id q) q)"

definition test_inv :: "coord_header \<Rightarrow> int list \<Rightarrow> 'k bench_test \<Rightarrow> bool" where
  "test_inv h os s \<longleftrightarrow> opened h os (kern s) \<and> threads_ok os s \<and> server_ok h os s"

lemma ids_nth: "n < MAX_CLIENTS \<Longrightarrow> ids ! n \<in> set ids"
  using ids(1) by simp

lemma threads_keeps:
  assumes "threads_ok os s" "keeps {} t (kern s) k'"
  shows "threads_ok os (s\<lparr>kern := k'\<rparr>)"
  using assms at_conn_keeps [OF _ assms(2)] unfolding threads_ok_def thread_ok_def by simp blast

lemma server_keeps:
  assumes "server_ok h os s" "keeps {} t (kern s) k'" "attached h' os = attached h os"
  shows "server_ok h' os (s\<lparr>kern := k'\<rparr>)"
  using assms at_conn_keeps [OF _ assms(2)] unfolding server_ok_def by simp blast

lemma attached_sub: "opened h os k \<Longrightarrow> attached h os \<subseteq> set ids"
  by (auto simp: attached_def many_def)

lemma bsearch_new:
  assumes "server_ok h os s" "opened h os k" "c \<in> set ids" "c \<notin> attached h os"
  shows "bsearch c (client_list s) = None"
proof (rule bsearch_absent)
  have "set (client_list s) = set (take (next_client s) (client_list s)) \<union> set (drop (next_client s) (client_list s))"
    by (metis append_take_drop_id set_append)
  then show "c \<notin> set (client_list s)" using assms by (auto simp: server_ok_def)
qed (use assms ids(3) in \<open>auto simp: server_ok_def\<close>)

text \<open>One pass of the accept loop.\<close>

lemma server_step:
  assumes inv: "test_inv h os s"
  obtains s' h' where "server_turn P fuel sc s = Ret s'" "test_inv h' os s'" "attached h os \<subseteq> attached h' os"
    "client_states s' = client_states s" "client_args s' = client_args s" "next_client s \<le> next_client s'"
    "next_client s < MAX_CLIENTS \<Longrightarrow> (case accept_loop SLOT_NUM (nat (accept_slot h)) h of
       None \<Rightarrow> h' = h | Some u \<Rightarrow> accept_slot h' = int (Suc u mod SLOT_NUM) \<and> u < length os \<and> os ! u \<in> attached h' os)"
proof (cases "next_client s < MAX_CLIENTS")
  case False
  then show thesis using inv by (intro that [of s h]) (simp_all add: server_turn_def)
next
  case room: True
  from inv have op: "opened h os (kern s)" and th: "threads_ok os s" and sv: "server_ok h os s" by (simp_all add: test_inv_def)
  show thesis
  proof (cases "accept_loop SLOT_NUM (nat (accept_slot h)) h")
    case None
    from many_accept_none [OF op sc None, of fuel] obtain k' where
      k': "accept P fuel sc (kern s) = Ret (None, k')" "opened h os k'" "keeps {} t (kern s) k'" by blast
    have "test_inv h os (s\<lparr>kern := k'\<rparr>)"
      using k'(2) threads_keeps [OF th k'(3)] server_keeps [OF sv k'(3) refl] by (simp add: test_inv_def)
    then show ?thesis using k'(1) room None by (intro that [of "s\<lparr>kern := k'\<rparr>" h]) (simp_all add: server_turn_def)
  next
    case (Some u)
    obtain ctx k' h' where a: "accept P fuel sc (kern s) = Ret (Some ctx, k')" "u < length os" "opened h' os k'" "keeps {} t (kern s) k'"
      "qp_client_id (queues ctx) = os ! u" "accept_slot h' = int (Suc u mod SLOT_NUM)"
      "\<And>j. j < length os \<Longrightarrow> server_attached (slots h' ! j) = (j = u \<or> server_attached (slots h ! j))"
      "server_attached (slots h ! u) \<Longrightarrow> request_shmaddr (queues ctx) = Null"
      "\<not> server_attached (slots h ! u) \<Longrightarrow> \<exists>qp. ctx = select_queue_ctx P POLL qp \<and> at_conn k' (os ! u) qp"
      by (rule many_accept [OF op sc Some, of fuel], rule that) (assumption | blast)+
    have att: "attached h' os = insert (os ! u) (attached h os)" using a(2,7) by (auto simp: attached_def)
    have uids: "os ! u \<in> set ids" using op a(2) by (auto simp: many_def)
    show ?thesis
    proof (cases "server_attached (slots h ! u)")
      case True
      then have "attached h' os = attached h os" using att a(2) by (auto simp: attached_def)
      then have "test_inv h' os (s\<lparr>kern := k'\<rparr>)"
        using a(3) threads_keeps [OF th a(4)] server_keeps [OF sv a(4)] by (simp add: test_inv_def)
      moreover have "server_turn P fuel sc s = Ret (s\<lparr>kern := k'\<rparr>)"
        using room a(1) a(8) [OF True] by (simp add: server_turn_def Let_def)
      ultimately show ?thesis using Some att a(2,6) by (intro that [of "s\<lparr>kern := k'\<rparr>" h']) auto
    next
      case False
      from a(9) [OF False] obtain qp where qp: "ctx = select_queue_ctx P POLL qp" "at_conn k' (os ! u) qp" by blast
      have new: "os ! u \<notin> attached h os"
        using False a(2) op by (auto simp: attached_def many_def nth_eq_iff_index_eq)
      have id: "qp_client_id qp = os ! u" and addr: "request_shmaddr qp \<noteq> Null" using qp(2) by (auto simp: at_conn_def)
      let ?n = "next_client s"
      let ?s = "s\<lparr>kern := k', client_list := (client_list s)[?n := os ! u], next_client := ?n + 1, handlers := handlers s @ [ctx]\<rparr>"
      have len: "?n < length (client_list s)" using room sv by (simp add: server_ok_def)
      have turn: "server_turn P fuel sc s = Ret ?s"
        using room a(1,5) addr qp(1) bsearch_new [OF sv op uids new] by (simp add: server_turn_def Let_def)
      have sv': "server_ok h os (s\<lparr>kern := k'\<rparr>)" by (rule server_keeps [OF sv a(4) refl])
      have tk: "take (?n + 1) ((client_list s)[?n := os ! u]) = take ?n (client_list s) @ [os ! u]"
        using len by (simp add: take_Suc_conv_app_nth)
      have dr: "set (drop (?n + 1) ((client_list s)[?n := os ! u])) \<subseteq> set (drop ?n (client_list s))"
        by (simp add: set_drop_subset_set_drop)
      have "\<forall>x \<in> set ((client_list s)[?n := os ! u]). int32 x"
        using sv ids(3) uids set_update_subset_insert [of "client_list s" ?n "os ! u"] by (auto simp: server_ok_def)
      moreover have "set (drop (?n + 1) ((client_list s)[?n := os ! u])) \<inter> set ids = {}"
        using dr sv by (auto simp: server_ok_def simp del: drop_update_cancel)
      ultimately have "server_ok h' os ?s"
        using sv' room tk new id qp a(5) unfolding server_ok_def by (auto simp: att simp del: take_update_cancel drop_update_cancel)
      moreover have "threads_ok os ?s" using threads_keeps [OF th a(4)] by (simp add: threads_ok_def)
      ultimately have "test_inv h' os ?s" using a(3) by (simp add: test_inv_def)
      then show ?thesis using turn Some att a(2,6) by (intro that [of ?s h']) auto
    qed
  qed
qed

text \<open>A client connects.\<close>

lemma open_step:
  assumes op: "opened h os k" and n: "n < MAX_CLIENTS" "ids ! n \<notin> set os"
  obtains k' h' q where "open_until P (Suc fuel) (client_name (cids ! n)) k = Ret (select_queue_ctx P POLL q, k')"
    "opened h' (os @ [ids ! n]) k'" "at_conn k' (ids ! n) q" "keeps {ids ! n, i32 (ids ! n + 1)} t k k'"
    "accept_slot h' = accept_slot h" "attached h' (os @ [ids ! n]) = attached h os"
proof -
  have c: "client_hash (cids ! n) = ids ! n" using n(1) clients(1) by simp
  have c': "client_hash (cids ! n) \<in> set ids - set os" using n ids_nth c by simp
  have len: "length ids \<le> SLOT_NUM" using ids(1) by (simp add: MAX_CLIENTS_def SLOT_NUM_def)
  have m: "0 < (4 :: nat)" "4 \<le> QUEUE_SIZE - 40" by (simp_all add: QUEUE_SIZE_def)
  obtain k' h' q where o: "client_open P (Suc fuel) (client_name (cids ! n)) test_server_addr (int 4) POLL k = Ret (Some (select_queue_ctx P POLL q), k')"
    "opened h' (os @ [ids ! n]) k'" "at_conn k' (ids ! n) q" "keeps {ids ! n, i32 (ids ! n + 1)} t k k'"
    "accept_slot h' = accept_slot h" "\<not> server_attached (slots h' ! length os)" "\<And>j. j < length os \<Longrightarrow> slots h' ! j = slots h ! j"
    by (rule many_open [OF op ids(2) len c' refl m sc runs, unfolded c, of fuel], rule that) (assumption | blast)+
  have "open_until P (Suc fuel) (client_name (cids ! n)) k = Ret (select_queue_ctx P POLL q, k')"
    using o(1) by (subst open_until.simps) simp
  moreover have "attached h' (os @ [ids ! n]) = attached h os"
    using o(6,7) by (auto simp: attached_def nth_append less_Suc_eq)
  ultimately show thesis using o(2-5) by (intro that)
qed

lemma thread_other:
  assumes "thread_ok os k j args st" "keeps {ids ! n, i32 (ids ! n + 1)} t k k'" "j < MAX_CLIENTS" "n < MAX_CLIENTS" "j \<noteq> n"
  shows "thread_ok (os @ [ids ! n]) k' j args st"
proof -
  have ne: "ids ! j \<noteq> ids ! n" using nth_eq_iff_index_eq [OF apart_distinct [OF ids(2)], of j n] assms(3-5) clients(1) by simp
  from apart_other [OF ids(2) ids_nth [OF assms(3)] ids_nth [OF assms(4)] this]
  have "at_conn k (ids ! j) q \<Longrightarrow> at_conn k' (ids ! j) q" for q
    by (intro at_conn_keeps [OF _ assms(2)]) auto
  with assms(1) ne show ?thesis unfolding thread_ok_def by simp blast
qed

text \<open>The turn of a client that has connected changes only its own state, arguments and queues.\<close>

lemma threads_open:
  assumes th: "threads_ok os s" and n: "n < MAX_CLIENTS" and kp: "keeps {ids ! n, i32 (ids ! n + 1)} t (kern s) k'"
    and new: "thread_ok (os @ [ids ! n]) k' n args st"
  shows "threads_ok (os @ [ids ! n]) (s\<lparr>kern := k', client_args := (client_args s)[n := args], client_states := (client_states s)[n := st]\<rparr>)"
  using th n new thread_other [OF _ kp _ n] by (simp add: threads_ok_def nth_list_update)

lemma server_open:
  assumes sv: "server_ok h os s" and op: "opened h os (kern s)" and c: "c \<in> set ids" "c \<notin> set os"
    and kp: "keeps {c, i32 (c + 1)} t (kern s) k'" and att: "attached h' (os @ [c]) = attached h os"
  shows "server_ok h' (os @ [c]) (s\<lparr>kern := k', client_args := as, client_states := sts\<rparr>)"
proof -
  have "\<exists>q. x = select_queue_ctx P POLL q \<and> at_conn k' (qp_client_id q) q" if x: "x \<in> set (handlers s)" for x
  proof -
    from sv x obtain q where q: "x = select_queue_ctx P POLL q" "at_conn (kern s) (qp_client_id q) q" by (auto simp: server_ok_def)
    have "qp_client_id (queues x) \<in> set (map (\<lambda>c. qp_client_id (queues c)) (handlers s))" using x by simp
    also have "\<dots> = attached h os" using sv by (simp add: server_ok_def)
    finally have "qp_client_id q \<in> attached h os" using q(1) by simp
    then have "qp_client_id q \<in> set ids" "qp_client_id q \<noteq> c" using op c(2) by (auto simp: attached_def many_def)
    from apart_other [OF ids(2) this(1) c(1) this(2)] have "at_conn k' (qp_client_id q) q"
      by (intro at_conn_keeps [OF q(2) kp]) auto
    with q(1) show ?thesis by blast
  qed
  with sv att show ?thesis by (simp add: server_ok_def)
qed

text \<open>A client exchanges its messages with its handler.\<close>

lemma exchange_step:
  assumes op: "opened h os k" and c: "c \<in> set os" and ends: "at_conn k c qpc" "at_conn k c qps"
  obtains k' where "pthread_client_rtt_post_connect (server_rtt_step (select_queue_ctx P POLL qps)) t0 t1 (select_queue_ctx P POLL qpc) args k =
      Ret (args\<lparr>start_time := t0, end_time := t1\<rparr>, k')"
    "opened h os k'" "\<And>x. key_names K x k' = key_names K x k"
proof -
  let ?rs = "map (\<lambda>i. (int_bytes (of_nat i), int_bytes (of_nat i))) rtt_numbers"
  have lens: "\<forall>(req, resp) \<in> set ?rs. length req = 4 \<and> length resp = 4" by auto
  have cap: "0 < (QUEUE_SIZE - 40) div 4 - 1" by (simp add: QUEUE_SIZE_def)
  obtain k' where k': "rpc_rounds (select_queue_ctx P POLL qpc) (select_queue_ctx P POLL qps) ?rs k = Ret (?rs, k')"
    "opened h os k'" "\<And>x. key_names K x k' = key_names K x k"
    by (rule many_exchange [OF op ids(2) c cap ends lens], rule that) (assumption | blast)+
  from echo_from_rounds [OF k'(1)] show thesis
    by (intro that [OF _ k'(2,3)]) (simp add: pthread_client_rtt_post_connect_def)
qed

lemma names_at_conn: "(\<And>x. key_names K x k' = key_names K x k) \<Longrightarrow> at_conn k' c q = at_conn k c q"
  by (simp add: at_conn_def)

lemma handler_found:
  assumes sv: "server_ok h os s" and c: "c \<in> attached h os" "qp_client_id (queues qp) = c"
  obtains q where "handler_of qp s = Some (select_queue_ctx P POLL q)" "at_conn (kern s) c q"
proof -
  have "c \<in> set (map (\<lambda>c. qp_client_id (queues c)) (handlers s))" using sv c(1) by (simp add: server_ok_def)
  then have "handler_of qp s \<noteq> None" using c(2) by (auto simp: handler_of_def find_None_iff)
  then obtain x where x: "handler_of qp s = Some x" by blast
  then have "x \<in> set (handlers s)" "qp_client_id (queues x) = c"
    using c(2) by (auto simp: handler_of_def find_Some_iff)
  with sv obtain q where "x = select_queue_ctx P POLL q" "at_conn (kern s) c q" by (auto simp: server_ok_def)
  with x show thesis by (intro that) simp_all
qed

text \<open>What the turn of client \<open>n\<close> achieves: it is connected afterwards, and has ended if nothing holds it up.\<close>

lemma client_step:
  assumes inv: "test_inv h os s" and n: "n < MAX_CLIENTS"
  obtains s' h' os' where "client_turn mode P (Suc fuel) clock n s = Ret s'" "test_inv h' os' s'"
    "ids ! n \<in> set os'" "set os \<subseteq> set os'" "ids ! n \<in> set os \<Longrightarrow> os' = os \<and> h' = h" "ids ! n \<notin> set os \<Longrightarrow> os' = os @ [ids ! n]" "accept_slot h' = accept_slot h"
    "attached h' os' = attached h os" "next_client s' = next_client s" "\<And>j. client_states s ! j = Ended \<Longrightarrow> client_states s' ! j = Ended"
    "mode = Stress \<or> ids ! n \<in> set os \<and> next_client s = MAX_CLIENTS \<and> attached h os = set ids \<Longrightarrow> client_states s' ! n = Ended"
proof -
  from inv have op: "opened h os (kern s)" and th: "threads_ok os s" and sv: "server_ok h os s" by (simp_all add: test_inv_def)
  from th n have len: "length (client_states s) = MAX_CLIENTS" "length (client_args s) = MAX_CLIENTS"
    and me: "thread_ok os (kern s) n (client_args s ! n) (client_states s ! n)" by (simp_all add: threads_ok_def)
  obtain t0 t1 where clk: "clock n = (t0, t1)" by (cases "clock n")
  let ?args = "client_args s ! n"
  have id: "conn_client_id ?args = cids ! n" using me by (simp add: thread_ok_def)
  show thesis
  proof (cases "client_states s ! n")
    case Starting
    with me have new: "ids ! n \<notin> set os" by (simp add: thread_ok_def)
    obtain k' h' q where o: "open_until P (Suc fuel) (client_name (cids ! n)) (kern s) = Ret (select_queue_ctx P POLL q, k')"
      "opened h' (os @ [ids ! n]) k'" "at_conn k' (ids ! n) q" "keeps {ids ! n, i32 (ids ! n + 1)} t (kern s) k'"
      "accept_slot h' = accept_slot h" "attached h' (os @ [ids ! n]) = attached h os"
      by (rule open_step [OF op n new, of fuel], rule that) (assumption | blast)+
    let ?st = "if mode = Stress then Ended else Connected (select_queue_ctx P POLL q)"
    let ?args' = "if mode = Stress then ?args\<lparr>start_time := t0, end_time := t1\<rparr> else ?args"
    let ?s = "s\<lparr>kern := k', client_args := (client_args s)[n := ?args'], client_states := (client_states s)[n := ?st]\<rparr>"
    have "(client_args s)[n := ?args] = client_args s" by simp
    then have "s\<lparr>kern := k', client_states := (client_states s)[n := Connected c]\<rparr> =
      s\<lparr>kern := k', client_args := (client_args s)[n := ?args], client_states := (client_states s)[n := Connected c]\<rparr>" for c
      by (cases s) simp
    then have turn: "client_turn mode P (Suc fuel) clock n s = Ret ?s"
      using Starting n len id o(1) clk by (simp add: client_turn_def pthread_connect_client_def end_client_def)
    have "thread_ok (os @ [ids ! n]) k' n ?args' ?st" using id o(3) clk by (auto simp: thread_ok_def)
    from threads_open [OF th n o(4) this] server_open [OF sv op ids_nth [OF n] new o(4,6)]
    have "test_inv h' (os @ [ids ! n]) ?s" using o(2) by (simp add: test_inv_def)
    then show ?thesis using turn o(5,6) new n len Starting
      by (intro that [of ?s h' "os @ [ids ! n]"]) (auto simp: nth_list_update)
  next
    case (Connected c)
    with me have old: "ids ! n \<in> set os" and ns: "mode \<noteq> Stress" by (auto simp: thread_ok_def)
    from Connected me obtain q where q: "c = select_queue_ctx P POLL q" "at_conn (kern s) (ids ! n) q" by (auto simp: thread_ok_def)
    then have qid: "qp_client_id (queues c) = ids ! n" by (simp add: at_conn_def)
    show ?thesis
    proof (cases "(mode = Steady \<and> next_client s < MAX_CLIENTS) \<or> ids ! n \<notin> attached h os")
      case True
      have "handler_of c s = None" if "ids ! n \<notin> attached h os"
      proof -
        have "set (map (\<lambda>c. qp_client_id (queues c)) (handlers s)) = attached h os" using sv by (simp add: server_ok_def)
        with that have "ids ! n \<notin> set (map (\<lambda>c. qp_client_id (queues c)) (handlers s))" by simp
        with qid show ?thesis by (auto simp: handler_of_def find_None_iff image_iff)
      qed
      then have "client_turn mode P (Suc fuel) clock n s = Ret s" using Connected n len clk True by (auto simp: client_turn_def)
      then show ?thesis using inv old True ns ids_nth [OF n] by (intro that [of s h os]) auto
    next
      case False
      then obtain p where p: "handler_of c s = Some (select_queue_ctx P POLL p)" "at_conn (kern s) (ids ! n) p"
        using handler_found [OF sv _ qid] by blast
      obtain k' where k': "pthread_client_rtt_post_connect (server_rtt_step (select_queue_ctx P POLL p)) t0 t1 (select_queue_ctx P POLL q) ?args (kern s) =
          Ret (?args\<lparr>start_time := t0, end_time := t1\<rparr>, k')" "opened h os k'" "\<And>x. key_names K x k' = key_names K x (kern s)"
        by (rule exchange_step [OF op old q(2) p(2), of t0 t1 ?args], rule that) (assumption | blast)+
      let ?s = "end_client n (?args\<lparr>start_time := t0, end_time := t1\<rparr>) k' s"
      have turn: "client_turn mode P (Suc fuel) clock n s = Ret ?s" using Connected n len clk False p(1) k'(1) q(1) by (auto simp: client_turn_def)
      note same = names_at_conn [OF k'(3)]
      have "threads_ok os ?s" using th n id old clk by (auto simp: threads_ok_def end_client_def nth_list_update thread_ok_def same)
      moreover have "server_ok h os ?s" using sv by (simp add: server_ok_def end_client_def same)
      ultimately have "test_inv h os ?s" using k'(2) by (simp add: test_inv_def end_client_def)
      then show ?thesis using turn old n len by (intro that [of ?s h os]) (auto simp: end_client_def nth_list_update)
    qed
  next
    case Ended
    with me have "ids ! n \<in> set os" by (auto simp: thread_ok_def)
    moreover have "client_turn mode P (Suc fuel) clock n s = Ret s" using Ended n len clk by (simp add: client_turn_def)
    ultimately show ?thesis using inv Ended by (intro that [of s h os]) auto
  qed
qed

text \<open>Every schedule runs, whatever the order of the turns; clients that had a turn are connected.\<close>

lemma turns_run:
  assumes "test_inv h os s" "list_all turn_ok ts"
  shows "\<exists>s' h' os'. run_turns mode P (Suc fuel) sc clock ts s = Ret s' \<and> test_inv h' os' s' \<and> set os \<subseteq> set os' \<and>
    next_client s \<le> next_client s' \<and> (\<forall>n. Client n \<in> set ts \<longrightarrow> ids ! n \<in> set os') \<and>
    (\<forall>n. client_states s ! n = Ended \<or> mode = Stress \<and> Client n \<in> set ts \<longrightarrow> client_states s' ! n = Ended)"
  using assms
proof (induction ts arbitrary: s h os)
  case Nil
  then show ?case by auto
next
  case (Cons x ts)
  show ?case
  proof (cases x)
    case (Client n)
    with Cons.prems have n: "n < MAX_CLIENTS" "list_all turn_ok ts" by simp_all
    obtain s1 h1 os1 where 1: "client_turn mode P (Suc fuel) clock n s = Ret s1" "test_inv h1 os1 s1"
      "ids ! n \<in> set os1" "set os \<subseteq> set os1" "next_client s1 = next_client s"
      "\<And>j. client_states s ! j = Ended \<Longrightarrow> client_states s1 ! j = Ended" "mode = Stress \<Longrightarrow> client_states s1 ! n = Ended"
      by (rule client_step [OF Cons.prems(1) n(1), of fuel], rule that) (assumption | blast)+
    from Cons.IH [OF 1(2) n(2)] obtain s2 h2 os2 where 2: "run_turns mode P (Suc fuel) sc clock ts s1 = Ret s2" "test_inv h2 os2 s2"
      "set os1 \<subseteq> set os2" "next_client s1 \<le> next_client s2" "\<forall>n. Client n \<in> set ts \<longrightarrow> ids ! n \<in> set os2"
      "\<forall>n. client_states s1 ! n = Ended \<or> mode = Stress \<and> Client n \<in> set ts \<longrightarrow> client_states s2 ! n = Ended" by blast
    from 1 2 Client show ?thesis by (intro exI [of _ s2] exI [of _ h2] exI [of _ os2]) auto
  next
    case Server
    with Cons.prems have ok: "list_all turn_ok ts" by simp
    obtain s1 h1 where 1: "server_turn P (Suc fuel) sc s = Ret s1" "test_inv h1 os s1" "client_states s1 = client_states s"
      "next_client s \<le> next_client s1"
      by (rule server_step [OF Cons.prems(1), of "Suc fuel"], rule that) (assumption | blast)+
    from Cons.IH [OF 1(2) ok] obtain s2 h2 os2 where 2: "run_turns mode P (Suc fuel) sc clock ts s1 = Ret s2" "test_inv h2 os2 s2"
      "set os \<subseteq> set os2" "next_client s1 \<le> next_client s2" "\<forall>n. Client n \<in> set ts \<longrightarrow> ids ! n \<in> set os2"
      "\<forall>n. client_states s1 ! n = Ended \<or> mode = Stress \<and> Client n \<in> set ts \<longrightarrow> client_states s2 ! n = Ended" by blast
    from 1 2 Server show ?thesis by (intro exI [of _ s2] exI [of _ h2] exI [of _ os2]) auto
  qed
qed

text \<open>The accept loop visits the ready rows in turn.\<close>

lemma loop_cong: "(\<And>j. j < SLOT_NUM \<Longrightarrow> ready h j = ready h' j) \<Longrightarrow> s < SLOT_NUM \<Longrightarrow> accept_loop n s h = accept_loop n s h'"
  by (induction n arbitrary: s) (simp_all add: accept_loop_Suc del: accept_loop.simps(2))

lemma rounds_cong:
  "(\<And>j. j < SLOT_NUM \<Longrightarrow> ready h j = ready h' j) \<Longrightarrow> accept_slot h = accept_slot h' \<Longrightarrow> nat (accept_slot h) < SLOT_NUM \<Longrightarrow>
   accept_rounds n h = accept_rounds n h'"
proof (induction n arbitrary: h h')
  case (Suc n)
  have "accept_loop SLOT_NUM (nat (accept_slot h)) h = accept_loop SLOT_NUM (nat (accept_slot h')) h'"
    using loop_cong [of h h'] Suc.prems by simp
  moreover have "accept_rounds n (h\<lparr>accept_slot := int ((u + 1) mod SLOT_NUM)\<rparr>) = accept_rounds n (h'\<lparr>accept_slot := int ((u + 1) mod SLOT_NUM)\<rparr>)" for u
    using Suc.prems by (intro Suc.IH) simp_all
  ultimately show ?case by (simp split: option.splits)
qed simp

lemma test_ready: "test_inv h os s \<Longrightarrow> j < SLOT_NUM \<Longrightarrow> ready h j \<longleftrightarrow> j < length os"
  using many_rows(2) by (simp add: test_inv_def) blast

lemma test_slot: "test_inv h os s \<Longrightarrow> nat (accept_slot h) < SLOT_NUM"
  by (auto simp: test_inv_def many_def coord_inv_def)

lemma full_attached:
  assumes "test_inv h os s" "next_client s = MAX_CLIENTS"
  shows "attached h os = set ids"
proof (rule card_subset_eq)
  show "finite (set ids)" by simp
  show "attached h os \<subseteq> set ids" using assms(1) attached_sub unfolding test_inv_def by blast
  have "distinct (client_list s)" "set (client_list s) = attached h os" "length (client_list s) = MAX_CLIENTS"
    using assms by (auto simp: test_inv_def server_ok_def)
  then show "card (attached h os) = card (set ids)"
    using ids(1) distinct_card [of "client_list s"] distinct_card [OF apart_distinct [OF ids(2)]] by simp
qed

lemma attached_full:
  assumes "test_inv h os s" "attached h os = set ids"
  shows "next_client s = MAX_CLIENTS"
proof -
  have d: "distinct (take (next_client s) (client_list s))" "set (take (next_client s) (client_list s)) = attached h os"
    "length (client_list s) = MAX_CLIENTS" "next_client s \<le> MAX_CLIENTS" using assms by (auto simp: test_inv_def server_ok_def)
  from distinct_card [OF d(1)] d(2-4) have "card (attached h os) = next_client s" by simp
  then show ?thesis using assms(2) distinct_card [OF apart_distinct [OF ids(2)]] ids(1) by simp
qed

text \<open>Once every client is connected, \<open>SLOT_NUM\<close> passes of the accept loop accept all of them.\<close>

lemma accept_all:
  assumes "test_inv h os s" "set os = set ids" "list_all turn_ok ts"
  shows "\<exists>s' h'. run_turns mode P (Suc fuel) sc clock ts s = Ret s' \<and> test_inv h' os s' \<and> attached h os \<subseteq> attached h' os \<and>
    (\<forall>j \<in> set (accept_rounds (count_list ts Server) h). j < length os \<longrightarrow> os ! j \<in> attached h' os) \<and>
    (\<forall>n. client_states s ! n = Ended \<or> (mode = Stress \<or> attached h os = set ids) \<and> Client n \<in> set ts \<longrightarrow> client_states s' ! n = Ended)"
  using assms
proof (induction ts arbitrary: s h)
  case Nil
  then show ?case by auto
next
  case (Cons x ts)
  show ?case
  proof (cases x)
    case (Client n)
    with Cons.prems have n: "n < MAX_CLIENTS" "list_all turn_ok ts" by simp_all
    have old: "ids ! n \<in> set os" using Cons.prems(2) ids_nth [OF n(1)] by simp
    obtain s1 h1 os1 where 1: "client_turn mode P (Suc fuel) clock n s = Ret s1" "test_inv h1 os1 s1"
      "ids ! n \<in> set os \<Longrightarrow> os1 = os \<and> h1 = h" "\<And>j. client_states s ! j = Ended \<Longrightarrow> client_states s1 ! j = Ended"
      "mode = Stress \<or> ids ! n \<in> set os \<and> next_client s = MAX_CLIENTS \<and> attached h os = set ids \<Longrightarrow> client_states s1 ! n = Ended"
      by (rule client_step [OF Cons.prems(1) n(1), of fuel], rule that) (assumption | blast)+
    from 1(2,3) old have inv1: "test_inv h os s1" by simp
    from Cons.IH [OF inv1 Cons.prems(2) n(2)] obtain s2 h2 where 2: "run_turns mode P (Suc fuel) sc clock ts s1 = Ret s2" "test_inv h2 os s2"
      "attached h os \<subseteq> attached h2 os" "\<forall>j \<in> set (accept_rounds (count_list ts Server) h). j < length os \<longrightarrow> os ! j \<in> attached h2 os"
      "\<forall>n. client_states s1 ! n = Ended \<or> (mode = Stress \<or> attached h os = set ids) \<and> Client n \<in> set ts \<longrightarrow> client_states s2 ! n = Ended" by blast
    from 1(1,4,5) 2 Client old attached_full [OF Cons.prems(1)] show ?thesis by (intro exI [of _ s2] exI [of _ h2]) auto
  next
    case Server
    with Cons.prems have ok: "list_all turn_ok ts" by simp
    let ?n = "count_list ts Server"
    obtain s1 h1 where 1: "server_turn P (Suc fuel) sc s = Ret s1" "test_inv h1 os s1" "attached h os \<subseteq> attached h1 os"
      "client_states s1 = client_states s"
      "next_client s < MAX_CLIENTS \<Longrightarrow> (case accept_loop SLOT_NUM (nat (accept_slot h)) h of
       None \<Rightarrow> h1 = h | Some u \<Rightarrow> accept_slot h1 = int (Suc u mod SLOT_NUM) \<and> u < length os \<and> os ! u \<in> attached h1 os)"
      by (rule server_step [OF Cons.prems(1), of "Suc fuel"], rule that) (assumption | blast)+
    from Cons.IH [OF 1(2) Cons.prems(2) ok] obtain s2 h2 where 2: "run_turns mode P (Suc fuel) sc clock ts s1 = Ret s2" "test_inv h2 os s2"
      "attached h1 os \<subseteq> attached h2 os" "\<forall>j \<in> set (accept_rounds ?n h1). j < length os \<longrightarrow> os ! j \<in> attached h2 os"
      "\<forall>n. client_states s1 ! n = Ended \<or> (mode = Stress \<or> attached h1 os = set ids) \<and> Client n \<in> set ts \<longrightarrow> client_states s2 ! n = Ended" by blast
    have sub: "attached h1 os \<subseteq> set ids" using 1(2) attached_sub unfolding test_inv_def by blast
    have "os ! j \<in> attached h2 os" if j: "j \<in> set (accept_rounds (Suc ?n) h)" "j < length os" for j
    proof (cases "next_client s < MAX_CLIENTS")
      case True
      from j(1) obtain u where u: "accept_loop SLOT_NUM (nat (accept_slot h)) h = Some u"
        "j = u \<or> j \<in> set (accept_rounds ?n (h\<lparr>accept_slot := int ((u + 1) mod SLOT_NUM)\<rparr>))"
        by (cases "accept_loop SLOT_NUM (nat (accept_slot h)) h") auto
      with 1(5) True have h1: "accept_slot h1 = int (Suc u mod SLOT_NUM)" "os ! u \<in> attached h1 os" by auto
      have "accept_rounds ?n (h\<lparr>accept_slot := int ((u + 1) mod SLOT_NUM)\<rparr>) = accept_rounds ?n h1"
        using test_ready [OF Cons.prems(1)] test_ready [OF 1(2)] h1(1) test_slot [OF 1(2)] by (intro rounds_cong) simp_all
      with u(2) h1(2) 2(3,4) j(2) show ?thesis by auto
    next
      case False
      with Cons.prems(1) have "next_client s = MAX_CLIENTS" by (simp add: test_inv_def server_ok_def)
      with full_attached [OF Cons.prems(1)] have "os ! j \<in> attached h os" using j(2) Cons.prems(2) by auto
      with 1(3) 2(3) show ?thesis by blast
    qed
    with 1(1,3,4) 2 Server sub show ?thesis by (intro exI [of _ s2] exI [of _ h2]) auto
  qed
qed

text \<open>What the clients of a finished test have measured.\<close>

definition timed :: "connection_args list" where
  "timed = map (\<lambda>n. \<lparr>conn_client_id = cids ! n, start_time = fst (clock n), end_time = snd (clock n)\<rparr>) [0..<MAX_CLIENTS]"

lemma over_timed:
  assumes th: "threads_ok os s" and all: "\<And>n. n < MAX_CLIENTS \<Longrightarrow> client_states s ! n = Ended"
  shows "client_args s = timed"
proof (rule nth_equalityI)
  show len: "length (client_args s) = length timed" using th by (simp add: threads_ok_def timed_def)
  fix n assume "n < length (client_args s)"
  then have n: "n < MAX_CLIENTS" by (simp add: len timed_def)
  then have "thread_ok os (kern s) n (client_args s ! n) (client_states s ! n)" using th by (simp add: threads_ok_def)
  with all [OF n] have "conn_client_id (client_args s ! n) = cids ! n" "clock n = (start_time (client_args s ! n), end_time (client_args s ! n))"
    by (simp_all add: thread_ok_def)
  with n show "client_args s ! n = timed ! n" by (cases "client_args s ! n") (simp add: timed_def)
qed

lemma rounds_attach_all:
  assumes inv: "test_inv h os s" and all: "set os = set ids" and n: "SLOT_NUM \<le> n" and j: "j < length os"
  shows "j \<in> set (accept_rounds n h)"
proof -
  let ?s = "nat (accept_slot h)"
  have jS: "j < SLOT_NUM" using inv j by (simp add: test_inv_def many_def)
  define e where "e = (j + (SLOT_NUM - ?s)) mod SLOT_NUM"
  have s: "?s < SLOT_NUM" by (rule test_slot [OF inv])
  have "(?s + e) mod SLOT_NUM = (?s + (j + (SLOT_NUM - ?s))) mod SLOT_NUM" by (simp add: e_def mod_add_right_eq)
  also have "\<dots> = j" using s jS by simp
  finally have e: "(?s + e) mod SLOT_NUM = j" .
  have "e < SLOT_NUM" by (simp add: e_def SLOT_NUM_def)
  with accept_rounds_reach [OF refl s, of e n] e n test_ready [OF inv jS] j show ?thesis by simp
qed

text \<open>
  A schedule in which every client gets a turn, then the main thread \<open>SLOT_NUM\<close> passes, and then, in
  the tests with messages, every client another turn, ends the test; turns in between do no harm.
\<close>

lemma test_completes:
  assumes inv: "test_inv h [] s" and ok: "list_all turn_ok (ts1 @ ts2 @ ts3)"
    and first: "\<forall>n < MAX_CLIENTS. Client n \<in> set ts1" and passes: "SLOT_NUM \<le> count_list ts2 Server"
    and again: "mode \<noteq> Stress \<longrightarrow> (\<forall>n < MAX_CLIENTS. Client n \<in> set ts3)"
  obtains s' h' os where "run_turns mode P (Suc fuel) sc clock (ts1 @ ts2 @ ts3) s = Ret s'" "test_inv h' os s'" "test_over s'"
    "client_args s' = timed"
proof -
  from turns_run [OF inv, of ts1 fuel] ok obtain s1 h1 os where 1: "run_turns mode P (Suc fuel) sc clock ts1 s = Ret s1" "test_inv h1 os s1"
    "\<forall>n. Client n \<in> set ts1 \<longrightarrow> ids ! n \<in> set os" "\<forall>n. mode = Stress \<and> Client n \<in> set ts1 \<longrightarrow> client_states s1 ! n = Ended" by auto
  have "set ids \<subseteq> set os"
  proof
    fix c assume "c \<in> set ids"
    then obtain n where "n < MAX_CLIENTS" "ids ! n = c" using ids(1) by (metis in_set_conv_nth)
    with 1(3) first show "c \<in> set os" by blast
  qed
  then have os: "set os = set ids" using 1(2) by (auto simp: test_inv_def many_def)
  from accept_all [OF 1(2) os, of ts2 fuel] ok obtain s2 h2 where 2: "run_turns mode P (Suc fuel) sc clock ts2 s1 = Ret s2" "test_inv h2 os s2"
    "\<forall>j \<in> set (accept_rounds (count_list ts2 Server) h1). j < length os \<longrightarrow> os ! j \<in> attached h2 os"
    "\<forall>n. client_states s1 ! n = Ended \<longrightarrow> client_states s2 ! n = Ended" by auto
  have "set os \<subseteq> attached h2 os" using 2(3) rounds_attach_all [OF 1(2) os passes] by (metis in_set_conv_nth subsetI)
  then have att: "attached h2 os = set ids" using os 2(2) attached_sub unfolding test_inv_def by blast
  from accept_all [OF 2(2) os, of ts3 fuel] ok obtain s3 h3 where 3: "run_turns mode P (Suc fuel) sc clock ts3 s2 = Ret s3" "test_inv h3 os s3"
    "attached h2 os \<subseteq> attached h3 os"
    "\<forall>n. client_states s2 ! n = Ended \<or> attached h2 os = set ids \<and> Client n \<in> set ts3 \<longrightarrow> client_states s3 ! n = Ended" by auto
  have "attached h3 os = set ids" using 3(2,3) att attached_sub unfolding test_inv_def by blast
  then have all: "next_client s3 = MAX_CLIENTS" by (rule attached_full [OF 3(2)])
  have ended: "client_states s3 ! n = Ended" if "n < MAX_CLIENTS" for n
    using that first again 1(4) 2(4) 3(4) att by (cases "mode = Stress") auto
  have "test_over s3" using all ended 3(2) by (simp add: test_over_def list_all_length test_inv_def threads_ok_def)
  moreover have "threads_ok os s3" using 3(2) by (simp add: test_inv_def)
  ultimately show thesis using over_timed [OF _ ended] 3(1,2) 1(1) 2(1) by (intro that [of s3 h3 os]) (simp_all add: run_turns_append)
qed

end

section \<open>Whole tests\<close>

lemma rtt_report_row_eq:
  "rtt_report_row args = (let avg = cdiv (total_ns args) 20 in
     Ret [Long ''num_clients'' 20, Long ''coord_slots'' 40, Long ''rtt_num_items'' 100000, Long ''msg_size'' 4,
       Long ''ns/op'' (cdiv avg 100000), Float ''avg_ops/ms'' (fdiv 100000 (of_int avg / 1000000)),
       Float ''ops/ms'' (fdiv 2000000 (of_int avg / 1000000))])"
  by (simp add: rtt_report_row_def print_coord_slots_def average_ns_def long_div_def MAX_CLIENTS_def SLOT_NUM_def rtt_row_def print_ns_op_def NUM_ITEMS_def
      print_num_clients_def print_rtt_num_items_def print_msg_size_def print_avg_ops_ms_def print_ops_ms_def i32_def Let_def)

text \<open>The clients' identifiers, \<open>i + nonce.tv_nsec\<close>, and the figures they measure.\<close>

definition bench_ids :: "(nat \<Rightarrow> int) \<Rightarrow> int list" where
  "bench_ids nonces = map (\<lambda>i. i32 (int i + nonces i)) [0..<MAX_CLIENTS]"

definition bench_args :: "(nat \<Rightarrow> int) \<Rightarrow> (nat \<Rightarrow> timespec \<times> timespec) \<Rightarrow> connection_args list" where
  "bench_args nonces clock =
     map (\<lambda>n. \<lparr>conn_client_id = bench_ids nonces ! n, start_time = fst (clock n), end_time = snd (clock n)\<rparr>) [0..<MAX_CLIENTS]"

text \<open>
  What the tests rely on: the server registers and its pool thread runs whenever a client sleeps;
  the keys of the server and of the clients do not overlap and nobody uses them; the array
  \<open>client_list\<close> does not happen to hold the identifier of a client before it is written.
\<close>

definition bench_ready ::
  "('k, 'b) kernel \<Rightarrow> ('k, 'b) platform \<Rightarrow> nat \<Rightarrow> (nat \<Rightarrow> int) \<Rightarrow> int list \<Rightarrow> server_context \<Rightarrow> 'k \<Rightarrow> 'k \<Rightarrow> bool"
where
  "bench_ready K P fuel nonces garbage sc k k1 \<longleftrightarrow>
     rpc_server K P \<and> register_server P fuel 0 test_server_addr k = Ret (Some sc, k1) \<and>
     (\<forall>k k'. manage_pool P sc k = Ret k' \<longrightarrow> sleeping K CLIENT_OPEN_WAIT_INTERVAL k = k') \<and>
     apart (hash test_server_addr) (map client_hash (bench_ids nonces)) \<and>
     (\<forall>key \<in> set (hash test_server_addr # client_keys (map client_hash (bench_ids nonces))). key_names K key k = None) \<and>
     length garbage = MAX_CLIENTS \<and> (\<forall>x \<in> set garbage. int32 x \<and> x \<notin> set (map client_hash (bench_ids nonces)))"

definition full_schedule :: "test_mode \<Rightarrow> turn list \<Rightarrow> turn list \<Rightarrow> turn list \<Rightarrow> bool" where
  "full_schedule mode ts1 ts2 ts3 \<longleftrightarrow>
     list_all turn_ok (ts1 @ ts2 @ ts3) \<and> (\<forall>n < MAX_CLIENTS. Client n \<in> set ts1) \<and> SLOT_NUM \<le> count_list ts2 Server \<and>
     (mode \<noteq> Stress \<longrightarrow> (\<forall>n < MAX_CLIENTS. Client n \<in> set ts3))"

context bench_clients
begin

text \<open>A server that has registered, before any client connects.\<close>

lemma test_init:
  assumes t: "load_seg K t k = Some (Table (init_header t zero_header))" "key_names K (hash test_server_addr) k = Some t"
    and free: "\<forall>key \<in> set (client_keys ids). key_names K key k = None" and cids: "cids = bench_ids nonces"
    and garbage: "length garbage = MAX_CLIENTS" "\<forall>x \<in> set garbage. int32 x \<and> x \<notin> set ids"
  shows "test_inv (init_header t zero_header) [] (test_start nonces junk garbage k)"
proof -
  let ?h = "init_header t zero_header" and ?s = "test_start nonces junk garbage k"
  note h = init_header_simps [OF zero_wf]
  have rows: "slots ?h ! j = zero_row" if "j < SLOT_NUM" for j using that by (simp add: h(2)) (simp add: zero_header_def)
  have "opened ?h [] k" using t free rows h(4,5) init_zero_inv by (simp add: many_def)
  moreover have "threads_ok [] ?s" unfolding threads_ok_def thread_ok_def
    by (simp add: test_start_def cids) (simp add: bench_ids_def)
  moreover have "server_ok ?h [] ?s" using garbage by (auto simp: server_ok_def attached_def test_start_def)
  ultimately show ?thesis by (simp add: test_inv_def test_start_def)
qed

end

lemma bench_start:
  assumes "bench_ready K P fuel nonces garbage sc k k1"
  obtains t where "coord_shmaddr sc = Shm t" "bench_clients K P sc t (bench_ids nonces)"
    "bench_clients.test_inv K P t (bench_ids nonces) mode clock (init_header t zero_header) [] (test_start nonces junk garbage k1)"
proof -
  let ?ids = "map client_hash (bench_ids nonces)" and ?D = "hash test_server_addr"
  from assms have srv: "rpc_server K P" and reg: "register_server P fuel 0 test_server_addr k = Ret (Some sc, k1)"
    and runs: "\<forall>k k'. manage_pool P sc k = Ret k' \<longrightarrow> sleeping K CLIENT_OPEN_WAIT_INTERVAL k = k'"
    and ap: "apart ?D ?ids" and free: "\<forall>key \<in> set (?D # client_keys ?ids). key_names K key k = None"
    and garbage: "length garbage = MAX_CLIENTS" "\<forall>x \<in> set garbage. int32 x \<and> x \<notin> set ?ids"
    unfolding bench_ready_def by auto
  have D: "?D \<noteq> 0" "?D \<notin> set (client_keys ?ids)" using ap by (auto simp: apart_def simp del: client_keys_simps(3))
  have none: "key_names K ?D k = None" using free by simp
  obtain t where c: "coord_shmaddr sc = Shm t" "key_names K ?D k1 = Some t" "load_seg K t k1 = Some (Table (init_header t zero_header))"
    "\<And>c. c \<noteq> ?D \<Longrightarrow> key_names K c k1 = key_names K c k"
    by (rule rpc_server.register_table [OF srv reg D(1) none]) (rule that)
  have loc: "bench_clients K P sc t (bench_ids nonces)"
    using srv c(1) runs ap by (simp add: bench_clients_def bench_clients_axioms_def bench_ids_def)
  have "\<forall>key \<in> set (client_keys ?ids). key_names K key k1 = None" using free D(2) c(4) by auto
  from bench_clients.test_init [OF loc c(3,2) this refl garbage] loc c(1) show thesis by (intro that)
qed

lemma run_test_completes:
  assumes rd: "bench_ready K P (Suc fuel) nonces garbage sc k k1" and sch: "full_schedule mode ts1 ts2 ts3"
    and rm: "\<forall>c t k. key_names K c k = Some t \<longrightarrow> fst (shmctl_rmid K t k) = 0"
  obtains t k' where "coord_shmaddr sc = Shm t" "key_names K (hash test_server_addr) k' \<noteq> Some t"
    "run_test mode P (Suc fuel) 0 nonces junk garbage clock (ts1 @ ts2 @ ts3) report k =
       bind_out (report (bench_args nonces clock)) (\<lambda>lines. Ret (lines, k'))"
proof -
  have srv: "rpc_server K P" and reg: "register_server P (Suc fuel) 0 test_server_addr k = Ret (Some sc, k1)"
    using rd by (simp_all add: bench_ready_def)
  obtain t where t: "coord_shmaddr sc = Shm t" "bench_clients K P sc t (bench_ids nonces)"
    "bench_clients.test_inv K P t (bench_ids nonces) mode clock (init_header t zero_header) [] (test_start nonces junk garbage k1)"
    by (rule bench_start [OF rd])
  have s: "list_all turn_ok (ts1 @ ts2 @ ts3)" "\<forall>n < MAX_CLIENTS. Client n \<in> set ts1" "SLOT_NUM \<le> count_list ts2 Server"
    "mode \<noteq> Stress \<longrightarrow> (\<forall>n < MAX_CLIENTS. Client n \<in> set ts3)" using sch by (simp_all add: full_schedule_def)
  obtain s' h os where e: "run_turns mode P (Suc fuel) sc clock (ts1 @ ts2 @ ts3) (test_start nonces junk garbage k1) = Ret s'"
    "bench_clients.test_inv K P t (bench_ids nonces) mode clock h os s'" "test_over s'" "client_args s' = bench_clients.timed (bench_ids nonces) clock"
    by (rule bench_clients.test_completes [OF t(2,3) s])
  have args: "client_args s' = bench_args nonces clock"
    using e(4) by (simp add: bench_clients.timed_def [OF t(2)] bench_args_def)
  have many: "rpc_server.many K (hash test_server_addr) t 4 (map client_hash (bench_ids nonces)) h os (kern s')"
    using e(2) by (simp add: bench_clients.test_inv_def [OF t(2)])
  have tab: "load_seg K t (kern s') = Some (Table h)" "key_names K (hash test_server_addr) (kern s') = Some t" "coord_wf h" "coord_shmid h = t"
    "\<forall>i < SLOT_NUM. settled t h i"
    using many rpc_server.many_settled [OF srv many] by (simp_all add: rpc_server.many_def [OF srv] coord_inv_def)
  obtain k' where k': "shutdown P True (Suc fuel) sc (kern s') = Ret k'" "key_names K (hash test_server_addr) k' \<noteq> Some t"
    using rpc_server.shutdown_run [OF srv tab t(1), of fuel] rm by blast
  show thesis
    by (rule that [OF t(1) k'(2)]) (simp add: run_test_def reg e(1,3) args k'(1))
qed

text \<open>Every schedule, complete or not: see theorem \<open>accepted_once\<close>.\<close>

lemma run_turns_accepted:
  assumes rd: "bench_ready K P (Suc fuel) nonces garbage sc k k1" and ok: "list_all turn_ok ts"
  obtains s where "run_turns mode P (Suc fuel) sc clock ts (test_start nonces junk garbage k1) = Ret s" "next_client s \<le> MAX_CLIENTS"
    "distinct (take (next_client s) (client_list s))" "set (take (next_client s) (client_list s)) \<subseteq> set (map client_hash (bench_ids nonces))"
    "map (\<lambda>c. qp_client_id (queues c)) (handlers s) = take (next_client s) (client_list s)"
    "\<forall>n < MAX_CLIENTS. Client n \<in> set ts \<longrightarrow> client_states s ! n \<noteq> Starting"
proof -
  obtain t where t: "coord_shmaddr sc = Shm t" "bench_clients K P sc t (bench_ids nonces)"
    "bench_clients.test_inv K P t (bench_ids nonces) mode clock (init_header t zero_header) [] (test_start nonces junk garbage k1)"
    by (rule bench_start [OF rd])
  note loc = t(2)
  let ?inv = "bench_clients.test_inv K P t (bench_ids nonces) mode clock"
  obtain s h os where s: "run_turns mode P (Suc fuel) sc clock ts (test_start nonces junk garbage k1) = Ret s" "?inv h os s"
    "\<forall>n. Client n \<in> set ts \<longrightarrow> map client_hash (bench_ids nonces) ! n \<in> set os"
    using bench_clients.turns_run [OF t(2,3) ok, of fuel] by blast
  have sv: "bench_clients.server_ok K P (bench_ids nonces) h os s" and op: "rpc_server.many K (hash test_server_addr) t 4 (map client_hash (bench_ids nonces)) h os (kern s)"
    and th: "bench_clients.threads_ok K P (bench_ids nonces) mode clock os s"
    using s(2) by (simp_all add: bench_clients.test_inv_def [OF loc])
  have "set (take (next_client s) (client_list s)) \<subseteq> set (map client_hash (bench_ids nonces))"
    using sv bench_clients.attached_sub [OF loc op] by (simp add: bench_clients.server_ok_def [OF loc])
  moreover have "client_states s ! n \<noteq> Starting" if "n < MAX_CLIENTS" "Client n \<in> set ts" for n
    using th that s(3) by (simp add: bench_clients.threads_ok_def [OF loc] bench_clients.thread_ok_def [OF loc])
  ultimately show thesis using sv s(1) by (intro that [of s]) (simp_all add: bench_clients.server_ok_def [OF loc])
qed

section \<open>Twenty clients on the example platform\<close>

text \<open>The clients are named \<open>"0"\<close> to \<open>"19"\<close>; client 0 takes three seconds, the others a fifth of one.\<close>

abbreviation demo_nonces :: "nat \<Rightarrow> int" where "demo_nonces \<equiv> \<lambda>_. 0"

abbreviation demo_garbage :: "int list" where "demo_garbage \<equiv> replicate 20 7"

definition demo_clock :: "nat \<Rightarrow> timespec \<times> timespec" where
  "demo_clock n = (\<lparr>tv_sec = 0, tv_nsec = 0\<rparr>, \<lparr>tv_sec = if n = 0 then 3 else 0, tv_nsec = 200000000\<rparr>)"

definition demo_turns :: "turn list" where
  "demo_turns = map Client [0..<20]"

lemma upt_20: "[0..<20] = [0, 1, 2, 3, 4, 5, 6, 7, 8, 9, 10, 11, 12, 13, 14, 15, 16, 17, 18, 19]"
  by code_simp

lemma demo_bench_ids: "bench_ids demo_nonces = [0, 1, 2, 3, 4, 5, 6, 7, 8, 9, 10, 11, 12, 13, 14, 15, 16, 17, 18, 19]"
  by (simp add: bench_ids_def MAX_CLIENTS_def upt_20 i32_def)

lemma demo_client_hashes:
  "map client_hash (bench_ids demo_nonces) =
     [-1431655254, -1431655286, -1431655190, -1431655222, -1431655382, -1431655414, -1431655318, -1431655350,
      -1431654998, -1431655030, 1431672661, 1431672693, 1431672597, 1431672629, 1431672789, 1431672821,
      1431672725, 1431672757, 1431672405, 1431672437]"
proof -
  have "map client_name (bench_ids demo_nonces) = [[48], [49], [50], [51], [52], [53], [54], [55], [56], [57], [49, 48], [49, 49],
      [49, 50], [49, 51], [49, 52], [49, 53], [49, 54], [49, 55], [49, 56], [49, 57]]"
    by (simp add: demo_bench_ids client_name_def dec_digits.simps)
  moreover have "map client_hash cs = map hash (map client_name cs)" for cs by simp
  ultimately show ?thesis by (simp only:) (simp add: hash_def hash_step_def rol_def)
qed

lemma demo_apart: "apart (hash test_server_addr) (map client_hash (bench_ids demo_nonces))"
  unfolding demo_client_hashes test_server_hash by (simp add: apart_def i32_def del: client_keys_simps(3))

lemma demo_bench: "\<exists>k1. bench_ready (sysv_of demo_platform) demo_platform fuel demo_nonces demo_garbage demo_context ref_boot k1"
proof -
  obtain k1 where "register_server demo_platform fuel 0 test_server_addr ref_boot = Ret (Some demo_context, k1)"
    using demo_registered [of test_server_addr fuel] by (auto simp: test_server_hash)
  moreover have "\<forall>key \<in> A. key_names (sysv_of demo_platform) key ref_boot = None" for A
    by (simp add: demo_calls ref_names_def ref_boot_def)
  moreover have "length demo_garbage = MAX_CLIENTS" by (simp add: MAX_CLIENTS_def)
  moreover have "\<forall>x \<in> set demo_garbage. int32 x \<and> x \<notin> set (map client_hash (bench_ids demo_nonces))"
    unfolding demo_client_hashes by simp
  ultimately show ?thesis using demo_server demo_runs demo_apart unfolding bench_ready_def by blast
qed

interpretation demo_clients: bench_clients "sysv_of demo_platform" demo_platform demo_context 0 "bench_ids demo_nonces" mode clock
  for mode clock
  using demo_server demo_runs demo_apart
  by (simp add: bench_clients_def bench_clients_axioms_def) (simp add: bench_ids_def)

lemma demo_schedule: "full_schedule mode demo_turns (replicate 40 Server) demo_turns"
proof -
  have "count_list (replicate n x) x = n" for n and x :: turn by (induction n) simp_all
  then show ?thesis by (auto simp: full_schedule_def demo_turns_def list_all_iff MAX_CLIENTS_def SLOT_NUM_def)
qed

lemma demo_bench_args:
  "bench_args demo_nonces demo_clock = map (\<lambda>n. \<lparr>conn_client_id = int n, start_time = \<lparr>tv_sec = 0, tv_nsec = 0\<rparr>,
     end_time = \<lparr>tv_sec = if n = 0 then 3 else 0, tv_nsec = 200000000\<rparr>\<rparr>) [0..<20]"
  by (simp add: bench_args_def demo_bench_ids MAX_CLIENTS_def demo_clock_def upt_20)

lemma demo_total_ns: "total_ns (bench_args demo_nonces demo_clock) = 7000000000"
  by (simp add: demo_bench_args upt_20 total_ns_def client_ns_def sec_diff_def nsec_diff_def elapsed_ns_eq elapsed_ms_eq cdiv_def trunc_def)

section \<open>Properties\<close>

text \<open>
  C17: the tests never stick and never count a client twice. Whatever the order in which the
  threads run, no call faults or hangs, every client that had a turn is connected, and the part of
  \<open>client_list\<close> the accept loop has written names each accepted client once, in the order of its
  handlers. The repeats \<open>accept\<close> hands out are discarded, by the search or by their null address.
\<close>

theorem accepted_once:
  assumes "bench_ready K P (Suc fuel) nonces garbage sc k k1" "list_all turn_ok ts"
  shows "\<exists>s. run_turns mode P (Suc fuel) sc clock ts (test_start nonces junk garbage k1) = Ret s \<and> next_client s \<le> MAX_CLIENTS \<and>
    distinct (take (next_client s) (client_list s)) \<and>
    set (take (next_client s) (client_list s)) \<subseteq> set (map client_hash (bench_ids nonces)) \<and>
    map (\<lambda>c. qp_client_id (queues c)) (handlers s) = take (next_client s) (client_list s) \<and>
    (\<forall>n < MAX_CLIENTS. Client n \<in> set ts \<longrightarrow> client_states s ! n \<noteq> Starting)"
  by (rule run_turns_accepted [OF assms]) blast

theorem accepted_once_witness:
  "\<exists>k1 s. run_turns During demo_platform 1 demo_context demo_clock [Client 4, Server, Server, Client 7, Client 4]
     (test_start demo_nonces (\<lambda>_. demo_args 0 0) demo_garbage k1) = Ret s \<and> distinct (take (next_client s) (client_list s)) \<and>
     client_states s ! 7 \<noteq> Starting"
proof -
  obtain k1 where rd: "bench_ready (sysv_of demo_platform) demo_platform (Suc 0) demo_nonces demo_garbage demo_context ref_boot k1"
    using demo_bench by blast
  have "list_all turn_ok [Client 4, Server, Server, Client 7, Client 4]" by (simp add: MAX_CLIENTS_def)
  from accepted_once [OF rd this, of During demo_clock "\<lambda>_. demo_args 0 0"] show ?thesis
    unfolding One_nat_def by (elim exE conjE, intro exI conjI) (assumption, assumption, drule spec [of _ 7], simp add: MAX_CLIENTS_def)
qed

text \<open>
  C14: \<open>connection_stress_test\<close> completes. Once every client has had a turn and the main thread
  another \<open>SLOT_NUM\<close> passes of its accept loop, all clients are accepted, the averages of their
  times are printed, and \<open>shutdown\<close> returns with the address of the server free.
\<close>

theorem connection_stress_test_completes:
  assumes "bench_ready K P (Suc fuel) nonces garbage sc k k1" "full_schedule Stress ts1 ts2 ts3"
    and "\<forall>c t k. key_names K c k = Some t \<longrightarrow> fst (shmctl_rmid K t k) = 0"
  shows "\<exists>t k' ms ns. coord_shmaddr sc = Shm t \<and> key_names K (hash test_server_addr) k' \<noteq> Some t \<and>
    stress_totals (bench_args nonces clock) = (ms, ns) \<and>
    connection_stress_test P (Suc fuel) 0 nonces junk garbage clock (ts1 @ ts2 @ ts3) k =
      Ret ([Long ''Num Clients'' 20, Long ''Available Slots'' 40, Long ''ms/op'' (cdiv ms 20), Long ''ns/op'' (cdiv ns 20)], k')"
proof -
  obtain ms ns where tot: "stress_totals (bench_args nonces clock) = (ms, ns)" by (cases "stress_totals (bench_args nonces clock)")
  show ?thesis
    by (rule run_test_completes [OF assms, of junk clock stress_report])
      (auto simp: connection_stress_test_def tot stress_report_def long_div_def MAX_CLIENTS_def SLOT_NUM_def)
qed

theorem connection_stress_test_completes_witness:
  "\<exists>k'. ref_names (hash test_server_addr) k' \<noteq> Some 0 \<and>
    connection_stress_test demo_platform 1 0 demo_nonces (\<lambda>_. demo_args 0 0) demo_garbage demo_clock
      (demo_turns @ replicate 40 Server @ demo_turns) ref_boot =
    Ret ([Long ''Num Clients'' 20, Long ''Available Slots'' 40, Long ''ms/op'' 160, Long ''ns/op'' 190000000], k')"
proof -
  obtain k1 where rd: "bench_ready (sysv_of demo_platform) demo_platform (Suc 0) demo_nonces demo_garbage demo_context ref_boot k1"
    using demo_bench by blast
  have "stress_totals (bench_args demo_nonces demo_clock) = (3200, 3800000000)"
    by (simp add: demo_bench_args upt_20 stress_totals_def sec_diff_def nsec_diff_def elapsed_ns_eq elapsed_ms_eq cdiv_def)
  with connection_stress_test_completes [OF rd demo_schedule demo_rmid, of demo_clock "\<lambda>_. demo_args 0 0"]
  show ?thesis by (auto simp: demo_calls cdiv_def)
qed

text \<open>
  C15: the tests with messages complete. When every client has connected, been accepted, and had
  one more turn, \<open>rtt_steady_state_conn_test\<close> and \<open>rtt_during_connection_test\<close> have
  echoed all messages of all clients unchanged (an assertion that fails would be a fault), and print the row of
  figures for the average of the clients' times.
\<close>

theorem rtt_tests_complete:
  assumes "bench_ready K P (Suc fuel) nonces garbage sc k k1" "full_schedule During ts1 ts2 ts3"
    and "\<forall>c t k. key_names K c k = Some t \<longrightarrow> fst (shmctl_rmid K t k) = 0"
    and "avg = cdiv (total_ns (bench_args nonces clock)) 20"
    and "test = rtt_steady_state_conn_test \<or> test = rtt_during_connection_test"
  shows "\<exists>t k'. coord_shmaddr sc = Shm t \<and> key_names K (hash test_server_addr) k' \<noteq> Some t \<and>
    test P (Suc fuel) 0 nonces junk garbage clock (ts1 @ ts2 @ ts3) k =
      Ret ([Long ''num_clients'' 20, Long ''coord_slots'' 40, Long ''rtt_num_items'' 100000, Long ''msg_size'' 4,
            Long ''ns/op'' (cdiv avg 100000), Float ''avg_ops/ms'' (fdiv 100000 (of_int avg / 1000000)),
            Float ''ops/ms'' (fdiv 2000000 (of_int avg / 1000000))], k')"
proof -
  have steady: "full_schedule Steady ts1 ts2 ts3" using assms(2) by (simp add: full_schedule_def)
  show ?thesis using assms(5)
  proof
    assume "test = rtt_steady_state_conn_test"
    then show ?thesis
      by - (rule run_test_completes [OF assms(1) steady assms(3), of junk clock rtt_report_row],
        auto simp: rtt_steady_state_conn_test_def rtt_report_row_eq assms(4) Let_def)
  next
    assume "test = rtt_during_connection_test"
    then show ?thesis
      by - (rule run_test_completes [OF assms(1-3), of junk clock rtt_report_row],
        auto simp: rtt_during_connection_test_def rtt_report_row_eq assms(4) Let_def)
  qed
qed

theorem rtt_tests_complete_witness:
  "\<exists>k'. rtt_steady_state_conn_test demo_platform 1 0 demo_nonces (\<lambda>_. demo_args 0 0) demo_garbage demo_clock
      (demo_turns @ replicate 40 Server @ demo_turns) ref_boot =
    Ret ([Long ''num_clients'' 20, Long ''coord_slots'' 40, Long ''rtt_num_items'' 100000, Long ''msg_size'' 4,
      Long ''ns/op'' 3500, Float ''avg_ops/ms'' (Num (2000 / 7)), Float ''ops/ms'' (Num (40000 / 7))], k')"
proof -
  obtain k1 where rd: "bench_ready (sysv_of demo_platform) demo_platform (Suc 0) demo_nonces demo_garbage demo_context ref_boot k1"
    using demo_bench by blast
  from rtt_tests_complete [OF rd demo_schedule demo_rmid refl disjI1 [OF refl], of "\<lambda>_. demo_args 0 0" demo_clock]
  show ?thesis by (auto simp: demo_total_ns fdiv_def cdiv_def)
qed



end
