(* ===== verification/Conn_Churn.thy ===== *)
theory Conn_Churn
  imports Multi_Conn
begin

text \<open>
  A server of \<open>src/libnotnets/src/rpc.cpp\<close> whose clients come and go: rows of the table are requested,
  served, closed, given back and taken again in any order, while the pool thread passes over them one
  by one. The invariant \<open>churn\<close> says which queues belong to which row, and each lemma says what one
  operation on one row does to it and leaves of the others. Theory Disconnect_Test rests on them.
\<close>

text \<open>Client \<open>c\<close> holds row \<open>j\<close>.\<close>

definition holds :: "coord_header \<Rightarrow> int \<Rightarrow> nat \<Rightarrow> bool" where
  "holds h c j \<longleftrightarrow> j < SLOT_NUM \<and> reserved h j \<and> row_client_id (slots h ! j) = c"

context rpc_server
begin

text \<open>The names of a row's two queues, which are empty between messages.\<close>

definition linked :: "'k \<Rightarrow> nat \<Rightarrow> coord_row \<Rightarrow> bool" where
  "linked k m r \<longleftrightarrow> (let c = row_client_id r; req = request_shm (row_shms r); resp = response_shm (row_shms r) in
     info_key req = c \<and> info_key resp = i32 (c + 1) \<and>
     key_names K c k = Some (info_shmid req) \<and> key_names K (i32 (c + 1)) k = Some (info_shmid resp) \<and>
     (\<exists>q1 q2. load_seg K (info_shmid req) k = Some (PollQ q1) \<and> load_seg K (info_shmid resp) k = Some (PollQ q2) \<and>
       empty_poll m q1 \<and> empty_poll m q2))"

definition vacant :: "'k \<Rightarrow> int \<Rightarrow> bool" where
  "vacant k c \<longleftrightarrow> key_names K c k = None \<and> key_names K (i32 (c + 1)) k = None"

definition row_held :: "'k \<Rightarrow> nat \<Rightarrow> coord_row \<Rightarrow> bool" where
  "row_held k m r \<longleftrightarrow> row_type r = POLL \<and>
     (if shm_created r then linked k m r
      else \<not> detach r \<and> row_message_size r = int m \<and> vacant k (row_client_id r))"

definition churn :: "int \<Rightarrow> int \<Rightarrow> nat \<Rightarrow> int list \<Rightarrow> coord_header \<Rightarrow> 'k \<Rightarrow> bool" where
  "churn D t m ids h k \<longleftrightarrow>
     load_seg K t k = Some (Table h) \<and> key_names K D k = Some t \<and> coord_shmid h = t \<and> coord_inv h \<and>
     (\<forall>j < SLOT_NUM. if reserved h j then row_client_id (slots h ! j) \<in> set ids \<and> row_held k m (slots h ! j)
                     else slots h ! j = zero_row) \<and>
     (\<forall>c i j. holds h c i \<longrightarrow> holds h c j \<longrightarrow> i = j)"

lemma churn_table:
  assumes "churn D t m ids h k"
  shows "load_seg K t k = Some (Table h)" "key_names K D k = Some t" "coord_shmid h = t" "coord_inv h" "coord_wf h"
  using assms by (simp_all add: churn_def coord_inv_def)

lemma churn_held:
  assumes "churn D t m ids h k" "holds h c j"
  shows "c \<in> set ids" "row_held k m (slots h ! j)" "j < SLOT_NUM" "reserved h j" "row_client_id (slots h ! j) = c"
  using assms by (auto simp: churn_def holds_def split: if_splits)

lemma churn_unique: "churn D t m ids h k \<Longrightarrow> holds h c i \<Longrightarrow> holds h c j \<Longrightarrow> i = j"
  by (auto simp: churn_def)

lemma churn_free: "churn D t m ids h k \<Longrightarrow> j < SLOT_NUM \<Longrightarrow> \<not> reserved h j \<Longrightarrow> slots h ! j = zero_row"
  by (auto simp: churn_def)

lemma vacant_keeps: "vacant k c \<Longrightarrow> keeps C t k k' \<Longrightarrow> {c, i32 (c + 1)} \<inter> C = {} \<Longrightarrow> vacant k' c"
  by (auto simp: vacant_def keeps_def)

lemma held_keeps:
  assumes "row_held k m r" "keeps C t k k'" "load_seg K t k = Some (Table h)"
    and "{row_client_id r, i32 (row_client_id r + 1)} \<inter> C = {}"
  shows "row_held k' m r"
proof (cases "shm_created r")
  case True
  with assms(1) have "linked k m r" "row_type r = POLL" by (simp_all add: row_held_def)
  moreover from this(1) assms(3) have "info_shmid (request_shm (row_shms r)) \<noteq> t" "info_shmid (response_shm (row_shms r)) \<noteq> t"
    by (auto simp: linked_def Let_def)
  ultimately show ?thesis using True assms(2,4) by (auto simp: row_held_def linked_def keeps_def Let_def)
next
  case False
  with assms(1) vacant_keeps [OF _ assms(2,4)] show ?thesis by (simp add: row_held_def)
qed

text \<open>An operation that changes row \<open>j\<close> only, for client \<open>c\<close>, whose keys are its own.\<close>

lemma churn_row:
  assumes ch: "churn D t m ids h k" and ap: "apart D ids" and c: "c \<in> set ids" and kp: "keeps {c, i32 (c + 1)} t k k'"
    and t: "load_seg K t k' = Some (Table h')" "coord_inv h'" "coord_shmid h' = t"
    and others: "\<And>i. i < SLOT_NUM \<Longrightarrow> i \<noteq> j \<Longrightarrow> slots h' ! i = slots h ! i \<and> reserved h' i = reserved h i"
    and own: "\<And>i. holds h c i \<Longrightarrow> i = j"
    and row: "if reserved h' j then row_client_id (slots h' ! j) = c \<and> row_held k' m (slots h' ! j) else slots h' ! j = zero_row"
  shows "churn D t m ids h' k'"
proof -
  have other: "row_held k' m (slots h ! i)" if i: "i < SLOT_NUM" "reserved h i" "i \<noteq> j" for i
  proof -
    have hi: "holds h (row_client_id (slots h ! i)) i" using i by (simp add: holds_def)
    with own i(3) have ne: "row_client_id (slots h ! i) \<noteq> c" by auto
    from held_keeps [OF churn_held(2) [OF ch hi] kp churn_table(1) [OF ch] apart_other [OF ap churn_held(1) [OF ch hi] c ne]]
    show ?thesis .
  qed
  have "if reserved h' i then row_client_id (slots h' ! i) \<in> set ids \<and> row_held k' m (slots h' ! i) else slots h' ! i = zero_row"
    if i: "i < SLOT_NUM" for i
  proof (cases "i = j")
    case True
    with row c show ?thesis by simp
  next
    case False
    have "reserved h i \<Longrightarrow> row_client_id (slots h ! i) \<in> set ids" "\<not> reserved h i \<Longrightarrow> slots h ! i = zero_row"
      using ch i by (auto simp: churn_def split: if_splits)
    with False others [OF i] other [OF i] show ?thesis by auto
  qed
  moreover have "i = i'" if "holds h' c' i" "holds h' c' i'" for c' i i'
  proof (cases "c' = c")
    case True
    have "x = j" if "holds h' c x" for x
    proof (rule ccontr)
      assume "x \<noteq> j"
      with that others [of x] have "holds h c x" by (simp add: holds_def)
      with own \<open>x \<noteq> j\<close> show False by blast
    qed
    with that True show ?thesis by blast
  next
    case False
    have "x \<noteq> j \<and> holds h c' x" if "holds h' c' x" for x
      using that row False others [of x] by (cases "x = j") (auto simp: holds_def)
    with that churn_unique [OF ch] show ?thesis by blast
  qed
  moreover have "key_names K D k' = Some t" using kp churn_table(2) [OF ch] apartD(4,5) [OF ap c] by (auto simp: keeps_def)
  ultimately show ?thesis using t unfolding churn_def by blast
qed

lemma churn_obs:
  assumes ch: "churn D t m ids h k" and ob: "obs_eq k k'"
  shows "churn D t m ids h k'"
proof -
  have "row_held k' m r = row_held k m r" for r using ob by (simp add: row_held_def linked_def vacant_def obs_eq_def)
  moreover have "load_seg K t k' = load_seg K t k" "key_names K D k' = key_names K D k" using ob by (simp_all add: obs_eq_def)
  ultimately show ?thesis using ch by (simp add: churn_def)
qed

text \<open>A row that is served can be attached to, and its queues are those of its client.\<close>

lemma held_served:
  assumes ch: "churn D t m ids h k" and ap: "apart D ids" and j: "holds h c j" and r: "shm_created (slots h ! j)" "\<not> detach (slots h ! j)"
  shows "served k D t h j (info_shmid (request_shm (row_shms (slots h ! j)))) (info_shmid (response_shm (row_shms (slots h ! j)))) m"
    "conn_row k D t m h j c"
proof -
  note h = churn_held [OF ch j] and key = apartD [OF ap churn_held(1) [OF ch j]]
  have ln: "linked k m (slots h ! j)" "row_type (slots h ! j) = POLL" using h(2) r(1) by (simp_all add: row_held_def)
  have ph: "phase h j = Serving" using h(4) r by (simp add: phase_def)
  from ln(1) h(5) have n: "info_key (request_shm (row_shms (slots h ! j))) = c" "info_key (response_shm (row_shms (slots h ! j))) = i32 (c + 1)"
    "key_names K c k = Some (info_shmid (request_shm (row_shms (slots h ! j))))"
    "key_names K (i32 (c + 1)) k = Some (info_shmid (response_shm (row_shms (slots h ! j))))"
    by (simp_all add: linked_def Let_def)
  then have "info_shmid (request_shm (row_shms (slots h ! j))) \<noteq> info_shmid (response_shm (row_shms (slots h ! j)))"
    using key_names_inj key(6) by metis
  then show s: "served k D t h j (info_shmid (request_shm (row_shms (slots h ! j)))) (info_shmid (response_shm (row_shms (slots h ! j)))) m"
    using churn_table [OF ch] ph n key ln(1) unfolding served_def by (simp add: linked_def Let_def)
  show "conn_row k D t m h j c" using s n ln(2) h(5) by (auto simp: conn_row_def)
qed

lemma served_held:
  assumes "conn_row k D t m h j c" shows "row_held k m (slots h ! j)" "row_client_id (slots h ! j) = c"
  using assms by (auto simp: conn_row_def served_def row_held_def linked_def Let_def phase_def split: if_splits)

text \<open>A client that has no row requests one: there is a free row, since no client holds two.\<close>

lemma churn_room:
  assumes ch: "churn D t m ids h k" and len: "length ids \<le> SLOT_NUM" and c: "c \<in> set ids" "\<And>j. \<not> holds h c j"
  obtains j where "j < SLOT_NUM" "\<not> reserved h j" "\<forall>i < j. reserved h i"
proof -
  have "\<exists>j < SLOT_NUM. \<not> reserved h j"
  proof (rule ccontr)
    let ?f = "\<lambda>j. row_client_id (slots h ! j)"
    assume "\<not> ?thesis"
    then have all: "holds h (?f j) j" if "j < SLOT_NUM" for j using that by (simp add: holds_def)
    have "inj_on ?f {..<SLOT_NUM}" using all churn_unique [OF ch] by (intro inj_onI) (metis lessThan_iff)
    moreover have "?f ` {..<SLOT_NUM} \<subseteq> set ids - {c}"
    proof (intro image_subsetI DiffI)
      fix j assume "j \<in> {..<SLOT_NUM}"
      then have j: "holds h (?f j) j" using all by simp
      then show "?f j \<in> set ids" by (rule churn_held(1) [OF ch])
      show "?f j \<notin> {c}" using j c(2) by auto
    qed
    ultimately have "card {..<SLOT_NUM} \<le> card (set ids - {c})" by (intro card_inj_on_le) auto
    also have "\<dots> < card (set ids)" using c(1) by (intro psubset_card_mono) auto
    also have "\<dots> \<le> SLOT_NUM" using card_length [of ids] len by simp
    finally show False by simp
  qed
  then have "\<exists>j. j < SLOT_NUM \<and> \<not> reserved h j \<and> (\<forall>i < j. reserved h i)"
    using exists_least_iff [of "\<lambda>j. j < SLOT_NUM \<and> \<not> reserved h j"] by (metis less_trans)
  then show thesis using that by blast
qed

lemma churn_request:
  assumes ch: "churn D t m ids h k" and ap: "apart D ids" and len: "length ids \<le> SLOT_NUM"
    and c: "c \<in> set ids" "\<And>j. \<not> holds h c j" "vacant k c" and D: "hash dest = D"
  obtains k1 j h' k' where "coord_attach K dest k = (Shm t, k1)" "request_at K (Shm t) c (int m) POLL k1 = Ret (int j, k')"
    "churn D t m ids h' k'" "keeps {} t k k'" "accept_slot h' = accept_slot h" "holds h' c j"
    "slots h' ! j = fresh_row c (int m) POLL zero_row"
    "\<And>i. i < SLOT_NUM \<Longrightarrow> i \<noteq> j \<Longrightarrow> slots h' ! i = slots h ! i \<and> reserved h' i = reserved h i" "\<not> reserved h j"
proof -
  note tab = churn_table [OF ch]
  obtain j where j: "j < SLOT_NUM" "\<not> reserved h j" "\<forall>i < j. reserved h i" using churn_room [OF ch len c(1,2)] .
  have D': "hash dest \<noteq> 0" "key_names K (hash dest) k = Some t" using D tab(2) apartD(1) [OF ap c(1)] by simp_all
  obtain k1 where k1: "coord_attach K dest k = (Shm t, k1)" "\<And>j. load_seg K j k1 = load_seg K j k"
    "\<And>c. key_names K c k1 = key_names K c k"
    using coord_attach_run [OF D' tab(1)] by blast
  have t1: "load_seg K t k1 = Some (Table h)" using k1(2) tab(1) by simp
  let ?h = "set_reserved j True (set_row j (fresh_row c (int m) POLL) h)"
  let ?k = "store_seg K t (Table ?h) k1"
  note req = request_at_run [OF t1 tab(4) j, of c "int m" POLL]
  have kp: "keeps {} t k ?k"
    using keeps_trans [OF obs_keeps store_keeps [OF t1]] k1(2,3) by (auto simp: obs_eq_def)
  have row: "slots ?h ! j = fresh_row c (int m) POLL zero_row" using tab(5) j churn_free [OF ch] by simp
  have others: "slots ?h ! i = slots h ! i \<and> reserved ?h i = reserved h i" if "i < SLOT_NUM" "i \<noteq> j" for i
    using that tab(5) j(1) by simp
  have t': "load_seg K t ?k = Some (Table ?h)" using load_store [of t k1 t] t1 by simp
  have inv: "coord_inv ?h" using tab(4) j(1) by (intro inv_set_both) simp_all
  have vac: "vacant ?k c" using vacant_keeps [OF c(3) kp] by simp
  have "churn D t m ids ?h ?k"
  proof (rule churn_row [OF ch ap c(1) keeps_mono [OF kp] t' inv])
    show "if reserved ?h j then row_client_id (slots ?h ! j) = c \<and> row_held ?k m (slots ?h ! j) else slots ?h ! j = zero_row"
      unfolding row using tab(5) j(1) vac by (simp add: row_held_def fresh_row_def)
  qed (use others c(2) tab(3) in simp_all)
  moreover have "holds ?h c j" unfolding holds_def row using tab(5) j(1) by (simp add: fresh_row_def)
  ultimately show thesis using k1(1) req kp row others j(2) by (intro that [of k1 j ?k ?h]) simp_all
qed

text \<open>
  One step of the pool thread: a requested row is served, a closed one is freed, and nothing else
  changes.
\<close>

lemma churn_manage:
  assumes ch: "churn D t m ids h k" and ap: "apart D ids" and j: "j < SLOT_NUM" and m: "0 < m" "m \<le> QUEUE_SIZE - 40"
  obtains h' k' where "manage_slot P (Shm t) (int j) k = Ret k'" "churn D t m ids h' k'" "accept_slot h' = accept_slot h"
    "\<And>i. i < SLOT_NUM \<Longrightarrow> i \<noteq> j \<Longrightarrow> slots h' ! i = slots h ! i \<and> reserved h' i = reserved h i"
    "\<not> reserved h j \<or> shm_created (slots h ! j) \<and> \<not> detach (slots h ! j) \<Longrightarrow> h' = h \<and> obs_eq k k'"
    "reserved h j \<Longrightarrow> \<not> shm_created (slots h ! j) \<Longrightarrow>
       reserved h' j \<and> (\<exists>shms. slots h' ! j = (slots h ! j)\<lparr>row_shms := shms, shm_created := True\<rparr>)"
    "reserved h j \<Longrightarrow> detach (slots h ! j) \<Longrightarrow> \<not> reserved h' j"
    "keeps (if reserved h j then {row_client_id (slots h ! j), i32 (row_client_id (slots h ! j) + 1)} else {}) t k k'"
proof -
  note tab = churn_table [OF ch]
  let ?r = "slots h ! j" and ?c = "row_client_id (slots h ! j)"
  consider (idle) "\<not> reserved h j \<or> shm_created ?r \<and> \<not> detach ?r" | (request) "reserved h j" "\<not> shm_created ?r"
    | (closing) "reserved h j" "shm_created ?r" "detach ?r" by blast
  then show thesis
  proof cases
    case idle
    then have "idle h j" using churn_free [OF ch j] by (auto simp: idle_def zero_row_def)
    then obtain k' where k': "manage_slot P (Shm t) (int j) k = Ret k'" "obs_eq k k'" using manage_idle [OF tab(1) j] by blast
    with idle churn_obs [OF ch k'(2)] churn_free [OF ch j] show thesis
      by (intro that [of k' h]) (auto simp: obs_keeps zero_row_def)
  next
    case request
    have hj: "holds h ?c j" using request j by (simp add: holds_def)
    note held = churn_held [OF ch hj] and key = apartD [OF ap churn_held(1) [OF ch hj]]
    have r: "row_type ?r = POLL" "\<not> detach ?r" "row_message_size ?r = int m" "key_names K ?c k = None" "key_names K (i32 (?c + 1)) k = None"
      using held(2) request(2) by (simp_all add: row_held_def vacant_def)
    have ph: "phase h j = Requested" using request r(2) by (simp add: phase_def)
    have m': "0 < row_message_size ?r" "row_message_size ?r \<le> int (QUEUE_SIZE - 40)" using r(3) m by simp_all
    from manage_serves [OF tab(1,2,4,3) j ph r(1) refl key(2,3,6) r(4,5) m'] obtain k' h' a b shms where
      s: "manage_slot P (Shm t) (int j) k = Ret k'" "served k' D t h' j a b (nat (row_message_size ?r))"
      "h' = set_row j (\<lambda>r. r\<lparr>row_shms := shms, shm_created := True\<rparr>) h"
      "info_key (request_shm shms) = ?c" "info_key (response_shm shms) = i32 (?c + 1)" "keeps {?c, i32 (?c + 1)} t k k'" by blast
    have row: "slots h' ! j = ?r\<lparr>row_shms := shms, shm_created := True\<rparr>" using s(3) tab(5) j by simp
    have "conn_row k' D t m h' j ?c" using s(2,4,5) r(1,3) row by (auto simp: conn_row_def)
    note held' = served_held [OF this]
    have t': "load_seg K t k' = Some (Table h')" "coord_inv h'" "coord_shmid h' = t" using s(2) by (simp_all add: served_def)
    have res: "reserved h' i = reserved h i" for i using s(3) by simp
    have others: "slots h' ! i = slots h ! i \<and> reserved h' i = reserved h i" if "i < SLOT_NUM" "i \<noteq> j" for i
      using that s(3) tab(5) j by simp
    have "churn D t m ids h' k'"
      by (rule churn_row [OF ch ap held(1) s(6) t' others churn_unique [OF ch _ hj]]) (use held' res request in auto)
    then show thesis using s(1,3,6) request row others res r(2) by (intro that [of k' h']) auto
  next
    case closing
    have hj: "holds h ?c j" using closing j by (simp add: holds_def)
    note held = churn_held [OF ch hj] and key = apartD [OF ap churn_held(1) [OF ch hj]]
    have ln: "linked k m ?r" "row_type ?r = POLL" using held(2) closing by (simp_all add: row_held_def)
    then have n: "key_names K ?c k = Some (info_shmid (request_shm (row_shms ?r)))"
      "key_names K (i32 (?c + 1)) k = Some (info_shmid (response_shm (row_shms ?r)))"
      "info_shmid (request_shm (row_shms ?r)) \<noteq> t" "info_shmid (response_shm (row_shms ?r)) \<noteq> t"
      using tab(1) by (auto simp: linked_def Let_def)
    have st: "settled t h j" using n closing ln(2) by (simp add: settled_def)
    have names: "x \<in> {?c, i32 (?c + 1)}" if "key_names K x k = Some (info_shmid (request_shm (row_shms ?r))) \<or>
        key_names K x k = Some (info_shmid (response_shm (row_shms ?r)))" for x
      using that key_names_inj n(1,2) by blast
    from manage_closing_keeps [OF tab(1,2) j closing(3) st names] obtain k' where
      k': "manage_slot P (Shm t) (int j) k = Ret k'" "load_seg K t k' = Some (Table (freed j h))"
      "keeps {?c, i32 (?c + 1)} t k k'" by blast
    have others: "slots (freed j h) ! i = slots h ! i \<and> reserved (freed j h) i = reserved h i" if "i < SLOT_NUM" "i \<noteq> j" for i
      using that tab(5) j by simp
    have "churn D t m ids (freed j h) k'"
      by (rule churn_row [OF ch ap held(1) k'(3,2) freed_inv [OF tab(4) j] _ others churn_unique [OF ch _ hj]])
        (use tab(3,5) j in simp_all)
    then show thesis using k'(1,3) closing others tab(5) j by (intro that [of k' "freed j h"]) auto
  qed
qed

text \<open>The two ends attach to a row that is served.\<close>

lemma churn_attach:
  assumes ch: "churn D t m ids h k" and ap: "apart D ids" and j: "holds h c j" and kp: "keeps {} t k k'"
    and srv: "served k' D t h' j a b m" and row: "slots h' ! j = (slots h ! j)\<lparr>server_attached := x, client_attached := y\<rparr>"
    and r: "shm_created (slots h ! j)" "\<not> detach (slots h ! j)"
    and others: "\<And>i. i < SLOT_NUM \<Longrightarrow> i \<noteq> j \<Longrightarrow> slots h' ! i = slots h ! i \<and> reserved h' i = reserved h i"
  shows "churn D t m ids h' k'" "conn_row k' D t m h' j c"
proof -
  have "conn_row k D t m h j c" by (rule held_served(2) [OF ch ap j r])
  then show cr: "conn_row k' D t m h' j c" using srv row by (auto simp: conn_row_def)
  have t': "load_seg K t k' = Some (Table h')" "coord_inv h'" "coord_shmid h' = t" "phase h' j = Serving" using srv by (simp_all add: served_def)
  have res: "reserved h' j" using t'(4) by (auto simp: phase_def split: if_splits)
  show "churn D t m ids h' k'"
    by (rule churn_row [OF ch ap churn_held(1) [OF ch j] keeps_mono [OF kp] t'(1-3) others churn_unique [OF ch _ j]])
      (use served_held [OF cr] res in auto)
qed

lemma churn_link:
  assumes ch: "churn D t m ids h k" and ap: "apart D ids" and j: "holds h c j"
    and r: "shm_created (slots h ! j)" "\<not> detach (slots h ! j)" "\<not> client_attached (slots h ! j)"
  obtains qp h' k' where "create_client_queue_pair K fuel (Shm t) (int j) k = Ret (qp, k')" "churn D t m ids h' k'"
    "at_conn k' c qp" "keeps {} t k k'" "h' = set_row j (\<lambda>r. r\<lparr>client_attached := True\<rparr>) h"
proof -
  note srv = held_served(1) [OF ch ap j r(1,2)] and held = churn_held [OF ch j]
  let ?h = "set_row j (\<lambda>r. r\<lparr>client_attached := True\<rparr>) h"
  obtain qp k' where p: "create_client_queue_pair K fuel (Shm t) (int j) k = Ret (qp, k')" "qp_client_id qp = c"
    "request_shmaddr qp = Shm (info_shmid (request_shm (row_shms (slots h ! j))))"
    "response_shmaddr qp = Shm (info_shmid (response_shm (row_shms (slots h ! j))))"
    "served k' D t ?h j (info_shmid (request_shm (row_shms (slots h ! j)))) (info_shmid (response_shm (row_shms (slots h ! j)))) m"
    "keeps {} t k k'"
    using client_pair_run [OF srv held(3) r(3), of fuel] held(5) by auto
  have "slots ?h ! j = (slots h ! j)\<lparr>server_attached := server_attached (slots h ! j), client_attached := True\<rparr>"
    using churn_table(5) [OF ch] held(3) by simp
  note at = churn_attach [OF ch ap j p(6,5) this r(1,2)]
  have "churn D t m ids ?h k'" "conn_row k' D t m ?h j c" using at churn_table(5) [OF ch] held(3) by simp_all
  then show thesis using p served_at_conn [OF p(5) _ p(3,4,2)] by (intro that [of qp k' ?h]) simp_all
qed

text \<open>
  \<open>accept\<close>: the next row that is served, with the server's end of its connection, or null addresses
  if the server holds it already.
\<close>

lemma churn_accept_none:
  assumes ch: "churn D t m ids h k" and sc: "coord_shmaddr sc = Shm t"
    and none: "accept_loop SLOT_NUM (nat (accept_slot h)) h = None"
  obtains k' where "accept P fuel sc k = Ret (None, k')" "churn D t m ids h k'" "obs_eq k k'"
proof -
  note t = churn_table [OF ch]
  have free: "\<not> mutex h" using t(4) by (simp add: coord_inv_def)
  have un: "mutex_unlock (h\<lparr>mutex := True\<rparr>) = h" using free by (cases h) (simp add: mutex_unlock_def)
  have acc: "accept P fuel sc k = Ret (None, store_seg K t (Table h) k)"
    by (simp add: accept_def platform sc load_table_Shm [OF t(1)] mutex_lock_def free accept_loop_ready none un store_table_Shm [OF t(1)] Let_def)
  have ob: "obs_eq k (store_seg K t (Table h) k)" by (rule store_same [OF t(1)])
  show thesis by (rule that [OF acc churn_obs [OF ch ob] ob])
qed

lemma churn_accept:
  assumes ch: "churn D t m ids h k" and ap: "apart D ids" and sc: "coord_shmaddr sc = Shm t"
    and acc: "accept_loop SLOT_NUM (nat (accept_slot h)) h = Some u"
  obtains c ctx k' h' where "accept P fuel sc k = Ret (Some ctx, k')" "holds h c u" "churn D t m ids h' k'" "keeps {} t k k'"
    "qp_client_id (queues ctx) = c" "accept_slot h' = int (Suc u mod SLOT_NUM)" "shm_created (slots h ! u)" "\<not> detach (slots h ! u)"
    "slots h' ! u = (slots h ! u)\<lparr>server_attached := True\<rparr>"
    "\<And>i. i < SLOT_NUM \<Longrightarrow> (i \<noteq> u \<longrightarrow> slots h' ! i = slots h ! i) \<and> reserved h' i = reserved h i"
    "server_attached (slots h ! u) \<Longrightarrow> request_shmaddr (queues ctx) = Null"
    "\<not> server_attached (slots h ! u) \<Longrightarrow> \<exists>qp. ctx = select_queue_ctx P POLL qp \<and> at_conn k' c qp"
proof -
  note t = churn_table [OF ch]
  let ?c = "row_client_id (slots h ! u)"
  have s: "nat (accept_slot h) < SLOT_NUM" using t(4) by (auto simp: coord_inv_def)
  have u: "u < SLOT_NUM" "ready h u" using accept_loop_first [OF s acc] by auto
  then have r: "shm_created (slots h ! u)" "\<not> detach (slots h ! u)" and j: "holds h ?c u" by (auto simp: ready_def holds_def)
  note srv = held_served(1) [OF ch ap j r]
  have ty: "row_type (slots h ! u) = POLL" using churn_held(2) [OF ch j] by (simp add: row_held_def)
  have acc': "accept_loop SLOT_NUM (nat (accept_slot h)) (h\<lparr>mutex := True\<rparr>) = Some u" using acc by (simp add: accept_loop_ready)
  have qs: "queues (select_queue_ctx P POLL qp) = qp" for qp by (simp add: select_queue_ctx_def)
  show thesis
  proof (cases "server_attached (slots h ! u)")
    case False
    obtain k' h' qp where a: "accept P fuel sc k = Ret (Some (select_queue_ctx P POLL qp), k')"
      "request_shmaddr qp = Shm (info_shmid (request_shm (row_shms (slots h ! u))))"
      "response_shmaddr qp = Shm (info_shmid (response_shm (row_shms (slots h ! u))))" "qp_client_id qp = ?c"
      "served k' D t h' u (info_shmid (request_shm (row_shms (slots h ! u)))) (info_shmid (response_shm (row_shms (slots h ! u)))) m"
      "keeps {} t k k'" "accept_slot h' = int (Suc u mod SLOT_NUM)" "slots h' ! u = (slots h ! u)\<lparr>server_attached := True\<rparr>"
      "\<forall>j < SLOT_NUM. (j \<noteq> u \<longrightarrow> slots h' ! j = slots h ! j) \<and> reserved h' j = reserved h j"
      using accept_run [OF srv u(1) False ty acc' sc, of fuel] by - (elim exE conjE, (rule that; assumption))
    have "slots h' ! u = (slots h ! u)\<lparr>server_attached := True, client_attached := client_attached (slots h ! u)\<rparr>"
      using a(8) by simp
    note at = churn_attach [OF ch ap j a(6,5) this r]
    have "churn D t m ids h' k'" "conn_row k' D t m h' u ?c" using at a(9) by simp_all
    then show ?thesis using a j r False served_at_conn [OF a(5) _ a(2-4)] qs by (intro that) auto
  next
    case True
    have free: "\<not> mutex h" using t(4) by (simp add: coord_inv_def)
    let ?h = "h\<lparr>accept_slot := int (Suc u mod SLOT_NUM)\<rparr>" and ?shms = "row_shms (slots h ! u)"
    let ?k = "store_seg K t (Table ?h) k"
    let ?qp = "\<lparr>qp_client_id = ?c, request_shmaddr = Null, response_shmaddr = Null, qp_offset = shm_offset ?shms\<rparr>"
    have un: "mutex_unlock (h\<lparr>mutex := True, accept_slot := int (Suc u mod SLOT_NUM)\<rparr>) = ?h"
      using free by (cases h) (simp add: mutex_unlock_def)
    have t': "load_seg K t ?k = Some (Table ?h)" using load_store [of t k t] t(1) by simp
    have kp: "keeps {} t k ?k" by (rule store_keeps [OF t(1)])
    have inv': "coord_inv ?h" "coord_shmid ?h = t" using t(3,4) by (auto simp: coord_inv_def)
    have keys: "await_keys K (Shm t) (int u) fuel ?shms ?k = Ret (?shms, ?k)"
      using srv by (simp add: await_keys.simps served_def)
    have pair: "create_server_queue_pair K fuel (Shm t) (int u) ?k = Ret (?qp, ?k)"
      using u(1) r(1) True keys
      by (simp add: create_server_queue_pair_def load_table_Shm [OF t'] check_slot_def get_client_id_def
          get_server_attach_state_def attach_pair_def)
    have acc2: "accept P fuel sc k = Ret (Some (select_queue_ctx P POLL ?qp), ?k)"
      by (simp add: accept_def platform sc load_table_Shm [OF t(1)] mutex_lock_def free acc' un store_table_Shm [OF t(1)] Let_def pair ty)
    have "conn_row k D t m h u ?c" by (rule held_served(2) [OF ch ap j r])
    then have cr: "conn_row ?k D t m ?h u ?c"
      by (rule conn_row_other [OF _ kp _ _ _ t' inv']) simp_all
    have "churn D t m ids ?h ?k"
      by (rule churn_row [OF ch ap churn_held(1) [OF ch j] keeps_mono [OF kp] t' inv' _ churn_unique [OF ch _ j]])
        (use churn_held [OF ch j] served_held [OF cr] in auto)
    moreover have "slots ?h ! u = (slots h ! u)\<lparr>server_attached := True\<rparr>" using True by simp
    ultimately show ?thesis using acc2 j r kp True qs by (intro that [of "select_queue_ctx P POLL ?qp" ?k ?c ?h]) simp_all
  qed
qed

text \<open>Messages over one connection, and closing it.\<close>

lemma churn_exchange:
  assumes ch: "churn D t m ids h k" and ap: "apart D ids" and j: "holds h c j" and r: "shm_created (slots h ! j)" "\<not> detach (slots h ! j)"
    and cap: "0 < (QUEUE_SIZE - 40) div m - 1" and ends: "at_conn k c qpc" "at_conn k c qps"
    and lens: "\<forall>(req, resp) \<in> set rs. length req = m \<and> length resp = m"
  obtains k' where "rpc_rounds (select_queue_ctx P POLL qpc) (select_queue_ctx P POLL qps) rs k = Ret (rs, k')"
    "churn D t m ids h k'" "\<And>x. key_names K x k' = key_names K x k" "keeps {c, i32 (c + 1)} t k k'"
proof -
  let ?a = "info_shmid (request_shm (row_shms (slots h ! j)))" and ?b = "info_shmid (response_shm (row_shms (slots h ! j)))"
  note srv = held_served(1) [OF ch ap j r] and tab = churn_table [OF ch] and held = churn_held [OF ch j]
  have ln: "linked k m (slots h ! j)" using held(2) r(1) by (simp add: row_held_def)
  have names: "key_names K c k = Some ?a" "key_names K (i32 (c + 1)) k = Some ?b" using ln held(5) by (simp_all add: linked_def Let_def)
  from srv obtain q1 q2 where q: "load_seg K ?a k = Some (PollQ q1)" "load_seg K ?b k = Some (PollQ q2)" "?a \<noteq> ?b"
    "empty_poll m q1" "empty_poll m q2" by (auto simp: served_def)
  have addr: "request_shmaddr qpc = Shm ?a" "response_shmaddr qpc = Shm ?b" "request_shmaddr qps = Shm ?a" "response_shmaddr qps = Shm ?b"
    using ends names by (auto simp: at_conn_def)
  from rounds_run [OF q cap lens addr] obtain k' p1 p2 where rr:
    "rpc_rounds (select_queue_ctx P POLL qpc) (select_queue_ctx P POLL qps) rs k = Ret (rs, k')"
    "load_seg K ?a k' = Some (PollQ p1)" "load_seg K ?b k' = Some (PollQ p2)" "empty_poll m p1" "empty_poll m p2"
    "\<forall>j. j \<noteq> ?a \<longrightarrow> j \<noteq> ?b \<longrightarrow> load_seg K j k' = load_seg K j k" "\<forall>x. key_names K x k' = key_names K x k" by blast
  have kp: "keeps {c, i32 (c + 1)} t k k'" unfolding keeps_def
  proof (intro allI impI conjI)
    fix x i assume x: "x \<notin> {c, i32 (c + 1)}"
    show "key_names K x k' = key_names K x k" using rr(7) by simp
    assume "key_names K x k = Some i"
    with x names key_names_inj have "i \<noteq> ?a" "i \<noteq> ?b" by blast+
    then show "load_seg K i k' = load_seg K i k" using rr(6) by blast
  qed
  have "t \<noteq> ?a" "t \<noteq> ?b" using tab(1) q by auto
  then have t': "load_seg K t k' = Some (Table h)" using rr(6) tab(1) by simp
  have "linked k' m (slots h ! j)" using ln rr(2-5,7) by (simp add: linked_def Let_def)
  then have "row_held k' m (slots h ! j)" using held(2) r(1) by (simp add: row_held_def)
  then have "churn D t m ids h k'"
    by (intro churn_row [OF ch ap held(1) kp t' tab(4,3) _ churn_unique [OF ch _ j]]) (use held in simp_all)
  with rr(1,7) kp show thesis by (intro that [of k']) simp_all
qed

lemma churn_close:
  assumes ch: "churn D t m ids h k" and ap: "apart D ids" and j: "holds h (hash src) j" and r: "shm_created (slots h ! j)"
    and D: "hash dest = D"
  obtains h' k' where "client_close K src dest k = Ret (0, k')" "churn D t m ids h' k'" "keeps {} t k k'"
    "h' = set_row j (\<lambda>r. r\<lparr>detach := True\<rparr>) h"
proof -
  note tab = churn_table [OF ch] and held = churn_held [OF ch j] and key = apartD [OF ap churn_held(1) [OF ch j]]
  let ?h = "set_row j (\<lambda>r. r\<lparr>detach := True\<rparr>) h"
  have only: "\<forall>i < SLOT_NUM. i \<noteq> j \<longrightarrow> row_client_id (slots h ! i) \<noteq> hash src"
  proof (intro allI impI)
    fix i assume i: "i < SLOT_NUM" "i \<noteq> j"
    show "row_client_id (slots h ! i) \<noteq> hash src"
    proof (cases "reserved h i")
      case True
      then show ?thesis using i churn_unique [OF ch j, of i] by (auto simp: holds_def)
    next
      case False
      then show ?thesis using churn_free [OF ch i(1)] key(2) by (simp add: zero_row_def)
    qed
  qed
  have D': "hash dest \<noteq> 0" "key_names K (hash dest) k = Some t" using D tab(2) key(1) by simp_all
  obtain k' where k': "client_close K src dest k = Ret (0, k')" "load_seg K t k' = Some (Table ?h)" "keeps {} t k k'"
    using client_close_run [OF tab(1) D' held(3,5) only] by blast
  have "row_held k' m (slots h ! j)"
    by (rule held_keeps [OF held(2) k'(3) tab(1)]) simp
  then have row: "row_held k' m (slots ?h ! j)" using tab(5) held(3) r by (simp add: row_held_def linked_def Let_def)
  have inv: "coord_inv ?h" using tab(4) held(3) by (intro inv_set_row) (auto simp: coord_inv_def)
  have "churn D t m ids ?h k'"
    by (rule churn_row [OF ch ap held(1) keeps_mono [OF k'(3)] k'(2) inv _ _ churn_unique [OF ch _ j]])
      (use tab(3,5) held row in auto)
  with k'(1,3) show thesis by (intro that [of k' ?h]) simp_all
qed

text \<open>Whatever rows are held, requested rows apart, the server can be shut down.\<close>

lemma churn_settled:
  assumes ch: "churn D t m ids h k" and i: "i < SLOT_NUM" "reserved h i \<Longrightarrow> shm_created (slots h ! i)"
  shows "settled t h i"
proof (cases "reserved h i")
  case True
  then have "holds h (row_client_id (slots h ! i)) i" using i by (simp add: holds_def)
  from churn_held(2) [OF ch this] i(2) [OF True] have "linked k m (slots h ! i)" "row_type (slots h ! i) = POLL"
    by (simp_all add: row_held_def)
  then show ?thesis using i True churn_table(1) [OF ch] by (auto simp: settled_def linked_def Let_def)
next
  case False
  with churn_free [OF ch i(1)] show ?thesis by (simp add: settled_def zero_row_def)
qed

end

end
