(* ===== verification/Disconnect_Test.thy ===== *)
theory Disconnect_Test
  imports Bench_Tests Conn_Churn Turns
begin

text \<open>
  \<open>rtt_connect_disconnect_connection_test\<close> of \<open>src/bench_rpc/src/bench.cpp\<close>: \<open>MAX_CLIENTS\<close> clients that
  connect, exchange messages and close their connections, while the main thread accepts and the pool thread
  serves requests and takes closed rows back. Here all threads interleave: a turn of the pool thread
  is one row of its pass, a turn of the main thread one pass of its accept loop, and a client asks for
  a row, attaches its queues, exchanges its messages with its handler and closes in turns of their own.
\<close>

section \<open>The two halves of opening a connection\<close>

text \<open>\<open>client_open\<close> up to the first request for a row, and from the test of \<open>shm_created\<close> on.\<close>

definition open_request :: "('k, 'b) platform \<Rightarrow> byte list \<Rightarrow> 'k \<Rightarrow> ((ptr \<times> int) option \<times> 'k) outcome" where
  "open_request P name k =
     (let (ch, k1) = coord_attach (sysv_of P) test_server_addr k in
      if ch = Null then Ret (None, k1)
      else bind_out (request_at (sysv_of P) ch (hash name) 4 POLL k1) (\<lambda>(slot, k2). Ret (Some (ch, slot), k2)))"

definition open_attach :: "('k, 'b) platform \<Rightarrow> nat \<Rightarrow> ptr \<Rightarrow> int \<Rightarrow> 'k \<Rightarrow> ('k queue_ctx option \<times> 'k) outcome" where
  "open_attach P fuel ch slot k =
     bind_out (load_table (sysv_of P) ch k) (\<lambda>h.
     at_slot slot (\<lambda>i.
       if shm_created (slots h ! i) then
         bind_out (create_client_queue_pair (sysv_of P) fuel ch slot k) (\<lambda>(qp, k1).
         Ret (Some (select_queue_ctx P POLL qp), k1))
       else Ret (None, k)))"

section \<open>Threads and turns\<close>

text \<open>Where a client is in \<open>pthread_measure_connect_and_rtt_and_disconnect\<close>.\<close>

datatype 'k stage = Idle | Asked ptr int | Linked "'k queue_ctx" | Echoed | Gone

record 'k churn_test = "'k accepting" +
  stages :: "'k stage list"
  pool_row :: nat

datatype churn_turn = ClientTurn nat | ServerTurn | PoolTurn

definition enter_stage :: "nat \<Rightarrow> 'k stage \<Rightarrow> 'k \<Rightarrow> 'k churn_test \<Rightarrow> 'k churn_test" where
  "enter_stage n st k s = s\<lparr>kern := k, stages := (stages s)[n := st]\<rparr>"

definition churn_client ::
  "('k, 'b) platform \<Rightarrow> nat \<Rightarrow> (nat \<Rightarrow> timespec \<times> timespec) \<Rightarrow> nat \<Rightarrow> 'k churn_test \<Rightarrow> 'k churn_test outcome"
where
  "churn_client P fuel clock n s =
     (if n < length (stages s) then
        let args = client_args s ! n; name = client_name (conn_client_id args) in
        case stages s ! n of
          Idle \<Rightarrow>
            bind_out (open_request P name (kern s)) (\<lambda>(r, k1).
            case r of
              None \<Rightarrow> Ret (s\<lparr>kern := k1\<rparr>)
            | Some (ch, slot) \<Rightarrow> Ret (enter_stage n (Asked ch slot) k1 s))
        | Asked ch slot \<Rightarrow>
            if slot = -1 then
              bind_out (request_at (sysv_of P) ch (hash name) 4 POLL (kern s)) (\<lambda>(slot', k1).
              Ret (enter_stage n (Asked ch slot') k1 s))
            else
              bind_out (open_attach P fuel ch slot (kern s)) (\<lambda>(c_qp, k1).
              case c_qp of
                None \<Rightarrow> Ret (s\<lparr>kern := k1\<rparr>)
              | Some ctx \<Rightarrow> Ret (enter_stage n (Linked ctx) k1 s))
        | Linked c_qp \<Rightarrow>
            (case handler_of c_qp s of
               None \<Rightarrow> Ret s
             | Some s_qp \<Rightarrow>
                 bind_out (client_rtt_loop c_qp (server_rtt_step s_qp) rtt_numbers (kern s)) (\<lambda>k1.
                 Ret (enter_stage n Echoed k1 s)))
        | Echoed \<Rightarrow>
            bind_out (client_close (sysv_of P) name test_server_addr (kern s)) (\<lambda>(err, k1).
            Ret ((enter_stage n Gone k1 s)\<lparr>client_args :=
              (client_args s)[n := args\<lparr>start_time := fst (clock n), end_time := snd (clock n)\<rparr>]\<rparr>))
        | Gone \<Rightarrow> Ret s
      else Ret s)"

definition churn_pool :: "('k, 'b) platform \<Rightarrow> server_context \<Rightarrow> 'k churn_test \<Rightarrow> 'k churn_test outcome" where
  "churn_pool P sc s =
     bind_out (manage_slot P (coord_shmaddr sc) (int (pool_row s)) (kern s)) (\<lambda>k1.
     Ret (s\<lparr>kern := k1, pool_row := (pool_row s + 1) mod SLOT_NUM\<rparr>))"

fun churn_step ::
  "('k, 'b) platform \<Rightarrow> nat \<Rightarrow> server_context \<Rightarrow> (nat \<Rightarrow> timespec \<times> timespec) \<Rightarrow> churn_turn \<Rightarrow> 'k churn_test \<Rightarrow> 'k churn_test outcome"
where
  "churn_step P fuel sc clock (ClientTurn n) s = churn_client P fuel clock n s"
| "churn_step P fuel sc clock ServerTurn s = server_turn P fuel sc s"
| "churn_step P fuel sc clock PoolTurn s = churn_pool P sc s"

definition churn_start :: "(nat \<Rightarrow> int) \<Rightarrow> (nat \<Rightarrow> connection_args) \<Rightarrow> int list \<Rightarrow> 'k \<Rightarrow> 'k churn_test" where
  "churn_start nonces junk garbage k =
     \<lparr>kern = k, client_args = map (\<lambda>i. (junk i)\<lparr>conn_client_id := i32 (int i + nonces i)\<rparr>) [0..<MAX_CLIENTS],
      client_list = garbage, next_client = 0, handlers = [], stages = replicate MAX_CLIENTS Idle, pool_row = 0\<rparr>"

fun is_gone :: "'k stage \<Rightarrow> bool" where
  "is_gone Gone = True"
| "is_gone _ = False"

definition churn_over :: "'k churn_test \<Rightarrow> bool" where
  "churn_over s \<longleftrightarrow> next_client s = MAX_CLIENTS \<and> list_all is_gone (stages s)"

definition rtt_connect_disconnect_connection_test ::
  "('k, 'b) platform \<Rightarrow> nat \<Rightarrow> int \<Rightarrow> (nat \<Rightarrow> int) \<Rightarrow> (nat \<Rightarrow> connection_args) \<Rightarrow> int list \<Rightarrow>
   (nat \<Rightarrow> timespec \<times> timespec) \<Rightarrow> churn_turn list \<Rightarrow> 'k \<Rightarrow> (out_line list \<times> 'k) outcome"
where
  "rtt_connect_disconnect_connection_test P fuel err nonces junk garbage clock ts k =
     bind_out (register_server P fuel err test_server_addr k) (\<lambda>(handler, k1).
     case handler of
       None \<Rightarrow> Fault NullDeref
     | Some sc \<Rightarrow>
         bind_out (run_steps (churn_step P fuel sc clock) ts (churn_start nonces junk garbage k1)) (\<lambda>s.
         if churn_over s then
           bind_out (rtt_report_row (client_args s)) (\<lambda>lines.
           bind_out (shutdown P True fuel sc (kern s)) (\<lambda>k2. Ret (lines, k2)))
         else Hang))"

section \<open>The turns are the calls\<close>

text \<open>The halves of \<open>client_open\<close> with its two waits between them are \<open>client_open\<close>.\<close>

lemma await_created_attach:
  "bind_out (await_created (sysv_of P) ch slot n k) (open_attach P fuel ch slot) =
   bind_out (await_created (sysv_of P) ch slot n k) (\<lambda>k1.
     bind_out (create_client_queue_pair (sysv_of P) fuel ch slot k1) (\<lambda>(qp, k2). Ret (Some (select_queue_ctx P POLL qp), k2)))"
proof (induction n arbitrary: k)
  case 0
  then show ?case
    by (cases "load_table (sysv_of P) ch k"; subst (1 2) await_created.simps) (auto simp: at_slot_def open_attach_def)
next
  case (Suc n)
  show ?case
    by (cases "load_table (sysv_of P) ch k"; subst (1 2) await_created.simps)
      (auto simp: at_slot_def open_attach_def [of P fuel ch slot k] Suc.IH)
qed

lemma client_open_halves:
  "client_open P fuel name test_server_addr 4 POLL k =
     bind_out (open_request P name k) (\<lambda>(r, k1).
     case r of
       None \<Rightarrow> Ret (None, k1)
     | Some (ch, slot0) \<Rightarrow>
         bind_out (await_slot (sysv_of P) ch (hash name) 4 POLL fuel slot0 k1) (\<lambda>(slot, k2).
         bind_out (await_created (sysv_of P) ch slot fuel k2) (open_attach P fuel ch slot)))"
  unfolding await_created_attach
  by (auto simp: client_open_def open_request_def Let_def bind_out_assoc split: prod.splits intro!: bind_out_cong)

text \<open>\<open>SLOT_NUM\<close> turns of the pool thread from row 0 on are \<open>manage_pool\<close>.\<close>

lemma pool_turns_pass:
  assumes "pool_row s = i" "i + n \<le> SLOT_NUM" "0 < n \<or> i < SLOT_NUM"
  shows "run_steps (churn_step P fuel sc clock) (replicate n PoolTurn) s =
    bind_out (manage_loop P (coord_shmaddr sc) [i..<i + n] (kern s)) (\<lambda>k. Ret (s\<lparr>kern := k, pool_row := (i + n) mod SLOT_NUM\<rparr>))"
  using assms
proof (induction n arbitrary: s i)
  case 0
  then show ?case by (cases s) simp
next
  case (Suc n)
  have split: "[i..<i + Suc n] = i # [Suc i..<Suc i + n]" by (simp add: upt_conv_Cons del: upt_Suc)
  show ?case
  proof (cases n)
    case 0
    then show ?thesis using Suc.prems by (auto simp: churn_pool_def bind_out_assoc intro!: bind_out_cong)
  next
    case (Suc m)
    have "run_steps (churn_step P fuel sc clock) (replicate n PoolTurn) (s\<lparr>kern := k1, pool_row := (i + 1) mod SLOT_NUM\<rparr>) =
        bind_out (manage_loop P (coord_shmaddr sc) [Suc i..<Suc i + n] k1) (\<lambda>k. Ret (s\<lparr>kern := k, pool_row := (Suc i + n) mod SLOT_NUM\<rparr>))" for k1
      using Suc Suc.prems Suc.IH [of "s\<lparr>kern := k1, pool_row := (i + 1) mod SLOT_NUM\<rparr>" "Suc i"] by simp
    then show ?thesis
      using Suc.prems unfolding split by (auto simp: churn_pool_def bind_out_assoc intro!: bind_out_cong)
  qed
qed

lemma pool_pass_is_manage_pool:
  assumes "pool_row s = 0"
  shows "run_steps (churn_step P fuel sc clock) (replicate SLOT_NUM PoolTurn) s =
    bind_out (manage_pool P sc (kern s)) (\<lambda>k. Ret (s\<lparr>kern := k\<rparr>))"
proof -
  have "s\<lparr>kern := k, pool_row := 0\<rparr> = s\<lparr>kern := k\<rparr>" for k using assms by (cases s) simp
  then show ?thesis using pool_turns_pass [OF assms, of SLOT_NUM P fuel sc clock] by (simp add: manage_pool_def)
qed

section \<open>What every turn keeps\<close>

fun churn_ok :: "churn_turn \<Rightarrow> bool" where
  "churn_ok (ClientTurn n) = (n < MAX_CLIENTS)"
| "churn_ok _ = True"

text \<open>The clients the accept loop has recorded.\<close>

definition recorded :: "('k, 'x) accepting_scheme \<Rightarrow> int set" where
  "recorded s = set (take (next_client s) (client_list s))"

locale churn_clients = rpc_server K P for K :: "('k, 'b) kernel" and P :: "('k, 'b) platform" +
  fixes sc :: server_context and t :: int and cids :: "int list" and clock :: "nat \<Rightarrow> timespec \<times> timespec"
  assumes sc: "coord_shmaddr sc = Shm t"
    and clients: "length cids = MAX_CLIENTS" "apart (hash test_server_addr) (map client_hash cids)"
begin

abbreviation ids :: "int list" where
  "ids \<equiv> map client_hash cids"

abbreviation rows :: "coord_header \<Rightarrow> 'k \<Rightarrow> bool" where
  "rows \<equiv> churn (hash test_server_addr) t 4 ids"

lemma ids: "length ids = MAX_CLIENTS" "apart (hash test_server_addr) ids" "length ids \<le> SLOT_NUM" "\<forall>c \<in> set ids. int32 c"
  using clients hash_int32 by (simp_all add: ball_Un MAX_CLIENTS_def SLOT_NUM_def)

lemma ids_nth: "n < MAX_CLIENTS \<Longrightarrow> ids ! n \<in> set ids" "n < MAX_CLIENTS \<Longrightarrow> client_hash (cids ! n) = ids ! n"
  "n < MAX_CLIENTS \<Longrightarrow> n' < MAX_CLIENTS \<Longrightarrow> ids ! n = ids ! n' \<Longrightarrow> n = n'"
  using ids(1) apart_distinct [OF ids(2)] nth_eq_iff_index_eq [of ids n n'] clients(1) by simp_all

text \<open>A client's stage, its row and its queues.\<close>

definition stage_ok :: "coord_header \<Rightarrow> 'k \<Rightarrow> int \<Rightarrow> 'k stage \<Rightarrow> bool" where
  "stage_ok h k c st \<longleftrightarrow>
     (case st of
        Idle \<Rightarrow> (\<forall>j. \<not> holds h c j) \<and> vacant k c
      | Asked ch slot \<Rightarrow> ch = Shm t \<and> 0 \<le> slot \<and> holds h c (nat slot) \<and>
          \<not> detach (slots h ! nat slot) \<and> \<not> client_attached (slots h ! nat slot)
      | Linked ctx \<Rightarrow> (\<exists>j. holds h c j \<and> shm_created (slots h ! j) \<and> \<not> detach (slots h ! j)) \<and>
          (\<exists>q. ctx = select_queue_ctx P POLL q \<and> at_conn k c q)
      | Echoed \<Rightarrow> (\<exists>j. holds h c j \<and> shm_created (slots h ! j) \<and> \<not> detach (slots h ! j))
      | Gone \<Rightarrow> (\<forall>j. holds h c j \<longrightarrow> shm_created (slots h ! j) \<and> detach (slots h ! j)))"

lemma stage_ok_simps [simp]:
  "stage_ok h k c Idle \<longleftrightarrow> (\<forall>j. \<not> holds h c j) \<and> vacant k c"
  "stage_ok h k c (Asked ch slot) \<longleftrightarrow> ch = Shm t \<and> 0 \<le> slot \<and> holds h c (nat slot) \<and>
     \<not> detach (slots h ! nat slot) \<and> \<not> client_attached (slots h ! nat slot)"
  "stage_ok h k c (Linked ctx) \<longleftrightarrow> (\<exists>j. holds h c j \<and> shm_created (slots h ! j) \<and> \<not> detach (slots h ! j)) \<and>
     (\<exists>q. ctx = select_queue_ctx P POLL q \<and> at_conn k c q)"
  "stage_ok h k c Echoed \<longleftrightarrow> (\<exists>j. holds h c j \<and> shm_created (slots h ! j) \<and> \<not> detach (slots h ! j))"
  "stage_ok h k c Gone \<longleftrightarrow> (\<forall>j. holds h c j \<longrightarrow> shm_created (slots h ! j) \<and> detach (slots h ! j))"
  by (simp_all add: stage_ok_def)

definition stages_ok :: "coord_header \<Rightarrow> 'k churn_test \<Rightarrow> bool" where
  "stages_ok h s \<longleftrightarrow> length (client_args s) = MAX_CLIENTS \<and> length (stages s) = MAX_CLIENTS \<and>
     (\<forall>n < MAX_CLIENTS. conn_client_id (client_args s ! n) = cids ! n \<and> stage_ok h (kern s) (ids ! n) (stages s ! n) \<and>
       (stages s ! n = Idle \<longrightarrow> ids ! n \<notin> recorded s) \<and>
       (stages s ! n = Echoed \<or> stages s ! n = Gone \<longrightarrow> ids ! n \<in> recorded s) \<and>
       (stages s ! n = Gone \<longrightarrow> (start_time (client_args s ! n), end_time (client_args s ! n)) = clock n))"

text \<open>The accept loop: a row is attached exactly when its client is recorded, and has a handler on its queues.\<close>

definition loop_ok :: "coord_header \<Rightarrow> 'k \<Rightarrow> ('k, 'x) accepting_scheme \<Rightarrow> bool" where
  "loop_ok h k s \<longleftrightarrow> length (client_list s) = MAX_CLIENTS \<and> (\<forall>x \<in> set (client_list s). int32 x) \<and>
     next_client s \<le> MAX_CLIENTS \<and> distinct (take (next_client s) (client_list s)) \<and>
     recorded s \<subseteq> set ids \<and> set (drop (next_client s) (client_list s)) \<inter> set ids = {} \<and>
     map (\<lambda>c. qp_client_id (queues c)) (handlers s) = take (next_client s) (client_list s) \<and>
     (\<forall>c j. holds h c j \<longrightarrow> server_attached (slots h ! j) = (c \<in> recorded s)) \<and>
     (\<forall>x \<in> set (handlers s). \<exists>q. x = select_queue_ctx P POLL q \<and>
       (\<forall>j. holds h (qp_client_id q) j \<longrightarrow> \<not> detach (slots h ! j) \<longrightarrow> at_conn k (qp_client_id q) q))"

definition tab :: "('k, 'x) accepting_scheme \<Rightarrow> coord_header" where
  "tab s = (case load_seg K t (kern s) of Some (Table h) \<Rightarrow> h | _ \<Rightarrow> zero_header)"

definition churn_inv :: "'k churn_test \<Rightarrow> bool" where
  "churn_inv s \<longleftrightarrow> rows (tab s) (kern s) \<and> stages_ok (tab s) s \<and> loop_ok (tab s) (kern s) s \<and> pool_row s < SLOT_NUM"

lemma tab_rows: "rows h (kern s) \<Longrightarrow> tab s = h"
  using churn_table(1) by (simp add: tab_def)

lemma churn_invI:
  assumes "rows h (kern s)" "stages_ok h s" "loop_ok h (kern s) s" "pool_row s < SLOT_NUM"
  shows "churn_inv s"
  using assms tab_rows [OF assms(1)] by (simp add: churn_inv_def)

text \<open>What the other threads see of an operation for client \<open>c\<close>: their rows and their queues are as before.\<close>

definition spares :: "int \<Rightarrow> coord_header \<Rightarrow> 'k \<Rightarrow> coord_header \<Rightarrow> 'k \<Rightarrow> bool" where
  "spares c h k h' k' \<longleftrightarrow> keeps {c, i32 (c + 1)} t k k' \<and>
     (\<forall>c' j. c' \<noteq> c \<longrightarrow> holds h' c' j = holds h c' j \<and> (holds h c' j \<longrightarrow> slots h' ! j = slots h ! j))"

lemma sparesI:
  assumes "keeps {c, i32 (c + 1)} t k k'" "\<And>i. i < SLOT_NUM \<Longrightarrow> i \<noteq> j \<Longrightarrow> slots h' ! i = slots h ! i \<and> reserved h' i = reserved h i"
    and "reserved h j \<Longrightarrow> row_client_id (slots h ! j) = c" "reserved h' j \<Longrightarrow> row_client_id (slots h' ! j) = c"
  shows "spares c h k h' k'"
proof -
  have "holds h' c' i = holds h c' i \<and> (holds h c' i \<longrightarrow> slots h' ! i = slots h ! i)" if "c' \<noteq> c" for c' i
    using that assms(2) [of i] assms(3,4) by (cases "i = j") (auto simp: holds_def)
  with assms(1) show ?thesis by (simp add: spares_def)
qed

lemma stage_frame:
  assumes "stage_ok h k c st" "keeps C t k k'" "{c, i32 (c + 1)} \<inter> C = {}"
    and "\<And>j. holds h' c j = holds h c j"
    and "\<And>j. holds h c j \<Longrightarrow> shm_created (slots h' ! j) = shm_created (slots h ! j) \<and> detach (slots h' ! j) = detach (slots h ! j) \<and>
      client_attached (slots h' ! j) = client_attached (slots h ! j)"
  shows "stage_ok h' k' c st"
proof (cases st)
  case (Linked ctx)
  moreover have "at_conn k c q \<Longrightarrow> at_conn k' c q" for q using at_conn_keeps [OF _ assms(2)] assms(3) by blast
  ultimately show ?thesis using assms(1,4,5) unfolding stage_ok_def by auto
qed (use assms vacant_keeps [OF _ assms(2,3)] in \<open>auto simp: stage_ok_def\<close>)

lemma stage_spares:
  assumes "stage_ok h k (ids ! n') st" "spares (ids ! n) h k h' k'" "n < MAX_CLIENTS" "n' < MAX_CLIENTS" "n' \<noteq> n"
  shows "stage_ok h' k' (ids ! n') st"
proof -
  have ne: "ids ! n' \<noteq> ids ! n" using ids_nth(3) assms(3-5) by blast
  from apart_other [OF ids(2) ids_nth(1) [OF assms(4)] ids_nth(1) [OF assms(3)] this] show ?thesis
    using assms(2) ne by (intro stage_frame [OF assms(1), of "{ids ! n, i32 (ids ! n + 1)}"]) (auto simp: spares_def)
qed

lemma loop_okD:
  assumes "loop_ok h k s"
  shows "recorded s \<subseteq> set ids" "length (client_list s) = MAX_CLIENTS" "next_client s \<le> MAX_CLIENTS"
    "holds h c j \<Longrightarrow> server_attached (slots h ! j) = (c \<in> recorded s)"
    "map (\<lambda>c. qp_client_id (queues c)) (handlers s) = take (next_client s) (client_list s)"
    "distinct (take (next_client s) (client_list s))"
  using assms unfolding loop_ok_def by simp_all

lemma full_recorded:
  assumes lo: "loop_ok h k s"
  shows "next_client s = MAX_CLIENTS \<longleftrightarrow> recorded s = set ids"
proof -
  have "card (recorded s) = next_client s"
    using distinct_card [OF loop_okD(6) [OF lo]] loop_okD(2,3) [OF lo] by (simp add: recorded_def)
  moreover have "card (set ids) = MAX_CLIENTS" using distinct_card [OF apart_distinct [OF ids(2)]] ids(1) by simp
  ultimately show ?thesis using card_subset_eq [OF _ loop_okD(1) [OF lo]] by auto
qed

lemma recorded_handlers:
  assumes "loop_ok h k s"
  shows "recorded s = qp_client_id ` queues ` set (handlers s)"
proof -
  from arg_cong [OF loop_okD(5) [OF assms], of set] show ?thesis by (simp add: recorded_def image_image)
qed

lemma loop_frame:
  assumes lo: "loop_ok h k s" and sp: "spares c h k h' k'" and c: "c \<in> set ids"
    and own: "\<And>j. holds h' c j \<Longrightarrow> server_attached (slots h' ! j) = (c \<in> recorded s)"
      "\<And>j q. c \<in> recorded s \<Longrightarrow> holds h' c j \<Longrightarrow> \<not> detach (slots h' ! j) \<Longrightarrow>
        holds h c j \<and> \<not> detach (slots h ! j) \<and> (at_conn k c q \<longrightarrow> at_conn k' c q)"
  shows "loop_ok h' k' s"
proof -
  have other: "holds h c' j" "slots h' ! j = slots h ! j" if "holds h' c' j" "c' \<noteq> c" for c' j
    using sp that by (auto simp: spares_def)
  have kp: "keeps {c, i32 (c + 1)} t k k'" using sp by (simp add: spares_def)
  have att: "\<forall>c' j. holds h' c' j \<longrightarrow> server_attached (slots h' ! j) = (c' \<in> recorded s)"
  proof (intro allI impI)
    fix c' j assume j: "holds h' c' j"
    show "server_attached (slots h' ! j) = (c' \<in> recorded s)"
    proof (cases "c' = c")
      case False
      with loop_okD(4) [OF lo other(1) [OF j]] other(2) [OF j] show ?thesis by simp
    qed (use own(1) [of j] j in simp)
  qed
  have ends: "at_conn k' (qp_client_id q) q"
    if q: "qp_client_id q \<in> recorded s" "\<forall>j. holds h (qp_client_id q) j \<longrightarrow> \<not> detach (slots h ! j) \<longrightarrow> at_conn k (qp_client_id q) q"
      and j: "holds h' (qp_client_id q) j" "\<not> detach (slots h' ! j)" for q j
  proof (cases "qp_client_id q = c")
    case True
    with own(2) [of j q] q(1) j have "holds h c j" "\<not> detach (slots h ! j)" "at_conn k c q \<longrightarrow> at_conn k' c q" by simp_all
    with q(2) True show ?thesis by simp
  next
    case False
    with other [OF j(1)] j(2) q(2) have at: "at_conn k (qp_client_id q) q" by simp
    have "qp_client_id q \<in> set ids" using loop_okD(1) [OF lo] q(1) by blast
    from apart_other [OF ids(2) this c False] show ?thesis by (intro at_conn_keeps [OF at kp]) blast+
  qed
  have "\<forall>x \<in> set (handlers s). \<exists>q. x = select_queue_ctx P POLL q \<and>
      (\<forall>j. holds h' (qp_client_id q) j \<longrightarrow> \<not> detach (slots h' ! j) \<longrightarrow> at_conn k' (qp_client_id q) q)"
  proof
    fix x assume x: "x \<in> set (handlers s)"
    then obtain q where q: "x = select_queue_ctx P POLL q"
      "\<forall>j. holds h (qp_client_id q) j \<longrightarrow> \<not> detach (slots h ! j) \<longrightarrow> at_conn k (qp_client_id q) q"
      using lo unfolding loop_ok_def by blast
    have "qp_client_id (queues x) \<in> qp_client_id ` queues ` set (handlers s)" using x by (intro imageI)
    then have "qp_client_id q \<in> recorded s" using q(1) recorded_handlers [OF lo] by simp
    with q ends show "\<exists>q. x = select_queue_ctx P POLL q \<and>
      (\<forall>j. holds h' (qp_client_id q) j \<longrightarrow> \<not> detach (slots h' ! j) \<longrightarrow> at_conn k' (qp_client_id q) q)" by (intro exI [of _ q]) blast
  qed
  with lo att show ?thesis unfolding loop_ok_def by (elim conjE, intro conjI)
qed

text \<open>A turn of client \<open>n\<close> that enters a new stage.\<close>

lemma client_enters:
  assumes inv: "churn_inv s" and n: "n < MAX_CLIENTS" and rw: "rows h' k'" and sp: "spares (ids ! n) (tab s) (kern s) h' k'"
    and lo: "loop_ok h' k' s" and st: "stage_ok h' k' (ids ! n) st" "st = Idle \<longrightarrow> ids ! n \<notin> recorded s"
      "st = Echoed \<or> st = Gone \<longrightarrow> ids ! n \<in> recorded s"
    and as: "as = client_args s \<and> st \<noteq> Gone \<or>
      as = (client_args s)[n := (client_args s ! n)\<lparr>start_time := fst (clock n), end_time := snd (clock n)\<rparr>]"
  shows "churn_inv ((enter_stage n st k' s)\<lparr>client_args := as\<rparr>)" "tab ((enter_stage n st k' s)\<lparr>client_args := as\<rparr>) = h'"
proof -
  let ?s = "(enter_stage n st k' s)\<lparr>client_args := as\<rparr>"
  have ok: "stages_ok (tab s) s" "pool_row s < SLOT_NUM" using inv by (simp_all add: churn_inv_def)
  then have len: "length (client_args s) = MAX_CLIENTS" "length (stages s) = MAX_CLIENTS" by (simp_all add: stages_ok_def)
  have rec: "recorded ?s = recorded s" by (simp add: recorded_def enter_stage_def)
  have "conn_client_id (client_args ?s ! i) = cids ! i \<and> stage_ok h' k' (ids ! i) (stages ?s ! i) \<and>
      (stages ?s ! i = Idle \<longrightarrow> ids ! i \<notin> recorded ?s) \<and> (stages ?s ! i = Echoed \<or> stages ?s ! i = Gone \<longrightarrow> ids ! i \<in> recorded ?s) \<and>
      (stages ?s ! i = Gone \<longrightarrow> (start_time (client_args ?s ! i), end_time (client_args ?s ! i)) = clock i)" if i: "i < MAX_CLIENTS" for i
  proof (cases "i = n")
    case True
    then show ?thesis using ok(1) st as n len rec by (auto simp: stages_ok_def enter_stage_def)
  next
    case False
    have "stage_ok (tab s) (kern s) (ids ! i) (stages s ! i)" using ok(1) i by (simp add: stages_ok_def)
    from stage_spares [OF this sp n i False] have "stage_ok h' k' (ids ! i) (stages ?s ! i)" using False by (simp add: enter_stage_def)
    moreover have "client_args ?s ! i = client_args s ! i" "stages ?s ! i = stages s ! i" using as False by (auto simp: enter_stage_def)
    ultimately show ?thesis using ok(1) i rec by (auto simp: stages_ok_def)
  qed
  then have "stages_ok h' ?s" using len as by (auto simp: stages_ok_def enter_stage_def)
  moreover have "loop_ok h' (kern ?s) ?s" using lo by (simp add: loop_ok_def enter_stage_def recorded_def)
  moreover have "rows h' (kern ?s)" using rw by (simp add: enter_stage_def)
  ultimately show "churn_inv ?s" "tab ?s = h'" using ok(2) by (auto intro: churn_invI tab_rows simp: enter_stage_def)
qed

lemma churn_invD:
  assumes "churn_inv s"
  shows "rows (tab s) (kern s)" "stages_ok (tab s) s" "loop_ok (tab s) (kern s) s" "pool_row s < SLOT_NUM"
    "n < MAX_CLIENTS \<Longrightarrow> stage_ok (tab s) (kern s) (ids ! n) (stages s ! n)" "length (stages s) = MAX_CLIENTS"
    "n < MAX_CLIENTS \<Longrightarrow> conn_client_id (client_args s ! n) = cids ! n"
    "n < MAX_CLIENTS \<Longrightarrow> stages s ! n = Idle \<Longrightarrow> ids ! n \<notin> recorded s"
    "n < MAX_CLIENTS \<Longrightarrow> stages s ! n = Echoed \<or> stages s ! n = Gone \<Longrightarrow> ids ! n \<in> recorded s"
  using assms by (auto simp: churn_inv_def stages_ok_def)

text \<open>The thread whose row it is.\<close>

lemma row_owner:
  assumes "churn_inv s" "reserved (tab s) j" "j < SLOT_NUM"
  obtains n where "n < MAX_CLIENTS" "holds (tab s) (ids ! n) j"
proof -
  have j: "holds (tab s) (row_client_id (slots (tab s) ! j)) j" using assms(2,3) by (simp add: holds_def)
  from churn_held(1) [OF churn_invD(1) [OF assms(1)] j] obtain n where "n < MAX_CLIENTS" "ids ! n = row_client_id (slots (tab s) ! j)"
    using ids(1) by (metis in_set_conv_nth)
  with j show thesis by (intro that [of n]) simp_all
qed

text \<open>The owner of a row that waits to be served has asked for it; the owner of a closed row is gone.\<close>

lemma owner_stage:
  assumes inv: "churn_inv s" and n: "n < MAX_CLIENTS" and j: "holds (tab s) (ids ! n) j"
  shows "\<not> shm_created (slots (tab s) ! j) \<Longrightarrow> stages s ! n = Asked (Shm t) (int j)"
    "detach (slots (tab s) ! j) \<Longrightarrow> stages s ! n = Gone"
proof -
  note st = churn_invD(5) [OF inv n] and one = churn_unique [OF churn_invD(1) [OF inv] j]
  have "(\<not> shm_created (slots (tab s) ! j) \<longrightarrow> stages s ! n = Asked (Shm t) (int j)) \<and> (detach (slots (tab s) ! j) \<longrightarrow> stages s ! n = Gone)"
  proof (cases "stages s ! n")
    case Idle
    with st j show ?thesis by simp
  next
    case (Asked ch slot)
    with st one [of "nat slot"] show ?thesis by auto
  next
    case (Linked ctx)
    with st obtain i where "holds (tab s) (ids ! n) i" "shm_created (slots (tab s) ! i)" "\<not> detach (slots (tab s) ! i)" by auto
    with one [of i] show ?thesis by simp
  next
    case Echoed
    with st obtain i where "holds (tab s) (ids ! n) i" "shm_created (slots (tab s) ! i)" "\<not> detach (slots (tab s) ! i)" by auto
    with one [of i] show ?thesis by simp
  next
    case Gone
    with st j show ?thesis by simp
  qed
  then show "\<not> shm_created (slots (tab s) ! j) \<Longrightarrow> stages s ! n = Asked (Shm t) (int j)"
    "detach (slots (tab s) ! j) \<Longrightarrow> stages s ! n = Gone" by simp_all
qed

lemma unrecorded:
  assumes inv: "churn_inv s" and j: "holds (tab s) c j" and cr: "\<not> shm_created (slots (tab s) ! j)"
  shows "c \<notin> recorded s"
proof -
  note rw = churn_invD(1) [OF inv]
  have "coord_inv (tab s)" "j < SLOT_NUM" using churn_table(4) [OF rw] churn_held(3) [OF rw j] by simp_all
  then have "\<not> server_attached (slots (tab s) ! j)" using cr by (auto simp: coord_inv_def row_ok_def)
  with loop_okD(4) [OF churn_invD(3) [OF inv] j] show ?thesis by simp
qed

text \<open>A turn of the pool thread: the threads stay where they are, and the owner of the row sees it change.\<close>

lemma pool_moves:
  assumes inv: "churn_inv s" and rw: "rows h' k'" and r: "r < SLOT_NUM"
    and st: "\<And>i. i < MAX_CLIENTS \<Longrightarrow> stage_ok h' k' (ids ! i) (stages s ! i)" and lo: "loop_ok h' k' s"
  shows "churn_inv (s\<lparr>kern := k', pool_row := r\<rparr>)" "tab (s\<lparr>kern := k', pool_row := r\<rparr>) = h'"
proof -
  let ?s = "s\<lparr>kern := k', pool_row := r\<rparr>"
  have "stages_ok h' ?s" using churn_invD(2) [OF inv] st by (simp add: stages_ok_def recorded_def)
  moreover have "loop_ok h' (kern ?s) ?s" using lo by (simp add: loop_ok_def recorded_def)
  ultimately show "churn_inv ?s" "tab ?s = h'" using rw r by (auto intro: churn_invI tab_rows)
qed

lemma pool_idle:
  assumes inv: "churn_inv s" and same: "obs_eq (kern s) k'" and rw: "rows (tab s) k'" and r: "r < SLOT_NUM"
  shows "churn_inv (s\<lparr>kern := k', pool_row := r\<rparr>)" "tab (s\<lparr>kern := k', pool_row := r\<rparr>) = tab s"
proof -
  have kp: "keeps {} t (kern s) k'" by (rule obs_keeps [OF same])
  have "stage_ok (tab s) k' (ids ! i) (stages s ! i)" if "i < MAX_CLIENTS" for i
    by (rule stage_frame [OF churn_invD(5) [OF inv that] kp]) simp_all
  moreover have "at_conn k' c q = at_conn (kern s) c q" for c q using same by (simp add: at_conn_def obs_eq_def)
  then have "loop_ok (tab s) k' s" using churn_invD(3) [OF inv] by (simp add: loop_ok_def)
  ultimately show "churn_inv (s\<lparr>kern := k', pool_row := r\<rparr>)" "tab (s\<lparr>kern := k', pool_row := r\<rparr>) = tab s"
    using pool_moves [OF inv rw r] by blast+
qed

lemma pool_changes:
  assumes inv: "churn_inv s" and rw: "rows h' k'" and r: "r < SLOT_NUM" and n: "n < MAX_CLIENTS" and j: "holds (tab s) (ids ! n) j"
    and kp: "keeps {ids ! n, i32 (ids ! n + 1)} t (kern s) k'"
    and others: "\<And>i. i < SLOT_NUM \<Longrightarrow> i \<noteq> j \<Longrightarrow> slots h' ! i = slots (tab s) ! i \<and> reserved h' i = reserved (tab s) i"
    and row: "reserved h' j \<Longrightarrow> \<not> shm_created (slots (tab s) ! j) \<and>
      (\<exists>shms. slots h' ! j = (slots (tab s) ! j)\<lparr>row_shms := shms, shm_created := True\<rparr>)"
    and gone: "\<not> reserved h' j \<Longrightarrow> detach (slots (tab s) ! j)"
  shows "churn_inv (s\<lparr>kern := k', pool_row := r\<rparr>)" "tab (s\<lparr>kern := k', pool_row := r\<rparr>) = h'"
proof -
  note I = churn_invD [OF inv]
  have c: "row_client_id (slots (tab s) ! j) = ids ! n" and jS: "j < SLOT_NUM" using j by (simp_all add: holds_def)
  have row': "reserved h' j \<Longrightarrow> row_client_id (slots h' ! j) = ids ! n" using row c by auto
  have sp: "spares (ids ! n) (tab s) (kern s) h' k'" by (rule sparesI [OF kp others _ row']) (use c in simp_all)
  have only: "i = j" if i: "holds h' (ids ! n) i" for i
  proof (rule ccontr)
    assume "i \<noteq> j"
    with i others [of i] have "holds (tab s) (ids ! n) i" by (simp add: holds_def)
    with churn_unique [OF I(1) j] \<open>i \<noteq> j\<close> show False by blast
  qed
  have me: "stage_ok h' k' (ids ! n) (stages s ! n)"
  proof (cases "reserved h' j")
    case True
    with jS row' have "holds h' (ids ! n) j" by (simp add: holds_def)
    moreover have "stages s ! n = Asked (Shm t) (int j)" using owner_stage(1) [OF inv n j] row [OF True] by blast
    ultimately show ?thesis using I(5) [OF n] row [OF True] by auto
  next
    case False
    then have "\<not> holds h' (ids ! n) i" for i using only [of i] by (auto simp: holds_def)
    then show ?thesis using owner_stage(2) [OF inv n j gone [OF False]] by simp
  qed
  have "stage_ok h' k' (ids ! i) (stages s ! i)" if i: "i < MAX_CLIENTS" for i
  proof (cases "i = n")
    case False
    then show ?thesis by (rule stage_spares [OF I(5) [OF i] sp n i])
  qed (use me in simp)
  moreover have "loop_ok h' k' s"
  proof (rule loop_frame [OF I(3) sp ids_nth(1) [OF n]])
    fix i assume i: "holds h' (ids ! n) i"
    from only [OF this] i have r: "i = j" "reserved h' j" by (simp_all add: holds_def)
    have no: "ids ! n \<notin> recorded s" using unrecorded [OF inv j] row [OF r(2)] by blast
    then show "server_attached (slots h' ! i) = (ids ! n \<in> recorded s)" using row [OF r(2)] r(1) loop_okD(4) [OF I(3) j] by auto
    fix q assume "ids ! n \<in> recorded s"
    with no show "holds (tab s) (ids ! n) i \<and> \<not> detach (slots (tab s) ! i) \<and> (at_conn (kern s) (ids ! n) q \<longrightarrow> at_conn k' (ids ! n) q)" by simp
  qed
  ultimately show "churn_inv (s\<lparr>kern := k', pool_row := r\<rparr>)" "tab (s\<lparr>kern := k', pool_row := r\<rparr>) = h'"
    using pool_moves [OF inv rw r] by blast+
qed

text \<open>One row of the pool thread's pass.\<close>

lemma pool_step:
  assumes inv: "churn_inv s"
  obtains s' where "churn_pool P sc s = Ret s'" "churn_inv s'" "stages s' = stages s" "client_args s' = client_args s"
    "recorded s' = recorded s" "next_client s' = next_client s" "pool_row s' = (pool_row s + 1) mod SLOT_NUM"
    "accept_slot (tab s') = accept_slot (tab s)"
    "\<And>i. i < SLOT_NUM \<Longrightarrow> i \<noteq> pool_row s \<Longrightarrow> slots (tab s') ! i = slots (tab s) ! i \<and> reserved (tab s') i = reserved (tab s) i"
    "reserved (tab s) (pool_row s) \<Longrightarrow> \<not> detach (slots (tab s) ! pool_row s) \<Longrightarrow>
       reserved (tab s') (pool_row s) \<and> shm_created (slots (tab s') ! pool_row s) \<and>
       row_client_id (slots (tab s') ! pool_row s) = row_client_id (slots (tab s) ! pool_row s) \<and>
       \<not> detach (slots (tab s') ! pool_row s)"
    "reserved (tab s') (pool_row s) \<Longrightarrow> reserved (tab s) (pool_row s) \<and> \<not> detach (slots (tab s) ! pool_row s)"
proof -
  let ?h = "tab s" and ?k = "kern s" and ?j = "pool_row s" and ?r = "(pool_row s + 1) mod SLOT_NUM"
  note I = churn_invD [OF inv]
  have r: "?r < SLOT_NUM" by simp
  have m: "0 < (4 :: nat)" "4 \<le> QUEUE_SIZE - 40" by (simp_all add: QUEUE_SIZE_def)
  obtain h' k' where mg: "manage_slot P (Shm t) (int ?j) ?k = Ret k'" "rows h' k'" "accept_slot h' = accept_slot ?h"
    "\<And>i. i < SLOT_NUM \<Longrightarrow> i \<noteq> ?j \<Longrightarrow> slots h' ! i = slots ?h ! i \<and> reserved h' i = reserved ?h i"
    "\<not> reserved ?h ?j \<or> shm_created (slots ?h ! ?j) \<and> \<not> detach (slots ?h ! ?j) \<Longrightarrow> h' = ?h \<and> obs_eq ?k k'"
    "reserved ?h ?j \<Longrightarrow> \<not> shm_created (slots ?h ! ?j) \<Longrightarrow>
       reserved h' ?j \<and> (\<exists>shms. slots h' ! ?j = (slots ?h ! ?j)\<lparr>row_shms := shms, shm_created := True\<rparr>)"
    "reserved ?h ?j \<Longrightarrow> detach (slots ?h ! ?j) \<Longrightarrow> \<not> reserved h' ?j"
    "keeps (if reserved ?h ?j then {row_client_id (slots ?h ! ?j), i32 (row_client_id (slots ?h ! ?j) + 1)} else {}) t ?k k'"
    by (rule churn_manage [OF I(1) ids(2) I(4) m]) (rule that)
  let ?s = "s\<lparr>kern := k', pool_row := ?r\<rparr>"
  have turn: "churn_pool P sc s = Ret ?s" using mg(1) by (simp add: churn_pool_def sc)
  have "churn_inv ?s \<and> tab ?s = h'"
  proof (cases "reserved ?h ?j \<and> (\<not> shm_created (slots ?h ! ?j) \<or> detach (slots ?h ! ?j))")
    case False
    then have "h' = ?h" "obs_eq ?k k'" using mg(5) by blast+
    with pool_idle [OF inv _ _ r] mg(2) show ?thesis by blast
  next
    case True
    then obtain n where n: "n < MAX_CLIENTS" "holds ?h (ids ! n) ?j" using row_owner [OF inv _ I(4)] by blast
    then have "keeps {ids ! n, i32 (ids ! n + 1)} t ?k k'" using mg(8) True by (simp add: holds_def)
    from pool_changes [OF inv mg(2) r n this mg(4)] True mg(6,7) show ?thesis by blast
  qed
  then have inv': "churn_inv ?s" "tab ?s = h'" by blast+
  have last: "reserved h' ?j \<and> shm_created (slots h' ! ?j) \<and> row_client_id (slots h' ! ?j) = row_client_id (slots ?h ! ?j) \<and> \<not> detach (slots h' ! ?j)"
    if "reserved ?h ?j" "\<not> detach (slots ?h ! ?j)"
    using that mg(5,6) by (cases "shm_created (slots ?h ! ?j)") auto
  have still: "reserved ?h ?j \<and> \<not> detach (slots ?h ! ?j)" if "reserved h' ?j"
    using that mg(5,7) by (cases "reserved ?h ?j") auto
  show thesis
    by (rule that [OF turn inv'(1)], unfold inv'(2)) (use mg(3,4) last still in \<open>simp_all add: recorded_def\<close>)
qed

text \<open>One pass of the accept loop.\<close>

lemma search_new:
  assumes "loop_ok h k s" "c \<in> set ids" "c \<notin> recorded s"
  shows "bsearch c (client_list s) = None"
proof (rule bsearch_absent)
  have "set (client_list s) = recorded s \<union> set (drop (next_client s) (client_list s))"
    unfolding recorded_def by (metis append_take_drop_id set_append)
  moreover have "set (drop (next_client s) (client_list s)) \<inter> set ids = {}" using assms(1) unfolding loop_ok_def by (elim conjE)
  ultimately show "c \<notin> set (client_list s)" using assms(2,3) by blast
  show "int32 c" using ids(4) assms(2) by blast
  show "\<forall>x \<in> set (client_list s). int32 x" using assms(1) unfolding loop_ok_def by (elim conjE)
qed

text \<open>The table after \<open>accept\<close> has handed out row \<open>u\<close>.\<close>

definition handed_out :: "coord_header \<Rightarrow> nat \<Rightarrow> coord_header \<Rightarrow> bool" where
  "handed_out h u h' \<longleftrightarrow> slots h' ! u = (slots h ! u)\<lparr>server_attached := True\<rparr> \<and>
     (\<forall>i < SLOT_NUM. (i \<noteq> u \<longrightarrow> slots h' ! i = slots h ! i) \<and> reserved h' i = reserved h i)"

lemma handed_outD:
  assumes "handed_out h u h'"
  shows "holds h' c j = holds h c j" "holds h c j \<Longrightarrow> shm_created (slots h' ! j) = shm_created (slots h ! j)"
    "holds h c j \<Longrightarrow> detach (slots h' ! j) = detach (slots h ! j)"
    "holds h c j \<Longrightarrow> client_attached (slots h' ! j) = client_attached (slots h ! j)"
    "holds h c j \<Longrightarrow> server_attached (slots h' ! j) = (j = u \<or> server_attached (slots h ! j))"
  using assms by (cases "j = u"; auto simp: handed_out_def holds_def)+

lemma handlers_kept:
  assumes lo: "loop_ok h k s" and ho: "handed_out h u h'" and kp: "keeps {} t k k'" and x: "x \<in> set (handlers s)"
  shows "\<exists>q. x = select_queue_ctx P POLL q \<and> (\<forall>j. holds h' (qp_client_id q) j \<longrightarrow> \<not> detach (slots h' ! j) \<longrightarrow> at_conn k' (qp_client_id q) q)"
proof -
  obtain q where q: "x = select_queue_ctx P POLL q"
    "\<forall>j. holds h (qp_client_id q) j \<longrightarrow> \<not> detach (slots h ! j) \<longrightarrow> at_conn k (qp_client_id q) q"
    using lo x unfolding loop_ok_def by blast
  have "at_conn k' (qp_client_id q) q" if "holds h' (qp_client_id q) j" "\<not> detach (slots h' ! j)" for j
    using that q(2) handed_outD(1,3) [OF ho] by (intro at_conn_keeps [OF _ kp]) auto
  with q(1) show ?thesis by blast
qed

lemma loop_repeat:
  assumes lo: "loop_ok h k s" and ho: "handed_out h u h'" and kp: "keeps {} t k k'" and u: "holds h c u" "c \<in> recorded s"
  shows "loop_ok h' k' s"
proof -
  have "\<forall>c' j. holds h' c' j \<longrightarrow> server_attached (slots h' ! j) = (c' \<in> recorded s)"
  proof (intro allI impI)
    fix c' j assume "holds h' c' j"
    then have j: "holds h c' j" using handed_outD(1) [OF ho] by simp
    then have "j = u \<Longrightarrow> c' = c" using u(1) by (auto simp: holds_def)
    then show "server_attached (slots h' ! j) = (c' \<in> recorded s)"
      using handed_outD(5) [OF ho j] loop_okD(4) [OF lo j] u(2) by auto
  qed
  moreover have "\<forall>x \<in> set (handlers s). \<exists>q. x = select_queue_ctx P POLL q \<and>
      (\<forall>j. holds h' (qp_client_id q) j \<longrightarrow> \<not> detach (slots h' ! j) \<longrightarrow> at_conn k' (qp_client_id q) q)"
    using handlers_kept [OF lo ho kp] by blast
  ultimately show ?thesis using lo unfolding loop_ok_def by (elim conjE, intro conjI)
qed

lemma loop_record:
  assumes lo: "loop_ok h k s" and ho: "handed_out h u h'" and kp: "keeps {} t k k'" and u: "holds h c u" "c \<notin> recorded s" "c \<in> set ids"
    and room: "next_client s < MAX_CLIENTS" and q: "ctx = select_queue_ctx P POLL q" "at_conn k' c q"
    and one: "\<And>j. holds h c j \<Longrightarrow> j = u"
    and s': "s' = s\<lparr>client_list := (client_list s)[next_client s := c], next_client := next_client s + 1, handlers := handlers s @ [ctx]\<rparr>"
  shows "loop_ok h' k' s'" "recorded s' = insert c (recorded s)"
proof -
  let ?n = "next_client s" and ?cl = "(client_list s)[next_client s := c]"
  have len: "?n < length (client_list s)" using room loop_okD(2) [OF lo] by simp
  have tk: "take (?n + 1) ?cl = take ?n (client_list s) @ [c]" using len by (simp add: take_Suc_conv_app_nth)
  then show rec: "recorded s' = insert c (recorded s)" by (simp add: s' recorded_def)
  have fld: "client_list s' = ?cl" "next_client s' = ?n + 1" "handlers s' = handlers s @ [ctx]" by (simp_all add: s')
  have lo': "\<forall>x \<in> set (client_list s). int32 x" "distinct (take ?n (client_list s))" "set (drop ?n (client_list s)) \<inter> set ids = {}"
    using lo unfolding loop_ok_def by blast+
  have id: "qp_client_id q = c" using q(2) by (simp add: at_conn_def)
  have "set ?cl \<subseteq> insert c (set (client_list s))" by (rule set_update_subset_insert)
  then have 1: "\<forall>x \<in> set ?cl. int32 x" using lo'(1) ids(4) u(3) by blast
  have "set (drop (?n + 1) ?cl) \<subseteq> set (drop ?n (client_list s))" by (simp add: set_drop_subset_set_drop)
  then have 2: "set (drop (?n + 1) ?cl) \<inter> set ids = {}" using lo'(3) by blast
  have 3: "distinct (take (?n + 1) ?cl)" unfolding tk using lo'(2) u(2) by (simp add: recorded_def)
  have 4: "map (\<lambda>c. qp_client_id (queues c)) (handlers s @ [ctx]) = take (?n + 1) ?cl"
    unfolding tk using loop_okD(5) [OF lo] q(1) id by simp
  have 5: "\<forall>c' j. holds h' c' j \<longrightarrow> server_attached (slots h' ! j) = (c' \<in> recorded s')"
  proof (intro allI impI)
    fix c' j assume "holds h' c' j"
    then have j: "holds h c' j" using handed_outD(1) [OF ho] by simp
    then have "j = u \<longleftrightarrow> c' = c" using u(1) one [of j] by (auto simp: holds_def)
    then show "server_attached (slots h' ! j) = (c' \<in> recorded s')"
      unfolding rec using handed_outD(5) [OF ho j] loop_okD(4) [OF lo j] by simp
  qed
  have 6: "\<forall>x \<in> set (handlers s @ [ctx]). \<exists>q. x = select_queue_ctx P POLL q \<and>
      (\<forall>j. holds h' (qp_client_id q) j \<longrightarrow> \<not> detach (slots h' ! j) \<longrightarrow> at_conn k' (qp_client_id q) q)"
  proof
    fix x assume "x \<in> set (handlers s @ [ctx])"
    then consider "x \<in> set (handlers s)" | "x = ctx" by auto
    then show "\<exists>q. x = select_queue_ctx P POLL q \<and>
        (\<forall>j. holds h' (qp_client_id q) j \<longrightarrow> \<not> detach (slots h' ! j) \<longrightarrow> at_conn k' (qp_client_id q) q)"
      using handlers_kept [OF lo ho kp] q id by cases blast+
  qed
  have "recorded s' \<subseteq> set ids" unfolding rec using loop_okD(1) [OF lo] u(3) by blast
  with 1 2 3 4 5 6 loop_okD(2) [OF lo] room show "loop_ok h' k' s'" unfolding loop_ok_def fld by simp
qed

lemma server_moves:
  assumes inv: "churn_inv s" and rw: "rows h' k'" and ho: "handed_out (tab s) u h'" and kp: "keeps {} t (kern s) k'"
    and s': "kern s' = k'" "stages s' = stages s" "client_args s' = client_args s" "pool_row s' = pool_row s"
    and rec: "recorded s' = recorded s \<or> recorded s' = insert c (recorded s) \<and> holds (tab s) c u" and lo: "loop_ok h' k' s'"
  shows "churn_inv s'" "tab s' = h'"
proof -
  note I = churn_invD [OF inv]
  have "stage_ok h' k' (ids ! i) (stages s ! i)" if "i < MAX_CLIENTS" for i
    by (rule stage_frame [OF I(5) [OF that] kp]) (use handed_outD(1-4) [OF ho] in simp_all)
  moreover have "ids ! i \<noteq> c" if "i < MAX_CLIENTS" "stages s ! i = Idle" "holds (tab s) c u" for i
    using I(5) [OF that(1)] that(2,3) by auto
  ultimately have "stages_ok h' s'" using I(2) rec unfolding stages_ok_def s' by auto
  with rw lo I(4) s' show "churn_inv s'" "tab s' = h'" by (auto intro: churn_invI tab_rows)
qed

lemma server_step:
  assumes inv: "churn_inv s"
  obtains s' where "server_turn P fuel sc s = Ret s'" "churn_inv s'" "stages s' = stages s" "client_args s' = client_args s"
    "pool_row s' = pool_row s" "recorded s \<subseteq> recorded s'" "next_client s \<le> next_client s'"
    "tab s' = tab s \<or> (\<exists>u. handed_out (tab s) u (tab s'))"
    "next_client s < MAX_CLIENTS \<Longrightarrow> (case accept_loop SLOT_NUM (nat (accept_slot (tab s))) (tab s) of
       None \<Rightarrow> True | Some u \<Rightarrow> accept_slot (tab s') = int (Suc u mod SLOT_NUM) \<and> (\<forall>c. holds (tab s) c u \<longrightarrow> c \<in> recorded s'))"
proof (cases "next_client s < MAX_CLIENTS")
  case False
  then show thesis using inv by (intro that [of s]) (simp_all add: server_turn_def)
next
  case room: True
  note I = churn_invD [OF inv]
  show thesis
  proof (cases "accept_loop SLOT_NUM (nat (accept_slot (tab s))) (tab s)")
    case None
    from churn_accept_none [OF I(1) sc None, of fuel] obtain k' where
      k': "accept P fuel sc (kern s) = Ret (None, k')" "rows (tab s) k'" "obs_eq (kern s) k'" by blast
    have "s\<lparr>kern := k', pool_row := pool_row s\<rparr> = s\<lparr>kern := k'\<rparr>" by simp
    with pool_idle [OF inv k'(3,2) I(4)] have "churn_inv (s\<lparr>kern := k'\<rparr>)" "tab (s\<lparr>kern := k'\<rparr>) = tab s" by simp_all
    then show ?thesis using k'(1) room None by (intro that [of "s\<lparr>kern := k'\<rparr>"]) (simp_all add: server_turn_def recorded_def)
  next
    case (Some u)
    obtain c ctx k' h' where a: "accept P fuel sc (kern s) = Ret (Some ctx, k')" "holds (tab s) c u" "rows h' k'" "keeps {} t (kern s) k'"
      "qp_client_id (queues ctx) = c" "accept_slot h' = int (Suc u mod SLOT_NUM)" "slots h' ! u = (slots (tab s) ! u)\<lparr>server_attached := True\<rparr>"
      "\<And>i. i < SLOT_NUM \<Longrightarrow> (i \<noteq> u \<longrightarrow> slots h' ! i = slots (tab s) ! i) \<and> reserved h' i = reserved (tab s) i"
      "server_attached (slots (tab s) ! u) \<Longrightarrow> request_shmaddr (queues ctx) = Null"
      "\<not> server_attached (slots (tab s) ! u) \<Longrightarrow> \<exists>qp. ctx = select_queue_ctx P POLL qp \<and> at_conn k' c qp"
      by (rule churn_accept [OF I(1) ids(2) sc Some, of fuel], rule that) (assumption | blast)+
    have ho: "handed_out (tab s) u h'" using a(7,8) by (simp add: handed_out_def)
    have cids: "c \<in> set ids" by (rule churn_held(1) [OF I(1) a(2)])
    have only: "holds (tab s) c' u \<Longrightarrow> c' = c" for c' using a(2) by (simp add: holds_def)
    note att = loop_okD(4) [OF I(3) a(2)]
    show ?thesis
    proof (cases "c \<in> recorded s")
      case True
      let ?s = "s\<lparr>kern := k'\<rparr>"
      have lo: "loop_ok h' k' ?s" using loop_repeat [OF I(3) ho a(4,2) True] by (simp add: loop_ok_def recorded_def)
      have turn: "server_turn P fuel sc s = Ret ?s" using room a(1,9) att True by (simp add: server_turn_def Let_def)
      note mv = server_moves [OF inv a(3) ho a(4) _ _ _ _ _ lo, of c, simplified]
      have "churn_inv ?s" "tab ?s = h'" using mv by (simp_all add: recorded_def)
      then show ?thesis using turn Some a(6) ho only True by (intro that [of ?s]) (auto simp: recorded_def)
    next
      case False
      obtain q where q: "ctx = select_queue_ctx P POLL q" "at_conn k' c q" using a(10) att False by blast
      then have addr: "request_shmaddr (queues ctx) \<noteq> Null" by (auto simp: at_conn_def)
      let ?s1 = "s\<lparr>client_list := (client_list s)[next_client s := c], next_client := next_client s + 1, handlers := handlers s @ [ctx]\<rparr>"
      let ?s = "?s1\<lparr>kern := k'\<rparr>"
      have turn: "server_turn P fuel sc s = Ret ?s"
        using room a(1,5) addr search_new [OF I(3) cids False] by (simp add: server_turn_def Let_def)
      note rc = loop_record [OF I(3) ho a(4,2) False cids room q churn_unique [OF I(1) _ a(2)] refl]
      have lo: "loop_ok h' k' ?s" and rec: "recorded ?s = insert c (recorded s)" using rc by (simp_all add: loop_ok_def recorded_def)
      have mv: "churn_inv ?s" "tab ?s = h'"
        by (rule server_moves [OF inv a(3) ho a(4) _ _ _ _ _ lo, of c]; use rec a(2) in simp)+
      show ?thesis
        by (rule that [OF turn mv(1)], unfold mv(2) rec) (use Some a(6) ho only in auto)
    qed
  qed
qed

text \<open>What a turn of client \<open>n\<close> does: one stage on, or nothing while it has to wait.\<close>

definition client_moves :: "nat \<Rightarrow> 'k churn_test \<Rightarrow> 'k churn_test \<Rightarrow> bool" where
  "client_moves n s s' \<longleftrightarrow> spares (ids ! n) (tab s) (kern s) (tab s') (kern s') \<and> accept_slot (tab s') = accept_slot (tab s) \<and>
     pool_row s' = pool_row s \<and> recorded s' = recorded s \<and> next_client s' = next_client s \<and>
     (\<forall>i. i \<noteq> n \<longrightarrow> stages s' ! i = stages s ! i) \<and>
     (case stages s ! n of
        Idle \<Rightarrow> (\<exists>j. stages s' ! n = Asked (Shm t) (int j))
      | Asked ch slot \<Rightarrow> if shm_created (slots (tab s) ! nat slot) then (\<exists>ctx. stages s' ! n = Linked ctx) else s' = s
      | Linked ctx \<Rightarrow> if ids ! n \<in> recorded s then stages s' ! n = Echoed else s' = s
      | Echoed \<Rightarrow> stages s' ! n = Gone
      | Gone \<Rightarrow> s' = s)"

lemma spares_refl: "spares c h k h k"
  by (simp add: spares_def keeps_def)

lemma enter_same: "(enter_stage n st k s)\<lparr>client_args := client_args s\<rparr> = enter_stage n st k s"
  by (cases s) (simp add: enter_stage_def)

lemma client_entered:
  assumes inv: "churn_inv s" and n: "n < MAX_CLIENTS" and rw: "rows h' k'" and kp: "keeps {ids ! n, i32 (ids ! n + 1)} t (kern s) k'"
    and acc: "accept_slot h' = accept_slot (tab s)"
    and others: "\<And>i. i < SLOT_NUM \<Longrightarrow> i \<noteq> j \<Longrightarrow> slots h' ! i = slots (tab s) ! i \<and> reserved h' i = reserved (tab s) i"
    and j: "holds h' (ids ! n) j" "reserved (tab s) j \<Longrightarrow> row_client_id (slots (tab s) ! j) = ids ! n"
    and att: "server_attached (slots h' ! j) = (ids ! n \<in> recorded s)"
    and ends: "\<And>q. ids ! n \<in> recorded s \<Longrightarrow> \<not> detach (slots h' ! j) \<Longrightarrow>
      holds (tab s) (ids ! n) j \<and> \<not> detach (slots (tab s) ! j) \<and> (at_conn (kern s) (ids ! n) q \<longrightarrow> at_conn k' (ids ! n) q)"
    and st: "stage_ok h' k' (ids ! n) st" "st = Idle \<longrightarrow> ids ! n \<notin> recorded s" "st = Echoed \<or> st = Gone \<longrightarrow> ids ! n \<in> recorded s"
    and as: "as = client_args s \<and> st \<noteq> Gone \<or>
      as = (client_args s)[n := (client_args s ! n)\<lparr>start_time := fst (clock n), end_time := snd (clock n)\<rparr>]"
    and s': "s' = (enter_stage n st k' s)\<lparr>client_args := as\<rparr>"
    and step: "case stages s ! n of Idle \<Rightarrow> \<exists>j. st = Asked (Shm t) (int j)
      | Asked ch slot \<Rightarrow> shm_created (slots (tab s) ! nat slot) \<and> (\<exists>ctx. st = Linked ctx)
      | Linked ctx \<Rightarrow> ids ! n \<in> recorded s \<and> st = Echoed | Echoed \<Rightarrow> st = Gone | Gone \<Rightarrow> False"
  shows "churn_inv s'" "client_moves n s s'"
proof -
  note I = churn_invD [OF inv]
  have c: "row_client_id (slots h' ! j) = ids ! n" using j(1) by (simp add: holds_def)
  have sp: "spares (ids ! n) (tab s) (kern s) h' k'" by (rule sparesI [OF kp others]) (use j(2) c in simp_all)
  have only: "i = j" if "holds h' (ids ! n) i" for i by (rule churn_unique [OF rw that j(1)])
  have lo: "loop_ok h' k' s"
  proof (rule loop_frame [OF I(3) sp ids_nth(1) [OF n]])
    fix i assume "holds h' (ids ! n) i"
    then have i: "i = j" by (rule only)
    with att show "server_attached (slots h' ! i) = (ids ! n \<in> recorded s)" by simp
    fix q assume "ids ! n \<in> recorded s" "\<not> detach (slots h' ! i)"
    with ends i show "holds (tab s) (ids ! n) i \<and> \<not> detach (slots (tab s) ! i) \<and> (at_conn (kern s) (ids ! n) q \<longrightarrow> at_conn k' (ids ! n) q)" by simp
  qed
  note en = client_enters [OF inv n rw sp lo st as, folded s']
  show "churn_inv s'" by (rule en(1))
  have "stages s' ! n = st" "\<And>i. i \<noteq> n \<Longrightarrow> stages s' ! i = stages s ! i" "kern s' = k'" "pool_row s' = pool_row s"
    "recorded s' = recorded s" "next_client s' = next_client s"
    using n I(6) by (simp_all add: s' enter_stage_def recorded_def)
  with en(2) sp acc step show "client_moves n s s'"
    unfolding client_moves_def by (cases "stages s ! n") simp_all
qed

lemma churn_handler:
  assumes inv: "churn_inv s" and n: "n < MAX_CLIENTS" and st: "stages s ! n = Linked ctx"
  shows "ids ! n \<notin> recorded s \<Longrightarrow> handler_of ctx s = None"
    "ids ! n \<in> recorded s \<Longrightarrow> \<exists>q. handler_of ctx s = Some (select_queue_ctx P POLL q) \<and> at_conn (kern s) (ids ! n) q"
proof -
  note I = churn_invD [OF inv] and rec = recorded_handlers [OF churn_invD(3) [OF inv]]
  from I(5) [OF n] st obtain j where j: "holds (tab s) (ids ! n) j" "\<not> detach (slots (tab s) ! j)" by auto
  have id: "qp_client_id (queues ctx) = ids ! n" using I(5) [OF n] st by (auto simp: at_conn_def)
  show "ids ! n \<notin> recorded s \<Longrightarrow> handler_of ctx s = None"
    unfolding rec by (auto simp: handler_of_def find_None_iff id image_image image_iff)
  assume "ids ! n \<in> recorded s"
  then obtain x where x: "x \<in> set (handlers s)" "qp_client_id (queues x) = ids ! n" unfolding rec by auto
  then have "handler_of ctx s \<noteq> None" by (auto simp: handler_of_def find_None_iff id)
  then obtain y where y: "handler_of ctx s = Some y" by blast
  then have y': "y \<in> set (handlers s)" "qp_client_id (queues y) = ids ! n"
    by (auto simp: handler_of_def find_Some_iff id)
  then obtain q where q: "y = select_queue_ctx P POLL q"
    "\<forall>j. holds (tab s) (qp_client_id q) j \<longrightarrow> \<not> detach (slots (tab s) ! j) \<longrightarrow> at_conn (kern s) (qp_client_id q) q"
    using I(3) unfolding loop_ok_def by blast
  then have "at_conn (kern s) (ids ! n) q" using y'(2) j by auto
  with y q(1) show "\<exists>q. handler_of ctx s = Some (select_queue_ctx P POLL q) \<and> at_conn (kern s) (ids ! n) q" by blast
qed

lemma client_asks:
  assumes inv: "churn_inv s" and n: "n < MAX_CLIENTS" and st: "stages s ! n = Idle"
  obtains s' where "churn_client P fuel clock n s = Ret s'" "churn_inv s'" "client_moves n s s'"
proof -
  note I = churn_invD [OF inv]
  have me: "\<And>j. \<not> holds (tab s) (ids ! n) j" "vacant (kern s) (ids ! n)" using I(5) [OF n] st by simp_all
  obtain k1 j h' k' where r: "coord_attach K test_server_addr (kern s) = (Shm t, k1)"
    "request_at K (Shm t) (ids ! n) (int 4) POLL k1 = Ret (int j, k')"
    "rows h' k'" "keeps {} t (kern s) k'" "accept_slot h' = accept_slot (tab s)" "holds h' (ids ! n) j"
    "slots h' ! j = fresh_row (ids ! n) (int 4) POLL zero_row"
    "\<And>i. i < SLOT_NUM \<Longrightarrow> i \<noteq> j \<Longrightarrow> slots h' ! i = slots (tab s) ! i \<and> reserved h' i = reserved (tab s) i" "\<not> reserved (tab s) j"
    by (rule churn_request [OF I(1) ids(2,3) ids_nth(1) [OF n] me refl]) (rule that)
  let ?s = "enter_stage n (Asked (Shm t) (int j)) k' s"
  have turn: "churn_client P fuel clock n s = Ret ?s"
    using st n I(6) I(7) [OF n] r(1,2) ids_nth(2) [OF n] by (simp add: churn_client_def open_request_def platform Let_def)
  note en = client_entered [OF inv n r(3) keeps_mono [OF r(4)] r(5,8,6), where st = "Asked (Shm t) (int j)" and s' = ?s and as = "client_args s"]
  have un: "ids ! n \<notin> recorded s" by (rule I(8) [OF n st])
  have "churn_inv ?s" "client_moves n s ?s"
    by (rule en; use r(6,7,9) un st in \<open>simp add: fresh_row_def enter_same\<close>)+
  with turn show thesis by (rule that)
qed

lemma client_attaches:
  assumes inv: "churn_inv s" and n: "n < MAX_CLIENTS" and st: "stages s ! n = Asked ch slot"
  obtains s' where "churn_client P fuel clock n s = Ret s'" "churn_inv s'" "client_moves n s s'"
proof -
  note I = churn_invD [OF inv]
  have "ch = Shm t" "slot = int (nat slot)" using I(5) [OF n] st by simp_all
  then obtain j where slot: "ch = Shm t" "slot = int j" by blast
  with I(5) [OF n] st have me: "holds (tab s) (ids ! n) j" "\<not> detach (slots (tab s) ! j)" "\<not> client_attached (slots (tab s) ! j)" by simp_all
  have j: "j < SLOT_NUM" using me(1) by (simp add: holds_def)
  have t: "load_table K (Shm t) (kern s) = Ret (tab s)" by (rule load_table_Shm [OF churn_table(1) [OF I(1)]])
  have turn: "churn_client P fuel clock n s = bind_out (open_attach P fuel (Shm t) (int j) (kern s)) (\<lambda>(c_qp, k1).
      case c_qp of None \<Rightarrow> Ret (s\<lparr>kern := k1\<rparr>) | Some ctx \<Rightarrow> Ret (enter_stage n (Linked ctx) k1 s))"
    using st n I(6) slot by (simp add: churn_client_def Let_def)
  show thesis
  proof (cases "shm_created (slots (tab s) ! j)")
    case False
    then have "churn_client P fuel clock n s = Ret s" unfolding turn using j t by (simp add: open_attach_def platform)
    then show ?thesis using inv False st slot(2) by (intro that [of s]) (simp_all add: client_moves_def spares_refl)
  next
    case True
    obtain qp h' k' where l: "create_client_queue_pair K fuel (Shm t) (int j) (kern s) = Ret (qp, k')" "rows h' k'"
      "at_conn k' (ids ! n) qp" "keeps {} t (kern s) k'" "h' = set_row j (\<lambda>r. r\<lparr>client_attached := True\<rparr>) (tab s)"
      by (rule churn_link [OF I(1) ids(2) me(1) True me(2,3)]) (rule that)
    let ?st = "Linked (select_queue_ctx P POLL qp)" let ?s = "enter_stage n ?st k' s"
    have turn': "churn_client P fuel clock n s = Ret ?s" unfolding turn using j t True l(1) by (simp add: open_attach_def platform)
    note wf = churn_table(5) [OF I(1)]
    have others: "slots h' ! i = slots (tab s) ! i \<and> reserved h' i = reserved (tab s) i" if "i < SLOT_NUM" "i \<noteq> j" for i
      using that l(5) wf j by simp
    have row: "slots h' ! j = (slots (tab s) ! j)\<lparr>client_attached := True\<rparr>" "reserved h' j = reserved (tab s) j"
      using l(5) wf j by simp_all
    have acc: "accept_slot h' = accept_slot (tab s)" using l(5) by simp
    have hold: "holds h' (ids ! n) j" using me(1) row by (simp add: holds_def)
    have ends: "at_conn (kern s) (ids ! n) q \<Longrightarrow> at_conn k' (ids ! n) q" for q by (rule at_conn_keeps [OF _ l(4)]) simp_all
    have "stage_ok h' k' (ids ! n) ?st" using hold row True me(2) l(3) by auto
    then have "churn_inv ?s" "client_moves n s ?s"
      by (intro client_entered [OF inv n l(2) keeps_mono [OF l(4)] acc others hold, where st = ?st and s' = ?s and as = "client_args s"];
        use me row True ends loop_okD(4) [OF I(3) me(1)] st slot(2) in \<open>simp add: holds_def enter_same\<close>)+
    with turn' show ?thesis by (rule that)
  qed
qed

lemma client_exchanges:
  assumes inv: "churn_inv s" and n: "n < MAX_CLIENTS" and st: "stages s ! n = Linked ctx"
  obtains s' where "churn_client P fuel clock n s = Ret s'" "churn_inv s'" "client_moves n s s'"
proof (cases "ids ! n \<in> recorded s")
  case False
  then have "churn_client P fuel clock n s = Ret s"
    using churn_handler(1) [OF inv n st] st n churn_invD(6) [OF inv] by (simp add: churn_client_def Let_def)
  then show thesis using inv False st by (intro that [of s]) (simp_all add: client_moves_def spares_refl)
next
  case True
  note I = churn_invD [OF inv]
  obtain qs where qs: "handler_of ctx s = Some (select_queue_ctx P POLL qs)" "at_conn (kern s) (ids ! n) qs"
    using churn_handler(2) [OF inv n st True] by blast
  from I(5) [OF n] st obtain j qc where j: "holds (tab s) (ids ! n) j" "shm_created (slots (tab s) ! j)" "\<not> detach (slots (tab s) ! j)"
    and qc: "ctx = select_queue_ctx P POLL qc" "at_conn (kern s) (ids ! n) qc" by auto
  let ?rs = "map (\<lambda>i. (int_bytes (of_nat i), int_bytes (of_nat i))) rtt_numbers"
  have lens: "\<forall>(req, resp) \<in> set ?rs. length req = 4 \<and> length resp = 4" by auto
  have cap: "0 < (QUEUE_SIZE - 40) div 4 - 1" by (simp add: QUEUE_SIZE_def)
  obtain k' where k': "rpc_rounds (select_queue_ctx P POLL qc) (select_queue_ctx P POLL qs) ?rs (kern s) = Ret (?rs, k')"
    "rows (tab s) k'" "\<And>x. key_names K x k' = key_names K x (kern s)" "keeps {ids ! n, i32 (ids ! n + 1)} t (kern s) k'"
    by (rule churn_exchange [OF I(1) ids(2) j cap qc(2) qs(2) lens]) (rule that)
  let ?s = "enter_stage n Echoed k' s"
  have turn: "churn_client P fuel clock n s = Ret ?s"
    using st n I(6) qs(1) qc(1) echo_from_rounds [OF k'(1)] by (simp add: churn_client_def Let_def)
  have ends: "at_conn k' c q = at_conn (kern s) c q" for c q using k'(3) by (simp add: at_conn_def)
  have "stage_ok (tab s) k' (ids ! n) Echoed" using j by auto
  then have "churn_inv ?s" "client_moves n s ?s"
    by (intro client_entered [OF inv n k'(2,4) refl _ j(1), where st = Echoed and s' = ?s and as = "client_args s"];
      use j True ends loop_okD(4) [OF I(3) j(1)] st in \<open>simp add: holds_def enter_same\<close>)+
  with turn show thesis by (rule that)
qed

lemma client_closes:
  assumes inv: "churn_inv s" and n: "n < MAX_CLIENTS" and st: "stages s ! n = Echoed"
  obtains s' where "churn_client P fuel clock n s = Ret s'" "churn_inv s'" "client_moves n s s'"
proof -
  note I = churn_invD [OF inv]
  from I(5) [OF n] st obtain j where j: "holds (tab s) (ids ! n) j" "shm_created (slots (tab s) ! j)" by auto
  have rec: "ids ! n \<in> recorded s" using I(9) [OF n] st by simp
  have name: "client_hash (cids ! n) = ids ! n" by (rule ids_nth(2) [OF n])
  have j': "holds (tab s) (client_hash (cids ! n)) j" using j(1) name by simp
  obtain h' k' where c: "client_close K (client_name (cids ! n)) test_server_addr (kern s) = Ret (0, k')" "rows h' k'"
    "keeps {} t (kern s) k'" "h' = set_row j (\<lambda>r. r\<lparr>detach := True\<rparr>) (tab s)"
    by (rule churn_close [OF I(1) ids(2) j' j(2) refl]) (rule that)
  let ?as = "(client_args s)[n := (client_args s ! n)\<lparr>start_time := fst (clock n), end_time := snd (clock n)\<rparr>]"
  let ?s = "(enter_stage n Gone k' s)\<lparr>client_args := ?as\<rparr>"
  have turn: "churn_client P fuel clock n s = Ret ?s"
    using st n I(6) I(7) [OF n] c(1) by (simp add: churn_client_def Let_def platform)
  have jS: "j < SLOT_NUM" using j(1) by (simp add: holds_def)
  note wf = churn_table(5) [OF I(1)]
  have others: "slots h' ! i = slots (tab s) ! i \<and> reserved h' i = reserved (tab s) i" if "i < SLOT_NUM" "i \<noteq> j" for i
    using that c(4) wf jS by simp
  have row: "slots h' ! j = (slots (tab s) ! j)\<lparr>detach := True\<rparr>" "reserved h' j = reserved (tab s) j" using c(4) wf jS by simp_all
  have acc: "accept_slot h' = accept_slot (tab s)" using c(4) by simp
  have hold: "holds h' (ids ! n) j" using j(1) row by (simp add: holds_def)
  have "stage_ok h' k' (ids ! n) Gone" using churn_unique [OF c(2) hold] row j(2) by auto
  then have "churn_inv ?s" "client_moves n s ?s"
    by (intro client_entered [OF inv n c(2) keeps_mono [OF c(3)] acc others hold, where st = Gone and s' = ?s and as = ?as];
      use j row rec loop_okD(4) [OF I(3) j(1)] st in \<open>simp add: holds_def\<close>)+
  with turn show thesis by (rule that)
qed

lemma client_step:
  assumes inv: "churn_inv s" and n: "n < MAX_CLIENTS"
  obtains s' where "churn_client P fuel clock n s = Ret s'" "churn_inv s'" "client_moves n s s'"
proof (cases "stages s ! n")
  case Gone
  then have "churn_client P fuel clock n s = Ret s" using n churn_invD(6) [OF inv] by (simp add: churn_client_def Let_def)
  with inv Gone show thesis by (intro that [of s]) (simp_all add: client_moves_def spares_refl)
qed (use client_asks client_attaches client_exchanges client_closes assms that in \<open>metis\<close>)+

lemma churn_step_inv:
  assumes "churn_inv s" "churn_ok u"
  shows "\<exists>s'. churn_step P fuel sc clock u s = Ret s' \<and> churn_inv s'"
proof (cases u)
  case (ClientTurn n)
  with assms client_step [of s n fuel] show ?thesis by (metis churn_ok.simps(1) churn_step.simps(1))
next
  case ServerTurn
  with assms server_step [of s fuel] show ?thesis by (metis churn_step.simps(2))
next
  case PoolTurn
  with assms pool_step [of s] show ?thesis by (metis churn_step.simps(3))
qed

end

sublocale churn_clients \<subseteq> turns: turn_system "churn_step P fuel sc clock" churn_inv churn_ok for fuel
  by unfold_locales (rule churn_step_inv)

end
