(* ===== verification/Disconnect_Runs.thy ===== *)
theory Disconnect_Runs
  imports Disconnect_Test
begin

text \<open>
  How \<open>rtt_connect_disconnect_connection_test\<close> comes to its end: each client has a rank, which no turn
  lowers, and enough turns of the thread it waits for raise it. The properties of the whole test follow:
  what holds after any turns, and the turns after which it ends and the rows of its clients are free again.
\<close>

section \<open>Progress\<close>

context churn_clients
begin

text \<open>How far a client has come: its stage, whether its row is served or given back, and whether it has a handler.\<close>

definition rank :: "nat \<Rightarrow> 'k churn_test \<Rightarrow> nat" where
  "rank n s =
     (case stages s ! n of
        Idle \<Rightarrow> 0
      | Asked ch slot \<Rightarrow> if shm_created (slots (tab s) ! nat slot) then 2 else 1
      | Linked ctx \<Rightarrow> if ids ! n \<in> recorded s then 4 else 3
      | Echoed \<Rightarrow> 5
      | Gone \<Rightarrow> if \<exists>j. holds (tab s) (ids ! n) j then 6 else 7)"

lemma rank_other:
  assumes inv: "churn_inv s" and n: "n < MAX_CLIENTS" and st: "stages s' ! n = stages s ! n" and rec: "recorded s \<subseteq> recorded s'"
    and row: "\<And>j. holds (tab s) (ids ! n) j \<Longrightarrow> \<not> detach (slots (tab s) ! j) \<Longrightarrow> shm_created (slots (tab s) ! j) \<Longrightarrow> shm_created (slots (tab s') ! j)"
      "\<And>j. holds (tab s') (ids ! n) j \<Longrightarrow> holds (tab s) (ids ! n) j"
  shows "rank n s \<le> rank n s'"
  using churn_invD(5) [OF inv n] rec row by (cases "stages s ! n") (auto simp: rank_def st)

lemma rank_mono:
  assumes inv: "churn_inv s" and ok: "churn_ok u" and step: "churn_step P fuel sc clock u s = Ret s'" and n: "n < MAX_CLIENTS"
  shows "rank n s \<le> rank n s'"
proof (cases u)
  case (ClientTurn m)
  with ok have m: "m < MAX_CLIENTS" by simp
  from client_step [OF inv m, of fuel] step ClientTurn have mv: "client_moves m s s'" by auto
  show ?thesis
  proof (cases "m = n")
    case True
    then show ?thesis using mv by (cases "stages s ! n") (auto simp: client_moves_def rank_def split: if_splits)
  next
    case False
    with ids_nth(3) [OF n m] have ne: "ids ! n \<noteq> ids ! m" by blast
    have "spares (ids ! m) (tab s) (kern s) (tab s') (kern s')" "stages s' ! n = stages s ! n" "recorded s' = recorded s"
      using mv False by (simp_all add: client_moves_def)
    with ne show ?thesis by (intro rank_other [OF inv n]) (auto simp: spares_def)
  qed
next
  case ServerTurn
  from server_step [OF inv, of fuel] step ServerTurn have sv: "stages s' = stages s" "recorded s \<subseteq> recorded s'"
    "tab s' = tab s \<or> (\<exists>u. handed_out (tab s) u (tab s'))" by auto
  from sv(3) have "shm_created (slots (tab s') ! j) = shm_created (slots (tab s) ! j)" if "holds (tab s) c j" for c j
    using that handed_outD(2) by auto
  moreover from sv(3) have "holds (tab s') c j = holds (tab s) c j" for c j using handed_outD(1) by auto
  ultimately show ?thesis using sv(1,2) by (intro rank_other [OF inv n]) simp_all
next
  case PoolTurn
  from pool_step [OF inv] step PoolTurn have pl: "stages s' = stages s" "recorded s' = recorded s"
    "\<And>i. i < SLOT_NUM \<Longrightarrow> i \<noteq> pool_row s \<Longrightarrow> slots (tab s') ! i = slots (tab s) ! i \<and> reserved (tab s') i = reserved (tab s) i"
    "reserved (tab s) (pool_row s) \<Longrightarrow> \<not> detach (slots (tab s) ! pool_row s) \<Longrightarrow> shm_created (slots (tab s') ! pool_row s) \<and>
       row_client_id (slots (tab s') ! pool_row s) = row_client_id (slots (tab s) ! pool_row s)"
    "reserved (tab s') (pool_row s) \<Longrightarrow> reserved (tab s) (pool_row s) \<and> \<not> detach (slots (tab s) ! pool_row s)" by auto
  have before: "holds (tab s) c j" if "holds (tab s') c j" for c j
    using that pl(3) [of j] pl(4,5) by (cases "j = pool_row s") (auto simp: holds_def)
  have "shm_created (slots (tab s') ! j)" if "holds (tab s) c j" "\<not> detach (slots (tab s) ! j)" "shm_created (slots (tab s) ! j)" for c j
    using that pl(3) [of j] pl(4) by (cases "j = pool_row s") (auto simp: holds_def)
  with pl(1,2) before show ?thesis by (intro rank_other [OF inv n]) simp_all
qed

text \<open>A turn of its own takes a client on unless it waits for the pool thread or for the main thread.\<close>

lemma rank_client:
  assumes inv: "churn_inv s" and n: "n < MAX_CLIENTS" and step: "churn_client P fuel clock n s = Ret s'" and r: "rank n s \<in> {0, 2, 4, 5}"
  shows "rank n s < rank n s'"
proof -
  from client_step [OF inv n, of fuel] step have "client_moves n s s'" by auto
  then show ?thesis using r by (cases "stages s ! n") (auto simp: client_moves_def rank_def split: if_splits)
qed

end

text \<open>How many rows further round the table row \<open>b\<close> is, seen from row \<open>a\<close>.\<close>

definition ahead :: "nat \<Rightarrow> nat \<Rightarrow> nat" where
  "ahead a b = (b + (SLOT_NUM - a)) mod SLOT_NUM"

lemma ahead_less: "ahead a b < SLOT_NUM"
  by (simp add: ahead_def)

lemma ahead_reach: "a < SLOT_NUM \<Longrightarrow> b < SLOT_NUM \<Longrightarrow> (a + ahead a b) mod SLOT_NUM = b"
  by (simp add: ahead_def mod_add_right_eq)

lemma ahead_eq: "a < SLOT_NUM \<Longrightarrow> b < SLOT_NUM \<Longrightarrow> ahead a b = (if a \<le> b then b - a else b + SLOT_NUM - a)"
  by (auto simp: ahead_def mod_if)

lemma ahead_skip:
  assumes "a < SLOT_NUM" "b < SLOT_NUM" "d < ahead a b"
  shows "ahead (Suc ((a + d) mod SLOT_NUM) mod SLOT_NUM) b < ahead a b"
proof -
  have d: "a + d + 1 < 2 * SLOT_NUM" using assms(1,3) ahead_less [of a b] by linarith
  have eq: "Suc ((a + d) mod SLOT_NUM) mod SLOT_NUM = (a + d + 1) mod SLOT_NUM" by (simp add: mod_Suc_eq)
  show ?thesis
  proof (cases "a + d + 1 < SLOT_NUM")
    case True
    then show ?thesis unfolding eq using assms ahead_eq [OF assms(1,2)] ahead_eq [OF True assms(2)] by (simp split: if_splits)
  next
    case False
    then have "(a + d + 1) mod SLOT_NUM = a + d + 1 - SLOT_NUM" "a + d + 1 - SLOT_NUM < SLOT_NUM" using d by (simp_all add: mod_if)
    then show ?thesis unfolding eq using assms False ahead_eq [OF assms(1,2)] ahead_eq [of "a + d + 1 - SLOT_NUM" b] by (simp split: if_splits)
  qed
qed

context churn_clients
begin

definition pool_dist :: "nat \<Rightarrow> 'k churn_test \<Rightarrow> nat" where
  "pool_dist n s = ahead (pool_row s) (LEAST j. holds (tab s) (ids ! n) j)"

definition loop_dist :: "nat \<Rightarrow> 'k churn_test \<Rightarrow> nat" where
  "loop_dist n s = ahead (nat (accept_slot (tab s))) (LEAST j. holds (tab s) (ids ! n) j)"

lemma least_row:
  assumes "rows h k" "holds h c j"
  shows "(LEAST i. holds h c i) = j"
proof (rule Least_equality)
  show "holds h c j" by (rule assms(2))
  fix i assume "holds h c i"
  from churn_unique [OF assms(1) this assms(2)] show "j \<le> i" by simp
qed

text \<open>A client that waits for the pool thread has a row, which stays where it is until the pool thread gets there.\<close>

lemma waiting_row:
  assumes inv: "churn_inv s" and n: "n < MAX_CLIENTS" and r: "rank n s \<in> {1, 6}"
  obtains j where "holds (tab s) (ids ! n) j" "rank n s = 1 \<longleftrightarrow> \<not> detach (slots (tab s) ! j)" "rank n s = 1 \<longleftrightarrow> stages s ! n \<noteq> Gone"
    "rank n s = 1 \<Longrightarrow> stages s ! n = Asked (Shm t) (int j)"
proof (cases "stages s ! n")
  case (Asked ch slot)
  then show thesis using that [of "nat slot"] churn_invD(5) [OF inv n] r by (auto simp: rank_def split: if_splits)
next
  case Gone
  then obtain j where "holds (tab s) (ids ! n) j" using r by (auto simp: rank_def split: if_splits)
  then show thesis using that [of j] churn_invD(5) [OF inv n] Gone by (auto simp: rank_def)
qed (use r in \<open>auto simp: rank_def split: if_splits\<close>)

lemma rank_pool:
  assumes inv: "churn_inv s" and ok: "churn_ok u" and step: "churn_step P fuel sc clock u s = Ret s'" and n: "n < MAX_CLIENTS"
    and r: "rank n s \<in> {1, 6}" "rank n s' = rank n s"
  shows "pool_dist n s' \<le> pool_dist n s \<and> (u = PoolTurn \<longrightarrow> pool_dist n s' < pool_dist n s)"
proof -
  note I = churn_invD [OF inv]
  obtain j where j: "holds (tab s) (ids ! n) j" "rank n s = 1 \<longleftrightarrow> \<not> detach (slots (tab s) ! j)" "rank n s = 1 \<longleftrightarrow> stages s ! n \<noteq> Gone"
    "rank n s = 1 \<Longrightarrow> stages s ! n = Asked (Shm t) (int j)"
    by (rule waiting_row [OF inv n r(1)]) (rule that)
  note least = least_row [OF I(1) j(1)]
  have jS: "j < SLOT_NUM" "reserved (tab s) j" using j(1) by (simp_all add: holds_def)
  show ?thesis
  proof (cases u)
    case (ClientTurn m)
    with ok have m: "m < MAX_CLIENTS" by simp
    from client_step [OF inv m, of fuel] step ClientTurn have mv: "client_moves m s s'" by auto
    show ?thesis
    proof (cases "m = n")
      case True
      have "s' = s" using mv r(1) True by (cases "stages s ! n") (simp_all add: client_moves_def rank_def split: if_splits)
      with ClientTurn show ?thesis by simp
    next
      case False
      with ids_nth(3) [OF n m] have ne: "ids ! n \<noteq> ids ! m" by blast
      have "spares (ids ! m) (tab s) (kern s) (tab s') (kern s')" "pool_row s' = pool_row s" using mv by (simp_all add: client_moves_def)
      moreover from this(1) ne have "holds (tab s') (ids ! n) i = holds (tab s) (ids ! n) i" for i by (simp add: spares_def)
      ultimately show ?thesis using ClientTurn by (simp add: pool_dist_def)
    qed
  next
    case ServerTurn
    from server_step [OF inv, of fuel] step ServerTurn have "pool_row s' = pool_row s" "tab s' = tab s \<or> (\<exists>u. handed_out (tab s) u (tab s'))" by auto
    moreover from this(2) have "holds (tab s') c i = holds (tab s) c i" for c i using handed_outD(1) by auto
    ultimately show ?thesis using ServerTurn by (simp add: pool_dist_def)
  next
    case PoolTurn
    from pool_step [OF inv] step PoolTurn have pl: "churn_inv s'" "stages s' = stages s" "pool_row s' = (pool_row s + 1) mod SLOT_NUM"
      "\<And>i. i < SLOT_NUM \<Longrightarrow> i \<noteq> pool_row s \<Longrightarrow> slots (tab s') ! i = slots (tab s) ! i \<and> reserved (tab s') i = reserved (tab s) i"
      "reserved (tab s) (pool_row s) \<Longrightarrow> \<not> detach (slots (tab s) ! pool_row s) \<Longrightarrow> shm_created (slots (tab s') ! pool_row s)"
      "reserved (tab s') (pool_row s) \<Longrightarrow> \<not> detach (slots (tab s) ! pool_row s)" by auto
    have ne: "j \<noteq> pool_row s"
    proof
      assume eq: "j = pool_row s"
      show False
      proof (cases "rank n s = 1")
        case True
        then have "stages s' ! n = Asked (Shm t) (int j)" "shm_created (slots (tab s') ! j)"
          using j(2,4) jS(2) pl(2,5) unfolding eq by simp_all
        then have "rank n s' = 2" by (simp add: rank_def)
        with r(2) True show False by simp
      next
        case False
        have "rank n s' \<in> {1, 6}" using r by simp
        then obtain i where i: "holds (tab s') (ids ! n) i" using waiting_row [OF pl(1) n] by blast
        then have "i \<noteq> pool_row s" using pl(6) j(2) False eq by (auto simp: holds_def)
        with i pl(4) [of i] have "holds (tab s) (ids ! n) i" by (simp add: holds_def)
        with churn_unique [OF I(1) j(1)] eq \<open>i \<noteq> pool_row s\<close> show False by blast
      qed
    qed
    then have "holds (tab s') (ids ! n) j" using j(1) pl(4) [OF jS(1)] by (simp add: holds_def)
    note least' = least_row [OF churn_invD(1) [OF pl(1)] this]
    have "0 < ahead (pool_row s) j" using ne ahead_reach [OF I(4) jS(1)] I(4) by (cases "ahead (pool_row s) j") auto
    from ahead_skip [OF I(4) jS(1) this] show ?thesis using pl(3) I(4) by (simp add: pool_dist_def least least')
  qed
qed

lemma rank_server:
  assumes inv: "churn_inv s" and ok: "churn_ok u" and step: "churn_step P fuel sc clock u s = Ret s'" and n: "n < MAX_CLIENTS"
    and r: "rank n s = 3" "rank n s' = 3"
  shows "loop_dist n s' \<le> loop_dist n s \<and> (u = ServerTurn \<longrightarrow> loop_dist n s' < loop_dist n s)"
proof -
  note I = churn_invD [OF inv]
  from r(1) obtain ctx where st: "stages s ! n = Linked ctx" "ids ! n \<notin> recorded s"
    by (cases "stages s ! n") (auto simp: rank_def split: if_splits)
  from I(5) [OF n] st(1) obtain j where j: "holds (tab s) (ids ! n) j" "shm_created (slots (tab s) ! j)" "\<not> detach (slots (tab s) ! j)" by auto
  have least: "(LEAST i. holds h (ids ! n) i) = j" if "\<And>i. holds h (ids ! n) i = holds (tab s) (ids ! n) i" for h
    unfolding that by (rule least_row [OF I(1) j(1)])
  show ?thesis
  proof (cases u)
    case (ClientTurn m)
    with ok have m: "m < MAX_CLIENTS" by simp
    from client_step [OF inv m, of fuel] step ClientTurn have mv: "client_moves m s s'" by auto
    have "loop_dist n s' = loop_dist n s"
    proof (cases "m = n")
      case True
      with mv st show ?thesis by (simp add: client_moves_def)
    next
      case False
      with ids_nth(3) [OF n m] have ne: "ids ! n \<noteq> ids ! m" by blast
      with mv have "holds (tab s') (ids ! n) i = holds (tab s) (ids ! n) i" for i by (simp add: client_moves_def spares_def)
      then show ?thesis using mv least by (simp add: loop_dist_def client_moves_def)
    qed
    with ClientTurn show ?thesis by simp
  next
    case PoolTurn
    from pool_step [OF inv] step PoolTurn have pl: "accept_slot (tab s') = accept_slot (tab s)"
      "\<And>i. i < SLOT_NUM \<Longrightarrow> i \<noteq> pool_row s \<Longrightarrow> slots (tab s') ! i = slots (tab s) ! i \<and> reserved (tab s') i = reserved (tab s) i"
      "reserved (tab s) (pool_row s) \<Longrightarrow> \<not> detach (slots (tab s) ! pool_row s) \<Longrightarrow>
        reserved (tab s') (pool_row s) \<and> row_client_id (slots (tab s') ! pool_row s) = row_client_id (slots (tab s) ! pool_row s)"
      "churn_inv s'" by auto
    have "holds (tab s') (ids ! n) j" using j pl(2) [of j] pl(3) by (cases "j = pool_row s") (auto simp: holds_def)
    from least_row [OF churn_invD(1) [OF pl(4)] this] have "(LEAST i. holds (tab s') (ids ! n) i) = j" .
    then show ?thesis using PoolTurn pl(1) least [of "tab s"] by (simp add: loop_dist_def)
  next
    case ServerTurn
    from server_step [OF inv, of fuel] step ServerTurn have sv: "stages s' = stages s"
      "tab s' = tab s \<or> (\<exists>u. handed_out (tab s) u (tab s'))"
      "next_client s < MAX_CLIENTS \<Longrightarrow> (case accept_loop SLOT_NUM (nat (accept_slot (tab s))) (tab s) of
         None \<Rightarrow> True | Some u \<Rightarrow> accept_slot (tab s') = int (Suc u mod SLOT_NUM) \<and> (\<forall>c. holds (tab s) c u \<longrightarrow> c \<in> recorded s'))" by auto
    have room: "next_client s < MAX_CLIENTS"
      using full_recorded [OF I(3)] loop_okD(3) [OF I(3)] st(2) ids_nth(1) [OF n] by (cases "next_client s = MAX_CLIENTS") auto
    let ?a = "nat (accept_slot (tab s))"
    have a: "?a < SLOT_NUM" using churn_table(4) [OF I(1)] by (auto simp: coord_inv_def)
    have jS: "j < SLOT_NUM" "ready (tab s) j" using j by (simp_all add: holds_def ready_def)
    have reach: "(?a + ahead ?a j) mod SLOT_NUM = j" by (rule ahead_reach [OF a jS(1)])
    obtain v where v: "accept_loop SLOT_NUM ?a (tab s) = Some v"
      using accept_loop_finds [OF a, of "ahead ?a j" SLOT_NUM "tab s"] ahead_less reach jS(2) by auto
    from accept_loop_first [OF a v] obtain d where d: "v = (?a + d) mod SLOT_NUM" "\<forall>e < d. \<not> ready (tab s) ((?a + e) mod SLOT_NUM)" by blast
    have rec: "\<forall>c. holds (tab s) c v \<longrightarrow> c \<in> recorded s'" "accept_slot (tab s') = int (Suc v mod SLOT_NUM)" using sv(3) [OF room] v by simp_all
    have "v \<noteq> j" using rec(1) j(1) r(2) st(1) sv(1) by (auto simp: rank_def split: if_splits)
    moreover have "d \<le> ahead ?a j" using d(2) reach jS(2) by (metis leI)
    ultimately have "d < ahead ?a j" using d(1) reach by (cases "d = ahead ?a j") auto
    from ahead_skip [OF a jS(1) this] have less: "ahead (Suc v mod SLOT_NUM) j < ahead ?a j" by (simp add: d(1))
    have "holds (tab s') (ids ! n) i = holds (tab s) (ids ! n) i" for i using sv(2) handed_outD(1) by auto
    then show ?thesis using less rec(2) least [of "tab s'"] least [of "tab s"] by (simp add: loop_dist_def)
  qed
qed

end

section \<open>Schedules that end the test\<close>

text \<open>
  The turns that take every client from rank \<open>i\<close> to the next: the pool thread serves its row and in the end takes it back,
  the main thread accepts it, and the other ranks are left by a turn of its own.
\<close>

definition rank_turn :: "nat \<Rightarrow> nat \<Rightarrow> churn_turn" where
  "rank_turn i n = (if i = 1 \<or> i = 6 then PoolTurn else if i = 3 then ServerTurn else ClientTurn n)"

definition churn_schedule :: "churn_turn list list \<Rightarrow> bool" where
  "churn_schedule tss \<longleftrightarrow> list_all (list_all churn_ok) tss \<and>
     (\<forall>i < length tss. \<forall>n < MAX_CLIENTS.
       (if i \<in> {1, 3, 6} then SLOT_NUM else 1) \<le> count_list (tss ! i) (rank_turn i n))"

lemma churn_schedule_snoc:
  "churn_schedule (tss @ [us]) \<longleftrightarrow> churn_schedule tss \<and> list_all churn_ok us \<and>
     (\<forall>n < MAX_CLIENTS. (if length tss \<in> {1, 3, 6} then SLOT_NUM else 1) \<le> count_list us (rank_turn (length tss) n))"
proof -
  have "(\<forall>i < length tss. Q i ((tss @ [us]) ! i)) \<longleftrightarrow> (\<forall>i < length tss. Q i (tss ! i))" for Q by (simp add: nth_append)
  from this [of "\<lambda>i xs. \<forall>n < MAX_CLIENTS. (if i \<in> {1, 3, 6} then SLOT_NUM else 1) \<le> count_list xs (rank_turn i n)"] show ?thesis
    unfolding churn_schedule_def by (simp only: length_append list.size add_0_right add_Suc_right All_less_Suc nth_append_length list_all_append) auto
qed

context churn_clients
begin

definition rank_dist :: "nat \<Rightarrow> nat \<Rightarrow> 'k churn_test \<Rightarrow> nat" where
  "rank_dist i n s = (if i = 1 \<or> i = 6 then pool_dist n s else if i = 3 then loop_dist n s else 0)"

lemma rank_stable: "n < MAX_CLIENTS \<Longrightarrow> turns.stable fuel (\<lambda>s. i \<le> rank n s)"
  unfolding turns.stable_def by (intro allI impI) (rule order_trans [OF _ rank_mono])

lemma rank_leads:
  assumes n: "n < MAX_CLIENTS" and i: "i < 7"
  shows "turns.leads fuel (rank_turn i n) (rank_dist i n) (\<lambda>s. i \<le> rank n s) (\<lambda>s. Suc i \<le> rank n s)"
  unfolding turns.leads_def
proof (intro allI impI)
  fix s u s'
  assume s: "churn_inv s" "churn_ok u" "churn_step P fuel sc clock u s = Ret s'" "i \<le> rank n s" "\<not> Suc i \<le> rank n s"
  then have r: "rank n s = i" by simp
  with rank_mono [OF s(1-3) n] consider "Suc i \<le> rank n s'" | (same) "rank n s' = i" by fastforce
  then show "Suc i \<le> rank n s' \<or> i \<le> rank n s' \<and> rank_dist i n s' \<le> rank_dist i n s \<and> (u = rank_turn i n \<longrightarrow> rank_dist i n s' < rank_dist i n s)"
  proof cases
    case same
    consider "i = 1 \<or> i = 6" | "i = 3" | (own) "i \<in> {0, 2, 4, 5}" using i by (auto simp: numeral_eq_Suc less_Suc_eq)
    then show ?thesis
    proof cases
      case 1
      then show ?thesis using rank_pool [OF s(1-3) n] r same by (auto simp: rank_dist_def rank_turn_def)
    next
      case 2
      then show ?thesis using rank_server [OF s(1-3) n] r same by (auto simp: rank_dist_def rank_turn_def)
    next
      case own
      have "u \<noteq> ClientTurn n"
      proof
        assume "u = ClientTurn n"
        with s(3) have "churn_client P fuel clock n s = Ret s'" by simp
        from rank_client [OF s(1) n this] own r same show False by simp
      qed
      with own same show ?thesis by (auto simp: rank_dist_def rank_turn_def)
    qed
  qed simp
qed

lemma rank_dist_less: "rank_dist i n s < (if i \<in> {1, 3, 6} then SLOT_NUM else 1)"
  using ahead_less by (auto simp: rank_dist_def pool_dist_def loop_dist_def)

lemma schedule_ranks:
  assumes inv: "churn_inv s" and sch: "churn_schedule tss" and len: "length tss \<le> 7"
  shows "\<exists>s'. run_steps (churn_step P fuel sc clock) (concat tss) s = Ret s' \<and> churn_inv s' \<and> (\<forall>n < MAX_CLIENTS. length tss \<le> rank n s')"
  using sch len
proof (induction tss rule: rev_induct)
  case Nil
  then show ?case using inv by simp
next
  case (snoc us tss)
  let ?i = "length tss"
  from snoc.prems(1) have sch: "churn_schedule tss" and us: "list_all churn_ok us"
    "\<forall>n < MAX_CLIENTS. (if ?i \<in> {1, 3, 6} then SLOT_NUM else 1) \<le> count_list us (rank_turn ?i n)"
    unfolding churn_schedule_snoc by blast+
  with snoc.IH snoc.prems(2) obtain s1 where s1: "run_steps (churn_step P fuel sc clock) (concat tss) s = Ret s1" "churn_inv s1" "\<forall>n < MAX_CLIENTS. ?i \<le> rank n s1"
    by auto
  from turns.run_inv [OF s1(2) us(1), of fuel] obtain s2 where s2: "run_steps (churn_step P fuel sc clock) us s1 = Ret s2" "churn_inv s2" by blast
  have "Suc ?i \<le> rank n s2" if n: "n < MAX_CLIENTS" for n
  proof (rule turns.run_leads [OF rank_leads [OF n] rank_stable [OF n] s1(2) us(1) s2(1)])
    show "?i < 7" using snoc.prems(2) by simp
    show "?i \<le> rank n s1" using s1(3) n by blast
    show "Suc ?i \<le> rank n s1 \<or> rank_dist ?i n s1 < count_list us (rank_turn ?i n)"
      using rank_dist_less [of ?i n s1] us(2) n by (meson order_less_le_trans)
  qed
  with s1(1) s2 show ?case by (auto simp: run_steps_append)
qed

lemma rank_gone: "6 \<le> rank n s \<Longrightarrow> stages s ! n = Gone" "7 \<le> rank n s \<Longrightarrow> \<not> holds (tab s) (ids ! n) j"
  by (cases "stages s ! n"; auto simp: rank_def split: if_splits)+

text \<open>What the clients have measured when all are gone, and the table they leave.\<close>

lemma all_gone:
  assumes inv: "churn_inv s" and gone: "\<forall>n < MAX_CLIENTS. stages s ! n = Gone"
  shows "churn_over s" "\<forall>i < SLOT_NUM. settled t (tab s) i"
    "client_args s = map (\<lambda>n. \<lparr>conn_client_id = cids ! n, start_time = fst (clock n), end_time = snd (clock n)\<rparr>) [0..<MAX_CLIENTS]"
proof -
  note I = churn_invD [OF inv]
  have "set ids \<subseteq> recorded s"
  proof
    fix c assume "c \<in> set ids"
    then obtain n where "n < MAX_CLIENTS" "ids ! n = c" using ids(1) by (metis in_set_conv_nth)
    with I(9) gone show "c \<in> recorded s" by auto
  qed
  then have "next_client s = MAX_CLIENTS" using full_recorded [OF I(3)] loop_okD(1) [OF I(3)] by blast
  then show "churn_over s" using gone I(6) by (simp add: churn_over_def list_all_length)
  show "\<forall>i < SLOT_NUM. settled t (tab s) i"
  proof (intro allI impI)
    fix i assume i: "i < SLOT_NUM"
    show "settled t (tab s) i"
    proof (rule churn_settled [OF I(1) i])
      assume "reserved (tab s) i"
      then obtain n where "n < MAX_CLIENTS" "holds (tab s) (ids ! n) i" by (rule row_owner [OF inv _ i])
      with I(5) [of n] gone show "shm_created (slots (tab s) ! i)" by auto
    qed
  qed
  show "client_args s = map (\<lambda>n. \<lparr>conn_client_id = cids ! n, start_time = fst (clock n), end_time = snd (clock n)\<rparr>) [0..<MAX_CLIENTS]"
  proof (rule nth_equalityI)
    show len: "length (client_args s) = length (map (\<lambda>n. \<lparr>conn_client_id = cids ! n, start_time = fst (clock n), end_time = snd (clock n)\<rparr>) [0..<MAX_CLIENTS])"
      using I(2) by (simp add: stages_ok_def)
    fix n assume "n < length (client_args s)"
    then have n: "n < MAX_CLIENTS" using len by simp
    then have "conn_client_id (client_args s ! n) = cids ! n" "(start_time (client_args s ! n), end_time (client_args s ! n)) = clock n"
      using I(2) gone by (simp_all add: stages_ok_def)
    then show "client_args s ! n = map (\<lambda>n. \<lparr>conn_client_id = cids ! n, start_time = fst (clock n), end_time = snd (clock n)\<rparr>) [0..<MAX_CLIENTS] ! n"
      using n by (cases "client_args s ! n") (auto dest: sym)
  qed
qed

lemma all_back:
  assumes inv: "churn_inv s" and r: "\<forall>n < MAX_CLIENTS. 7 \<le> rank n s" and j: "j < SLOT_NUM"
  shows "phase (tab s) j = Free"
proof (rule ccontr)
  assume "phase (tab s) j \<noteq> Free"
  then have "reserved (tab s) j" by (auto simp: phase_def split: if_splits)
  then obtain n where "n < MAX_CLIENTS" "holds (tab s) (ids ! n) j" by (rule row_owner [OF inv _ j])
  with r rank_gone(2) show False by blast
qed

lemma churn_init:
  assumes t: "load_seg K t k = Some (Table (init_header t zero_header))" "key_names K (hash test_server_addr) k = Some t"
    and free: "\<forall>key \<in> set (client_keys ids). key_names K key k = None" and cids: "cids = bench_ids nonces"
    and garbage: "length garbage = MAX_CLIENTS" "\<forall>x \<in> set garbage. int32 x \<and> x \<notin> set ids"
  shows "churn_inv (churn_start nonces junk garbage k)"
proof -
  let ?h = "init_header t zero_header" and ?s = "churn_start nonces junk garbage k"
  note h = init_header_simps [OF zero_wf]
  have rows: "slots ?h ! j = zero_row" if "j < SLOT_NUM" for j using that by (simp add: h(2)) (simp add: zero_header_def)
  have no: "\<not> holds ?h c j" for c j using h(5) by (auto simp: holds_def)
  have "rows ?h k" using t rows h(4,5) init_zero_inv no by (auto simp: churn_def)
  moreover have "vacant k c" if "c \<in> set ids" for c using free that by (auto simp: vacant_def)
  then have "stages_ok ?h ?s" using ids_nth(1) no unfolding stages_ok_def
    by (simp add: churn_start_def recorded_def cids) (simp add: bench_ids_def)
  moreover have "loop_ok ?h k ?s" using garbage no by (auto simp: loop_ok_def churn_start_def recorded_def)
  ultimately show ?thesis by (intro churn_invI [of ?h]) (simp_all add: churn_start_def)
qed

end

section \<open>The whole test\<close>

text \<open>
  What the test relies on: the server registers; the keys of the server and of the clients do not
  overlap and nobody uses them; \<open>client_list\<close> does not happen to hold the identifier of a client before
  it is written.
\<close>

definition churn_ready ::
  "('k, 'b) kernel \<Rightarrow> ('k, 'b) platform \<Rightarrow> nat \<Rightarrow> (nat \<Rightarrow> int) \<Rightarrow> int list \<Rightarrow> server_context \<Rightarrow> 'k \<Rightarrow> 'k \<Rightarrow> bool"
where
  "churn_ready K P fuel nonces garbage sc k k1 \<longleftrightarrow>
     rpc_server K P \<and> register_server P fuel 0 test_server_addr k = Ret (Some sc, k1) \<and>
     apart (hash test_server_addr) (map client_hash (bench_ids nonces)) \<and>
     (\<forall>key \<in> set (hash test_server_addr # client_keys (map client_hash (bench_ids nonces))). key_names K key k = None) \<and>
     length garbage = MAX_CLIENTS \<and> (\<forall>x \<in> set garbage. int32 x \<and> x \<notin> set (map client_hash (bench_ids nonces)))"

lemma churn_begin:
  assumes "churn_ready K P fuel nonces garbage sc k k1"
  obtains t where "coord_shmaddr sc = Shm t" "churn_clients K P sc t (bench_ids nonces)"
    "churn_clients.churn_inv K P t (bench_ids nonces) clock (churn_start nonces junk garbage k1)"
proof -
  let ?ids = "map client_hash (bench_ids nonces)" and ?D = "hash test_server_addr"
  from assms have srv: "rpc_server K P" and reg: "register_server P fuel 0 test_server_addr k = Ret (Some sc, k1)"
    and ap: "apart ?D ?ids" and free: "\<forall>key \<in> set (?D # client_keys ?ids). key_names K key k = None"
    and garbage: "length garbage = MAX_CLIENTS" "\<forall>x \<in> set garbage. int32 x \<and> x \<notin> set ?ids"
    unfolding churn_ready_def by auto
  have D: "?D \<noteq> 0" "?D \<notin> set (client_keys ?ids)" using ap by (auto simp: apart_def simp del: client_keys_simps(3))
  have none: "key_names K ?D k = None" using free by simp
  obtain t where c: "coord_shmaddr sc = Shm t" "key_names K ?D k1 = Some t" "load_seg K t k1 = Some (Table (init_header t zero_header))"
    "\<And>c. c \<noteq> ?D \<Longrightarrow> key_names K c k1 = key_names K c k"
    by (rule rpc_server.register_table [OF srv reg D(1) none]) (rule that)
  have loc: "churn_clients K P sc t (bench_ids nonces)"
    using srv c(1) ap by (simp add: churn_clients_def churn_clients_axioms_def bench_ids_def)
  have "\<forall>key \<in> set (client_keys ?ids). key_names K key k1 = None" using free D(2) c(4) by auto
  from churn_clients.churn_init [OF loc c(3,2) this refl garbage] loc c(1) show thesis by (intro that)
qed

text \<open>The row a client holds at each stage.\<close>

fun client_row :: "coord_header \<Rightarrow> int \<Rightarrow> 'k stage \<Rightarrow> bool" where
  "client_row h c Idle \<longleftrightarrow> (\<forall>j. \<not> holds h c j)"
| "client_row h c (Asked ch slot) \<longleftrightarrow> holds h c (nat slot) \<and> phase h (nat slot) \<in> {Requested, Serving}"
| "client_row h c (Linked ctx) \<longleftrightarrow> (\<exists>j. holds h c j \<and> phase h j = Serving)"
| "client_row h c Echoed \<longleftrightarrow> (\<exists>j. holds h c j \<and> phase h j = Serving)"
| "client_row h c Gone \<longleftrightarrow> (\<forall>j. holds h c j \<longrightarrow> phase h j = Closing)"

context churn_clients
begin

lemma stage_row: "stage_ok h k c st \<Longrightarrow> client_row h c st"
  by (cases st) (auto simp: phase_def holds_def)

lemma run_keeps:
  "churn_inv s \<Longrightarrow> list_all churn_ok us \<Longrightarrow> \<exists>s'. run_steps (churn_step P fuel sc clock) us s = Ret s' \<and> churn_inv s'"
  by (rule turns.run_inv)

text \<open>What the invariant says of the table alone.\<close>

lemma churn_inv_table:
  assumes inv: "churn_inv s"
  shows "load_seg K t (kern s) = Some (Table (tab s))" "coord_inv (tab s)" "distinct (take (next_client s) (client_list s))"
    "holds (tab s) c i \<Longrightarrow> holds (tab s) c j \<Longrightarrow> i = j"
    "n < MAX_CLIENTS \<Longrightarrow> client_row (tab s) (ids ! n) (stages s ! n)"
  using churn_table(1,4) [OF churn_invD(1) [OF inv]] loop_okD(6) [OF churn_invD(3) [OF inv]] churn_unique [OF churn_invD(1) [OF inv]]
    stage_row [OF churn_invD(5) [OF inv]] by blast+

end

lemma churn_runs:
  assumes rd: "churn_ready K P fuel nonces garbage sc k k1" and sch: "churn_schedule tss" "length tss \<le> 7"
  obtains t s where "coord_shmaddr sc = Shm t" "churn_clients K P sc t (bench_ids nonces)"
    "run_steps (churn_step P fuel' sc clock) (concat tss) (churn_start nonces junk garbage k1) = Ret s"
    "churn_clients.churn_inv K P t (bench_ids nonces) clock s"
    "\<forall>n < MAX_CLIENTS. length tss \<le> churn_clients.rank K t (bench_ids nonces) n s"
proof -
  obtain t where t: "coord_shmaddr sc = Shm t" "churn_clients K P sc t (bench_ids nonces)"
    "churn_clients.churn_inv K P t (bench_ids nonces) clock (churn_start nonces junk garbage k1)"
    by (rule churn_begin [OF rd])
  from churn_clients.schedule_ranks [OF t(2,3) sch] t(1,2) show thesis by (auto intro: that)
qed

section \<open>Twenty clients on the example platform\<close>

lemma demo_churn_ready:
  "\<exists>k1. churn_ready (sysv_of demo_platform) demo_platform fuel demo_nonces demo_garbage demo_context ref_boot k1"
  using demo_bench [of fuel] by (simp add: bench_ready_def churn_ready_def)

interpretation demo_churn: churn_clients "sysv_of demo_platform" demo_platform demo_context 0 "bench_ids demo_nonces" clock for clock
  using demo_server demo_apart by (simp add: churn_clients_def churn_clients_axioms_def) (simp add: bench_ids_def)

definition demo_rounds :: "churn_turn list list" where
  "demo_rounds = (let clients = map ClientTurn [0..<20] in
     [clients, replicate 40 PoolTurn, clients, replicate 40 ServerTurn, clients, clients, replicate 40 PoolTurn])"

lemma demo_churn_schedule: "churn_schedule demo_rounds" "churn_schedule (take 6 demo_rounds)" "length demo_rounds = 7"
proof -
  have all: "count_list (replicate n x) x = n" for n and x :: churn_turn by (induction n) simp_all
  have one: "1 \<le> count_list (map ClientTurn [0..<20]) (ClientTurn n)" if "n < 20" for n
    using that count_list_0_iff [of "map ClientTurn [0..<20]" "ClientTurn n"] by (cases "count_list (map ClientTurn [0..<20]) (ClientTurn n)") auto
  show len: "length demo_rounds = 7" by (simp add: demo_rounds_def Let_def)
  show "churn_schedule demo_rounds" unfolding churn_schedule_def len using one
    by (auto simp: demo_rounds_def Let_def list_all_iff MAX_CLIENTS_def SLOT_NUM_def rank_turn_def all numeral_eq_Suc less_Suc_eq)
  moreover have "demo_rounds = take 6 demo_rounds @ [demo_rounds ! 6]" by (simp add: demo_rounds_def Let_def)
  ultimately show "churn_schedule (take 6 demo_rounds)" using churn_schedule_snoc [of "take 6 demo_rounds" "demo_rounds ! 6"] by simp
qed

section \<open>Properties\<close>

text \<open>
  C12: clients that come and go. Whatever the order in which the clients, the accept loop and the
  pool thread of \<open>rtt_connect_disconnect_connection_test\<close> run, no call faults or hangs; the table stays well-formed, no client
  holds two rows and none is recorded twice; a client that has a row finds it requested or served, one that
  exchanges messages or is about to close finds it served, and one that has closed leaves at most a row that is
  closing. So no row is taken back under a client that uses it, and none is given to two clients.
\<close>

theorem churn_rows_safe:
  assumes "churn_ready K P fuel nonces garbage sc k k1" "list_all churn_ok ts"
  shows "\<exists>s t h. run_steps (churn_step P fuel' sc clock) ts (churn_start nonces junk garbage k1) = Ret s \<and>
    coord_shmaddr sc = Shm t \<and> load_seg K t (kern s) = Some (Table h) \<and> coord_inv h \<and>
    distinct (take (next_client s) (client_list s)) \<and> (\<forall>c i j. holds h c i \<and> holds h c j \<longrightarrow> i = j) \<and>
    (\<forall>n < MAX_CLIENTS. client_row h (client_hash (bench_ids nonces ! n)) (stages s ! n))"
proof -
  obtain t where t: "coord_shmaddr sc = Shm t" and loc: "churn_clients K P sc t (bench_ids nonces)"
    and inv: "churn_clients.churn_inv K P t (bench_ids nonces) clock (churn_start nonces junk garbage k1)"
    by (rule churn_begin [OF assms(1)])
  from churn_clients.run_keeps [OF loc inv assms(2)] obtain s where
    s: "run_steps (churn_step P fuel' sc clock) ts (churn_start nonces junk garbage k1) = Ret s"
    "churn_clients.churn_inv K P t (bench_ids nonces) clock s" by blast
  note tab = churn_clients.churn_inv_table [OF loc s(2)]
  have "client_row (churn_clients.tab K t s) (client_hash (bench_ids nonces ! n)) (stages s ! n)" if "n < MAX_CLIENTS" for n
    using tab(5) [OF that] that by (simp add: bench_ids_def)
  with s(1) t tab(1-4) show ?thesis by blast
qed

theorem churn_rows_safe_witness:
  "\<exists>k1 s h. run_steps (churn_step demo_platform 1 demo_context demo_clock) [ClientTurn 4, PoolTurn, ServerTurn, ClientTurn 4, ClientTurn 4, ClientTurn 7, ClientTurn 4]
     (churn_start demo_nonces (\<lambda>_. demo_args 0 0) demo_garbage k1) = Ret s \<and> load_seg (sysv_of demo_platform) 0 (kern s) = Some (Table h) \<and>
     client_row h (-1431655382) (stages s ! 4) \<and> client_row h (-1431655350) (stages s ! 7)"
proof -
  obtain k1 where rd: "churn_ready (sysv_of demo_platform) demo_platform 1 demo_nonces demo_garbage demo_context ref_boot k1"
    using demo_churn_ready by blast
  let ?ts = "[ClientTurn 4, PoolTurn, ServerTurn, ClientTurn 4, ClientTurn 4, ClientTurn 7, ClientTurn 4]"
  have ok: "list_all churn_ok ?ts" by (simp add: MAX_CLIENTS_def)
  have id: "client_hash (bench_ids demo_nonces ! n) = map client_hash (bench_ids demo_nonces) ! n" if "n < 20" for n
    using that by (simp add: bench_ids_def MAX_CLIENTS_def)
  have ids: "client_hash (bench_ids demo_nonces ! 4) = -1431655382" "client_hash (bench_ids demo_nonces ! 7) = -1431655350"
    using id [of 4] id [of 7] unfolding demo_client_hashes by simp_all
  from churn_rows_safe [OF rd ok, of 1 demo_clock "\<lambda>_. demo_args 0 0"] obtain s h where
    s: "run_steps (churn_step demo_platform 1 demo_context demo_clock) ?ts (churn_start demo_nonces (\<lambda>_. demo_args 0 0) demo_garbage k1) = Ret s"
    "load_seg (sysv_of demo_platform) 0 (kern s) = Some (Table h)" "\<forall>n < MAX_CLIENTS. client_row h (client_hash (bench_ids demo_nonces ! n)) (stages s ! n)"
    using demo_churn.sc by (metis ptr.inject(1))
  from s(3) [rule_format, of 4] s(3) [rule_format, of 7] s(1,2) show ?thesis unfolding ids by (auto simp: MAX_CLIENTS_def)
qed

text \<open>
  C11: \<open>rtt_connect_disconnect_connection_test\<close> completes. When every client has had a turn to ask for a row, the pool
  thread has then passed over the table, every client has attached, the main thread has made \<open>SLOT_NUM\<close> passes of
  its accept loop, and every client has had two more turns, among any other turns of any thread, all clients
  have echoed their messages unchanged and closed; the test prints the row of figures for the average of their
  times and \<open>shutdown\<close> returns with the address of the server free, also while closed rows wait to be taken back.
\<close>

theorem disconnect_test_completes:
  assumes "churn_ready K P (Suc fuel) nonces garbage sc k k1" "churn_schedule tss" "length tss = 6"
    and "\<forall>c t k. key_names K c k = Some t \<longrightarrow> fst (shmctl_rmid K t k) = 0"
    and "avg = cdiv (total_ns (bench_args nonces clock)) 20"
  shows "\<exists>t k'. coord_shmaddr sc = Shm t \<and> key_names K (hash test_server_addr) k' \<noteq> Some t \<and>
    rtt_connect_disconnect_connection_test P (Suc fuel) 0 nonces junk garbage clock (concat tss) k =
      Ret ([Long ''num_clients'' 20, Long ''coord_slots'' 40, Long ''rtt_num_items'' 100000, Long ''msg_size'' 4,
            Long ''ns/op'' (cdiv avg 100000), Float ''avg_ops/ms'' (fdiv 100000 (of_int avg / 1000000)),
            Float ''ops/ms'' (fdiv 2000000 (of_int avg / 1000000))], k')"
proof -
  have reg: "register_server P (Suc fuel) 0 test_server_addr k = Ret (Some sc, k1)" and srv: "rpc_server K P"
    using assms(1) by (simp_all add: churn_ready_def)
  obtain t s where t: "coord_shmaddr sc = Shm t" and loc: "churn_clients K P sc t (bench_ids nonces)"
    and s: "run_steps (churn_step P (Suc fuel) sc clock) (concat tss) (churn_start nonces junk garbage k1) = Ret s"
      "churn_clients.churn_inv K P t (bench_ids nonces) clock s"
      "\<forall>n < MAX_CLIENTS. length tss \<le> churn_clients.rank K t (bench_ids nonces) n s"
    by (rule churn_runs [OF assms(1,2)]) (use assms(3) in simp)
  have gone: "\<forall>n < MAX_CLIENTS. stages s ! n = Gone" using s(3) assms(3) churn_clients.rank_gone(1) [OF loc] by simp
  note over = churn_clients.all_gone [OF loc s(2) gone]
  have rows: "rpc_server.churn K (hash test_server_addr) t 4 (map client_hash (bench_ids nonces)) (churn_clients.tab K t s) (kern s)"
    by (rule churn_clients.churn_invD(1) [OF loc s(2)])
  note tab = rpc_server.churn_table [OF srv rows]
  obtain k' where k': "shutdown P True (Suc fuel) sc (kern s) = Ret k'" "key_names K (hash test_server_addr) k' \<noteq> Some t"
    using rpc_server.shutdown_run [OF srv tab(1,2,5,3) over(2) t, of fuel] assms(4) by blast
  have "client_args s = bench_args nonces clock" using over(3) by (simp add: bench_args_def)
  with k' t over(1) show ?thesis
    by (auto simp: rtt_connect_disconnect_connection_test_def reg s(1) rtt_report_row_eq assms(5) Let_def)
qed

theorem disconnect_test_completes_witness:
  "\<exists>k'. rtt_connect_disconnect_connection_test demo_platform 1 0 demo_nonces (\<lambda>_. demo_args 0 0) demo_garbage demo_clock
      (concat (take 6 demo_rounds)) ref_boot =
    Ret ([Long ''num_clients'' 20, Long ''coord_slots'' 40, Long ''rtt_num_items'' 100000, Long ''msg_size'' 4,
      Long ''ns/op'' 3500, Float ''avg_ops/ms'' (Num (2000 / 7)), Float ''ops/ms'' (Num (40000 / 7))], k')"
proof -
  obtain k1 where rd: "churn_ready (sysv_of demo_platform) demo_platform (Suc 0) demo_nonces demo_garbage demo_context ref_boot k1"
    using demo_churn_ready by blast
  have len: "length (take 6 demo_rounds) = 6" by (simp add: demo_churn_schedule(3))
  from disconnect_test_completes [OF rd demo_churn_schedule(2) len demo_rmid refl, of "\<lambda>_. demo_args 0 0" demo_clock]
  show ?thesis by (auto simp: demo_total_ns fdiv_def cdiv_def)
qed

text \<open>
  C13: closed rows are given back. One more pass of the pool thread, in whatever order with other turns, and
  every row of the table is free again, though every client has had one; the test is over.
\<close>

theorem closed_rows_given_back:
  assumes "churn_ready K P fuel nonces garbage sc k k1" "churn_schedule tss" "length tss = 7"
  shows "\<exists>s t h. run_steps (churn_step P fuel' sc clock) (concat tss) (churn_start nonces junk garbage k1) = Ret s \<and>
    churn_over s \<and> coord_shmaddr sc = Shm t \<and> load_seg K t (kern s) = Some (Table h) \<and> (\<forall>j < SLOT_NUM. phase h j = Free) \<and>
    set (take (next_client s) (client_list s)) = set (map client_hash (bench_ids nonces))"
proof -
  obtain t s where t: "coord_shmaddr sc = Shm t" and loc: "churn_clients K P sc t (bench_ids nonces)"
    and s: "run_steps (churn_step P fuel' sc clock) (concat tss) (churn_start nonces junk garbage k1) = Ret s"
      "churn_clients.churn_inv K P t (bench_ids nonces) clock s"
      "\<forall>n < MAX_CLIENTS. length tss \<le> churn_clients.rank K t (bench_ids nonces) n s"
    by (rule churn_runs [OF assms(1,2)]) (use assms(3) in simp)
  have seven: "\<forall>n < MAX_CLIENTS. 7 \<le> churn_clients.rank K t (bench_ids nonces) n s" using s(3) assms(3) by simp
  then have "\<forall>n < MAX_CLIENTS. stages s ! n = Gone" using churn_clients.rank_gone(1) [OF loc, of _ s] by fastforce
  from churn_clients.all_gone(1) [OF loc s(2) this] have over: "churn_over s" .
  then have "recorded s = set (map client_hash (bench_ids nonces))"
    using churn_clients.full_recorded [OF loc churn_clients.churn_invD(3) [OF loc s(2)]] by (simp add: churn_over_def)
  then show ?thesis
    using s(1) t over churn_clients.churn_inv_table(1) [OF loc s(2)] churn_clients.all_back [OF loc s(2) seven] unfolding recorded_def by blast
qed

theorem closed_rows_given_back_witness:
  "\<exists>k1 s h. run_steps (churn_step demo_platform 1 demo_context demo_clock) (concat demo_rounds)
     (churn_start demo_nonces (\<lambda>_. demo_args 0 0) demo_garbage k1) = Ret s \<and> churn_over s \<and>
     load_seg (sysv_of demo_platform) 0 (kern s) = Some (Table h) \<and> phase h 0 = Free \<and> phase h 19 = Free"
proof -
  obtain k1 where rd: "churn_ready (sysv_of demo_platform) demo_platform 1 demo_nonces demo_garbage demo_context ref_boot k1"
    using demo_churn_ready by blast
  from closed_rows_given_back [OF rd demo_churn_schedule(1,3), of 1 demo_clock "\<lambda>_. demo_args 0 0"] obtain s h where
    s: "run_steps (churn_step demo_platform 1 demo_context demo_clock) (concat demo_rounds)
      (churn_start demo_nonces (\<lambda>_. demo_args 0 0) demo_garbage k1) = Ret s" "churn_over s"
    "load_seg (sysv_of demo_platform) 0 (kern s) = Some (Table h)" "\<forall>j < SLOT_NUM. phase h j = Free"
    using demo_churn.sc by auto
  then have "phase h 0 = Free" "phase h 19 = Free" by (simp_all add: SLOT_NUM_def)
  with s(1-3) show ?thesis by blast
qed

end
