(* ===== verification/Rtt_Conn_Test.thy ===== *)
theory Rtt_Conn_Test
  imports Bench_Tests Turns
begin

text \<open>
  \<open>single_rtt_during_connection_test\<close> of \<open>src/bench_rpc/src/bench.cpp\<close>: one client exchanges messages while
  nineteen others connect. The threads take turns as in theory Bench_Tests. The accept loop enters
  the client with messages twice in \<open>client_list\<close>, so the test ends when nineteen clients are accepted, or
  writes past the end of the array when that client comes last. Clients are accepted in the order in which
  they connect, however connections and passes of the accept loop alternate, so this order decides.
\<close>

section \<open>Threads and turns\<close>

definition rtt_client :: int where
  "rtt_client = (let c = int MAX_CLIENTS - 1 in if c = 0 then 1 else c)"

text \<open>The entries of \<open>client_list\<close> for a new connection, and the handler of the client with messages.\<close>

definition store_client ::
  "int \<Rightarrow> 'k queue_ctx \<Rightarrow> int list \<Rightarrow> nat \<Rightarrow> 'k queue_ctx list \<Rightarrow> (int list \<times> nat \<times> 'k queue_ctx list) outcome"
where
  "store_client temp_client_id s_qp cl i hs =
     (let key = qp_client_id (queues s_qp) in
      bind_out (if key = temp_client_id then bind_out (put_client i key cl) (\<lambda>cl1. Ret (cl1, i + 1, hs @ [s_qp]))
                else Ret (cl, i, hs)) (\<lambda>(cl1, j, hs1).
      bind_out (put_client j key cl1) (\<lambda>cl2. Ret (cl2, j + 1, hs1))))"

definition rtt_server_turn ::
  "('k, 'b) platform \<Rightarrow> nat \<Rightarrow> server_context \<Rightarrow> int \<Rightarrow> 'k bench_test \<Rightarrow> 'k bench_test outcome" where
  "rtt_server_turn P fuel sc temp_client_id s =
     (if next_client s < MAX_CLIENTS then
        bind_out (accept P fuel sc (kern s)) (\<lambda>(s_qp, k1).
          case s_qp of
            None \<Rightarrow> Ret (s\<lparr>kern := k1\<rparr>)
          | Some qp \<Rightarrow>
              if bsearch (qp_client_id (queues qp)) (client_list s) \<noteq> None then Ret (s\<lparr>kern := k1\<rparr>)
              else if request_shmaddr (queues qp) \<noteq> Null then
                bind_out (store_client temp_client_id qp (client_list s) (next_client s) (handlers s)) (\<lambda>(cl, i, hs).
                Ret (s\<lparr>kern := k1, client_list := cl, next_client := i, handlers := hs\<rparr>))
              else Ret (s\<lparr>kern := k1\<rparr>))
      else Ret s)"

text \<open>The last client runs \<open>pthread_connect_measure_rtt\<close>, the others \<open>pthread_connect_client\<close>.\<close>

fun rtt_step ::
  "('k, 'b) platform \<Rightarrow> nat \<Rightarrow> server_context \<Rightarrow> (nat \<Rightarrow> timespec \<times> timespec) \<Rightarrow> turn \<Rightarrow> 'k bench_test \<Rightarrow> 'k bench_test outcome"
where
  "rtt_step P fuel sc clock (Client n) s = client_turn (if n = MAX_CLIENTS - 1 then During else Stress) P fuel clock n s"
| "rtt_step P fuel sc clock Server s = rtt_server_turn P fuel sc (hash (client_name (int MAX_CLIENTS - 1))) s"

definition connect_report :: "connection_args list \<Rightarrow> out_line list outcome" where
  "connect_report args =
     bind_out (report_single_rtt_stats (args ! (MAX_CLIENTS - 1))) (\<lambda>rtt.
     bind_out (long_div (total_ns (take (MAX_CLIENTS - 1) args)) rtt_client) (\<lambda>average_ns.
     Ret (rtt @ [Long ''Num RTT Clients'' 1, Long ''Num Connect Clients'' rtt_client, Long ''Available Slots'' (int SLOT_NUM),
       Long ''Num Items'' NUM_ITEMS, Long ''Message Size'' (int RTT_MESSAGE_SIZE), Long ''Average Connect Latency'' average_ns])))"

text \<open>
  The whole test. The client with messages has the identifier \<open>MAX_CLIENTS - 1\<close>, without a nonce. After the accept loop
  the main thread joins the handler, through a pointer that is only set when there is one, and then the clients.
\<close>

definition single_rtt_during_connection_test ::
  "('k, 'b) platform \<Rightarrow> nat \<Rightarrow> int \<Rightarrow> (nat \<Rightarrow> int) \<Rightarrow> (nat \<Rightarrow> connection_args) \<Rightarrow> int list \<Rightarrow>
   (nat \<Rightarrow> timespec \<times> timespec) \<Rightarrow> turn list \<Rightarrow> 'k \<Rightarrow> (out_line list \<times> 'k) outcome"
where
  "single_rtt_during_connection_test P fuel err nonces junk garbage clock ts k =
     bind_out (register_server P fuel err test_server_addr k) (\<lambda>(handler, k1).
     case handler of
       None \<Rightarrow> Fault NullDeref
     | Some sc \<Rightarrow>
         bind_out (run_steps (rtt_step P fuel sc clock) ts (test_start (nonces(MAX_CLIENTS - 1 := 0)) junk garbage k1)) (\<lambda>s.
         if next_client s < MAX_CLIENTS then Hang
         else if handlers s = [] then Fault BadPointer
         else if list_all has_ended (client_states s) then
           bind_out (connect_report (client_args s)) (\<lambda>lines.
           bind_out (shutdown P True fuel sc (kern s)) (\<lambda>k2. Ret (lines, k2)))
         else Hang))"

section \<open>What every turn keeps\<close>

text \<open>The entries of \<open>client_list\<close> when the clients \<open>as\<close> are accepted.\<close>

definition stored :: "int \<Rightarrow> int list \<Rightarrow> int list" where
  "stored rtt as = concat (map (\<lambda>c. if c = rtt then [c, c] else [c]) as)"

lemma stored_simps [simp]:
  "stored rtt [] = []" "stored rtt (as @ [c]) = stored rtt as @ (if c = rtt then [c, c] else [c])" "set (stored rtt as) = set as"
  by (auto simp: stored_def)

lemma stored_length: "distinct as \<Longrightarrow> length (stored rtt as) = length as + (if rtt \<in> set as then 1 else 0)"
  by (induction as) (auto simp: stored_def)

lemma store_new:
  assumes "i + (if c = rtt then 2 else 1) \<le> length cl" "qp_client_id (queues qp) = c"
  shows "\<exists>cl'. store_client rtt qp cl i hs = Ret (cl', i + (if c = rtt then 2 else 1), hs @ (if c = rtt then [qp] else [])) \<and>
    length cl' = length cl \<and> set cl' \<subseteq> insert c (set cl) \<and> take (i + (if c = rtt then 2 else 1)) cl' = take i cl @ (if c = rtt then [c, c] else [c]) \<and>
    drop (i + (if c = rtt then 2 else 1)) cl' = drop (i + (if c = rtt then 2 else 1)) cl"
proof (cases "c = rtt")
  case True
  have "take (i + 2) (cl[i := c, Suc i := c]) = take i cl @ [c, c]"
    using assms True by (intro nth_equalityI) (auto simp: nth_append nth_list_update less_Suc_eq)
  with True assms show ?thesis
    by (auto simp: store_client_def put_client_def dest!: subsetD [OF set_update_subset_insert] simp del: take_update_cancel)
next
  case False
  have "take (i + 1) (cl[i := c]) = take i cl @ [c]"
    using assms False by (simp add: take_Suc_conv_app_nth)
  with False assms show ?thesis
    by (auto simp: store_client_def put_client_def dest!: subsetD [OF set_update_subset_insert] simp del: take_update_cancel)
qed

text \<open>The clients in the order of their first turns, after \<open>ms\<close>.\<close>

fun connects :: "nat list \<Rightarrow> turn list \<Rightarrow> nat list" where
  "connects ms [] = ms"
| "connects ms (Client n # ts) = connects (if n \<in> set ms then ms else ms @ [n]) ts"
| "connects ms (Server # ts) = connects ms ts"

definition connection_order :: "turn list \<Rightarrow> nat list" where
  "connection_order = connects []"

text \<open>The client with messages connects after all others.\<close>

definition messages_client_last :: "turn list \<Rightarrow> bool" where
  "messages_client_last ts \<longleftrightarrow> length (connection_order ts) = MAX_CLIENTS \<and> last (connection_order ts) = MAX_CLIENTS - 1"

lemma connects_append: "connects ms (ts1 @ ts2) = connects (connects ms ts1) ts2"
  by (induction ms ts1 rule: connects.induct) simp_all

lemma connects_distinct: "distinct ms \<Longrightarrow> distinct (connects ms ts)"
  by (induction ms ts rule: connects.induct) simp_all

lemma connects_set: "set (connects ms ts) = set ms \<union> {n. Client n \<in> set ts}"
  by (induction ms ts rule: connects.induct) auto

lemma connects_all: "list_all turn_ok ts \<Longrightarrow> {..<MAX_CLIENTS} \<subseteq> set ms \<Longrightarrow> connects ms ts = ms"
  by (induction ms ts rule: connects.induct) auto

text \<open>The rows \<open>0\<close> to \<open>m - 1\<close> are ready: the search stops at once, or at row \<open>0\<close> behind them.\<close>

lemma accept_loop_rows:
  assumes "\<And>j. j < SLOT_NUM \<Longrightarrow> ready h j \<longleftrightarrow> j < m" "p \<le> m" "m < SLOT_NUM" "accept_loop SLOT_NUM p h = r"
  shows "r = (if m = 0 then None else Some (if p < m then p else 0))"
proof (cases "m = 0")
  case True
  have "r = None"
  proof (rule ccontr)
    assume "r \<noteq> None"
    then obtain t where "accept_loop SLOT_NUM p h = Some t" using assms(4) by auto
    from accept_loop_first [OF _ this] assms(1) [of t] True assms(2,3) show False by (auto simp: SLOT_NUM_def)
  qed
  with True show ?thesis by simp
next
  case False
  have p: "p < SLOT_NUM" using assms(2,3) by simp
  define d where "d = (if p < m then 0 else SLOT_NUM - p)"
  have d: "d < SLOT_NUM" "(p + d) mod SLOT_NUM = (if p < m then p else 0)"
    using False assms(2) p by (auto simp: d_def)
  have rd: "ready h ((p + d) mod SLOT_NUM)" using d False assms(1,3) by (simp split: if_splits)
  obtain t where t: "r = Some t" using accept_loop_finds [OF p d(1) rd] assms(4) by auto
  with assms(4) accept_loop_first [OF p] obtain e where
    e: "t = (p + e) mod SLOT_NUM" "ready h t" "\<forall>e' < e. \<not> ready h ((p + e') mod SLOT_NUM)" "e < SLOT_NUM" by metis
  have "e \<le> d" using e(3) rd by (metis leI)
  moreover have "\<not> e < d"
  proof
    assume "e < d"
    then have "\<not> p < m" "p + e < SLOT_NUM" by (auto simp: d_def split: if_splits)
    then show False using e(1,2) assms(1) [of "p + e"] by simp
  qed
  ultimately show ?thesis using e(1) d(2) False t by (simp split: if_splits)
qed

context bench_clients
begin

abbreviation rtt :: int where
  "rtt \<equiv> ids ! (MAX_CLIENTS - 1)"

definition loop_stored :: "coord_header \<Rightarrow> int list \<Rightarrow> int list \<Rightarrow> 'k bench_test \<Rightarrow> bool" where
  "loop_stored h os as s \<longleftrightarrow> length (client_list s) = MAX_CLIENTS \<and> (\<forall>x \<in> set (client_list s). int32 x) \<and>
     distinct as \<and> set as = attached h os \<and> next_client s \<le> MAX_CLIENTS \<and>
     take (next_client s) (client_list s) = stored rtt as \<and> set (drop (next_client s) (client_list s)) \<inter> set ids = {} \<and>
     map (\<lambda>c. qp_client_id (queues c)) (handlers s) = filter (\<lambda>c. c = rtt) as \<and>
     (\<forall>c \<in> set (handlers s). \<exists>q. c = select_queue_ctx P POLL q \<and> at_conn (kern s) (qp_client_id q) q)"

text \<open>The other clients never wait for a handler.\<close>

definition connect_only :: "'k bench_test \<Rightarrow> bool" where
  "connect_only s \<longleftrightarrow> (\<forall>n < MAX_CLIENTS - 1. client_states s ! n = Starting \<or> client_states s ! n = Ended)"

definition rtt_inv :: "coord_header \<Rightarrow> int list \<Rightarrow> int list \<Rightarrow> 'k bench_test \<Rightarrow> bool" where
  "rtt_inv h os as s \<longleftrightarrow> opened h os (kern s) \<and> threads_ok os s \<and> loop_stored h os as s \<and> connect_only s"

lemma loop_next:
  assumes "loop_stored h os as s"
  shows "next_client s = length as + (if rtt \<in> set as then 1 else 0)"
proof -
  have "length (take (next_client s) (client_list s)) = length (stored rtt as)" using assms by (simp add: loop_stored_def)
  then show ?thesis using assms stored_length [of as rtt] by (simp add: loop_stored_def)
qed

lemma loop_keeps:
  assumes "loop_stored h os as s" "keeps {} t (kern s) k'" "attached h' os = attached h os"
  shows "loop_stored h' os as (s\<lparr>kern := k'\<rparr>)"
proof -
  have "\<forall>c \<in> set (handlers s). \<exists>q. c = select_queue_ctx P POLL q \<and> at_conn k' (qp_client_id q) q"
    using assms(1) at_conn_keeps [OF _ assms(2)] unfolding loop_stored_def by blast
  with assms(1,3) show ?thesis unfolding loop_stored_def by simp
qed

lemma search_stored:
  assumes "loop_stored h os as s" "c \<in> set ids" "c \<notin> set as"
  shows "bsearch c (client_list s) = None"
proof (rule bsearch_absent)
  have "set (client_list s) = set (take (next_client s) (client_list s)) \<union> set (drop (next_client s) (client_list s))"
    by (metis append_take_drop_id set_append)
  then show "c \<notin> set (client_list s)" using assms by (auto simp: loop_stored_def)
qed (use assms ids(3) in \<open>auto simp: loop_stored_def\<close>)

lemma loop_adds:
  assumes lp: "loop_stored h os as s" and c: "c \<in> set ids" "c \<notin> set as" and qp: "qp = select_queue_ctx P POLL q" "at_conn k' c q"
    and kp: "keeps {} t (kern s) k'" and att: "attached h' os = insert c (attached h os)"
    and room: "next_client s + (if c = rtt then 2 else 1) \<le> MAX_CLIENTS"
  obtains cl i hs where "store_client rtt qp (client_list s) (next_client s) (handlers s) = Ret (cl, i, hs)"
    "loop_stored h' os (as @ [c]) (s\<lparr>kern := k', client_list := cl, next_client := i, handlers := hs\<rparr>)"
proof -
  let ?d = "if c = rtt then 2 else 1 :: nat" and ?i = "next_client s"
  have id: "qp_client_id (queues qp) = c" using qp by (simp add: at_conn_def)
  have len: "length (client_list s) = MAX_CLIENTS" using lp by (simp add: loop_stored_def)
  from store_new [of ?i c rtt "client_list s" qp "handlers s"] room id len obtain cl where
    cl: "store_client rtt qp (client_list s) ?i (handlers s) = Ret (cl, ?i + ?d, handlers s @ (if c = rtt then [qp] else []))"
    "length cl = MAX_CLIENTS" "set cl \<subseteq> insert c (set (client_list s))"
    "take (?i + ?d) cl = take ?i (client_list s) @ (if c = rtt then [c, c] else [c])" "drop (?i + ?d) cl = drop (?i + ?d) (client_list s)"
    by auto
  let ?s = "s\<lparr>kern := k', client_list := cl, next_client := ?i + ?d, handlers := handlers s @ (if c = rtt then [qp] else [])\<rparr>"
  have lp': "loop_stored h os as (s\<lparr>kern := k'\<rparr>)" by (rule loop_keeps [OF lp kp refl])
  have "set (drop (?i + ?d) (client_list s)) \<subseteq> set (drop ?i (client_list s))" by (simp add: set_drop_subset_set_drop)
  moreover have "set (drop ?i (client_list s)) \<inter> set ids = {}" using lp by (simp add: loop_stored_def)
  ultimately have dr: "set (drop (?i + ?d) cl) \<inter> set ids = {}" unfolding cl(5) by blast
  have "\<forall>x \<in> set cl. int32 x" using cl(3) lp ids(3) c(1) by (auto simp: loop_stored_def)
  moreover have "\<forall>x \<in> set (handlers ?s). \<exists>q. x = select_queue_ctx P POLL q \<and> at_conn k' (qp_client_id q) q"
    using lp' qp id by (auto simp: loop_stored_def)
  ultimately have "loop_stored h' os (as @ [c]) ?s"
    using lp cl(2,4) dr c(2) room id unfolding loop_stored_def by (auto simp: att)
  with cl(1) show thesis by (rule that)
qed

text \<open>
  One pass of the accept loop: nothing new; a new client; or the client with messages as the twentieth,
  whose second entry is past the end.
\<close>

lemma rtt_server_step:
  assumes inv: "rtt_inv h os as s"
  obtains (kept) s' h' where "rtt_server_turn P fuel sc rtt s = Ret s'" "rtt_inv h' os as s'"
      "client_states s' = client_states s" "next_client s < MAX_CLIENTS \<Longrightarrow>
        (case accept_loop SLOT_NUM (nat (accept_slot h)) h of None \<Rightarrow> h' = h
         | Some u \<Rightarrow> os ! u \<in> set as \<and> accept_slot h' = int (Suc u mod SLOT_NUM))" "next_client s = MAX_CLIENTS \<Longrightarrow> h' = h"
    | (new) s' h' u where "next_client s < MAX_CLIENTS" "accept_loop SLOT_NUM (nat (accept_slot h)) h = Some u" "os ! u \<notin> set as"
      "rtt_server_turn P fuel sc rtt s = Ret s'" "rtt_inv h' os (as @ [os ! u]) s'" "client_states s' = client_states s"
      "accept_slot h' = int (Suc u mod SLOT_NUM)"
    | (overrun) u where "accept_loop SLOT_NUM (nat (accept_slot h)) h = Some u" "os ! u = rtt" "rtt \<notin> set as"
      "next_client s = MAX_CLIENTS - 1" "rtt_server_turn P fuel sc rtt s = Fault OutOfBounds"
proof (cases "next_client s < MAX_CLIENTS")
  case False
  then show thesis using inv by (intro kept [of s h]) (simp_all add: rtt_server_turn_def)
next
  case room: True
  from inv have op: "opened h os (kern s)" and th: "threads_ok os s" and lp: "loop_stored h os as s" and co: "connect_only s" by (simp_all add: rtt_inv_def)
  show thesis
  proof (cases "accept_loop SLOT_NUM (nat (accept_slot h)) h")
    case None
    from many_accept_none [OF op sc None, of fuel] obtain k' where
      k': "accept P fuel sc (kern s) = Ret (None, k')" "opened h os k'" "keeps {} t (kern s) k'" by blast
    have "rtt_inv h os as (s\<lparr>kern := k'\<rparr>)"
      using k'(2) threads_keeps [OF th k'(3)] loop_keeps [OF lp k'(3) refl] co by (simp add: rtt_inv_def connect_only_def)
    then show ?thesis using k'(1) room None by (intro kept [of "s\<lparr>kern := k'\<rparr>" h]) (simp_all add: rtt_server_turn_def)
  next
    case (Some u)
    obtain ctx k' h' where a: "accept P fuel sc (kern s) = Ret (Some ctx, k')" "u < length os" "opened h' os k'" "keeps {} t (kern s) k'"
      "qp_client_id (queues ctx) = os ! u" "accept_slot h' = int (Suc u mod SLOT_NUM)"
      "\<And>j. j < length os \<Longrightarrow> server_attached (slots h' ! j) = (j = u \<or> server_attached (slots h ! j))"
      "server_attached (slots h ! u) \<Longrightarrow> request_shmaddr (queues ctx) = Null"
      "\<not> server_attached (slots h ! u) \<Longrightarrow> \<exists>qp. ctx = select_queue_ctx P POLL qp \<and> at_conn k' (os ! u) qp"
      by (rule many_accept [OF op sc Some, of fuel], rule that) (assumption | blast)+
    have att: "attached h' os = insert (os ! u) (attached h os)" using a(2,7) by (auto simp: attached_def)
    have uids: "os ! u \<in> set ids" using op a(2) by (auto simp: many_def)
    have as: "set as = attached h os" using lp by (simp add: loop_stored_def)
    show ?thesis
    proof (cases "server_attached (slots h ! u)")
      case True
      then have old: "os ! u \<in> set as" using as a(2) by (auto simp: attached_def)
      with att as have "attached h' os = attached h os" by auto
      then have "rtt_inv h' os as (s\<lparr>kern := k'\<rparr>)"
        using a(3) threads_keeps [OF th a(4)] loop_keeps [OF lp a(4)] co by (simp add: rtt_inv_def connect_only_def)
      moreover have "rtt_server_turn P fuel sc rtt s = Ret (s\<lparr>kern := k'\<rparr>)" using room a(1) a(8) [OF True] by (simp add: rtt_server_turn_def)
      ultimately show ?thesis using Some old room a(6) by (intro kept [of "s\<lparr>kern := k'\<rparr>" h']) auto
    next
      case False
      from a(9) [OF False] obtain qp where qp: "ctx = select_queue_ctx P POLL qp" "at_conn k' (os ! u) qp" by blast
      have fresh: "os ! u \<notin> set as" using as False a(2) op by (auto simp: attached_def many_def nth_eq_iff_index_eq)
      have addr: "request_shmaddr (queues ctx) \<noteq> Null" using qp by (auto simp: at_conn_def)
      note srch = search_stored [OF lp uids fresh]
      show ?thesis
      proof (cases "os ! u = rtt \<and> Suc (next_client s) = MAX_CLIENTS")
        case True
        then have "rtt_server_turn P fuel sc rtt s = Fault OutOfBounds"
          using room a(1,5) addr srch lp by (simp add: rtt_server_turn_def store_client_def put_client_def loop_stored_def)
        then show ?thesis using True Some fresh by (intro overrun) auto
      next
        case fits: False
        then have "next_client s + (if os ! u = rtt then 2 else 1) \<le> MAX_CLIENTS" using room by auto
        from loop_adds [OF lp uids fresh qp a(4) att this] obtain cl i hs where
          st: "store_client rtt ctx (client_list s) (next_client s) (handlers s) = Ret (cl, i, hs)"
          "loop_stored h' os (as @ [os ! u]) (s\<lparr>kern := k', client_list := cl, next_client := i, handlers := hs\<rparr>)" by blast
        let ?s = "s\<lparr>kern := k', client_list := cl, next_client := i, handlers := hs\<rparr>"
        have "threads_ok os ?s" using threads_keeps [OF th a(4)] by (simp add: threads_ok_def)
        then have "rtt_inv h' os (as @ [os ! u]) ?s" using a(3) st(2) co by (simp add: rtt_inv_def connect_only_def)
        moreover have "rtt_server_turn P fuel sc rtt s = Ret ?s" using room a(1,5) addr srch st(1) by (simp add: rtt_server_turn_def)
        ultimately show ?thesis using room Some fresh a(6) by (intro new [of u ?s h']) simp_all
      qed
    qed
  qed
qed

text \<open>The turn of a client: afterwards it is connected; it has ended if it only connects, or if it has a handler.\<close>

lemma loop_open:
  assumes lp: "loop_stored h os as s" and op: "opened h os (kern s)" and c: "c \<in> set ids" "c \<notin> set os"
    and kp: "keeps {c, i32 (c + 1)} t (kern s) k'" and att: "attached h' (os @ [c]) = attached h os"
  shows "loop_stored h' (os @ [c]) as (s\<lparr>kern := k', client_args := xs, client_states := sts\<rparr>)"
proof -
  have "\<exists>q. x = select_queue_ctx P POLL q \<and> at_conn k' (qp_client_id q) q" if x: "x \<in> set (handlers s)" for x
  proof -
    from lp x obtain q where q: "x = select_queue_ctx P POLL q" "at_conn (kern s) (qp_client_id q) q" by (auto simp: loop_stored_def)
    have "qp_client_id (queues x) \<in> set (map (\<lambda>c. qp_client_id (queues c)) (handlers s))" using x by simp
    also have "\<dots> \<subseteq> attached h os" using lp by (auto simp: loop_stored_def)
    finally have "qp_client_id q \<in> attached h os" using q(1) by simp
    then have "qp_client_id q \<in> set ids" "qp_client_id q \<noteq> c" using op c(2) by (auto simp: attached_def many_def)
    from apart_other [OF ids(2) this(1) c(1) this(2)] have "at_conn k' (qp_client_id q) q"
      by (intro at_conn_keeps [OF q(2) kp]) auto
    with q(1) show ?thesis by blast
  qed
  with lp att show ?thesis by (simp add: loop_stored_def)
qed

lemma rtt_handler:
  assumes lp: "loop_stored h os as s" and c: "qp_client_id (queues qp) = rtt"
  shows "if rtt \<in> set as then \<exists>q. handler_of qp s = Some (select_queue_ctx P POLL q) \<and> at_conn (kern s) rtt q else handler_of qp s = None"
proof -
  have hs: "(\<lambda>x. qp_client_id (queues x)) ` set (handlers s) = {c \<in> set as. c = rtt}"
    using lp by (simp add: loop_stored_def flip: set_map)
  show ?thesis
  proof (cases "handler_of qp s")
    case None
    then have "\<forall>x \<in> set (handlers s). qp_client_id (queues x) \<noteq> rtt" using c by (auto simp: handler_of_def find_None_iff)
    then have "rtt \<notin> set as" using hs by force
    with None show ?thesis by simp
  next
    case (Some x)
    then have x: "x \<in> set (handlers s)" "qp_client_id (queues x) = rtt" using c by (auto simp: handler_of_def find_Some_iff)
    with lp obtain q where "x = select_queue_ctx P POLL q" "at_conn (kern s) rtt q" by (auto simp: loop_stored_def)
    moreover have "rtt \<in> set as" using hs x by force
    ultimately show ?thesis using Some by auto
  qed
qed

lemma rtt_client_step:
  assumes inv: "rtt_inv h os as s" and n: "n < MAX_CLIENTS" and dur: "mode \<noteq> Stress"
  obtains s' h' where "rtt_step P (Suc fuel) sc clock (Client n) s = Ret s'"
    "rtt_inv h' (if ids ! n \<in> set os then os else os @ [ids ! n]) as s'" "ids ! n \<in> set os \<Longrightarrow> h' = h" "accept_slot h' = accept_slot h"
    "\<And>j. client_states s ! j = Ended \<Longrightarrow> client_states s' ! j = Ended"
    "n \<noteq> MAX_CLIENTS - 1 \<or> rtt \<in> set as \<Longrightarrow> client_states s' ! n = Ended"
proof -
  let ?mode = "if n = MAX_CLIENTS - 1 then During else Stress"
  from inv have op: "opened h os (kern s)" and th: "threads_ok os s" and lp: "loop_stored h os as s" and co: "connect_only s" by (simp_all add: rtt_inv_def)
  from th n have len: "length (client_states s) = MAX_CLIENTS" "length (client_args s) = MAX_CLIENTS"
    and me: "thread_ok os (kern s) n (client_args s ! n) (client_states s ! n)" by (simp_all add: threads_ok_def)
  have sub: "set as \<subseteq> set os" using lp by (auto simp: loop_stored_def attached_def)
  obtain t0 t1 where clk: "clock n = (t0, t1)" by (cases "clock n")
  let ?args = "client_args s ! n"
  have id: "conn_client_id ?args = cids ! n" using me by (simp add: thread_ok_def)
  show thesis
  proof (cases "client_states s ! n")
    case Starting
    with me have new: "ids ! n \<notin> set os" by (simp add: thread_ok_def)
    obtain k' h' q where o: "open_until P (Suc fuel) (client_name (cids ! n)) (kern s) = Ret (select_queue_ctx P POLL q, k')"
      "opened h' (os @ [ids ! n]) k'" "at_conn k' (ids ! n) q" "keeps {ids ! n, i32 (ids ! n + 1)} t (kern s) k'"
      "accept_slot h' = accept_slot h" "attached h' (os @ [ids ! n]) = attached h os"
      by (rule open_step [OF op n new, of fuel], rule that) (assumption | blast)+
    let ?st = "if ?mode = Stress then Ended else Connected (select_queue_ctx P POLL q)"
    let ?args' = "if ?mode = Stress then ?args\<lparr>start_time := t0, end_time := t1\<rparr> else ?args"
    let ?s = "s\<lparr>kern := k', client_args := (client_args s)[n := ?args'], client_states := (client_states s)[n := ?st]\<rparr>"
    have "(client_args s)[n := ?args] = client_args s" by simp
    then have "s\<lparr>kern := k', client_states := (client_states s)[n := Connected c]\<rparr> =
      s\<lparr>kern := k', client_args := (client_args s)[n := ?args], client_states := (client_states s)[n := Connected c]\<rparr>" for c
      by (cases s) simp
    then have turn: "rtt_step P (Suc fuel) sc clock (Client n) s = Ret ?s"
      using Starting n len id o(1) clk by (simp add: client_turn_def pthread_connect_client_def end_client_def)
    have "thread_ok (os @ [ids ! n]) k' n ?args' ?st" using id o(3) clk dur by (auto simp: thread_ok_def)
    from threads_open [OF th n o(4) this] loop_open [OF lp op ids_nth [OF n] new o(4,6)]
    have "rtt_inv h' (os @ [ids ! n]) as ?s" using o(2) co n len by (auto simp: rtt_inv_def connect_only_def nth_list_update)
    then show ?thesis using turn o(5) new n len Starting sub
      by (intro that [of ?s h']) (auto simp: nth_list_update)
  next
    case (Connected c)
    with me have old: "ids ! n \<in> set os" by (auto simp: thread_ok_def)
    from Connected me obtain q where q: "c = select_queue_ctx P POLL q" "at_conn (kern s) (ids ! n) q" by (auto simp: thread_ok_def)
    have last: "n = MAX_CLIENTS - 1" using co Connected n by (cases "n < MAX_CLIENTS - 1") (auto simp: connect_only_def)
    then have qid: "qp_client_id (queues c) = rtt" using q by (simp add: at_conn_def)
    note hd = rtt_handler [OF lp qid]
    show ?thesis
    proof (cases "rtt \<in> set as")
      case False
      with hd have "rtt_step P (Suc fuel) sc clock (Client n) s = Ret s" using Connected n len clk last by (simp add: client_turn_def)
      then show ?thesis using inv old False last by (intro that [of s h]) auto
    next
      case True
      with hd obtain p where p: "handler_of c s = Some (select_queue_ctx P POLL p)" "at_conn (kern s) (ids ! n) p" using last by auto
      obtain k' where k': "pthread_client_rtt_post_connect (server_rtt_step (select_queue_ctx P POLL p)) t0 t1 (select_queue_ctx P POLL q) ?args (kern s) =
          Ret (?args\<lparr>start_time := t0, end_time := t1\<rparr>, k')" "opened h os k'" "\<And>x. key_names K x k' = key_names K x (kern s)"
        by (rule exchange_step [OF op old q(2) p(2), of t0 t1 ?args], rule that) (assumption | blast)+
      let ?s = "end_client n (?args\<lparr>start_time := t0, end_time := t1\<rparr>) k' s"
      have turn: "rtt_step P (Suc fuel) sc clock (Client n) s = Ret ?s" using Connected n len clk p(1) k'(1) q(1) last by (simp add: client_turn_def)
      note same = names_at_conn [OF k'(3)]
      have "threads_ok os ?s" using th n id old clk by (auto simp: threads_ok_def end_client_def nth_list_update thread_ok_def same)
      moreover have "loop_stored h os as ?s" using lp by (simp add: loop_stored_def end_client_def same)
      ultimately have "rtt_inv h os as ?s" using k'(2) co n len by (simp add: rtt_inv_def end_client_def connect_only_def nth_list_update)
      then show ?thesis using turn old n len by (intro that [of ?s h]) (auto simp: end_client_def nth_list_update)
    qed
  next
    case Ended
    with me have "ids ! n \<in> set os" by (auto simp: thread_ok_def)
    moreover have "rtt_step P (Suc fuel) sc clock (Client n) s = Ret s" using Ended n len clk by (simp add: client_turn_def)
    ultimately show ?thesis using inv Ended by (intro that [of s h]) auto
  qed
qed

section \<open>The order of the connections decides\<close>

text \<open>The clients are accepted in the order of their rows, and the search never starts behind the next of them.\<close>

definition in_order :: "coord_header \<Rightarrow> int list \<Rightarrow> int list \<Rightarrow> bool" where
  "in_order h os as \<longleftrightarrow> as = take (length as) os \<and> length as \<le> length os \<and> nat (accept_slot h) \<le> length as \<and> 0 \<le> accept_slot h"

lemma rtt_len:
  assumes "rtt_inv h os as s"
  shows "distinct os" "length os \<le> MAX_CLIENTS" "length os = MAX_CLIENTS \<Longrightarrow> set os = set ids"
proof -
  have d: "distinct os" "set os \<subseteq> set ids" using assms by (auto simp: rtt_inv_def many_def)
  have c: "card (set ids) = MAX_CLIENTS" using distinct_card [OF apart_distinct [OF ids(2)]] ids(1) by simp
  show "distinct os" by (rule d(1))
  show "length os \<le> MAX_CLIENTS" using card_mono [OF _ d(2)] distinct_card [OF d(1)] c by simp
  show "set os = set ids" if "length os = MAX_CLIENTS"
    using card_subset_eq [OF _ d(2)] distinct_card [OF d(1)] c that by simp
qed

lemma ordered_pass:
  assumes inv: "rtt_inv h os as s" and ord: "in_order h os as"
  obtains (pass) s' h' as' where "rtt_server_turn P fuel sc rtt s = Ret s'" "rtt_inv h' os as' s'" "in_order h' os as'"
      "client_states s' = client_states s" "set as \<subseteq> set as'"
      "next_client s < MAX_CLIENTS \<Longrightarrow> length as < length os \<Longrightarrow> accept_slot h' = accept_slot h + 1"
      "next_client s = MAX_CLIENTS \<Longrightarrow> next_client s' = MAX_CLIENTS"
    | (overrun) "length os = MAX_CLIENTS" "last os = rtt" "rtt_server_turn P fuel sc rtt s = Fault OutOfBounds"
proof -
  let ?p = "nat (accept_slot h)" and ?m = "length os" and ?q = "length as"
  have op: "opened h os (kern s)" and lp: "loop_stored h os as s" using inv by (simp_all add: rtt_inv_def)
  note os = rtt_len [OF inv]
  have mS: "?m < SLOT_NUM" using os(2) by (simp add: MAX_CLIENTS_def SLOT_NUM_def)
  have rows: "ready h j \<longleftrightarrow> j < ?m" if "j < SLOT_NUM" for j by (rule many_rows(2) [OF op that])
  have ord': "as = take ?q os" "?q \<le> ?m" "?p \<le> ?q" "0 \<le> accept_slot h" using ord by (auto simp: in_order_def)
  have found: "accept_loop SLOT_NUM ?p h = (if ?m = 0 then None else Some (if ?p < ?m then ?p else 0))"
    by (rule accept_loop_rows [OF rows _ mS refl]) (use ord' in auto)
  have old: "os ! u \<in> set as \<longleftrightarrow> u < ?q" if "u < ?m" for u
    by (subst ord'(1)) (use ord'(2) that nth_eq_iff_index_eq [OF os(1)] in \<open>auto simp: in_set_conv_nth\<close>)
  have nxt: "os ! u \<notin> set as \<Longrightarrow> u = ?q \<and> ?p = ?q \<and> ?q < ?m" if "accept_loop SLOT_NUM ?p h = Some u" for u
    using that found old [of u] ord'(2,3) by (auto split: if_splits)
  have small: "Suc u mod SLOT_NUM = Suc u" if "u < ?m" for u using that mS by simp
  from inv show thesis
  proof (cases rule: rtt_server_step [where fuel = fuel])
    case (kept s' h')
    have h': "in_order h' os as \<and> (next_client s < MAX_CLIENTS \<and> ?q < ?m \<longrightarrow> accept_slot h' = accept_slot h + 1)"
    proof (cases "next_client s < MAX_CLIENTS \<and> ?m \<noteq> 0")
      case True
      let ?u = "if ?p < ?m then ?p else 0"
      have u: "?u < ?m" "os ! ?u \<in> set as" "accept_slot h' = int (Suc ?u mod SLOT_NUM)" using True kept(4) found by simp_all
      then have "?u < ?q" using old by blast
      with u small [OF u(1)] ord' show ?thesis by (auto simp: in_order_def split: if_splits)
    next
      case False
      moreover have "next_client s < MAX_CLIENTS \<or> next_client s = MAX_CLIENTS" using lp by (auto simp: loop_stored_def)
      ultimately have "h' = h" using kept(4,5) found by auto
      with ord False show ?thesis by auto
    qed
    show ?thesis using kept(1,2,3) h' loop_next [OF lp] kept(2)
      by (intro pass [of s' h' as]) (auto simp: rtt_inv_def dest: loop_next)
  next
    case (new s' h' u)
    note u = nxt [OF new(2,3)]
    have as': "as @ [os ! u] = take (Suc ?q) os" using u ord'(1) by (simp add: take_Suc_conv_app_nth)
    have "accept_slot h' = int (Suc ?q)" using new(7) small u by simp
    moreover from this have "in_order h' os (as @ [os ! u])" using u as' by (simp add: in_order_def)
    ultimately show ?thesis using new(1,4-6) u ord'(4)
      by (intro pass [of s' h' "as @ [os ! u]"]) auto
  next
    case (overrun u)
    note u = nxt [OF overrun(1)]
    have q: "u = ?q" "?q < ?m" using u overrun(2,3) by auto
    have "next_client s = ?q" using loop_next [OF lp] overrun(3) by simp
    then have "?q = MAX_CLIENTS - 1" using overrun(4) by simp
    then have m: "?m = MAX_CLIENTS" using q(2) os(2) by simp
    then have "last os = os ! ?q" using \<open>?q = MAX_CLIENTS - 1\<close> q(2) by (subst last_conv_nth) auto
    then show ?thesis using m overrun(2,5) q(1) by (intro that(2)) auto
  qed
qed

text \<open>Every schedule: the accept loop leaves the array only when the client with messages is the last of all to connect.\<close>

lemma rtt_schedule:
  assumes "rtt_inv h (map ((!) ids) ms) as s" "in_order h (map ((!) ids) ms) as" "distinct ms" "set ms \<subseteq> {..<MAX_CLIENTS}"
    and "list_all turn_ok ts" "mode \<noteq> Stress" "rtt = hash (client_name (int MAX_CLIENTS - 1))"
  shows "(\<exists>s' h' as'. run_steps (rtt_step P (Suc fuel) sc clock) ts s = Ret s' \<and>
      rtt_inv h' (map ((!) ids) (connects ms ts)) as' s' \<and> in_order h' (map ((!) ids) (connects ms ts)) as' \<and> set as \<subseteq> set as' \<and>
      (\<forall>j. client_states s ! j = Ended \<or> Client j \<in> set ts \<and> (j \<noteq> MAX_CLIENTS - 1 \<or> rtt \<in> set as) \<longrightarrow> client_states s' ! j = Ended) \<and>
      (length ms = MAX_CLIENTS \<longrightarrow> next_client s' = MAX_CLIENTS \<or>
         next_client s < MAX_CLIENTS \<and> accept_slot h' = accept_slot h + int (count_list ts Server))) \<or>
    run_steps (rtt_step P (Suc fuel) sc clock) ts s = Fault OutOfBounds \<and>
      length (connects ms ts) = MAX_CLIENTS \<and> last (connects ms ts) = MAX_CLIENTS - 1"
  using assms(1-5)
proof (induction ts arbitrary: ms s h as)
  case Nil
  then have "next_client s < MAX_CLIENTS \<or> next_client s = MAX_CLIENTS" by (auto simp: rtt_inv_def loop_stored_def)
  with Nil show ?case by auto
next
  case (Cons x ts)
  let ?os = "map ((!) ids) ms"
  have full: "set ms = {..<MAX_CLIENTS}" if "length ms = MAX_CLIENTS"
    using card_subset_eq [OF _ Cons.prems(4)] distinct_card [OF Cons.prems(3)] that by simp
  show ?case
  proof (cases x)
    case (Client n)
    with Cons.prems(5) have n: "n < MAX_CLIENTS" "list_all turn_ok ts" by simp_all
    let ?ms = "if n \<in> set ms then ms else ms @ [n]"
    have "ids ! n \<in> set ?os \<longleftrightarrow> n \<in> set ms"
    proof
      assume "ids ! n \<in> set ?os"
      then obtain i where "i \<in> set ms" "ids ! i = ids ! n" by auto
      then show "n \<in> set ms" using nth_eq_iff_index_eq [OF apart_distinct [OF ids(2)], of i n] ids(1) n(1) Cons.prems(4) by auto
    qed (metis image_eqI set_map)
    then have os: "(if ids ! n \<in> set ?os then ?os else ?os @ [ids ! n]) = map ((!) ids) ?ms" by simp
    obtain s1 h1 where 1: "rtt_step P (Suc fuel) sc clock (Client n) s = Ret s1" "rtt_inv h1 (map ((!) ids) ?ms) as s1"
      "ids ! n \<in> set ?os \<Longrightarrow> h1 = h" "accept_slot h1 = accept_slot h"
      "\<And>j. client_states s ! j = Ended \<Longrightarrow> client_states s1 ! j = Ended"
      "n \<noteq> MAX_CLIENTS - 1 \<or> rtt \<in> set as \<Longrightarrow> client_states s1 ! n = Ended"
      by (rule rtt_client_step [OF Cons.prems(1) n(1) assms(6), of fuel, unfolded os]) (rule that)
    have ord: "in_order h1 (map ((!) ids) ?ms) as" using Cons.prems(2) 1(4) by (auto simp: in_order_def)
    have ms: "distinct ?ms" "set ?ms \<subseteq> {..<MAX_CLIENTS}" using Cons.prems(3,4) n(1) by auto
    have nx: "next_client s1 = next_client s"
      using loop_next 1(2) Cons.prems(1) unfolding rtt_inv_def by metis
    have ln: "?ms = ms" if "length ms = MAX_CLIENTS" using full [OF that] n(1) by simp
    from Cons.IH [OF 1(2) ord ms n(2)] show ?thesis
    proof (elim disjE exE conjE)
      fix s2 h2 as2
      assume 2: "run_steps (rtt_step P (Suc fuel) sc clock) ts s1 = Ret s2" "rtt_inv h2 (map ((!) ids) (connects ?ms ts)) as2 s2"
        "in_order h2 (map ((!) ids) (connects ?ms ts)) as2" "set as \<subseteq> set as2"
        "\<forall>j. client_states s1 ! j = Ended \<or> Client j \<in> set ts \<and> (j \<noteq> MAX_CLIENTS - 1 \<or> rtt \<in> set as) \<longrightarrow> client_states s2 ! j = Ended"
        "length ?ms = MAX_CLIENTS \<longrightarrow> next_client s2 = MAX_CLIENTS \<or>
         next_client s1 < MAX_CLIENTS \<and> accept_slot h2 = accept_slot h1 + int (count_list ts Server)"
      have "\<forall>j. client_states s ! j = Ended \<or> Client j \<in> set (x # ts) \<and> (j \<noteq> MAX_CLIENTS - 1 \<or> rtt \<in> set as) \<longrightarrow> client_states s2 ! j = Ended"
        using 1(5,6) 2(5) Client by auto
      moreover have "length ms = MAX_CLIENTS \<longrightarrow> next_client s2 = MAX_CLIENTS \<or>
         next_client s < MAX_CLIENTS \<and> accept_slot h2 = accept_slot h + int (count_list (x # ts) Server)"
        using 2(6) 1(4) nx ln Client by auto
      moreover have "run_steps (rtt_step P (Suc fuel) sc clock) (x # ts) s = Ret s2" "connects ms (x # ts) = connects ?ms ts"
        using 1(1) 2(1) Client by simp_all
      ultimately show ?thesis using 2(2-4) by (intro disjI1 exI [of _ s2] exI [of _ h2] exI [of _ as2]) simp
    qed (use 1(1) Client in simp)
  next
    case Server
    with Cons.prems(5) have ok: "list_all turn_ok ts" by simp
    have step: "rtt_step P (Suc fuel) sc clock x s = rtt_server_turn P (Suc fuel) sc rtt s" using Server assms(7) by simp
    show ?thesis
    proof (rule ordered_pass [where fuel = "Suc fuel", OF Cons.prems(1,2)])
      fix s1 h1 as1
      assume pass: "rtt_server_turn P (Suc fuel) sc rtt s = Ret s1" "rtt_inv h1 ?os as1 s1" "in_order h1 ?os as1"
        "client_states s1 = client_states s" "set as \<subseteq> set as1"
        "next_client s < MAX_CLIENTS \<Longrightarrow> length as < length ?os \<Longrightarrow> accept_slot h1 = accept_slot h + 1"
        "next_client s = MAX_CLIENTS \<Longrightarrow> next_client s1 = MAX_CLIENTS"
      have q: "length as < length ?os" if "length ms = MAX_CLIENTS" "next_client s < MAX_CLIENTS"
        using loop_next [of h _ as s] Cons.prems(1) that by (auto simp: rtt_inv_def split: if_splits)
      have nx: "next_client s < MAX_CLIENTS \<or> next_client s = MAX_CLIENTS" "next_client s1 < MAX_CLIENTS \<Longrightarrow> next_client s < MAX_CLIENTS"
        using Cons.prems(1) pass(7) by (auto simp: rtt_inv_def loop_stored_def)
      from Cons.IH [OF pass(2,3) Cons.prems(3,4) ok] show ?thesis
      proof (elim disjE exE conjE)
        fix s2 h2 as2
        assume 2: "run_steps (rtt_step P (Suc fuel) sc clock) ts s1 = Ret s2" "rtt_inv h2 (map ((!) ids) (connects ms ts)) as2 s2"
          "in_order h2 (map ((!) ids) (connects ms ts)) as2" "set as1 \<subseteq> set as2"
          "\<forall>j. client_states s1 ! j = Ended \<or> Client j \<in> set ts \<and> (j \<noteq> MAX_CLIENTS - 1 \<or> rtt \<in> set as1) \<longrightarrow> client_states s2 ! j = Ended"
          "length ms = MAX_CLIENTS \<longrightarrow> next_client s2 = MAX_CLIENTS \<or>
           next_client s1 < MAX_CLIENTS \<and> accept_slot h2 = accept_slot h1 + int (count_list ts Server)"
        have "\<forall>j. client_states s ! j = Ended \<or> Client j \<in> set (x # ts) \<and> (j \<noteq> MAX_CLIENTS - 1 \<or> rtt \<in> set as) \<longrightarrow> client_states s2 ! j = Ended"
          using pass(4,5) 2(5) Server by auto
        moreover have "length ms = MAX_CLIENTS \<longrightarrow> next_client s2 = MAX_CLIENTS \<or>
           next_client s < MAX_CLIENTS \<and> accept_slot h2 = accept_slot h + int (count_list (x # ts) Server)"
          using 2(6) pass(6) q nx Server by auto
        moreover have "run_steps (rtt_step P (Suc fuel) sc clock) (x # ts) s = Ret s2" "connects ms (x # ts) = connects ms ts"
          using pass(1) 2(1) step Server by simp_all
        moreover have "set as \<subseteq> set as2" using pass(5) 2(4) by blast
        ultimately show ?thesis using 2(2,3) by (intro disjI1 exI [of _ s2] exI [of _ h2] exI [of _ as2]) simp
      qed (use pass(1) step Server in simp)
    next
      assume overrun: "length ?os = MAX_CLIENTS" "last ?os = rtt" "rtt_server_turn P (Suc fuel) sc rtt s = Fault OutOfBounds"
      have ms: "length ms = MAX_CLIENTS" using overrun(1) by simp
      then have "connects ms (x # ts) = ms" using Cons.prems(5) full by (intro connects_all) auto
      moreover have ne: "ms \<noteq> []" using ms by (auto simp: MAX_CLIENTS_def)
      have "last ms < MAX_CLIENTS" "MAX_CLIENTS - 1 < MAX_CLIENTS" using last_in_set [OF ne] Cons.prems(4) by (auto simp: MAX_CLIENTS_def)
      then have "last ms = MAX_CLIENTS - 1"
        using overrun(2) ne nth_eq_iff_index_eq [OF apart_distinct [OF ids(2)], of "last ms" "MAX_CLIENTS - 1"] ids(1)
        by (simp add: last_map)
      ultimately show ?thesis using overrun(3) step ms by simp
    qed
  qed
qed

lemma rtt_begin:
  assumes "test_inv h [] s" "next_client s = 0" "client_states s = replicate MAX_CLIENTS Starting"
  shows "rtt_inv h [] [] s"
  using assms by (simp add: rtt_inv_def test_inv_def server_ok_def loop_stored_def connect_only_def attached_def)

lemma loop_over:
  assumes inv: "rtt_inv h os as s" and n: "next_client s = MAX_CLIENTS"
  shows "rtt \<in> set as" "handlers s \<noteq> []" "in_order h os as \<Longrightarrow> length os = MAX_CLIENTS \<Longrightarrow> last os \<noteq> rtt"
proof -
  have op: "opened h os (kern s)" and lp: "loop_stored h os as s" using inv by (simp_all add: rtt_inv_def)
  note os = rtt_len [OF inv]
  have d: "distinct as" "set as \<subseteq> set os" using lp by (auto simp: loop_stored_def attached_def)
  have c: "card (set ids) = MAX_CLIENTS" using distinct_card [OF apart_distinct [OF ids(2)]] ids(1) by simp
  have sub: "set as \<subseteq> set ids" using d(2) op by (auto simp: many_def)
  show rtt: "rtt \<in> set as"
  proof (rule ccontr)
    assume no: "rtt \<notin> set as"
    then have "length as = MAX_CLIENTS" using loop_next [OF lp] n by simp
    then have "set as = set ids" using card_subset_eq [OF _ sub] distinct_card [OF d(1)] c by simp
    with no ids_nth [of "MAX_CLIENTS - 1"] show False by (simp add: MAX_CLIENTS_def)
  qed
  then have "filter (\<lambda>c. c = rtt) as \<noteq> []" unfolding filter_empty_conv by blast
  then show "handlers s \<noteq> []" using lp unfolding loop_stored_def by fastforce
  assume ord: "in_order h os as" and len: "length os = MAX_CLIENTS"
  have q: "length as = MAX_CLIENTS - 1" using loop_next [OF lp] n rtt by simp
  have "as = butlast os" using ord len q by (simp add: in_order_def butlast_conv_take)
  moreover have "os = butlast os @ [last os]" using len by (simp add: MAX_CLIENTS_def) (metis append_butlast_last_id list.size(3) zero_neq_numeral)
  ultimately have "last os \<notin> set as" using os(1) by (metis distinct_append distinct_singleton disjoint_insert(1) list.simps(15))
  with rtt show "last os \<noteq> rtt" by auto
qed

lemma rtt_any:
  assumes "rtt_inv h [] [] s" "accept_slot h = 0" "list_all turn_ok ts" "mode \<noteq> Stress" "rtt = hash (client_name (int MAX_CLIENTS - 1))"
  shows "(\<exists>s' h' os as. run_steps (rtt_step P (Suc fuel) sc clock) ts s = Ret s' \<and> rtt_inv h' os as s') \<or>
    run_steps (rtt_step P (Suc fuel) sc clock) ts s = Fault OutOfBounds \<and> messages_client_last ts"
  using rtt_schedule [of h "[]" "[]" s ts fuel] assms
  by (auto simp: in_order_def messages_client_last_def connection_order_def)

text \<open>A schedule with a turn of every client, then \<open>MAX_CLIENTS\<close> passes of the accept loop, then a turn of the client with messages.\<close>

lemma rtt_run:
  assumes inv: "rtt_inv h [] [] s" "accept_slot h = 0" and ok: "list_all turn_ok (ts1 @ ts2 @ ts3)"
    and ts: "\<forall>n < MAX_CLIENTS. Client n \<in> set ts1" "MAX_CLIENTS \<le> count_list ts2 Server" "Client (MAX_CLIENTS - 1) \<in> set ts3"
    and mode: "mode \<noteq> Stress" "rtt = hash (client_name (int MAX_CLIENTS - 1))"
  shows "if messages_client_last (ts1 @ ts2 @ ts3) then run_steps (rtt_step P (Suc fuel) sc clock) (ts1 @ ts2 @ ts3) s = Fault OutOfBounds
    else \<exists>s' h' os as. run_steps (rtt_step P (Suc fuel) sc clock) (ts1 @ ts2 @ ts3) s = Ret s' \<and> rtt_inv h' os as s' \<and>
      next_client s' = MAX_CLIENTS \<and> (\<forall>n < MAX_CLIENTS. client_states s' ! n = Ended)"
proof -
  let ?m = "MAX_CLIENTS - 1" and ?run = "run_steps (rtt_step P (Suc fuel) sc clock)"
  let ?ns = "connection_order ts1"
  let ?os = "map ((!) ids) ?ns"
  have ok': "list_all turn_ok ts1" "list_all turn_ok ts2" "list_all turn_ok ts3" using ok by simp_all
  have "{n. Client n \<in> set ts1} = {..<MAX_CLIENTS}" using ts(1) ok'(1) by (auto simp: list_all_iff)
  then have ns: "distinct ?ns" "set ?ns = {..<MAX_CLIENTS}"
    by (simp_all add: connection_order_def connects_distinct connects_set)
  have len: "length ?ns = MAX_CLIENTS" using distinct_card [OF ns(1)] ns(2) by simp
  then have ne: "?ns \<noteq> []" by (auto simp: MAX_CLIENTS_def)
  have more: "connects ?ns ts = ?ns" if "list_all turn_ok ts" for ts
    using ns(2) by (intro connects_all [OF that]) simp
  have lst: "last ?os = rtt \<longleftrightarrow> last ?ns = ?m"
    using ne ns(2) last_in_set [OF ne] nth_eq_iff_index_eq [OF apart_distinct [OF ids(2)], of "last ?ns" ?m] ids(1)
    by (auto simp: last_map MAX_CLIENTS_def)
  have ord0: "in_order h [] []" using inv(2) by (simp add: in_order_def)
  have "list_all turn_ok (ts2 @ ts3)" using ok by simp
  from more [OF this] have all: "connection_order (ts1 @ ts2 @ ts3) = ?ns"
    unfolding connection_order_def connects_append by (simp add: connects_append)
  note mcl = messages_client_last_def [of "ts1 @ ts2 @ ts3", unfolded all]
  note sched = rtt_schedule [where fuel = fuel, OF _ _ _ _ _ mode]
  have 1: "(\<exists>s1 h1 as1. ?run ts1 s = Ret s1 \<and> rtt_inv h1 ?os as1 s1 \<and> in_order h1 ?os as1 \<and>
      (\<forall>j. Client j \<in> set ts1 \<and> j \<noteq> ?m \<longrightarrow> client_states s1 ! j = Ended)) \<or> ?run ts1 s = Fault OutOfBounds \<and> last ?ns = ?m"
    using sched [of h "[]" "[]" s ts1] inv(1) ord0 ok'(1) unfolding connection_order_def by auto
  show ?thesis
  proof (cases "?run ts1 s = Fault OutOfBounds")
    case True
    with 1 len show ?thesis by (auto simp: run_steps_append mcl)
  next
    case False
    with 1 obtain s1 h1 as1 where 1: "?run ts1 s = Ret s1" "rtt_inv h1 ?os as1 s1" "in_order h1 ?os as1"
      "\<forall>j. Client j \<in> set ts1 \<and> j \<noteq> ?m \<longrightarrow> client_states s1 ! j = Ended" by blast
    have ret: "\<exists>s3 h3 as3. ?run ts3 s2 = Ret s3 \<and> rtt_inv h3 ?os as3 s3 \<and>
        (\<forall>j. client_states s2 ! j = Ended \<or> Client j \<in> set ts3 \<and> rtt \<in> set as2 \<longrightarrow> client_states s3 ! j = Ended) \<and>
        next_client s3 = MAX_CLIENTS" if two: "rtt_inv h2 ?os as2 s2" "in_order h2 ?os as2" "next_client s2 = MAX_CLIENTS" "last ?ns \<noteq> ?m"
      for s2 h2 as2
      using sched [OF two(1,2) ns(1) equalityD1 [OF ns(2)] ok'(3), unfolded more [OF ok'(3)]] two(3,4) len by auto
    from sched [OF 1(2,3) ns(1) equalityD1 [OF ns(2)] ok'(2), unfolded more [OF ok'(2)]] show ?thesis
    proof (elim disjE exE conjE)
      assume "?run ts2 s1 = Fault OutOfBounds" "last ?ns = ?m"
      with len show ?thesis by (simp add: run_steps_append 1(1) mcl)
    next
      fix s2 h2 as2
      assume 2: "?run ts2 s1 = Ret s2" "rtt_inv h2 ?os as2 s2" "in_order h2 ?os as2"
        "\<forall>j. client_states s1 ! j = Ended \<or> Client j \<in> set ts2 \<and> (j \<noteq> ?m \<or> rtt \<in> set as1) \<longrightarrow> client_states s2 ! j = Ended"
        "length ?ns = MAX_CLIENTS \<longrightarrow> next_client s2 = MAX_CLIENTS \<or>
           next_client s1 < MAX_CLIENTS \<and> accept_slot h2 = accept_slot h1 + int (count_list ts2 Server)"
      have lp: "loop_stored h2 ?os as2 s2" using 2(2) by (simp add: rtt_inv_def)
      have nx: "next_client s2 = MAX_CLIENTS"
      proof (rule ccontr)
        assume no: "next_client s2 \<noteq> MAX_CLIENTS"
        then have "length as2 < MAX_CLIENTS" using lp loop_next [OF lp] by (auto simp: loop_stored_def)
        moreover have "MAX_CLIENTS \<le> nat (accept_slot h2)" using 2(5) no len ts(2) 1(3) by (auto simp: in_order_def)
        ultimately show False using 2(3) by (auto simp: in_order_def)
      qed
      have ns_last: "last ?ns \<noteq> ?m" using loop_over(3) [OF 2(2) nx 2(3)] len lst by simp
      from ret [OF 2(2,3) nx ns_last] obtain s3 h3 as3 where 3: "?run ts3 s2 = Ret s3" "rtt_inv h3 ?os as3 s3"
        "\<forall>j. client_states s2 ! j = Ended \<or> Client j \<in> set ts3 \<and> rtt \<in> set as2 \<longrightarrow> client_states s3 ! j = Ended" "next_client s3 = MAX_CLIENTS"
        by blast
      have "client_states s3 ! n = Ended" if "n < MAX_CLIENTS" for n
        using 1(4) 2(4) 3(3) ts(1,3) loop_over(1) [OF 2(2) nx] that by (cases "n = ?m") auto
      moreover have "?run (ts1 @ ts2 @ ts3) s = Ret s3" by (simp add: run_steps_append 1(1) 2(1) 3(1))
      ultimately show ?thesis using ns_last 3(2,4) by (auto simp: mcl)
    qed
  qed
qed

end

lemma rtt_test_start:
  assumes rd: "bench_ready K P (Suc fuel) (nonces(MAX_CLIENTS - 1 := 0)) garbage sc k k1"
  obtains t where "coord_shmaddr sc = Shm t" "bench_clients K P sc t (bench_ids (nonces(MAX_CLIENTS - 1 := 0)))"
    "bench_clients.rtt_inv K P t (bench_ids (nonces(MAX_CLIENTS - 1 := 0))) During clock (init_header t zero_header) [] []
      (test_start (nonces(MAX_CLIENTS - 1 := 0)) junk garbage k1)"
    "accept_slot (init_header t zero_header) = 0"
    "map client_hash (bench_ids (nonces(MAX_CLIENTS - 1 := 0))) ! (MAX_CLIENTS - 1) = hash (client_name (int MAX_CLIENTS - 1))"
proof -
  let ?nonces = "nonces(MAX_CLIENTS - 1 := 0)"
  obtain t where t: "coord_shmaddr sc = Shm t" and loc: "bench_clients K P sc t (bench_ids ?nonces)"
    and inv: "bench_clients.test_inv K P t (bench_ids ?nonces) During clock (init_header t zero_header) [] (test_start ?nonces junk garbage k1)"
    by (rule bench_start [OF rd])
  show thesis
    by (rule that [OF t loc bench_clients.rtt_begin [OF loc inv]])
      (simp_all add: test_start_def init_header_simps [OF zero_wf] bench_ids_def MAX_CLIENTS_def i32_def)
qed

text \<open>What is left of the test when the turns are over.\<close>

lemma rtt_test_report:
  assumes rd: "bench_ready K P (Suc fuel) (nonces(MAX_CLIENTS - 1 := 0)) garbage sc k k1"
    and rm: "\<forall>c t k. key_names K c k = Some t \<longrightarrow> fst (shmctl_rmid K t k) = 0"
    and t: "coord_shmaddr sc = Shm t" and loc: "bench_clients K P sc t (bench_ids (nonces(MAX_CLIENTS - 1 := 0)))"
    and run: "run_steps (rtt_step P (Suc fuel) sc clock) ts (test_start (nonces(MAX_CLIENTS - 1 := 0)) junk garbage k1) = Ret s"
    and inv: "bench_clients.rtt_inv K P t (bench_ids (nonces(MAX_CLIENTS - 1 := 0))) During clock h os as s"
  shows "if next_client s = MAX_CLIENTS \<and> (\<forall>n < MAX_CLIENTS. client_states s ! n = Ended)
    then \<exists>k'. key_names K (hash test_server_addr) k' \<noteq> Some t \<and>
      single_rtt_during_connection_test P (Suc fuel) 0 nonces junk garbage clock ts k =
        bind_out (connect_report (bench_args (nonces(MAX_CLIENTS - 1 := 0)) clock)) (\<lambda>lines. Ret (lines, k'))
    else single_rtt_during_connection_test P (Suc fuel) 0 nonces junk garbage clock ts k = Hang"
proof -
  let ?nonces = "nonces(MAX_CLIENTS - 1 := 0)"
  have srv: "rpc_server K P" and reg: "register_server P (Suc fuel) 0 test_server_addr k = Ret (Some sc, k1)"
    using rd by (simp_all add: bench_ready_def)
  have th: "bench_clients.threads_ok K P (bench_ids ?nonces) During clock os s"
    and op: "rpc_server.many K (hash test_server_addr) t 4 (map client_hash (bench_ids ?nonces)) h os (kern s)"
    and lp: "bench_clients.loop_stored K P (bench_ids ?nonces) h os as s"
    using inv unfolding bench_clients.rtt_inv_def [OF loc] by blast+
  have len: "length (client_states s) = MAX_CLIENTS" using th unfolding bench_clients.threads_ok_def [OF loc] by blast
  have ended: "list_all has_ended (client_states s) \<longleftrightarrow> (\<forall>n < MAX_CLIENTS. client_states s ! n = Ended)"
    unfolding list_all_length len by (metis has_ended.elims(2) has_ended.simps(1))
  have le: "next_client s \<le> MAX_CLIENTS" using lp unfolding bench_clients.loop_stored_def [OF loc] by blast
  show ?thesis
  proof (cases "next_client s = MAX_CLIENTS \<and> (\<forall>n < MAX_CLIENTS. client_states s ! n = Ended)")
    case True
    then have args: "client_args s = bench_args ?nonces clock"
      using bench_clients.over_timed [OF loc th] unfolding bench_clients.timed_def [OF loc] bench_args_def by blast
    have tab: "load_seg K t (kern s) = Some (Table h)" "key_names K (hash test_server_addr) (kern s) = Some t" "coord_wf h" "coord_shmid h = t"
      "\<forall>i < SLOT_NUM. settled t h i"
      using op rpc_server.many_settled [OF srv op] by (simp_all add: rpc_server.many_def [OF srv] coord_inv_def)
    obtain k' where k': "shutdown P True (Suc fuel) sc (kern s) = Ret k'" "key_names K (hash test_server_addr) k' \<noteq> Some t"
      using rpc_server.shutdown_run [OF srv tab t, of fuel] rm by blast
    show ?thesis
      using True ended bench_clients.loop_over(2) [OF loc inv] k'
      by (auto simp: single_rtt_during_connection_test_def reg run args simp del: One_nat_def)
  next
    case False
    then have "single_rtt_during_connection_test P (Suc fuel) 0 nonces junk garbage clock ts k = Hang"
      using le ended bench_clients.loop_over(2) [OF loc inv]
      by (auto simp: single_rtt_during_connection_test_def reg run simp del: One_nat_def)
    then show ?thesis unfolding if_not_P [OF False] .
  qed
qed

text \<open>A good end of the test: the figures, with the server shut down, or a division by zero when the messages took less than a millisecond.\<close>

definition connection_test_ends ::
  "('k, 'b) kernel \<Rightarrow> server_context \<Rightarrow> connection_args list \<Rightarrow> (out_line list \<times> 'k) outcome \<Rightarrow> bool"
where
  "connection_test_ends K sc args r \<longleftrightarrow>
     (let ns = elapsed_ns (args ! 19) in
      if ns < 1000000 then r = Fault DivByZero
      else \<exists>t k'. coord_shmaddr sc = Shm t \<and> key_names K (hash test_server_addr) k' \<noteq> Some t \<and>
        r = Ret ([Long ''ns/op'' (ns div 100000), Long ''ops/ms'' (100000 div (ns div 1000000)),
          Long ''Num RTT Clients'' 1, Long ''Num Connect Clients'' 19, Long ''Available Slots'' 40, Long ''Num Items'' 100000,
          Long ''Message Size'' 4, Long ''Average Connect Latency'' (cdiv (total_ns (take 19 args)) 19)], k'))"

lemma rtt_figures:
  assumes "valid_times (args ! 19)" "coord_shmaddr sc = Shm t" "key_names K (hash test_server_addr) k' \<noteq> Some t"
    "r = bind_out (connect_report args) (\<lambda>lines. Ret (lines, k'))"
  shows "connection_test_ends K sc args r"
  using assms single_rtt_report [OF assms(1)]
  by (auto simp: connection_test_ends_def Let_def connect_report_def MAX_CLIENTS_def SLOT_NUM_def NUM_ITEMS_def RTT_MESSAGE_SIZE_def
      rtt_client_def long_div_def)

section \<open>Properties\<close>

text \<open>
  C16: \<open>single_rtt_during_connection_test\<close> ends well unless the client with messages connects last.
  However connections, passes of the accept loop and exchanges alternate: if some other client connects after the client
  with messages, the turns never fault, and when they are enough (a turn of every client, then \<open>MAX_CLIENTS\<close> passes, then
  a turn of the client with messages) all messages are exchanged, the figures are printed and the server is shut
  down; the report divides by zero when the messages took less than a millisecond. If the client with
  messages connects last, enough turns write its second entry past the end of \<open>client_list\<close>.
\<close>

theorem single_rtt_during_connection_outcome:
  assumes "bench_ready K P (Suc fuel) (nonces(MAX_CLIENTS - 1 := 0)) garbage sc k k1"
    and "list_all turn_ok ts" "\<forall>c t k. key_names K c k = Some t \<longrightarrow> fst (shmctl_rmid K t k) = 0"
    and "args = bench_args (nonces(MAX_CLIENTS - 1 := 0)) clock" "valid_times (args ! 19)"
    and "test = single_rtt_during_connection_test P (Suc fuel) 0 nonces junk garbage clock ts k"
  shows "(\<not> messages_client_last ts \<longrightarrow> test = Hang \<or> connection_test_ends K sc args test) \<and>
    (\<forall>ts1 ts2 ts3. ts = ts1 @ ts2 @ ts3 \<and> (\<forall>n < MAX_CLIENTS. Client n \<in> set ts1) \<and>
        MAX_CLIENTS \<le> count_list ts2 Server \<and> Client (MAX_CLIENTS - 1) \<in> set ts3 \<longrightarrow>
      (if messages_client_last ts then test = Fault OutOfBounds else connection_test_ends K sc args test))"
proof -
  let ?nonces = "nonces(MAX_CLIENTS - 1 := 0)" and ?run = "run_steps (rtt_step P (Suc fuel) sc clock)"
  obtain t where t: "coord_shmaddr sc = Shm t" and loc: "bench_clients K P sc t (bench_ids ?nonces)"
    and start: "bench_clients.rtt_inv K P t (bench_ids ?nonces) During clock (init_header t zero_header) [] [] (test_start ?nonces junk garbage k1)"
    and slot: "accept_slot (init_header t zero_header) = 0"
    and id: "map client_hash (bench_ids ?nonces) ! (MAX_CLIENTS - 1) = hash (client_name (int MAX_CLIENTS - 1))"
    by (rule rtt_test_start [OF assms(1)])
  have reg: "register_server P (Suc fuel) 0 test_server_addr k = Ret (Some sc, k1)" using assms(1) by (simp add: bench_ready_def)
  note rep = rtt_test_report [OF assms(1,3) t loc, of clock ts junk, folded assms(4,6)]
  have fault: "test = Fault OutOfBounds" if "?run ts (test_start ?nonces junk garbage k1) = Fault OutOfBounds"
    using that by (simp add: assms(6) single_rtt_during_connection_test_def reg)
  have ends: "connection_test_ends K sc args test"
    if e: "\<exists>k'. key_names K (hash test_server_addr) k' \<noteq> Some t \<and> test = bind_out (connect_report args) (\<lambda>lines. Ret (lines, k'))"
  proof -
    from e obtain k' where "key_names K (hash test_server_addr) k' \<noteq> Some t" "test = bind_out (connect_report args) (\<lambda>lines. Ret (lines, k'))"
      by (elim exE conjE)
    then show ?thesis by (rule rtt_figures [OF assms(5) t])
  qed
  have dur: "During \<noteq> Stress" by simp
  have any: "test = Hang \<or> connection_test_ends K sc args test" if last: "\<not> messages_client_last ts"
  proof -
    from bench_clients.rtt_any [OF loc start slot assms(2) dur id, where fuel = fuel] last obtain s h os as where
      "?run ts (test_start ?nonces junk garbage k1) = Ret s" "bench_clients.rtt_inv K P t (bench_ids ?nonces) During clock h os as s" by blast
    note r = rep [OF this]
    show ?thesis
    proof (cases "next_client s = MAX_CLIENTS \<and> (\<forall>n < MAX_CLIENTS. client_states s ! n = Ended)")
      case True
      from ends [OF r [unfolded if_P [OF True]]] show ?thesis by (rule disjI2)
    next
      case False
      from r [unfolded if_not_P [OF False]] show ?thesis by (rule disjI1)
    qed
  qed
  have fair: "if messages_client_last ts then test = Fault OutOfBounds else connection_test_ends K sc args test"
    if ts: "ts = ts1 @ ts2 @ ts3" "\<forall>n < MAX_CLIENTS. Client n \<in> set ts1" "MAX_CLIENTS \<le> count_list ts2 Server"
      "Client (MAX_CLIENTS - 1) \<in> set ts3" for ts1 ts2 ts3
  proof -
    note run = bench_clients.rtt_run [OF loc start slot assms(2) [unfolded ts(1)] ts(2-4) dur id, where fuel = fuel, folded ts(1)]
    show ?thesis
    proof (cases "messages_client_last ts")
      case True
      with run fault show ?thesis by simp
    next
      case False
      with run obtain s h os as where s: "?run ts (test_start ?nonces junk garbage k1) = Ret s"
        "bench_clients.rtt_inv K P t (bench_ids ?nonces) During clock h os as s"
        "next_client s = MAX_CLIENTS \<and> (\<forall>n < MAX_CLIENTS. client_states s ! n = Ended)" by auto
      from ends [OF rep [OF s(1,2), unfolded if_P [OF s(3)]]] False show ?thesis by simp
    qed
  qed
  from any fair show ?thesis by blast
qed

theorem single_rtt_during_connection_outcome_witness:
  "single_rtt_during_connection_test demo_platform 1 0 demo_nonces (\<lambda>_. demo_args 0 0) demo_garbage demo_clock
      (map Client [0..<20] @ replicate 20 Server @ [Client 19]) ref_boot = Fault OutOfBounds \<and>
   (\<exists>k'. single_rtt_during_connection_test demo_platform 1 0 demo_nonces (\<lambda>_. demo_args 0 0) demo_garbage demo_clock
      ((Client 19 # Server # map Client [0..<19]) @ replicate 20 Server @ [Client 19]) ref_boot =
    Ret ([Long ''ns/op'' 2000, Long ''ops/ms'' 500, Long ''Num RTT Clients'' 1, Long ''Num Connect Clients'' 19,
      Long ''Available Slots'' 40, Long ''Num Items'' 100000, Long ''Message Size'' 4, Long ''Average Connect Latency'' 357894736], k'))"
proof -
  have nonces: "demo_nonces(MAX_CLIENTS - 1 := 0) = demo_nonces" by auto
  obtain k1 where rd: "bench_ready (sysv_of demo_platform) demo_platform (Suc 0) (demo_nonces(MAX_CLIENTS - 1 := 0)) demo_garbage demo_context ref_boot k1"
    unfolding nonces using demo_bench by blast
  let ?args = "bench_args (demo_nonces(MAX_CLIENTS - 1 := 0)) demo_clock"
  let ?bad = "map Client [0..<20] @ replicate 20 Server @ [Client 19]"
  let ?good = "(Client 19 # Server # map Client [0..<19]) @ replicate 20 Server @ [Client 19]"
  have args: "valid_times (?args ! 19)" "elapsed_ns (?args ! 19) = 200000000" "total_ns (take 19 ?args) = 6800000000"
    unfolding nonces by (simp_all add: demo_bench_args upt_20 valid_times_def total_ns_def client_ns_def sec_diff_def nsec_diff_def
        elapsed_ns_eq elapsed_ms_eq cdiv_def trunc_def)
  have ok: "list_all turn_ok ?bad" "list_all turn_ok ?good" by (simp_all add: MAX_CLIENTS_def list_all_iff)
  have count: "count_list (replicate n x) x = n" for n and x :: turn by (induction n) simp_all
  have fair: "MAX_CLIENTS \<le> count_list (replicate 20 Server) Server" "Client (MAX_CLIENTS - 1) \<in> set [Client 19]"
    "\<forall>n < MAX_CLIENTS. Client n \<in> set (map Client [0..<20])" "\<forall>n < MAX_CLIENTS. Client n \<in> set (Client 19 # Server # map Client [0..<19])"
    by (auto simp: count MAX_CLIENTS_def)
  have order: "messages_client_last ?bad" "\<not> messages_client_last ?good"
    by (simp_all add: messages_client_last_def connection_order_def connects_append MAX_CLIENTS_def upt_rec numeral_eq_Suc)
  note outcome = single_rtt_during_connection_outcome [OF rd _ demo_rmid refl args(1) refl, of _ "\<lambda>_. demo_args 0 0",
      THEN conjunct2, rule_format, OF _ conjI [OF refl conjI [OF _ conjI [OF fair(1,2)]]]]
  from outcome [OF ok(1) fair(3)] outcome [OF ok(2) fair(4)] order
  show ?thesis unfolding connection_test_ends_def args Let_def by (auto simp: cdiv_def)
qed

end
