(* ===== verification/Accept_Heap.thy ===== *)
theory Accept_Heap
  imports Bench_Tests Turns
begin

text \<open>
  The heap blocks of connections: \<open>select_queue_ctx\<close> and \<open>_create_server_queue_pair\<close> of \<open>src/libnotnets/src/rpc.cpp\<close> allocate two
  blocks for each context, and \<open>free_queue_ctx\<close> frees them. The accept loop of the tests in
  \<open>src/bench_rpc/src/bench.cpp\<close> hands the contexts it records to handler threads, which free them; of a repeated connection it frees the
  context only, or nothing. The blocks of the client threads and of \<open>pthread_t\<close> are not counted.
\<close>

section \<open>Blocks\<close>

record heap =
  live :: "nat list"
  fresh :: nat

definition malloc :: "heap \<Rightarrow> nat \<times> heap" where
  "malloc hp = (fresh hp, hp\<lparr>live := fresh hp # live hp, fresh := Suc (fresh hp)\<rparr>)"

text \<open>Freeing a block that is not allocated is undefined.\<close>

definition free_block :: "nat \<Rightarrow> heap \<Rightarrow> heap outcome" where
  "free_block b hp = (if b \<in> set (live hp) then Ret (hp\<lparr>live := remove1 b (live hp)\<rparr>) else Fault BadPointer)"

text \<open>A context is its own block and the block of its queue pair.\<close>

definition free_queue_ctx :: "nat \<times> nat \<Rightarrow> heap \<Rightarrow> heap outcome" where
  "free_queue_ctx ctx hp = bind_out (free_block (snd ctx) hp) (free_block (fst ctx))"

fun free_all :: "(nat \<times> nat) list \<Rightarrow> heap \<Rightarrow> heap outcome" where
  "free_all [] hp = Ret hp"
| "free_all (ctx # ctxs) hp = bind_out (free_queue_ctx ctx hp) (free_all ctxs)"

section \<open>The accept loop with its heap\<close>

text \<open>The test, the heap, and the contexts of the handler threads.\<close>

type_synonym 'k heap_test = "'k bench_test \<times> heap \<times> (nat \<times> nat) list"

definition heap_server_turn :: "('k, 'b) platform \<Rightarrow> nat \<Rightarrow> server_context \<Rightarrow> 'k heap_test \<Rightarrow> 'k heap_test outcome" where
  "heap_server_turn P fuel sc = (\<lambda>(s, hp, own).
     if next_client s < MAX_CLIENTS then
       bind_out (accept P fuel sc (kern s)) (\<lambda>(s_qp, k1).
         case s_qp of
           None \<Rightarrow> Ret (s\<lparr>kern := k1\<rparr>, hp, own)
         | Some qp \<Rightarrow>
             let (ctx, hp1) = malloc hp; (pair, hp2) = malloc hp1; key = qp_client_id (queues qp) in
             if bsearch key (client_list s) \<noteq> None then
               bind_out (free_block ctx hp2) (\<lambda>hp3. Ret (s\<lparr>kern := k1\<rparr>, hp3, own))
             else if request_shmaddr (queues qp) \<noteq> Null then
               Ret (s\<lparr>kern := k1, client_list := (client_list s)[next_client s := key],
                      next_client := next_client s + 1, handlers := handlers s @ [qp]\<rparr>, hp2, own @ [(ctx, pair)])
             else Ret (s\<lparr>kern := k1\<rparr>, hp2, own))
     else Ret (s, hp, own))"

fun heap_step ::
  "test_mode \<Rightarrow> ('k, 'b) platform \<Rightarrow> nat \<Rightarrow> server_context \<Rightarrow> (nat \<Rightarrow> timespec \<times> timespec) \<Rightarrow> turn \<Rightarrow> 'k heap_test \<Rightarrow> 'k heap_test outcome"
where
  "heap_step mode P fuel sc clock (Client n) (s, hp, own) =
     bind_out (client_turn mode P fuel clock n s) (\<lambda>s1. Ret (s1, hp, own))"
| "heap_step mode P fuel sc clock Server (s, hp, own) = heap_server_turn P fuel sc (s, hp, own)"

section \<open>What the loop owns and what it loses\<close>

definition blocks :: "(nat \<times> nat) list \<Rightarrow> nat list" where
  "blocks own = concat (map (\<lambda>x. [fst x, snd x]) own)"

lemma blocks_simps [simp]: "blocks [] = []" "blocks (x # own) = fst x # snd x # blocks own" "blocks (own @ own') = blocks own @ blocks own'"
  "length (blocks own) = 2 * length own"
  by (induction own) (auto simp: blocks_def)

text \<open>The contexts of the handlers are allocated and different; \<open>lost\<close> counts the blocks nobody will free.\<close>

definition heap_ok :: "heap \<Rightarrow> (nat \<times> nat) list \<Rightarrow> bool" where
  "heap_ok hp own \<longleftrightarrow> distinct (live hp) \<and> (\<forall>b \<in> set (live hp). b < fresh hp) \<and> distinct (blocks own) \<and> set (blocks own) \<subseteq> set (live hp)"

definition lost :: "heap \<Rightarrow> (nat \<times> nat) list \<Rightarrow> nat" where
  "lost hp own = length (live hp) - 2 * length own"

lemma heap_ok_length:
  assumes "heap_ok hp own"
  shows "2 * length own \<le> length (live hp)"
  using assms card_mono [of "set (live hp)" "set (blocks own)"] distinct_card [of "live hp"] distinct_card [of "blocks own"]
  by (simp add: heap_ok_def)

text \<open>Handlers can free what they own: nothing is freed twice, and what is left is lost.\<close>

lemma free_all_ok:
  "heap_ok hp own \<Longrightarrow> \<exists>hp'. free_all own hp = Ret hp' \<and> length (live hp') = lost hp own"
proof (induction own arbitrary: hp)
  case Nil
  then show ?case by (simp add: lost_def)
next
  case (Cons x own)
  obtain c p where x: "x = (c, p)" by (cases x)
  let ?hp = "hp\<lparr>live := remove1 c (remove1 p (live hp))\<rparr>"
  have d: "distinct (live hp)" "c \<in> set (live hp)" "p \<in> set (live hp)" "c \<noteq> p" "c \<notin> set (blocks own)" "p \<notin> set (blocks own)"
    using Cons.prems x by (auto simp: heap_ok_def)
  have "heap_ok ?hp own" using Cons.prems d x by (auto simp: heap_ok_def)
  moreover have "lost ?hp own = lost hp (x # own)" using d by (simp add: lost_def length_remove1)
  moreover have "free_queue_ctx x hp = Ret ?hp" using d x by (simp add: free_queue_ctx_def free_block_def)
  ultimately show ?case using Cons.IH [of ?hp] by simp
qed

lemma heap_alloc:
  assumes "heap_ok hp own" "malloc hp = (c, hp1)" "malloc hp1 = (p, hp2)"
  shows "heap_ok hp2 (own @ [(c, p)])" "lost hp2 (own @ [(c, p)]) = lost hp own" "heap_ok hp2 own" "lost hp2 own = Suc (Suc (lost hp own))"
    "\<exists>hp3. free_block c hp2 = Ret hp3 \<and> heap_ok hp3 own \<and> lost hp3 own = Suc (lost hp own)"
proof -
  have new: "c = fresh hp" "p = Suc (fresh hp)" "hp2 = \<lparr>live = p # c # live hp, fresh = Suc p\<rparr>" using assms(2,3) by (auto simp: malloc_def)
  have notin: "fresh hp \<notin> set (live hp)" "Suc (fresh hp) \<notin> set (live hp)" using assms(1) by (auto simp: heap_ok_def)
  note le = heap_ok_length [OF assms(1)]
  show "heap_ok hp2 (own @ [(c, p)])" "heap_ok hp2 own" using assms(1) new notin by (auto simp: heap_ok_def)
  show "lost hp2 (own @ [(c, p)]) = lost hp own" "lost hp2 own = Suc (Suc (lost hp own))" using le new by (auto simp: lost_def)
  have "free_block c hp2 = Ret (hp2\<lparr>live := p # live hp\<rparr>)" using new by (simp add: free_block_def)
  moreover have "heap_ok (hp2\<lparr>live := p # live hp\<rparr>) own" using assms(1) new notin by (auto simp: heap_ok_def)
  moreover have "lost (hp2\<lparr>live := p # live hp\<rparr>) own = Suc (lost hp own)" using le by (simp add: lost_def)
  ultimately show "\<exists>hp3. free_block c hp2 = Ret hp3 \<and> heap_ok hp3 own \<and> lost hp3 own = Suc (lost hp own)" by blast
qed

text \<open>A pass is a pass of the loop without the heap, and loses blocks when \<open>accept\<close> returns a context that is not recorded.\<close>

lemma heap_pass:
  assumes ok: "heap_ok hp own" and turn: "server_turn P fuel sc s = Ret s'"
  obtains hp' own' where "heap_server_turn P fuel sc (s, hp, own) = Ret (s', hp', own')" "heap_ok hp' own'" "lost hp own \<le> lost hp' own'"
    "length own' + next_client s = length own + next_client s'"
    "\<And>qp k1. next_client s < MAX_CLIENTS \<Longrightarrow> accept P fuel sc (kern s) = Ret (Some qp, k1) \<Longrightarrow> next_client s' = next_client s \<Longrightarrow>
       lost hp own < lost hp' own'"
proof (cases "next_client s < MAX_CLIENTS")
  case False
  with ok turn show thesis by (intro that [of hp own]) (simp_all add: heap_server_turn_def server_turn_def)
next
  case room: True
  with turn obtain r k1 where acc: "accept P fuel sc (kern s) = Ret (r, k1)" by (cases "accept P fuel sc (kern s)") (auto simp: server_turn_def)
  obtain c hp1 p hp2 where m: "malloc hp = (c, hp1)" "malloc hp1 = (p, hp2)" by (meson surj_pair)
  note al = heap_alloc [OF ok m]
  from al(5) obtain hp3 where hp3: "free_block c hp2 = Ret hp3" "heap_ok hp3 own" "lost hp3 own = Suc (lost hp own)" by blast
  show thesis
  proof (cases r)
    case None
    with turn room acc ok show thesis by (intro that [of hp own]) (auto simp: heap_server_turn_def server_turn_def)
  next
    case (Some qp)
    let ?found = "bsearch (qp_client_id (queues qp)) (client_list s) \<noteq> None"
    consider (found) "?found" | (null) "\<not> ?found" "request_shmaddr (queues qp) = Null" | (new) "\<not> ?found" "request_shmaddr (queues qp) \<noteq> Null" by blast
    then show thesis
    proof cases
      case found
      with turn room acc Some m hp3 show thesis by (intro that [of hp3 own]) (auto simp: heap_server_turn_def server_turn_def Let_def)
    next
      case null
      with turn room acc Some m al(3,4) show thesis by (intro that [of hp2 own]) (auto simp: heap_server_turn_def server_turn_def Let_def)
    next
      case new
      with turn room acc Some m al(1,2) show thesis
        by (intro that [of hp2 "own @ [(c, p)]"]) (auto simp: heap_server_turn_def server_turn_def Let_def)
    qed
  qed
qed

section \<open>Waiting for the next client\<close>

context bench_clients
begin

lemma accept_some:
  assumes inv: "test_inv h os s" and ne: "os \<noteq> []"
  shows "\<exists>u. accept_loop SLOT_NUM (nat (accept_slot h)) h = Some u"
proof -
  let ?a = "nat (accept_slot h)"
  have a: "?a < SLOT_NUM" by (rule test_slot [OF inv])
  have "ready h 0" using test_ready [OF inv, of 0] ne by (simp add: SLOT_NUM_def)
  moreover have "(?a + (SLOT_NUM - ?a)) mod SLOT_NUM = 0" using a by simp
  moreover have "(?a + (SLOT_NUM - ?a) mod SLOT_NUM) mod SLOT_NUM = (?a + (SLOT_NUM - ?a)) mod SLOT_NUM" by (simp add: mod_add_right_eq)
  ultimately show ?thesis
    using accept_loop_finds [OF a, of "(SLOT_NUM - ?a) mod SLOT_NUM" SLOT_NUM h] by (auto simp: SLOT_NUM_def)
qed

text \<open>When every connection is accepted, \<open>accept\<close> still returns one of them, without addresses.\<close>

lemma repeat_pass:
  assumes inv: "test_inv h os s" and all: "os \<noteq> []" "attached h os = set os" and room: "next_client s < MAX_CLIENTS"
  obtains qp k' h' where "accept P fuel sc (kern s) = Ret (Some qp, k')" "server_turn P fuel sc s = Ret (s\<lparr>kern := k'\<rparr>)"
    "test_inv h' os (s\<lparr>kern := k'\<rparr>)" "attached h' os = set os"
proof -
  from inv have op: "opened h os (kern s)" and th: "threads_ok os s" and sv: "server_ok h os s" by (simp_all add: test_inv_def)
  obtain u where u: "accept_loop SLOT_NUM (nat (accept_slot h)) h = Some u" using accept_some [OF inv all(1)] by blast
  obtain qp k' h' where r: "accept P fuel sc (kern s) = Ret (Some qp, k')" "u < length os" "opened h' os k'" "keeps {} t (kern s) k'"
    "\<And>j. j < length os \<Longrightarrow> server_attached (slots h' ! j) = (j = u \<or> server_attached (slots h ! j))"
    "server_attached (slots h ! u) \<Longrightarrow> request_shmaddr (queues qp) = Null"
    by (rule many_accept [OF op sc u, of fuel], rule that) (assumption | blast)+
  have d: "distinct os" using op by (simp add: many_def)
  have "os ! u \<in> attached h os" using all(2) r(2) by simp
  then obtain j where "j < length os" "os ! j = os ! u" "server_attached (slots h ! j)" by (auto simp: attached_def)
  then have at: "server_attached (slots h ! u)" using d r(2) by (simp add: nth_eq_iff_index_eq)
  then have att: "attached h' os = attached h os" using r(5) by (auto simp: attached_def)
  then have "test_inv h' os (s\<lparr>kern := k'\<rparr>)"
    using r(3) threads_keeps [OF th r(4)] server_keeps [OF sv r(4)] by (simp add: test_inv_def)
  moreover have "server_turn P fuel sc s = Ret (s\<lparr>kern := k'\<rparr>)" using room r(1) r(6) [OF at] by (simp add: server_turn_def Let_def)
  ultimately show thesis using r(1) all(2) att by (intro that [of qp k' h']) simp_all
qed

lemma repeat_passes:
  assumes "test_inv h os s" "os \<noteq> []" "attached h os = set os" "next_client s < MAX_CLIENTS" "heap_ok hp own"
  shows "\<exists>s' hp' own' h'. run_steps (heap_step mode P fuel sc clock) (replicate n Server) (s, hp, own) = Ret (s', hp', own') \<and>
    test_inv h' os s' \<and> next_client s' = next_client s \<and> heap_ok hp' own' \<and> length own' = length own \<and> lost hp own + n \<le> lost hp' own'"
  using assms
proof (induction n arbitrary: h s hp own)
  case 0
  then show ?case by auto
next
  case (Suc n)
  obtain qp k1 h1 where 1: "accept P fuel sc (kern s) = Ret (Some qp, k1)" "server_turn P fuel sc s = Ret (s\<lparr>kern := k1\<rparr>)"
    "test_inv h1 os (s\<lparr>kern := k1\<rparr>)" "attached h1 os = set os"
    by (rule repeat_pass [OF Suc.prems(1-4), of fuel]) (rule that)
  obtain hp1 own1 where 2: "heap_server_turn P fuel sc (s, hp, own) = Ret (s\<lparr>kern := k1\<rparr>, hp1, own1)" "heap_ok hp1 own1"
    "length own1 = length own" "lost hp own < lost hp1 own1"
    by (rule heap_pass [OF Suc.prems(5) 1(2)]) (use 1(1) Suc.prems(4) that in auto)
  have room: "next_client (s\<lparr>kern := k1\<rparr>) < MAX_CLIENTS" using Suc.prems(4) by simp
  from Suc.IH [OF 1(3) Suc.prems(2) 1(4) room 2(2)] show ?case using 2 by fastforce
qed

text \<open>One client connects and is accepted; the loop goes on waiting for the next.\<close>

lemma first_passes:
  assumes inv: "test_inv h [] s" "next_client s = 0" and c: "c < MAX_CLIENTS" and ok: "heap_ok hp []"
  shows "\<exists>s' hp' own. run_steps (heap_step mode P (Suc fuel) sc clock) (Client c # replicate (Suc n) Server) (s, hp, []) = Ret (s', hp', own) \<and>
    next_client s' = 1 \<and> heap_ok hp' own \<and> length own = 1 \<and> lost hp [] + n \<le> lost hp' own"
proof -
  obtain s1 h1 where 1: "client_turn mode P (Suc fuel) clock c s = Ret s1" "test_inv h1 [ids ! c] s1" "attached h1 [ids ! c] = {}" "next_client s1 = 0"
    by (rule client_step [OF inv(1) c, of fuel]) (use inv(2) that in \<open>auto simp: attached_def\<close>)
  have room: "next_client s1 < MAX_CLIENTS" using 1(4) by (simp add: MAX_CLIENTS_def)
  obtain u where u: "accept_loop SLOT_NUM (nat (accept_slot h1)) h1 = Some u" using accept_some [OF 1(2)] by blast
  obtain s2 h2 where 2: "server_turn P (Suc fuel) sc s1 = Ret s2" "test_inv h2 [ids ! c] s2" "attached h2 [ids ! c] = {ids ! c}"
    by (rule server_step [OF 1(2), of "Suc fuel"]) (use u room that in \<open>auto simp: attached_def\<close>)
  have "distinct (take (next_client s2) (client_list s2))" "set (take (next_client s2) (client_list s2)) = {ids ! c}"
    "next_client s2 \<le> length (client_list s2)" using 2(2,3) by (simp_all add: test_inv_def server_ok_def)
  then have one: "next_client s2 = 1" using distinct_card by fastforce
  obtain hp2 own where 3: "heap_server_turn P (Suc fuel) sc (s1, hp, []) = Ret (s2, hp2, own)" "heap_ok hp2 own" "lost hp [] \<le> lost hp2 own" "length own = 1"
    by (rule heap_pass [OF ok 2(1)]) (use 1(4) one that in auto)
  have r2: "next_client s2 < MAX_CLIENTS" using one by (simp add: MAX_CLIENTS_def)
  from repeat_passes [OF 2(2) _ _ r2 3(2), of "Suc fuel" n] 2(3) obtain s3 hp3 own3 where
    4: "run_steps (heap_step mode P (Suc fuel) sc clock) (replicate n Server) (s2, hp2, own) = Ret (s3, hp3, own3)"
    "next_client s3 = next_client s2" "heap_ok hp3 own3" "length own3 = length own" "lost hp2 own + n \<le> lost hp3 own3" by auto
  from 1(1) 3 4 one show ?thesis by simp
qed

end

section \<open>Properties\<close>

text \<open>
  C18: the accept loop leaks while it waits. One client connects and is accepted, and no other connects during \<open>n\<close> more
  passes: each pass gets the same connection again and loses its blocks. When the handler has freed its own context,
  which it can, at least \<open>n\<close> blocks are left that nothing points to; \<open>n\<close> has no bound.
\<close>

theorem accept_loop_leaks:
  assumes "bench_ready K P (Suc fuel) nonces garbage sc k k1" "c < MAX_CLIENTS"
  shows "\<exists>s hp own hp'. run_steps (heap_step mode P (Suc fuel) sc clock) (Client c # replicate (Suc n) Server)
      (test_start nonces junk garbage k1, \<lparr>live = [], fresh = 0\<rparr>, []) = Ret (s, hp, own) \<and>
    next_client s = 1 \<and> length own = 1 \<and> free_all own hp = Ret hp' \<and> n \<le> length (live hp')"
proof -
  let ?s = "test_start nonces junk garbage k1"
  obtain t where loc: "bench_clients K P sc t (bench_ids nonces)"
    and inv: "bench_clients.test_inv K P t (bench_ids nonces) mode clock (init_header t zero_header) [] ?s"
    by (rule bench_start [OF assms(1)])
  have s: "next_client ?s = 0" by (simp add: test_start_def)
  have ok: "heap_ok \<lparr>live = [], fresh = 0\<rparr> []" by (simp add: heap_ok_def)
  from bench_clients.first_passes [OF loc inv s assms(2) ok, of fuel n] obtain s hp own where
    r: "run_steps (heap_step mode P (Suc fuel) sc clock) (Client c # replicate (Suc n) Server) (?s, \<lparr>live = [], fresh = 0\<rparr>, []) = Ret (s, hp, own)"
    "next_client s = 1" "heap_ok hp own" "length own = 1" "n \<le> lost hp own" by (auto simp: lost_def simp del: run_steps.simps)
  with free_all_ok [OF r(3)] show ?thesis by auto
qed

theorem accept_loop_leaks_witness:
  "\<exists>k1 s hp own hp'. run_steps (heap_step Stress demo_platform 1 demo_context demo_clock) (Client 3 # replicate 1001 Server)
      (test_start demo_nonces (\<lambda>_. demo_args 0 0) demo_garbage k1, \<lparr>live = [], fresh = 0\<rparr>, []) = Ret (s, hp, own) \<and>
    free_all own hp = Ret hp' \<and> 1000 \<le> length (live hp')"
proof -
  obtain k1 where rd: "bench_ready (sysv_of demo_platform) demo_platform (Suc 0) demo_nonces demo_garbage demo_context ref_boot k1"
    using demo_bench by blast
  have "3 < MAX_CLIENTS" "Suc 1000 = 1001" by (simp_all add: MAX_CLIENTS_def)
  from accept_loop_leaks [OF rd this(1), of Stress demo_clock 1000 "\<lambda>_. demo_args 0 0", unfolded this(2)] show ?thesis
    unfolding One_nat_def by blast
qed

end
