(* ===== verification/Boost_Bench.thy ===== *)
theory Boost_Bench
  imports Boost_Queue
begin

text \<open>
  The two programs that time \<open>boost::lockfree::spsc_queue<u_int>\<close> itself:
  \<open>src/bench_boost/src/comparison.cpp\<close>, a round trip over two queues, and
  \<open>src/bench_queue_boost/src/comparison.cpp\<close>, one producer and one consumer. The threads and
  the main program interleave at every operation on a queue and on \<open>stop_flag\<close>; a turn of
  an inner loop in which \<open>push\<close> or \<open>pop\<close> fails changes nothing and is not a step. The clock
  is an argument of the report. The code commented out in both files is not part of them.
\<close>

section \<open>Pinning threads and the report\<close>

text \<open>\<open>res\<close> is the result of \<open>pthread_setaffinity_np\<close>.\<close>

definition pinThread :: "int \<Rightarrow> int \<Rightarrow> unit outcome" where
  "pinThread cpu res = (if cpu < 0 then Ret () else if res = -1 then Exit 1 else Ret ())"

definition SPSC_CAPACITY :: nat where "SPSC_CAPACITY = 16024"

text \<open>
  The figures for a run of \<open>ns\<close> nanoseconds: seconds and items, then items per millisecond
  and nanoseconds per item, as integers. The two programs print the last two in different orders.
\<close>

definition spsc_rates :: "int \<Rightarrow> int \<Rightarrow> (int \<times> int) outcome" where
  "spsc_rates ns items =
     (if cdiv ns 1000000 = 0 then Fault DivByZero
      else if items = 0 then Fault DivByZero
      else Ret (cdiv items (cdiv ns 1000000), cdiv ns items))"

definition boost_rtt_report :: "int \<Rightarrow> int \<Rightarrow> int list outcome" where
  "boost_rtt_report ns items =
     bind_out (spsc_rates ns items) (\<lambda>(ops, lat). Ret [cdiv ns 1000000000, items, ops, lat])"

definition boost_spsc_report :: "int \<Rightarrow> int \<Rightarrow> int list outcome" where
  "boost_spsc_report ns items =
     bind_out (spsc_rates ns items) (\<lambda>(ops, lat). Ret [cdiv ns 1000000000, items, lat, ops])"

section \<open>The round trip\<close>

datatype server_pc =
    SrvLoop "32 word"
  | SrvPop "32 word"
  | SrvPush "32 word" "32 word"
  | SrvDone "32 word"

datatype client_pc =
    CltLoop "32 word"
  | CltPush "32 word"
  | CltPop "32 word"
  | CltThrow
  | CltDone "32 word"

text \<open>The main program: before it clears \<open>stop_flag\<close>, in \<open>sleep\<close>, joining the threads, and after both have ended.\<close>

datatype main_pc = Launch | Asleep | Joining | Joined

record 'b boost_rtt =
  rtt_q :: 'b
  rtt_q2 :: 'b
  rtt_stop :: bool
  rtt_server :: server_pc
  rtt_client :: client_pc
  rtt_main :: main_pc
  rtt_consumed :: int

definition boost_rtt_start :: "'b \<Rightarrow> 'b \<Rightarrow> 'b boost_rtt" where
  "boost_rtt_start q q2 = \<lparr>rtt_q = q, rtt_q2 = q2, rtt_stop = True, rtt_server = SrvLoop 0,
     rtt_client = CltLoop 0, rtt_main = Launch, rtt_consumed = 0\<rparr>"

inductive boost_rtt_step :: "(32 word, 'b) boost_lib \<Rightarrow> 'b boost_rtt \<Rightarrow> 'b boost_rtt \<Rightarrow> bool" for B where
  srv_go: "rtt_server s = SrvLoop i \<Longrightarrow> \<not> rtt_stop s \<Longrightarrow> boost_rtt_step B s (s\<lparr>rtt_server := SrvPop i\<rparr>)"
| srv_end: "rtt_server s = SrvLoop i \<Longrightarrow> rtt_stop s \<Longrightarrow>
    boost_rtt_step B s (s\<lparr>rtt_server := SrvDone i, rtt_consumed := i32 (uint i)\<rparr>)"
| srv_pop: "rtt_server s = SrvPop i \<Longrightarrow> lib_pop B (rtt_q s) = Some (v, q') \<Longrightarrow>
    boost_rtt_step B s (s\<lparr>rtt_q := q', rtt_server := SrvPush i v\<rparr>)"
| srv_push: "rtt_server s = SrvPush i v \<Longrightarrow> lib_push B v (rtt_q2 s) = (True, q') \<Longrightarrow>
    boost_rtt_step B s (s\<lparr>rtt_q2 := q', rtt_server := SrvLoop (i + 1)\<rparr>)"
| clt_go: "rtt_client s = CltLoop i \<Longrightarrow> \<not> rtt_stop s \<Longrightarrow> boost_rtt_step B s (s\<lparr>rtt_client := CltPush i\<rparr>)"
| clt_end: "rtt_client s = CltLoop i \<Longrightarrow> rtt_stop s \<Longrightarrow> boost_rtt_step B s (s\<lparr>rtt_client := CltDone i\<rparr>)"
| clt_push: "rtt_client s = CltPush i \<Longrightarrow> lib_push B i (rtt_q s) = (True, q') \<Longrightarrow>
    boost_rtt_step B s (s\<lparr>rtt_q := q', rtt_client := CltPop i\<rparr>)"
| clt_pop: "rtt_client s = CltPop i \<Longrightarrow> lib_pop B (rtt_q2 s) = Some (v, q') \<Longrightarrow>
    boost_rtt_step B s (s\<lparr>rtt_q2 := q', rtt_client := (if v \<noteq> i then CltThrow else CltLoop (i + 1))\<rparr>)"
| main_start: "rtt_main s = Launch \<Longrightarrow> boost_rtt_step B s (s\<lparr>rtt_stop := False, rtt_main := Asleep\<rparr>)"
| main_stop: "rtt_main s = Asleep \<Longrightarrow> boost_rtt_step B s (s\<lparr>rtt_stop := True, rtt_main := Joining\<rparr>)"
| main_join: "rtt_main s = Joining \<Longrightarrow> rtt_server s = SrvDone i \<Longrightarrow> rtt_client s = CltDone j \<Longrightarrow>
    boost_rtt_step B s (s\<lparr>rtt_main := Joined\<rparr>)"

section \<open>Producer and consumer\<close>

datatype producer = PrdLoop "32 word" | PrdPush "32 word" | PrdJoin "32 word" | PrdDone "32 word"

datatype consumer = CsmLoop "32 word" | CsmPop "32 word" | CsmThrow | CsmDone "32 word"

record 'b boost_pc =
  pc_q :: 'b
  pc_stop :: bool
  pc_producer :: producer
  pc_consumer :: consumer
  pc_main :: main_pc
  pc_consumed :: int

definition boost_pc_start :: "'b \<Rightarrow> 'b boost_pc" where
  "boost_pc_start q = \<lparr>pc_q = q, pc_stop = True, pc_producer = PrdLoop 0, pc_consumer = CsmLoop 0,
     pc_main = Launch, pc_consumed = 0\<rparr>"

text \<open>The producer joins the consumer, the main program the producer.\<close>

inductive boost_pc_step :: "(32 word, 'b) boost_lib \<Rightarrow> 'b boost_pc \<Rightarrow> 'b boost_pc \<Rightarrow> bool" for B where
  csm_go: "pc_consumer s = CsmLoop i \<Longrightarrow> \<not> pc_stop s \<Longrightarrow> boost_pc_step B s (s\<lparr>pc_consumer := CsmPop i\<rparr>)"
| csm_end: "pc_consumer s = CsmLoop i \<Longrightarrow> pc_stop s \<Longrightarrow>
    boost_pc_step B s (s\<lparr>pc_consumer := CsmDone i, pc_consumed := i32 (uint i)\<rparr>)"
| csm_pop: "pc_consumer s = CsmPop i \<Longrightarrow> lib_pop B (pc_q s) = Some (v, q') \<Longrightarrow>
    boost_pc_step B s (s\<lparr>pc_q := q', pc_consumer := (if v \<noteq> i then CsmThrow else CsmLoop (i + 1))\<rparr>)"
| prd_go: "pc_producer s = PrdLoop i \<Longrightarrow> \<not> pc_stop s \<Longrightarrow> boost_pc_step B s (s\<lparr>pc_producer := PrdPush i\<rparr>)"
| prd_end: "pc_producer s = PrdLoop i \<Longrightarrow> pc_stop s \<Longrightarrow> boost_pc_step B s (s\<lparr>pc_producer := PrdJoin i\<rparr>)"
| prd_push: "pc_producer s = PrdPush i \<Longrightarrow> lib_push B i (pc_q s) = (True, q') \<Longrightarrow>
    boost_pc_step B s (s\<lparr>pc_q := q', pc_producer := PrdLoop (i + 1)\<rparr>)"
| prd_join: "pc_producer s = PrdJoin i \<Longrightarrow> pc_consumer s = CsmDone j \<Longrightarrow>
    boost_pc_step B s (s\<lparr>pc_producer := PrdDone i\<rparr>)"
| pc_main_start: "pc_main s = Launch \<Longrightarrow> boost_pc_step B s (s\<lparr>pc_stop := False, pc_main := Asleep\<rparr>)"
| pc_main_stop: "pc_main s = Asleep \<Longrightarrow> boost_pc_step B s (s\<lparr>pc_stop := True, pc_main := Joining\<rparr>)"
| pc_main_join: "pc_main s = Joining \<Longrightarrow> pc_producer s = PrdDone i \<Longrightarrow> boost_pc_step B s (s\<lparr>pc_main := Joined\<rparr>)"

section \<open>What the threads keep true\<close>

text \<open>The server is between two requests, having answered \<open>i\<close> of them.\<close>

fun srv_idle :: "server_pc \<Rightarrow> 32 word \<Rightarrow> bool" where
  "srv_idle (SrvLoop j) i = (j = i)"
| "srv_idle (SrvPop j) i = (j = i)"
| "srv_idle (SrvDone j) i = (j = i)"
| "srv_idle (SrvPush j v) i = False"

text \<open>
  At most one number is under way: in the first queue, in the hands of the server, or in the second queue.
\<close>

definition rtt_inv :: "('b \<Rightarrow> 32 word list) \<Rightarrow> 'b boost_rtt \<Rightarrow> bool" where
  "rtt_inv items s \<longleftrightarrow>
     (case rtt_client s of
        CltLoop i \<Rightarrow> items (rtt_q s) = [] \<and> items (rtt_q2 s) = [] \<and> srv_idle (rtt_server s) i
      | CltPush i \<Rightarrow> items (rtt_q s) = [] \<and> items (rtt_q2 s) = [] \<and> srv_idle (rtt_server s) i
      | CltPop i \<Rightarrow>
          items (rtt_q s) = [i] \<and> items (rtt_q2 s) = [] \<and> srv_idle (rtt_server s) i \<or>
          items (rtt_q s) = [] \<and> items (rtt_q2 s) = [] \<and> rtt_server s = SrvPush i i \<or>
          items (rtt_q s) = [] \<and> items (rtt_q2 s) = [i] \<and> srv_idle (rtt_server s) (i + 1)
      | CltThrow \<Rightarrow> False
      | CltDone i \<Rightarrow> items (rtt_q s) = [] \<and> items (rtt_q2 s) = [] \<and> srv_idle (rtt_server s) i) \<and>
     (\<forall>j. rtt_server s = SrvDone j \<longrightarrow> rtt_consumed s = i32 (uint j)) \<and>
     (rtt_main s = Joined \<longrightarrow> (\<exists>j. rtt_server s = SrvDone j) \<and> (\<exists>i. rtt_client s = CltDone i))"

text \<open>The queue holds the numbers from the consumer's counter up to the producer's.\<close>

fun produced :: "producer \<Rightarrow> 32 word" where
  "produced (PrdLoop i) = i"
| "produced (PrdPush i) = i"
| "produced (PrdJoin i) = i"
| "produced (PrdDone i) = i"

fun consumed :: "consumer \<Rightarrow> 32 word option" where
  "consumed (CsmLoop i) = Some i"
| "consumed (CsmPop i) = Some i"
| "consumed (CsmDone i) = Some i"
| "consumed CsmThrow = None"

definition numbers_from :: "32 word \<Rightarrow> nat \<Rightarrow> 32 word list" where
  "numbers_from i n = map (\<lambda>d. i + of_nat d) [0..<n]"

lemma numbers_from_simps:
  "numbers_from i 0 = []" "numbers_from i (Suc n) = i # numbers_from (i + 1) n"
  "numbers_from i n @ [i + of_nat n] = numbers_from i (Suc n)"
proof -
  show "numbers_from i 0 = []" "numbers_from i n @ [i + of_nat n] = numbers_from i (Suc n)"
    by (simp_all add: numbers_from_def)
  have "[0..<Suc n] = 0 # map Suc [0..<n]" by (simp only: map_Suc_upt upt_conv_Cons zero_less_Suc)
  then show "numbers_from i (Suc n) = i # numbers_from (i + 1) n" by (simp add: numbers_from_def del: upt_Suc)
qed

definition pc_inv :: "('b \<Rightarrow> 32 word list) \<Rightarrow> 'b boost_pc \<Rightarrow> bool" where
  "pc_inv items s \<longleftrightarrow>
     (\<exists>i n. consumed (pc_consumer s) = Some i \<and> items (pc_q s) = numbers_from i n \<and>
       produced (pc_producer s) = i + of_nat n) \<and>
     (\<forall>j. pc_consumer s = CsmDone j \<longrightarrow> pc_consumed s = i32 (uint j)) \<and>
     (\<forall>i. pc_producer s = PrdDone i \<longrightarrow> (\<exists>j. pc_consumer s = CsmDone j)) \<and>
     (pc_main s = Joined \<longrightarrow> (\<exists>i. pc_producer s = PrdDone i))"

locale boost_bench = boost_spsc B items SPSC_CAPACITY for B :: "(32 word, 'b) boost_lib" and items :: "'b \<Rightarrow> 32 word list"
begin

lemma rtt_step_inv:
  assumes "boost_rtt_step B s t" "rtt_inv items s"
  shows "rtt_inv items t"
  using assms
  by (induction rule: boost_rtt_step.induct)
    (auto simp: rtt_inv_def lib_push_true dest!: lib_pop_iff split: client_pc.splits)

lemma pc_step_inv:
  assumes "boost_pc_step B s t" "pc_inv items s"
  shows "pc_inv items t"
  using assms
proof (induction rule: boost_pc_step.induct)
  case (csm_pop s i v q')
  then obtain n where n: "v # items q' = numbers_from i n" "produced (pc_producer s) = i + of_nat n"
    using lib_pop_iff [OF csm_pop(2)] unfolding pc_inv_def by force
  then obtain m where "n = Suc m" by (cases n) (auto simp: numbers_from_simps)
  with n csm_pop(1,3) show ?case by (auto simp: pc_inv_def numbers_from_simps)
next
  case (prd_push s i q')
  then obtain j n where n: "consumed (pc_consumer s) = Some j" "items (pc_q s) = numbers_from j n" "i = j + of_nat n"
    by (auto simp: pc_inv_def)
  with prd_push have "items q' = numbers_from j (Suc n)" by (simp add: lib_push_true numbers_from_simps)
  moreover have "i + 1 = j + of_nat (Suc n)" using n(3) by simp
  ultimately show ?case using prd_push n(1) unfolding pc_inv_def by (intro conjI exI [of _ j] exI [of _ "Suc n"]) simp_all
qed (auto simp: pc_inv_def)

lemma rtt_reach_inv:
  assumes "(boost_rtt_step B)\<^sup>*\<^sup>* (boost_rtt_start q q2) s" "items q = []" "items q2 = []"
  shows "rtt_inv items s"
  using assms(1)
proof (induction rule: rtranclp_induct)
  case base
  show ?case using assms(2,3) by (simp add: rtt_inv_def boost_rtt_start_def)
qed (rule rtt_step_inv)

lemma pc_reach_inv:
  assumes "(boost_pc_step B)\<^sup>*\<^sup>* (boost_pc_start q) s" "items q = []"
  shows "pc_inv items s"
  using assms(1)
proof (induction rule: rtranclp_induct)
  case base
  show ?case using assms(2) numbers_from_simps(1) [of 0]
    by (auto simp: pc_inv_def boost_pc_start_def intro: exI [of _ 0])
qed (rule pc_step_inv)

lemma push_enabled: "(\<exists>q'. lib_push B v q = (True, q')) \<longleftrightarrow> length (items q) < SPSC_CAPACITY"
  using lib_push_room [of q v] lib_push_full [of q v] by (cases "length (items q) < SPSC_CAPACITY") auto

lemma pop_enabled: "(\<exists>v q'. lib_pop B q = Some (v, q')) \<longleftrightarrow> items q \<noteq> []"
  using lib_pop_some [of q] lib_pop_none [of q] by (cases "items q") auto

lemma rtt_stuck_iff:
  assumes inv: "rtt_inv items s"
  shows "(\<nexists>t. boost_rtt_step B s t) \<longleftrightarrow> rtt_main s = Joined \<or> rtt_main s = Joining \<and>
    (\<exists>i. rtt_server s = SrvDone i \<and> rtt_client s = CltPop i \<or> rtt_server s = SrvPop i \<and> rtt_client s = CltDone i)"
proof
  assume stuck: "\<nexists>t. boost_rtt_step B s t"
  then have no: "\<not> boost_rtt_step B s t" for t by blast
  have m: "rtt_main s \<noteq> Launch" "rtt_main s \<noteq> Asleep"
    using no main_start main_stop by blast+
  have srv: "rtt_server s \<noteq> SrvLoop i" for i using no srv_go srv_end by blast
  have clt: "rtt_client s \<noteq> CltLoop i" for i using no clt_go clt_end by blast
  have pop: "rtt_server s = SrvPop i \<Longrightarrow> items (rtt_q s) = []" for i using no srv_pop pop_enabled by metis
  have pop2: "rtt_client s = CltPop i \<Longrightarrow> items (rtt_q2 s) = []" for i using no clt_pop pop_enabled by metis
  have push: "rtt_client s = CltPush i \<Longrightarrow> items (rtt_q s) \<noteq> []" for i
    using no clt_push push_enabled [of i "rtt_q s"] by (force simp: SPSC_CAPACITY_def)
  have push2: "rtt_server s = SrvPush i v \<Longrightarrow> items (rtt_q2 s) \<noteq> []" for i v
    using no srv_push push_enabled [of v "rtt_q2 s"] by (force simp: SPSC_CAPACITY_def)
  have join: "rtt_main s = Joining \<Longrightarrow> rtt_server s = SrvDone i \<Longrightarrow> rtt_client s = CltDone j \<Longrightarrow> False" for i j
    using no main_join by blast
  from inv m srv clt pop pop2 push push2 join
  show "rtt_main s = Joined \<or> rtt_main s = Joining \<and>
    (\<exists>i. rtt_server s = SrvDone i \<and> rtt_client s = CltPop i \<or> rtt_server s = SrvPop i \<and> rtt_client s = CltDone i)"
    unfolding rtt_inv_def by (cases "rtt_main s"; cases "rtt_client s"; cases "rtt_server s") auto
next
  assume s: "rtt_main s = Joined \<or> rtt_main s = Joining \<and>
    (\<exists>i. rtt_server s = SrvDone i \<and> rtt_client s = CltPop i \<or> rtt_server s = SrvPop i \<and> rtt_client s = CltDone i)"
  show "\<nexists>t. boost_rtt_step B s t"
  proof
    assume "\<exists>t. boost_rtt_step B s t"
    then obtain t where "boost_rtt_step B s t" ..
    then show False using s inv by cases (auto simp: rtt_inv_def dest: lib_pop_iff)
  qed
qed

lemma pc_stuck_iff:
  assumes inv: "pc_inv items s"
  shows "(\<nexists>t. boost_pc_step B s t) \<longleftrightarrow> pc_main s = Joined \<or> pc_main s = Joining \<and> (\<exists>i j.
    pc_producer s = PrdJoin i \<and> pc_consumer s = CsmPop j \<and> items (pc_q s) = [] \<or>
    pc_producer s = PrdPush i \<and> pc_consumer s = CsmDone j \<and> SPSC_CAPACITY \<le> length (items (pc_q s)))"
    (is "?stuck \<longleftrightarrow> ?rest")
proof
  assume ?stuck
  then have no: "\<not> boost_pc_step B s t" for t by blast
  have m: "pc_main s \<noteq> Launch" "pc_main s \<noteq> Asleep"
    using no pc_main_start pc_main_stop by blast+
  have prd: "pc_producer s \<noteq> PrdLoop i" for i using no prd_go prd_end by blast
  have csm: "pc_consumer s \<noteq> CsmLoop i" for i using no csm_go csm_end by blast
  have pop: "pc_consumer s = CsmPop i \<Longrightarrow> items (pc_q s) = []" for i using no csm_pop pop_enabled by metis
  have push: "pc_producer s = PrdPush i \<Longrightarrow> SPSC_CAPACITY \<le> length (items (pc_q s))" for i
    using no prd_push push_enabled [of i "pc_q s"] by (meson not_le)
  have join: "pc_producer s = PrdJoin i \<Longrightarrow> pc_consumer s \<noteq> CsmDone j" for i j using no prd_join by blast
  have main: "pc_main s = Joining \<Longrightarrow> pc_producer s \<noteq> PrdDone i" for i using no pc_main_join by blast
  from inv have live: "pc_consumer s \<noteq> CsmThrow" by (auto simp: pc_inv_def)
  show ?rest
  proof (cases "pc_producer s")
    case (PrdPush i)
    then have "items (pc_q s) \<noteq> []" using push by (fastforce simp: SPSC_CAPACITY_def)
    then obtain j where "pc_consumer s = CsmDone j" using pop csm live by (cases "pc_consumer s") auto
    then show ?thesis using PrdPush push m by (cases "pc_main s") auto
  next
    case (PrdJoin i)
    then obtain j where "pc_consumer s = CsmPop j" using csm live join by (cases "pc_consumer s") auto
    then show ?thesis using PrdJoin pop m by (cases "pc_main s") auto
  qed (use prd m main in \<open>cases "pc_main s"; auto\<close>)+
next
  assume s: ?rest
  show ?stuck
  proof
    assume "\<exists>t. boost_pc_step B s t"
    then obtain t where "boost_pc_step B s t" ..
    then show False using s inv by cases (auto simp: pc_inv_def lib_push_full dest: lib_pop_iff)
  qed
qed

end

interpretation list_bench: boost_bench "bounded_list_lib SPSC_CAPACITY" "\<lambda>q. q" ..

text \<open>Runs in which one thread looks at \<open>stop_flag\<close> before, and the other after the main program has written it.\<close>

context boost_bench
begin

lemma rtt_hang_run:
  assumes "items q = []" "items q2 = []"
  shows "\<exists>s. (boost_rtt_step B)\<^sup>*\<^sup>* (boost_rtt_start q q2) s \<and> rtt_main s = Joining \<and> (\<nexists>t. boost_rtt_step B s t)"
proof -
  obtain q' where q': "lib_push B 0 q = (True, q')" using push_enabled [of 0 q] assms by (auto simp: SPSC_CAPACITY_def)
  let ?s0 = "boost_rtt_start q q2"
  let ?s1 = "?s0\<lparr>rtt_server := SrvDone 0, rtt_consumed := 0\<rparr>"
  let ?s2 = "?s1\<lparr>rtt_stop := False, rtt_main := Asleep\<rparr>"
  let ?s3 = "?s2\<lparr>rtt_client := CltPush 0\<rparr>"
  let ?s4 = "?s3\<lparr>rtt_q := q', rtt_client := CltPop 0\<rparr>"
  let ?s5 = "?s4\<lparr>rtt_stop := True, rtt_main := Joining\<rparr>"
  have "boost_rtt_step B ?s0 ?s1" using srv_end [of ?s0 0 B] by (simp add: boost_rtt_start_def i32_def)
  moreover have "boost_rtt_step B ?s1 ?s2" by (rule main_start) (simp add: boost_rtt_start_def)
  moreover have "boost_rtt_step B ?s2 ?s3" by (rule clt_go) (simp_all add: boost_rtt_start_def)
  moreover have "boost_rtt_step B ?s3 ?s4" by (rule clt_push) (simp_all add: boost_rtt_start_def q')
  moreover have "boost_rtt_step B ?s4 ?s5" by (rule main_stop) simp
  ultimately have run: "(boost_rtt_step B)\<^sup>*\<^sup>* ?s0 ?s5" by (meson converse_rtranclp_into_rtranclp rtranclp.rtrancl_refl)
  from rtt_stuck_iff [OF rtt_reach_inv [OF run assms]] have "\<nexists>t. boost_rtt_step B ?s5 t"
    by (simp add: boost_rtt_start_def)
  with run show ?thesis by (intro exI [of _ ?s5]) simp
qed

lemma rtt_idle_run:
  "\<exists>s. (boost_rtt_step B)\<^sup>*\<^sup>* (boost_rtt_start q q2) s \<and> rtt_main s = Joined \<and> rtt_consumed s = 0"
proof -
  let ?s0 = "boost_rtt_start q q2"
  let ?s1 = "?s0\<lparr>rtt_server := SrvDone 0, rtt_consumed := 0\<rparr>"
  let ?s2 = "?s1\<lparr>rtt_client := CltDone 0\<rparr>"
  let ?s3 = "?s2\<lparr>rtt_stop := False, rtt_main := Asleep\<rparr>"
  let ?s4 = "?s3\<lparr>rtt_stop := True, rtt_main := Joining\<rparr>"
  let ?s5 = "?s4\<lparr>rtt_main := Joined\<rparr>"
  have "boost_rtt_step B ?s0 ?s1" using srv_end [of ?s0 0 B] by (simp add: boost_rtt_start_def i32_def)
  moreover have "boost_rtt_step B ?s1 ?s2" by (rule clt_end) (simp_all add: boost_rtt_start_def)
  moreover have "boost_rtt_step B ?s2 ?s3" by (rule main_start) (simp add: boost_rtt_start_def)
  moreover have "boost_rtt_step B ?s3 ?s4" by (rule main_stop) simp
  moreover have "boost_rtt_step B ?s4 ?s5" by (rule main_join [where i = 0 and j = 0]) (simp_all add: boost_rtt_start_def)
  ultimately have "(boost_rtt_step B)\<^sup>*\<^sup>* ?s0 ?s5" by (meson converse_rtranclp_into_rtranclp rtranclp.rtrancl_refl)
  then show ?thesis by (intro exI [of _ ?s5]) simp
qed

lemma pc_hang_run:
  assumes "items q = []"
  shows "\<exists>s. (boost_pc_step B)\<^sup>*\<^sup>* (boost_pc_start q) s \<and> pc_main s = Joining \<and> (\<nexists>t. boost_pc_step B s t)"
proof -
  let ?s0 = "boost_pc_start q"
  let ?s1 = "?s0\<lparr>pc_stop := False, pc_main := Asleep\<rparr>"
  let ?s2 = "?s1\<lparr>pc_consumer := CsmPop 0\<rparr>"
  let ?s3 = "?s2\<lparr>pc_stop := True, pc_main := Joining\<rparr>"
  let ?s4 = "?s3\<lparr>pc_producer := PrdJoin 0\<rparr>"
  have "boost_pc_step B ?s0 ?s1" by (rule pc_main_start) (simp add: boost_pc_start_def)
  moreover have "boost_pc_step B ?s1 ?s2" by (rule csm_go) (simp_all add: boost_pc_start_def)
  moreover have "boost_pc_step B ?s2 ?s3" by (rule pc_main_stop) simp
  moreover have "boost_pc_step B ?s3 ?s4" by (rule prd_end) (simp_all add: boost_pc_start_def)
  ultimately have run: "(boost_pc_step B)\<^sup>*\<^sup>* ?s0 ?s4" by (meson converse_rtranclp_into_rtranclp rtranclp.rtrancl_refl)
  from pc_stuck_iff [OF pc_reach_inv [OF run assms]] assms have "\<nexists>t. boost_pc_step B ?s4 t"
    by (simp add: boost_pc_start_def)
  with run show ?thesis by (intro exI [of _ ?s4]) simp
qed

end

section \<open>Properties\<close>

text \<open>
  C35: under every interleaving the round trip program never throws, and it can only come to rest
  joined, with both counters equal and both queues empty, or in one of two hangs: the server has
  left its loop while the client waits for an answer, or the client has left while the server
  waits for a request.
\<close>

theorem boost_rtt_outcomes:
  assumes "boost_bench B items" "items q = []" "items q2 = []" "(boost_rtt_step B)\<^sup>*\<^sup>* (boost_rtt_start q q2) s"
  shows "rtt_client s \<noteq> CltThrow \<and>
    ((\<nexists>t. boost_rtt_step B s t) \<longrightarrow>
       rtt_main s = Joined \<and> (\<exists>i. rtt_server s = SrvDone i \<and> rtt_client s = CltDone i \<and> rtt_consumed s = i32 (uint i) \<and>
         items (rtt_q s) = [] \<and> items (rtt_q2 s) = []) \<or>
       rtt_main s = Joining \<and> (\<exists>i. rtt_server s = SrvDone i \<and> rtt_client s = CltPop i \<or>
         rtt_server s = SrvPop i \<and> rtt_client s = CltDone i))"
proof -
  have inv: "rtt_inv items s" by (rule boost_bench.rtt_reach_inv [OF assms(1,4,2,3)])
  then have "rtt_main s = Joined \<Longrightarrow> \<exists>i. rtt_server s = SrvDone i \<and> rtt_client s = CltDone i \<and>
    rtt_consumed s = i32 (uint i) \<and> items (rtt_q s) = [] \<and> items (rtt_q2 s) = []"
    by (auto simp: rtt_inv_def)
  moreover have "rtt_client s \<noteq> CltThrow" using inv by (auto simp: rtt_inv_def)
  ultimately show ?thesis using boost_bench.rtt_stuck_iff [OF assms(1) inv] by blast
qed

theorem boost_rtt_outcomes_witness:
  "\<exists>s. (boost_rtt_step (bounded_list_lib SPSC_CAPACITY))\<^sup>*\<^sup>* (boost_rtt_start [] []) s \<and> rtt_main s = Joining \<and>
     (\<exists>i. rtt_server s = SrvDone i \<and> rtt_client s = CltPop i \<or> rtt_server s = SrvPop i \<and> rtt_client s = CltDone i)"
  using list_bench.rtt_hang_run [of "[]" "[]"] boost_rtt_outcomes [OF list_bench.boost_bench_axioms, of "[]" "[]"]
  by (metis main_pc.distinct(11))

text \<open>
  Both programs can hang and the round trip can divide by zero, with every implementation of
  the queue: there are runs in which the main program waits in \<open>join\<close> for ever, and a run in which
  both threads end before the start, so that no item is counted.
\<close>

theorem boost_bench_can_hang:
  assumes "boost_bench B items" "items q = []" "items q2 = []"
  shows "(\<exists>s. (boost_rtt_step B)\<^sup>*\<^sup>* (boost_rtt_start q q2) s \<and> rtt_main s = Joining \<and> (\<nexists>t. boost_rtt_step B s t)) \<and>
    (\<exists>s. (boost_pc_step B)\<^sup>*\<^sup>* (boost_pc_start q) s \<and> pc_main s = Joining \<and> (\<nexists>t. boost_pc_step B s t)) \<and>
    (\<exists>s. (boost_rtt_step B)\<^sup>*\<^sup>* (boost_rtt_start q q2) s \<and> rtt_main s = Joined \<and>
      (\<forall>ns. boost_rtt_report ns (rtt_consumed s) = Fault DivByZero))"
proof -
  have "boost_rtt_report ns 0 = Fault DivByZero" for ns by (simp add: boost_rtt_report_def spsc_rates_def)
  then show ?thesis
    using boost_bench.rtt_hang_run [OF assms] boost_bench.pc_hang_run [OF assms(1,2)]
      boost_bench.rtt_idle_run [OF assms(1)] by metis
qed

theorem boost_bench_can_hang_witness:
  "\<exists>s. (boost_rtt_step (bounded_list_lib SPSC_CAPACITY))\<^sup>*\<^sup>* (boost_rtt_start [] []) s \<and> rtt_main s = Joined \<and>
     boost_rtt_report 20000000000 (rtt_consumed s) = Fault DivByZero"
  using boost_bench_can_hang [OF list_bench.boost_bench_axioms, of "[]" "[]"] by blast

text \<open>
  C36: under every interleaving the consumer reads the numbers in the order in which they were
  produced, and the queue holds exactly those between the two counters; the program comes to rest
  joined, or with the consumer waiting for an empty queue after the producer has left, or
  with the producer waiting for room after the consumer has left.
\<close>

theorem boost_pc_outcomes:
  assumes "boost_bench B items" "items q = []" "(boost_pc_step B)\<^sup>*\<^sup>* (boost_pc_start q) s"
  shows "(\<exists>i. consumed (pc_consumer s) = Some i \<and>
      items (pc_q s) = numbers_from i (length (items (pc_q s))) \<and>
      produced (pc_producer s) = i + of_nat (length (items (pc_q s)))) \<and>
    ((\<nexists>t. boost_pc_step B s t) \<longleftrightarrow> pc_main s = Joined \<or> pc_main s = Joining \<and> (\<exists>i j.
      pc_producer s = PrdJoin i \<and> pc_consumer s = CsmPop j \<and> items (pc_q s) = [] \<or>
      pc_producer s = PrdPush i \<and> pc_consumer s = CsmDone j \<and> SPSC_CAPACITY \<le> length (items (pc_q s))))"
proof -
  have inv: "pc_inv items s" by (rule boost_bench.pc_reach_inv [OF assms(1,3,2)])
  then obtain i n where n: "consumed (pc_consumer s) = Some i" "items (pc_q s) = numbers_from i n"
    "produced (pc_producer s) = i + of_nat n" by (auto simp: pc_inv_def)
  moreover from n(2) have "length (items (pc_q s)) = n" by (simp add: numbers_from_def)
  ultimately show ?thesis using boost_bench.pc_stuck_iff [OF assms(1) inv] by blast
qed

theorem boost_pc_outcomes_witness:
  "\<exists>s. (boost_pc_step (bounded_list_lib SPSC_CAPACITY))\<^sup>*\<^sup>* (boost_pc_start []) s \<and> pc_main s = Joining \<and>
     (\<exists>i. consumed (pc_consumer s) = Some i \<and> pc_q s = numbers_from i (length (pc_q s)))"
  using list_bench.pc_hang_run [of "[]"] boost_pc_outcomes [OF list_bench.boost_bench_axioms, of "[]"] by blast

end
