(* ===== verification/Tcp_Bench.thy ===== *)
theory Tcp_Bench
  imports Bench_Stats
begin

text \<open>
  The TCP benchmark, \<open>src/bench_tcp/src/tcp_bench.cpp\<close>: \<open>single_tcp_connection_test\<close>,
  \<open>connection_tcp_stress_test\<close> and \<open>rtt_during_tcp_connection_test\<close> with their client and handler
  threads. The socket calls are a parameter; a call that would block is \<open>None\<close>, and the turn of
  a thread that waits in one is \<open>Hang\<close>. A turn of a thread goes up to its next system call, so
  that the threads interleave at every call. The readings of the clock and what \<open>malloc\<close> leaves in
  the buffers are arguments. All turns come after \<open>run_flag = true\<close>; the clients make
  their sockets before they look at the flag, which nothing else depends on.
\<close>

section \<open>Socket calls\<close>

record 'n sockets =
  socket :: "'n \<Rightarrow> int \<times> 'n"
  bind_port :: "int \<Rightarrow> 'n \<Rightarrow> int \<times> 'n"
  set_reuseaddr :: "int \<Rightarrow> 'n \<Rightarrow> 'n"
  listen :: "int \<Rightarrow> nat \<Rightarrow> 'n \<Rightarrow> int \<times> 'n"
  connect :: "int \<Rightarrow> 'n \<Rightarrow> (int \<times> 'n) option"
  accept_conn :: "int \<Rightarrow> 'n \<Rightarrow> (int \<times> 'n) option"
  read_fd :: "int \<Rightarrow> nat \<Rightarrow> 'n \<Rightarrow> (byte list \<times> 'n) option"
  write_fd :: "int \<Rightarrow> byte list \<Rightarrow> 'n \<Rightarrow> 'n option"
  shutdown_fd :: "int \<Rightarrow> 'n \<Rightarrow> 'n"
  close_fd :: "int \<Rightarrow> 'n \<Rightarrow> 'n"

section \<open>Threads\<close>

text \<open>The three tests: one client that connects, many that connect, and many that exchange messages.\<close>

datatype tcp_kind = OneConn | ManyConn | ManyRtt

fun num_clients :: "tcp_kind \<Rightarrow> nat" where
  "num_clients OneConn = 1"
| "num_clients _ = MAX_CLIENTS"

abbreviation TCP_ITEMS :: nat where "TCP_ITEMS \<equiv> nat tcp_NUM_ITEMS"

text \<open>
  Where a client stands: before \<open>socket\<close>, before \<open>connect\<close>, at the head of its loop, before the
  \<open>read\<close> of round \<open>i\<close>, before \<open>close\<close>, ended. The loop keeps the contents of \<open>pop_buf\<close>.
\<close>

datatype tcp_client = CSocket | CConnect int | CSend int nat "byte list" | CRecv int nat "byte list" | CClose int | CDone

datatype tcp_handler = HRecv int nat "byte list" | HSend int nat "byte list" | HDone

record 'n tcp_run =
  net :: 'n
  tcp_clients :: "tcp_client list"
  tcp_args :: "connection_args list"
  conn_fds :: "int list"
  tcp_handlers :: "tcp_handler list"

text \<open>\<open>read\<close> into a buffer: what it got overwrites the front.\<close>

definition fill :: "byte list \<Rightarrow> byte list \<Rightarrow> byte list" where
  "fill got buf = got @ drop (length got) buf"

definition set_client :: "nat \<Rightarrow> tcp_client \<Rightarrow> 'n \<Rightarrow> 'n tcp_run \<Rightarrow> 'n tcp_run" where
  "set_client n c k s = s\<lparr>net := k, tcp_clients := (tcp_clients s)[n := c]\<rparr>"

text \<open>\<open>client_tcp_connection\<close>: the clock is read before and after \<open>connect\<close>.\<close>

fun client_tcp_connection :: "'n sockets \<Rightarrow> timespec \<times> timespec \<Rightarrow> nat \<Rightarrow> tcp_client \<Rightarrow> 'n tcp_run \<Rightarrow> 'n tcp_run outcome" where
  "client_tcp_connection N clk n CSocket s =
     (let (fd, k) = socket N (net s) in if fd = -1 then Exit 0 else Ret (set_client n (CConnect fd) k s))"
| "client_tcp_connection N clk n (CConnect fd) s =
     (case connect N fd (net s) of
        None \<Rightarrow> Hang
      | Some (r, k) \<Rightarrow>
          if r \<noteq> 0 then Exit 0
          else Ret (set_client n (CClose fd) k
                 (s\<lparr>tcp_args := (tcp_args s)[n := (tcp_args s ! n)\<lparr>start_time := fst clk, end_time := snd clk\<rparr>]\<rparr>)))"
| "client_tcp_connection N clk n (CClose fd) s = Ret (set_client n CDone (close_fd N fd (net s)) s)"
| "client_tcp_connection N clk n _ s = Hang"

text \<open>\<open>client_tcp_load_connection\<close>: the results of \<open>write\<close> and \<open>read\<close> are not looked at.\<close>

fun client_tcp_load_connection ::
  "'n sockets \<Rightarrow> timespec \<times> timespec \<Rightarrow> byte list \<Rightarrow> nat \<Rightarrow> tcp_client \<Rightarrow> 'n tcp_run \<Rightarrow> 'n tcp_run outcome"
where
  "client_tcp_load_connection N clk junk n CSocket s =
     (let (fd, k) = socket N (net s) in if fd = -1 then Exit 0 else Ret (set_client n (CConnect fd) k s))"
| "client_tcp_load_connection N clk junk n (CConnect fd) s =
     (case connect N fd (net s) of
        None \<Rightarrow> Hang
      | Some (r, k) \<Rightarrow>
          if r \<noteq> 0 then Exit 0
          else Ret (set_client n (CSend fd 1 junk) k
                 (s\<lparr>tcp_args := (tcp_args s)[n := (tcp_args s ! n)\<lparr>start_time := fst clk\<rparr>]\<rparr>)))"
| "client_tcp_load_connection N clk junk n (CSend fd i pop_buf) s =
     (if i < TCP_ITEMS then
        (case write_fd N fd (int_bytes (of_nat i)) (net s) of
           None \<Rightarrow> Hang
         | Some k \<Rightarrow> Ret (set_client n (CRecv fd i pop_buf) k s))
      else Ret (set_client n (CClose fd) (net s)
             (s\<lparr>tcp_args := (tcp_args s)[n := (tcp_args s ! n)\<lparr>end_time := snd clk\<rparr>]\<rparr>)))"
| "client_tcp_load_connection N clk junk n (CRecv fd i pop_buf) s =
     (case read_fd N fd 4 (net s) of
        None \<Rightarrow> Hang
      | Some (got, k) \<Rightarrow>
          let pop_buf' = fill got pop_buf in
          if pop_buf' = int_bytes (of_nat i) then Ret (set_client n (CSend fd (i + 1) pop_buf') k s)
          else Abort ''Assertion failed'')"
| "client_tcp_load_connection N clk junk n (CClose fd) s = Ret (set_client n CDone (close_fd N fd (net s)) s)"
| "client_tcp_load_connection N clk junk n CDone s = Hang"

definition set_handler :: "nat \<Rightarrow> tcp_handler \<Rightarrow> 'n \<Rightarrow> 'n tcp_run \<Rightarrow> 'n tcp_run" where
  "set_handler j h k s = s\<lparr>net := k, tcp_handlers := (tcp_handlers s)[j := h]\<rparr>"

fun server_tcp_handler :: "'n sockets \<Rightarrow> nat \<Rightarrow> tcp_handler \<Rightarrow> 'n tcp_run \<Rightarrow> 'n tcp_run outcome" where
  "server_tcp_handler N j (HRecv fd i pop_buf) s =
     (if i < TCP_ITEMS then
        (case read_fd N fd 4 (net s) of
           None \<Rightarrow> Hang
         | Some (got, k) \<Rightarrow> Ret (set_handler j (HSend fd i (fill got pop_buf)) k s))
      else Ret (set_handler j HDone (close_fd N fd (net s)) s))"
| "server_tcp_handler N j (HSend fd i pop_buf) s =
     (case write_fd N fd pop_buf (net s) of
        None \<Rightarrow> Hang
      | Some k \<Rightarrow> Ret (set_handler j (HRecv fd (i + 1) pop_buf) k s))"
| "server_tcp_handler N j HDone s = Hang"

section \<open>The main thread\<close>

text \<open>
  Making the listening socket. Only \<open>single_tcp_connection_test\<close> sets \<open>SO_REUSEADDR\<close>, after
  \<open>bind\<close>. Every failure is \<open>exit(0)\<close>.
\<close>

fun backlog :: "tcp_kind \<Rightarrow> nat" where
  "backlog OneConn = 1"
| "backlog _ = MAX_CLIENTS"

definition tcp_listen :: "tcp_kind \<Rightarrow> 'n sockets \<Rightarrow> 'n \<Rightarrow> (int \<times> 'n) outcome" where
  "tcp_listen kind N k =
     (let (fd, k1) = socket N k in
      if fd = -1 then Exit 0
      else
        let (r, k2) = bind_port N fd k1 in
        if r \<noteq> 0 then Exit 0
        else
          let k3 = (if kind = OneConn then set_reuseaddr N fd k2 else k2); (r', k4) = listen N fd (backlog kind) k3 in
          if r' \<noteq> 0 then Exit 0 else Ret (fd, k4))"

fun tcp_client_id :: "tcp_kind \<Rightarrow> (nat \<Rightarrow> int) \<Rightarrow> nat \<Rightarrow> int" where
  "tcp_client_id OneConn nonces i = 1"
| "tcp_client_id ManyConn nonces i = int i"
| "tcp_client_id ManyRtt nonces i = i32 (int i + nonces i)"

definition tcp_start :: "tcp_kind \<Rightarrow> (nat \<Rightarrow> int) \<Rightarrow> (nat \<Rightarrow> connection_args) \<Rightarrow> 'n \<Rightarrow> 'n tcp_run" where
  "tcp_start kind nonces args k =
     \<lparr>net = k, tcp_clients = replicate (num_clients kind) CSocket,
      tcp_args = map (\<lambda>i. (args i)\<lparr>conn_client_id := tcp_client_id kind nonces i\<rparr>) [0..<num_clients kind],
      conn_fds = [], tcp_handlers = []\<rparr>"

text \<open>One pass of the accept loop; \<open>rtt_during_tcp_connection_test\<close> skips a descriptor 0 and starts handlers.\<close>

definition tcp_accept :: "tcp_kind \<Rightarrow> 'n sockets \<Rightarrow> int \<Rightarrow> (nat \<Rightarrow> byte list) \<Rightarrow> 'n tcp_run \<Rightarrow> 'n tcp_run outcome" where
  "tcp_accept kind N l junk s =
     (if length (conn_fds s) < num_clients kind then
        (case accept_conn N l (net s) of
           None \<Rightarrow> Hang
         | Some (connfd, k) \<Rightarrow>
             if connfd < 0 then Exit 0
             else if kind = ManyRtt then
               if connfd \<noteq> 0 then
                 Ret (s\<lparr>net := k, conn_fds := conn_fds s @ [connfd],
                        tcp_handlers := tcp_handlers s @ [HRecv connfd 1 (junk (length (conn_fds s)))]\<rparr>)
               else Ret (s\<lparr>net := k\<rparr>)
             else Ret (s\<lparr>net := k, conn_fds := conn_fds s @ [connfd]\<rparr>))
      else Hang)"

datatype tcp_turn = TClient nat | THandler nat | TMain

text \<open>What \<open>malloc\<close> leaves in \<open>pop_buf\<close>, of a client and of a handler.\<close>

type_synonym tcp_junk = "(nat \<Rightarrow> byte list) \<times> (nat \<Rightarrow> byte list)"

fun tcp_step ::
  "tcp_kind \<Rightarrow> 'n sockets \<Rightarrow> int \<Rightarrow> (nat \<Rightarrow> timespec \<times> timespec) \<Rightarrow> tcp_junk \<Rightarrow> tcp_turn \<Rightarrow> 'n tcp_run \<Rightarrow> 'n tcp_run outcome"
where
  "tcp_step kind N l clock junk (TClient n) s =
     (if n < length (tcp_clients s) then
        if kind = ManyRtt then client_tcp_load_connection N (clock n) (fst junk n) n (tcp_clients s ! n) s
        else client_tcp_connection N (clock n) n (tcp_clients s ! n) s
      else Hang)"
| "tcp_step kind N l clock junk (THandler j) s =
     (if j < length (tcp_handlers s) then server_tcp_handler N j (tcp_handlers s ! j) s else Hang)"
| "tcp_step kind N l clock junk TMain s = tcp_accept kind N l (snd junk) s"

text \<open>A schedule: the turn of a thread that has to wait changes nothing; \<open>exit\<close> and \<open>abort\<close> end the process.\<close>

fun tcp_turns ::
  "tcp_kind \<Rightarrow> 'n sockets \<Rightarrow> int \<Rightarrow> (nat \<Rightarrow> timespec \<times> timespec) \<Rightarrow> tcp_junk \<Rightarrow> tcp_turn list \<Rightarrow> 'n tcp_run \<Rightarrow> 'n tcp_run outcome"
where
  "tcp_turns kind N l clock junk [] s = Ret s"
| "tcp_turns kind N l clock junk (t # ts) s =
     (case tcp_step kind N l clock junk t s of
        Hang \<Rightarrow> tcp_turns kind N l clock junk ts s
      | m \<Rightarrow> bind_out m (tcp_turns kind N l clock junk ts))"

definition tcp_over :: "tcp_kind \<Rightarrow> 'n tcp_run \<Rightarrow> bool" where
  "tcp_over kind s \<longleftrightarrow> length (conn_fds s) = num_clients kind \<and> list_all (\<lambda>c. c = CDone) (tcp_clients s) \<and>
     list_all (\<lambda>h. h = HDone) (tcp_handlers s)"

text \<open>The figures each test prints.\<close>

fun tcp_report :: "tcp_kind \<Rightarrow> connection_args list \<Rightarrow> out_line list outcome" where
  "tcp_report OneConn args = Ret (Long ''Num Clients'' 1 # tcp_report_connection_stats (args ! 0))"
| "tcp_report ManyConn args =
     (let (total_ms, total_ns) = stress_totals args in
      bind_out (long_div total_ms (int MAX_CLIENTS)) (\<lambda>ms.
      bind_out (long_div total_ns (int MAX_CLIENTS)) (\<lambda>ns.
      Ret [Long ''Num Clients'' (int MAX_CLIENTS), Long ''Available Slots'' (int MAX_CLIENTS), Long ''ms/op'' ms, Long ''ns/op'' ns])))"
| "tcp_report ManyRtt args =
     bind_out (average_ns args) (\<lambda>average_ns.
     bind_out (long_div average_ns tcp_NUM_ITEMS) (\<lambda>ns_op.
     Ret [Long ''Num Clients'' (int MAX_CLIENTS), Long ''Num Items'' tcp_NUM_ITEMS, Long ''Message Size'' 4, Long ''ns/op'' ns_op,
       Float ''avg ops/ms'' (fdiv (of_int tcp_NUM_ITEMS) (of_int average_ns / 1000000)),
       Float ''ops/ms'' (fdiv (of_int (i32 (tcp_NUM_ITEMS * int MAX_CLIENTS))) (of_int average_ns / 1000000))]))"

definition tcp_finish :: "'n sockets \<Rightarrow> int \<Rightarrow> 'n tcp_run \<Rightarrow> 'n" where
  "tcp_finish N l s = close_fd N l (fold (shutdown_fd N) (conn_fds s) (net s))"

definition tcp_test where
  "tcp_test kind N clock junk nonces args ts k =
     bind_out (tcp_listen kind N k) (\<lambda>(l, k1).
     bind_out (tcp_turns kind N l clock junk ts (tcp_start kind nonces args k1)) (\<lambda>s.
     if tcp_over kind s then
       bind_out (tcp_report kind (tcp_args s)) (\<lambda>lines. Ret (lines, tcp_finish N l s))
     else Hang))"

definition single_tcp_connection_test where
  "single_tcp_connection_test N clock junk nonces args ts k = tcp_test OneConn N clock junk nonces args ts k"

definition connection_tcp_stress_test where
  "connection_tcp_stress_test N clock junk nonces args ts k = tcp_test ManyConn N clock junk nonces args ts k"

definition rtt_during_tcp_connection_test where
  "rtt_during_tcp_connection_test N clock junk nonces args ts k = tcp_test ManyRtt N clock junk nonces args ts k"

section \<open>What the tests rely on\<close>

text \<open>
  A view of the network: the descriptors in use; for a connected one its connection and
  whether it is the server's end; the bytes under way to each end; the listening socket with its
  backlog and the connections that wait to be accepted; and how many connections there have been.
\<close>

record tcp_view =
  fds :: "int set"
  ends :: "int \<Rightarrow> (nat \<times> bool) option"
  wire :: "nat \<times> bool \<Rightarrow> byte list"
  listener :: "(int \<times> nat \<times> nat list) option"
  made :: nat

text \<open>
  The promises of \<open>socket(7)\<close> and \<open>tcp(7)\<close> within the limits of the system: a new socket has an unused
  descriptor (0 is standard input); a connection is made as long as the backlog has room and waits to be
  accepted; bytes arrive in order, and \<open>read\<close> returns some of them as soon as there are
  any; \<open>write\<close> to a connection whose other end is open, and which has little under way, takes everything.
\<close>

locale tcp_net =
  fixes N :: "'n sockets" and view :: "'n \<Rightarrow> tcp_view"
  assumes ends_fds: "ends (view k) fd \<noteq> None \<Longrightarrow> fd \<in> fds (view k)"
    and socket_new: "\<exists>fd k'. socket N k = (fd, k') \<and> 0 < fd \<and> fd \<notin> fds (view k) \<and>
      view k' = (view k)\<lparr>fds := insert fd (fds (view k))\<rparr>"
    and bind_view: "bind_port N fd k = (0, k') \<Longrightarrow> view k' = view k"
    and reuse_view: "view (set_reuseaddr N fd k) = view k"
    and listen_view: "listen N fd b k = (0, k') \<Longrightarrow> view k' = (view k)\<lparr>listener := Some (fd, b, [])\<rparr>"
    and connect_room: "listener (view k) = Some (l, b, q) \<Longrightarrow> length q < b \<Longrightarrow> fd \<in> fds (view k) \<Longrightarrow> ends (view k) fd = None \<Longrightarrow>
      fd \<noteq> l \<Longrightarrow> \<exists>k'. connect N fd k = Some (0, k') \<and>
        view k' = (view k)\<lparr>ends := (ends (view k))(fd \<mapsto> (made (view k), False)),
          wire := (wire (view k))((made (view k), True) := [], (made (view k), False) := []),
          listener := Some (l, b, q @ [made (view k)]), made := Suc (made (view k))\<rparr>"
    and accept_none: "listener (view k) = Some (l, b, []) \<Longrightarrow> accept_conn N l k = None"
    and accept_next: "listener (view k) = Some (l, b, c # q) \<Longrightarrow> \<exists>fd k'. accept_conn N l k = Some (fd, k') \<and> 0 < fd \<and>
      fd \<notin> fds (view k) \<and> view k' = (view k)\<lparr>fds := insert fd (fds (view k)), ends := (ends (view k))(fd \<mapsto> (c, True)),
        listener := Some (l, b, q)\<rparr>"
    and read_none: "ends (view k) fd = Some (c, e) \<Longrightarrow> wire (view k) (c, e) = [] \<Longrightarrow>
      (\<exists>fd'. ends (view k) fd' = Some (c, \<not> e)) \<or> (\<exists>l b q. listener (view k) = Some (l, b, q) \<and> c \<in> set q) \<Longrightarrow> read_fd N fd n k = None"
    and read_some: "ends (view k) fd = Some (c, e) \<Longrightarrow> wire (view k) (c, e) \<noteq> [] \<Longrightarrow> 0 < n \<Longrightarrow>
      \<exists>m k'. 0 < m \<and> m \<le> n \<and> read_fd N fd n k = Some (take m (wire (view k) (c, e)), k') \<and>
        view k' = (view k)\<lparr>wire := (wire (view k))((c, e) := drop m (wire (view k) (c, e)))\<rparr>"
    and write_room: "ends (view k) fd = Some (c, e) \<Longrightarrow> length (wire (view k) (c, \<not> e)) + length bs \<le> 4096 \<Longrightarrow>
      (\<exists>fd'. ends (view k) fd' = Some (c, \<not> e)) \<or> (\<exists>l b q. listener (view k) = Some (l, b, q) \<and> c \<in> set q) \<Longrightarrow>
      \<exists>k'. write_fd N fd bs k = Some k' \<and> view k' = (view k)\<lparr>wire := (wire (view k))((c, \<not> e) := wire (view k) (c, \<not> e) @ bs)\<rparr>"
    and close_view: "ends (view k) fd = Some (c, e) \<Longrightarrow>
      view (close_fd N fd k) = (view k)\<lparr>fds := fds (view k) - {fd}, ends := (ends (view k))(fd := None)\<rparr>"

text \<open>
  \<open>read(2)\<close> may return fewer bytes than asked for although more are on the way, and the programs
  do not look at its result. The turns in which a thread of the test with messages gets less than the four bytes of a
  message, and the schedules in which one such turn occurs.
\<close>

definition gets_less :: "'n sockets \<Rightarrow> int \<Rightarrow> 'n \<Rightarrow> bool" where
  "gets_less N fd k = (case read_fd N fd 4 k of None \<Rightarrow> False | Some (got, k') \<Rightarrow> length got < 4)"

fun short_turn :: "tcp_kind \<Rightarrow> 'n sockets \<Rightarrow> tcp_turn \<Rightarrow> 'n tcp_run \<Rightarrow> bool" where
  "short_turn kind N (TClient n) s =
     (kind = ManyRtt \<and> n < length (tcp_clients s) \<and>
      (case tcp_clients s ! n of CRecv fd i pop_buf \<Rightarrow> gets_less N fd (net s) | _ \<Rightarrow> False))"
| "short_turn kind N (THandler j) s =
     (j < length (tcp_handlers s) \<and>
      (case tcp_handlers s ! j of HRecv fd i pop_buf \<Rightarrow> i < TCP_ITEMS \<and> gets_less N fd (net s) | _ \<Rightarrow> False))"
| "short_turn kind N TMain s = False"

fun short_read ::
  "tcp_kind \<Rightarrow> 'n sockets \<Rightarrow> int \<Rightarrow> (nat \<Rightarrow> timespec \<times> timespec) \<Rightarrow> tcp_junk \<Rightarrow> tcp_turn list \<Rightarrow> 'n tcp_run \<Rightarrow> bool"
where
  "short_read kind N l clock junk [] s = False"
| "short_read kind N l clock junk (t # ts) s =
     (short_turn kind N t s \<or>
      (case tcp_step kind N l clock junk t s of
         Hang \<Rightarrow> short_read kind N l clock junk ts s
       | Ret s' \<Rightarrow> short_read kind N l clock junk ts s'
       | _ \<Rightarrow> False))"

lemma hang_not_short: "tcp_step kind N l clock junk t s = Hang \<Longrightarrow> \<not> short_turn kind N t s"
  by (cases t) (auto simp: gets_less_def Let_def split: tcp_client.splits tcp_handler.splits option.splits if_splits)

end
