(* ===== verification/Tcp_Run.thy ===== *)
theory Tcp_Run
  imports Tcp_Bench
begin

text \<open>
  The TCP benchmark of theory Tcp_Bench runs: the invariant that ties each client to its
  connection and its handler, kept by every turn of every thread; that the tests
  end under every schedule that gives all threads enough turns; and a network on which this is so.
\<close>

section \<open>What every schedule keeps\<close>

text \<open>The turns a thread still needs, at most.\<close>

fun client_work :: "tcp_client \<Rightarrow> nat" where
  "client_work CSocket = 2 * TCP_ITEMS + 4"
| "client_work (CConnect fd) = 2 * TCP_ITEMS + 3"
| "client_work (CSend fd i p) = 2 * (TCP_ITEMS - i) + 2"
| "client_work (CRecv fd i p) = 2 * (TCP_ITEMS - i) + 1"
| "client_work (CClose fd) = 1"
| "client_work CDone = 0"

fun handler_work :: "tcp_handler \<Rightarrow> nat" where
  "handler_work (HRecv fd i p) = 2 * (TCP_ITEMS - i) + 1"
| "handler_work (HSend fd i p) = 2 * (TCP_ITEMS - i)"
| "handler_work HDone = 0"

definition tcp_work :: "tcp_kind \<Rightarrow> 'n tcp_run \<Rightarrow> nat" where
  "tcp_work kind s = sum_list (map client_work (tcp_clients s)) + sum_list (map handler_work (tcp_handlers s)) +
     (num_clients kind - length (conn_fds s)) * (2 * TCP_ITEMS + 2)"

definition tcp_threads :: "tcp_kind \<Rightarrow> tcp_turn list" where
  "tcp_threads kind = TMain # map TClient [0..<num_clients kind] @ map THandler [0..<num_clients kind]"

lemma threads_mem:
  "TMain \<in> set (tcp_threads kind)" "n < num_clients kind \<Longrightarrow> TClient n \<in> set (tcp_threads kind)"
  "n < num_clients kind \<Longrightarrow> THandler n \<in> set (tcp_threads kind)"
  by (auto simp: tcp_threads_def)

lemma sum_map_update:
  assumes "i < length xs" "f y < (f (xs ! i) :: nat)"
  shows "sum_list (map f (xs[i := y])) < sum_list (map f xs)"
  using assms
proof (induction xs arbitrary: i)
  case (Cons x xs)
  then show ?case by (cases i) simp_all
qed simp

text \<open>
  A client and its handler over connection \<open>c\<close>: at most one message is under way, and it is the
  number of the round.
\<close>

abbreviation msg :: "nat \<Rightarrow> byte list" where
  "msg i \<equiv> int_bytes (of_nat i)"

lemma msg_nonempty [simp]: "int_bytes w \<noteq> []" "[] \<noteq> int_bytes w"
  by (simp_all add: int_bytes_def)

fun awaits :: "nat \<Rightarrow> tcp_handler option \<Rightarrow> bool" where
  "awaits i None = (i = 1)"
| "awaits i (Some (HRecv fd j p)) = (i = j)"
| "awaits i (Some (HSend fd j p)) = False"
| "awaits i (Some HDone) = (i = TCP_ITEMS)"

fun handler_ok :: "tcp_view \<Rightarrow> nat \<Rightarrow> tcp_handler option \<Rightarrow> bool" where
  "handler_ok v c (Some (HRecv fd i p)) = (ends v fd = Some (c, True) \<and> length p = 4)"
| "handler_ok v c (Some (HSend fd i p)) = (ends v fd = Some (c, True) \<and> length p = 4 \<and> i < TCP_ITEMS)"
| "handler_ok v c _ = True"

fun rtt_pair :: "tcp_view \<Rightarrow> nat \<Rightarrow> tcp_client \<Rightarrow> tcp_handler option \<Rightarrow> bool" where
  "rtt_pair v c (CSend fd i p) h = (ends v fd = Some (c, False) \<and> length p = 4 \<and> 1 \<le> i \<and> i \<le> TCP_ITEMS \<and>
     wire v (c, True) = [] \<and> wire v (c, False) = [] \<and> awaits i h)"
| "rtt_pair v c (CRecv fd i p) h = (ends v fd = Some (c, False) \<and> length p = 4 \<and> 1 \<le> i \<and> i < TCP_ITEMS \<and>
     (wire v (c, True) = msg i \<and> wire v (c, False) = [] \<and> awaits i h \<or>
      wire v (c, True) = [] \<and> wire v (c, False) = [] \<and> (\<exists>hfd. h = Some (HSend hfd i (msg i))) \<or>
      wire v (c, True) = [] \<and> wire v (c, False) = msg i \<and> awaits (i + 1) h))"
| "rtt_pair v c (CClose fd) h = (ends v fd = Some (c, False) \<and> awaits TCP_ITEMS h)"
| "rtt_pair v c CDone h = awaits TCP_ITEMS h"
| "rtt_pair v c _ h = False"

fun conn_pair :: "tcp_view \<Rightarrow> nat \<Rightarrow> tcp_client \<Rightarrow> bool" where
  "conn_pair v c (CClose fd) = (ends v fd = Some (c, False))"
| "conn_pair v c CDone = True"
| "conn_pair v c _ = False"

definition pair_ok :: "tcp_kind \<Rightarrow> tcp_view \<Rightarrow> nat \<Rightarrow> tcp_client \<Rightarrow> tcp_handler option \<Rightarrow> bool" where
  "pair_ok kind v c st h \<longleftrightarrow> (if kind = ManyRtt then rtt_pair v c st h \<and> handler_ok v c h else conn_pair v c st)"

fun early :: "int \<Rightarrow> tcp_view \<Rightarrow> tcp_client \<Rightarrow> bool" where
  "early l v CSocket = True"
| "early l v (CConnect fd) = (fd \<in> fds v \<and> ends v fd = None \<and> fd \<noteq> l)"
| "early l v _ = False"

fun timed_ok :: "timespec \<times> timespec \<Rightarrow> tcp_client \<Rightarrow> connection_args \<Rightarrow> bool" where
  "timed_ok clk (CSend fd i p) a = (start_time a = fst clk)"
| "timed_ok clk (CRecv fd i p) a = (start_time a = fst clk)"
| "timed_ok clk (CClose fd) a = (start_time a = fst clk \<and> end_time a = snd clk)"
| "timed_ok clk CDone a = (start_time a = fst clk \<and> end_time a = snd clk)"
| "timed_ok clk _ a = True"

definition handler_at :: "'n tcp_run \<Rightarrow> nat \<Rightarrow> tcp_handler option" where
  "handler_at s j = (if j < length (tcp_handlers s) then Some (tcp_handlers s ! j) else None)"

lemma handler_at_simps [simp]:
  "handler_at (set_client n st k s) j = handler_at s j" "handler_at (s\<lparr>tcp_args := as\<rparr>) j = handler_at s j"
  "handler_at (s\<lparr>net := k\<rparr>) j = handler_at s j"
  "i < length (tcp_handlers s) \<Longrightarrow> handler_at (set_handler i h k s) j = (if j = i then Some h else handler_at s j)"
  by (simp_all add: handler_at_def set_client_def set_handler_def)

lemma set_simps [simp]:
  "net (set_client n st k s) = k" "tcp_args (set_client n st k s) = tcp_args s" "conn_fds (set_client n st k s) = conn_fds s"
  "tcp_handlers (set_client n st k s) = tcp_handlers s" "length (tcp_clients (set_client n st k s)) = length (tcp_clients s)"
  "i < length (tcp_clients s) \<Longrightarrow> tcp_clients (set_client n st k s) ! i = (if i = n then st else tcp_clients s ! i)"
  "net (set_handler j h k s) = k" "tcp_args (set_handler j h k s) = tcp_args s" "conn_fds (set_handler j h k s) = conn_fds s"
  "length (tcp_handlers (set_handler j h k s)) = length (tcp_handlers s)" "tcp_clients (set_handler j h k s) = tcp_clients s"
  by (simp_all add: set_client_def set_handler_def nth_list_update)

text \<open>A change to connection \<open>c\<close> and its two ends only.\<close>

definition only_conn :: "nat \<Rightarrow> tcp_view \<Rightarrow> tcp_view \<Rightarrow> bool" where
  "only_conn c v v' \<longleftrightarrow> listener v' = listener v \<and> made v' = made v \<and>
     (\<forall>fd. fd \<in> fds v \<longrightarrow> ends v fd = None \<longrightarrow> fd \<in> fds v' \<and> ends v' fd = None) \<and>
     (\<forall>c'. c' \<noteq> c \<longrightarrow> (\<forall>fd e. ends v fd = Some (c', e) \<longrightarrow> ends v' fd = Some (c', e)) \<and> (\<forall>e. wire v' (c', e) = wire v (c', e)))"

lemma pair_frame:
  assumes "pair_ok kind v c st h" "\<And>fd e. ends v fd = Some (c, e) \<Longrightarrow> ends v' fd = Some (c, e)" "\<And>e. wire v' (c, e) = wire v (c, e)"
  shows "pair_ok kind v' c st h"
proof -
  have "handler_ok v c h \<Longrightarrow> handler_ok v' c h" using assms(2) by (cases "(v, c, h)" rule: handler_ok.cases) auto
  moreover have "rtt_pair v c st h \<Longrightarrow> rtt_pair v' c st h" using assms(2,3) by (cases st) auto
  moreover have "conn_pair v c st \<Longrightarrow> conn_pair v' c st" using assms(2) by (cases st) auto
  ultimately show ?thesis using assms(1) by (auto simp: pair_ok_def)
qed

lemma early_frame:
  "early l v st \<Longrightarrow> (\<And>fd. fd \<in> fds v \<Longrightarrow> ends v fd = None \<Longrightarrow> st = CConnect fd \<Longrightarrow> fd \<in> fds v' \<and> ends v' fd = None) \<Longrightarrow> early l v' st"
  by (cases st) auto

locale tcp_running = tcp_net N view for N :: "'n sockets" and view :: "'n \<Rightarrow> tcp_view" +
  fixes kind :: tcp_kind and l :: int and base :: nat and clock :: "nat \<Rightarrow> timespec \<times> timespec" and junk :: tcp_junk
    and nonces :: "nat \<Rightarrow> int"
  assumes junk: "length (fst junk n) = 4" "length (snd junk n) = 4"
begin

abbreviation step :: "tcp_turn \<Rightarrow> 'n tcp_run \<Rightarrow> 'n tcp_run outcome" where
  "step \<equiv> tcp_step kind N l clock junk"

abbreviation num :: nat where "num \<equiv> num_clients kind"

text \<open>The clients \<open>os\<close> have connected, in this order; the server accepts them in the same order.\<close>

definition args_ok :: "'n tcp_run \<Rightarrow> bool" where
  "args_ok s \<longleftrightarrow> length (tcp_args s) = num \<and> (\<forall>i < num. conn_client_id (tcp_args s ! i) = tcp_client_id kind nonces i \<and>
     timed_ok (clock i) (tcp_clients s ! i) (tcp_args s ! i))"

definition main_ok :: "nat \<Rightarrow> 'n tcp_run \<Rightarrow> bool" where
  "main_ok n s \<longleftrightarrow> length (conn_fds s) \<le> n \<and> listener (view (net s)) = Some (l, num, [base + length (conn_fds s)..<base + n]) \<and>
     made (view (net s)) = base + n \<and> l \<in> fds (view (net s)) \<and> ends (view (net s)) l = None \<and>
     length (tcp_handlers s) = (if kind = ManyRtt then length (conn_fds s) else 0)"

definition early_ok :: "nat list \<Rightarrow> 'n tcp_run \<Rightarrow> bool" where
  "early_ok os s \<longleftrightarrow> (\<forall>i < num. i \<notin> set os \<longrightarrow> early l (view (net s)) (tcp_clients s ! i))"

definition fds_apart :: "'n tcp_run \<Rightarrow> bool" where
  "fds_apart s \<longleftrightarrow> (\<forall>i < num. \<forall>j < num. i \<noteq> j \<longrightarrow> (\<forall>fd. tcp_clients s ! i = CConnect fd \<longrightarrow> tcp_clients s ! j \<noteq> CConnect fd))"

definition pairs_ok :: "nat list \<Rightarrow> 'n tcp_run \<Rightarrow> bool" where
  "pairs_ok os s \<longleftrightarrow> (\<forall>j < length os. pair_ok kind (view (net s)) (base + j) (tcp_clients s ! (os ! j)) (handler_at s j))"

definition tcp_inv :: "nat list \<Rightarrow> 'n tcp_run \<Rightarrow> bool" where
  "tcp_inv os s \<longleftrightarrow> length (tcp_clients s) = num \<and> distinct os \<and> set os \<subseteq> {..<num} \<and> main_ok (length os) s \<and> args_ok s \<and>
     early_ok os s \<and> fds_apart s \<and> pairs_ok os s"

lemma inv_pair: "tcp_inv os s \<Longrightarrow> j < length os \<Longrightarrow> pair_ok kind (view (net s)) (base + j) (tcp_clients s ! (os ! j)) (handler_at s j)"
  by (simp add: tcp_inv_def pairs_ok_def)

lemma inv_early: "tcp_inv os s \<Longrightarrow> i < num \<Longrightarrow> i \<notin> set os \<Longrightarrow> early l (view (net s)) (tcp_clients s ! i)"
  by (simp add: tcp_inv_def early_ok_def)

lemma fds_apart_set:
  assumes ap: "fds_apart s" and len: "length (tcp_clients s) = num"
    and new: "\<And>fd i. st = CConnect fd \<Longrightarrow> i < num \<Longrightarrow> i \<noteq> n \<Longrightarrow> tcp_clients s ! i \<noteq> CConnect fd"
  shows "fds_apart (set_client n st k s)"
  unfolding fds_apart_def
proof (intro allI impI)
  fix i j fd assume ij: "i < num" "j < num" "i \<noteq> j" and c: "tcp_clients (set_client n st k s) ! i = CConnect fd"
  have "tcp_clients s ! i = CConnect fd \<Longrightarrow> tcp_clients s ! j \<noteq> CConnect fd" using ap ij by (simp add: fds_apart_def)
  then show "tcp_clients (set_client n st k s) ! j \<noteq> CConnect fd"
    using c ij len new by (cases "i = n"; cases "j = n") auto
qed

lemma not_connected:
  assumes "tcp_inv os s" "tcp_clients s ! n = CSocket \<or> tcp_clients s ! n = CConnect fd"
  shows "n \<notin> set os"
proof
  assume "n \<in> set os"
  then obtain j where "j < length os" "os ! j = n" by (auto simp: in_set_conv_nth)
  with inv_pair [OF assms(1)] have "pair_ok kind (view (net s)) (base + j) (tcp_clients s ! n) (handler_at s j)" by blast
  with assms(2) show False by (auto simp: pair_ok_def split: if_splits)
qed

text \<open>The other pairs, when one connection changes.\<close>

lemma pairs_keep:
  assumes "tcp_inv os s" "i < length os" "i \<noteq> j" "only_conn (base + j) (view (net s)) v'"
  shows "pair_ok kind v' (base + i) (tcp_clients s ! (os ! i)) (handler_at s i)"
  using inv_pair [OF assms(1,2)] by (rule pair_frame) (use assms(3,4) in \<open>simp_all add: only_conn_def\<close>)

lemma backlog_num: "backlog kind = num"
  by (cases kind) simp_all

text \<open>A client or a handler that works on its own connection.\<close>

lemma client_own:
  assumes inv: "tcp_inv os s" and j: "j < length os" and v: "only_conn (base + j) (view (net s)) (view k')"
    and ok: "pair_ok kind (view k') (base + j) st (handler_at s j)" and st: "\<And>fd. st \<noteq> CConnect fd"
    and args: "conn_client_id a = conn_client_id (tcp_args s ! (os ! j))" "timed_ok (clock (os ! j)) st a"
  shows "tcp_inv os (set_client (os ! j) st k' (s\<lparr>tcp_args := (tcp_args s)[os ! j := a]\<rparr>))" (is "tcp_inv os ?s")
proof -
  from inv have len: "length (tcp_clients s) = num" and os: "distinct os" "set os \<subseteq> {..<num}" and m: "main_ok (length os) s"
    and ar: "args_ok s" and ap: "fds_apart s" by (simp_all add: tcp_inv_def)
  have osn: "os ! i < num" if "i < length os" for i using os(2) that by (auto simp: subset_iff)
  have "pairs_ok os ?s" unfolding pairs_ok_def
    using ok pairs_keep [OF inv _ _ v] os(1) j len osn by (simp add: nth_eq_iff_index_eq)
  moreover have "early l (view k') (tcp_clients s ! i)" if "i < num" "i \<notin> set os" for i
    using inv_early [OF inv that] by (rule early_frame) (use v in \<open>simp add: only_conn_def\<close>)
  then have "early_ok os ?s" using len j by (auto simp: early_ok_def)
  moreover have "args_ok ?s" using ar args osn [OF j] len by (simp add: args_ok_def nth_list_update)
  moreover have "main_ok (length os) ?s" using m v by (simp add: main_ok_def only_conn_def)
  moreover have "fds_apart ?s" using ap len st by (intro fds_apart_set) (simp add: fds_apart_def, simp, blast)
  ultimately show ?thesis using os len by (simp add: tcp_inv_def)
qed

lemma handler_own:
  assumes inv: "tcp_inv os s" and j: "j < length (tcp_handlers s)" and v: "only_conn (base + j) (view (net s)) (view k')"
    and ok: "pair_ok kind (view k') (base + j) (tcp_clients s ! (os ! j)) (Some h)"
  shows "tcp_inv os (set_handler j h k' s)" (is "tcp_inv os ?s")
proof -
  have "pair_ok kind (view k') (base + i) (tcp_clients s ! (os ! i)) (handler_at ?s i)" if i: "i < length os" for i
    using ok j pairs_keep [OF inv i _ v] by simp
  then have "pairs_ok os ?s" by (simp add: pairs_ok_def)
  moreover have "early l (view k') (tcp_clients s ! i)" if i: "i < num" "i \<notin> set os" for i
    using early_frame [OF inv_early [OF inv i]] v by (simp add: only_conn_def)
  then have "early_ok os ?s" by (simp add: early_ok_def)
  moreover have "args_ok ?s" "fds_apart ?s" using inv by (simp_all add: args_ok_def fds_apart_def tcp_inv_def)
  moreover have "main_ok (length os) ?s" using inv v by (simp add: main_ok_def only_conn_def tcp_inv_def)
  ultimately show ?thesis using inv by (simp add: tcp_inv_def)
qed

text \<open>The calls of a client up to its connection.\<close>

lemma num_os: "tcp_inv os s \<Longrightarrow> n < num \<Longrightarrow> n \<notin> set os \<Longrightarrow> length os < num"
proof -
  assume inv: "tcp_inv os s" and n: "n < num" "n \<notin> set os"
  then have "set os \<subset> {..<num}" "distinct os" by (auto simp: tcp_inv_def)
  then show ?thesis using psubset_card_mono [of "{..<num}" "set os"] distinct_card [of os] by simp
qed

lemma socket_step:
  assumes inv: "tcp_inv os s" and n: "n < num" "tcp_clients s ! n = CSocket"
  obtains fd k' where "socket N (net s) = (fd, k')" "fd \<noteq> -1" "tcp_inv os (set_client n (CConnect fd) k' s)"
proof -
  let ?v = "view (net s)"
  obtain fd k' where k': "socket N (net s) = (fd, k')" "0 < fd" "fd \<notin> fds ?v" "view k' = ?v\<lparr>fds := insert fd (fds ?v)\<rparr>"
    using socket_new by blast
  have new: "ends ?v fd = None" using ends_fds [of "net s" fd] k'(3) by blast
  from inv have len: "length (tcp_clients s) = num" and l: "l \<in> fds ?v" and os: "set os \<subseteq> {..<num}" and ap: "fds_apart s"
    by (simp_all add: tcp_inv_def main_ok_def)
  have nos: "n \<notin> set os" using not_connected [OF inv] n(2) by blast
  let ?s = "set_client n (CConnect fd) k' s"
  have "pair_ok kind (view k') (base + j) (tcp_clients s ! (os ! j)) (handler_at s j)" if "j < length os" for j
    using inv_pair [OF inv that] by (rule pair_frame) (simp_all add: k'(4))
  moreover have "os ! j < num \<and> os ! j \<noteq> n" if "j < length os" for j using that os nos by (auto simp: subset_iff)
  ultimately have "pairs_ok os ?s" using len by (simp add: pairs_ok_def)
  moreover have "early l (view k') (tcp_clients s ! i)" if "i < num" "i \<notin> set os" for i
    using inv_early [OF inv that] by (rule early_frame) (simp add: k'(4))
  then have "early_ok os ?s" using len new l k'(3,4) by (auto simp: early_ok_def)
  moreover have "tcp_clients s ! i \<noteq> CConnect fd" if i: "i < num" for i
  proof
    assume c: "tcp_clients s ! i = CConnect fd"
    then have "early l ?v (CConnect fd)" using inv_early [OF inv i] not_connected [OF inv] by metis
    then show False using k'(3) by simp
  qed
  then have "fds_apart ?s" using ap len by (intro fds_apart_set) auto
  moreover have "args_ok ?s" using inv n len by (simp add: args_ok_def tcp_inv_def)
  moreover have "main_ok (length os) ?s" using inv k'(4) by (simp add: main_ok_def tcp_inv_def)
  ultimately have "tcp_inv os ?s" using inv len by (simp add: tcp_inv_def)
  with k'(1,2) show thesis by (intro that) simp_all
qed

lemma connect_step:
  assumes inv: "tcp_inv os s" and n: "n < num" "tcp_clients s ! n = CConnect fd"
    and st: "st = (if kind = ManyRtt then CSend fd 1 (fst junk n) else CClose fd)"
    and args: "conn_client_id a = conn_client_id (tcp_args s ! n)" "timed_ok (clock n) st a"
  obtains k' where "connect N fd (net s) = Some (0, k')"
    "tcp_inv (os @ [n]) (set_client n st k' (s\<lparr>tcp_args := (tcp_args s)[n := a]\<rparr>))"
proof -
  let ?v = "view (net s)" and ?a = "length (conn_fds s)" and ?c = "base + length os"
  have nos: "n \<notin> set os" using not_connected [OF inv] n(2) by blast
  from inv have len: "length (tcp_clients s) = num" and os: "distinct os" "set os \<subseteq> {..<num}" and m: "main_ok (length os) s"
    and ar: "args_ok s" and ap: "fds_apart s" by (simp_all add: tcp_inv_def)
  have fd: "fd \<in> fds ?v" "ends ?v fd = None" "fd \<noteq> l" using inv_early [OF inv n(1) nos] n(2) by simp_all
  have room: "length [base + ?a..<base + length os] < num" using num_os [OF inv n(1) nos] by simp
  from m have li: "listener ?v = Some (l, num, [base + ?a..<base + length os])" and md: "made ?v = ?c" and al: "?a \<le> length os"
    by (simp_all add: main_ok_def)
  obtain k' where k': "connect N fd (net s) = Some (0, k')"
    "view k' = ?v\<lparr>ends := (ends ?v)(fd \<mapsto> (?c, False)), wire := (wire ?v)((?c, True) := [], (?c, False) := []),
       listener := Some (l, num, [base + ?a..<base + length os] @ [?c]), made := Suc ?c\<rparr>"
    using connect_room [OF li room fd] by (auto simp: md)
  let ?s = "set_client n st k' (s\<lparr>tcp_args := (tcp_args s)[n := a]\<rparr>)"
  have osn: "os ! j < num \<and> os ! j \<noteq> n" if "j < length os" for j using os(2) nos that by (auto simp: subset_iff)
  have "pair_ok kind (view k') (base + j) (tcp_clients s ! (os ! j)) (handler_at s j)" if "j < length os" for j
    using inv_pair [OF inv that] by (rule pair_frame) (use that fd(2) in \<open>auto simp: k'(2)\<close>)
  moreover have "handler_at s (length os) = None" using m by (auto simp: handler_at_def main_ok_def)
  then have "pair_ok kind (view k') ?c st (handler_at s (length os))"
    by (simp add: st pair_ok_def k'(2) junk tcp_NUM_ITEMS_def)
  ultimately have "pairs_ok (os @ [n]) ?s" using osn n(1) len by (auto simp: pairs_ok_def nth_append less_Suc_eq)
  moreover have "early l (view k') (tcp_clients s ! i)" if i: "i < num" "i \<noteq> n" "i \<notin> set os" for i
    using inv_early [OF inv i(1,3)]
  proof (rule early_frame)
    fix x assume "x \<in> fds ?v" "ends ?v x = None" "tcp_clients s ! i = CConnect x"
    moreover have "x \<noteq> fd" using ap i n calculation(3) by (auto simp: fds_apart_def)
    ultimately show "x \<in> fds (view k') \<and> ends (view k') x = None" by (simp add: k'(2))
  qed
  then have "early_ok (os @ [n]) ?s" using len by (simp add: early_ok_def)
  moreover have "args_ok ?s" using ar args n(1) len by (simp add: args_ok_def nth_list_update)
  moreover have "main_ok (length (os @ [n])) ?s" using m al fd(3) by (simp add: main_ok_def k'(2))
  moreover have "fds_apart ?s" using ap len by (intro fds_apart_set) (simp add: fds_apart_def, simp, simp add: st split: if_splits)
  ultimately have "tcp_inv (os @ [n]) ?s" using os len nos n(1) by (simp add: tcp_inv_def)
  with k'(1) show thesis by (rule that)
qed

text \<open>One pass of the accept loop.\<close>

lemma accept_step:
  assumes inv: "tcp_inv os s" and a: "length (conn_fds s) < num"
  shows "if length (conn_fds s) < length os then \<exists>s'. step TMain s = Ret s' \<and> tcp_inv os s' \<and> tcp_work kind s' < tcp_work kind s
    else step TMain s = Hang"
proof (cases "length (conn_fds s) < length os")
  case False
  then have "length (conn_fds s) = length os" using inv by (simp add: tcp_inv_def main_ok_def)
  then have "listener (view (net s)) = Some (l, num, [])" using inv by (simp add: tcp_inv_def main_ok_def)
  from accept_none [OF this] False show ?thesis by (simp add: tcp_accept_def)
next
  case True
  let ?v = "view (net s)" and ?a = "length (conn_fds s)"
  from inv have m: "main_ok (length os) s" and len: "length (tcp_clients s) = num" by (simp_all add: tcp_inv_def)
  have "listener ?v = Some (l, num, (base + ?a) # [base + Suc ?a..<base + length os])"
    using m True by (simp add: main_ok_def upt_conv_Cons)
  from accept_next [OF this] obtain fd k' where k': "accept_conn N l (net s) = Some (fd, k')" "0 < fd" "fd \<notin> fds ?v"
    "view k' = ?v\<lparr>fds := insert fd (fds ?v), ends := (ends ?v)(fd \<mapsto> (base + ?a, True)), listener := Some (l, num, [base + Suc ?a..<base + length os])\<rparr>"
    by blast
  let ?hs = "if kind = ManyRtt then [HRecv fd 1 (snd junk ?a)] else []"
  let ?s = "s\<lparr>net := k', conn_fds := conn_fds s @ [fd], tcp_handlers := tcp_handlers s @ ?hs\<rparr>"
  have turn: "step TMain s = Ret ?s" using a k'(1,2) by (cases s) (simp add: tcp_accept_def)
  have new: "ends ?v fd = None" using ends_fds [of "net s" fd] k'(3) by blast
  have hl: "length (tcp_handlers s) = (if kind = ManyRtt then ?a else 0)" using m by (simp add: main_ok_def)
  have "pair_ok kind (view k') (base + j) (tcp_clients s ! (os ! j)) (handler_at ?s j)" if j: "j < length os" for j
  proof -
    have old: "pair_ok kind (view k') (base + j) (tcp_clients s ! (os ! j)) (handler_at s j)"
      using inv_pair [OF inv j] by (rule pair_frame) (use new in \<open>auto simp: k'(4)\<close>)
    have "rtt_pair v c st (Some (HRecv fd 1 p))" if "rtt_pair v c st None" for v c st p using that by (cases st) auto
    with old show ?thesis by (auto simp: handler_at_def hl nth_append pair_ok_def k'(4) junk)
  qed
  then have "pairs_ok os ?s" by (simp add: pairs_ok_def)
  moreover have "early l (view k') (tcp_clients s ! i)" if i: "i < num" "i \<notin> set os" for i
    using inv_early [OF inv i] by (rule early_frame) (use k'(3) in \<open>auto simp: k'(4)\<close>)
  then have "early_ok os ?s" by (simp add: early_ok_def)
  moreover have "args_ok ?s" "fds_apart ?s" using inv by (simp_all add: args_ok_def fds_apart_def tcp_inv_def)
  moreover have "main_ok (length os) ?s" using m True k'(3) by (auto simp: main_ok_def k'(4))
  ultimately have inv': "tcp_inv os ?s" using inv by (simp add: tcp_inv_def)
  define w where "w = 2 * TCP_ITEMS + 2"
  define x where "x = sum_list (map handler_work ?hs)"
  have "x < w" unfolding x_def w_def by (simp, arith)
  moreover have "(num - ?a) * w = w + (num - Suc ?a) * w" using a by (simp only: mult_Suc [symmetric] Suc_diff_Suc)
  moreover have "tcp_work kind ?s = sum_list (map client_work (tcp_clients s)) + (sum_list (map handler_work (tcp_handlers s)) + x) + (num - Suc ?a) * w"
    "tcp_work kind s = sum_list (map client_work (tcp_clients s)) + sum_list (map handler_work (tcp_handlers s)) + (num - ?a) * w"
    unfolding tcp_work_def w_def x_def by simp_all
  ultimately have "tcp_work kind ?s < tcp_work kind s" by linarith
  with turn inv' True show ?thesis by auto
qed

text \<open>What a turn of a thread achieves, if anything.\<close>

abbreviation moves :: "nat list \<Rightarrow> tcp_turn \<Rightarrow> 'n tcp_run \<Rightarrow> bool" where
  "moves os t s \<equiv> \<exists>s' os'. step t s = Ret s' \<and> tcp_inv os' s' \<and> tcp_work kind s' < tcp_work kind s"

lemma work_client:
  "n < length (tcp_clients s) \<Longrightarrow> client_work st < client_work (tcp_clients s ! n) \<Longrightarrow>
   tcp_work kind (set_client n st k (s\<lparr>tcp_args := as\<rparr>)) < tcp_work kind s"
  using sum_map_update [of n "tcp_clients s" client_work st] by (simp add: tcp_work_def set_client_def)

lemma work_handler:
  "j < length (tcp_handlers s) \<Longrightarrow> handler_work h < handler_work (tcp_handlers s ! j) \<Longrightarrow>
   tcp_work kind (set_handler j h k s) < tcp_work kind s"
  using sum_map_update [of j "tcp_handlers s" handler_work h] by (simp add: tcp_work_def set_handler_def)

lemma own_args: "(tcp_args s)[n := tcp_args s ! n] = tcp_args s" "s\<lparr>tcp_args := tcp_args s\<rparr> = s"
  by simp_all

lemma early_moves:
  assumes inv: "tcp_inv os s" and n: "n < num" "n \<notin> set os"
  shows "moves os (TClient n) s"
proof -
  have len: "length (tcp_clients s) = num" using inv by (simp add: tcp_inv_def)
  show ?thesis
  proof (cases "tcp_clients s ! n")
    case CSocket
    obtain fd k' where k': "socket N (net s) = (fd, k')" "fd \<noteq> -1" "tcp_inv os (set_client n (CConnect fd) k' s)"
      by (rule socket_step [OF inv n(1) CSocket])
    have "step (TClient n) s = Ret (set_client n (CConnect fd) k' s)" using CSocket n(1) len k'(1,2) by simp
    moreover have "tcp_work kind (set_client n (CConnect fd) k' s) < tcp_work kind s"
      using work_client [of n s "CConnect fd" k' "tcp_args s"] CSocket n(1) len by simp
    ultimately show ?thesis using k'(3) by blast
  next
    case (CConnect fd)
    let ?st = "if kind = ManyRtt then CSend fd 1 (fst junk n) else CClose fd"
    let ?a = "if kind = ManyRtt then (tcp_args s ! n)\<lparr>start_time := fst (clock n)\<rparr>
      else (tcp_args s ! n)\<lparr>start_time := fst (clock n), end_time := snd (clock n)\<rparr>"
    let ?s = "\<lambda>k'. set_client n ?st k' (s\<lparr>tcp_args := (tcp_args s)[n := ?a]\<rparr>)"
    obtain k' where k': "connect N fd (net s) = Some (0, k')" "tcp_inv (os @ [n]) (?s k')"
      by (rule connect_step [OF inv n(1) CConnect refl, of ?a]) auto
    have "step (TClient n) s = Ret (?s k')" using CConnect n(1) len k'(1) by simp
    moreover have "client_work ?st < client_work (tcp_clients s ! n)" using CConnect by (auto split: if_splits)
    then have "tcp_work kind (?s k') < tcp_work kind s" using n(1) len by (intro work_client) simp_all
    ultimately show ?thesis using k'(2) by blast
  qed (use inv_early [OF inv n] in simp_all)
qed

lemma close_own:
  assumes "ends (view k) fd = Some (c, e)"
  shows "only_conn c (view k) (view (close_fd N fd k))"
  using assms by (auto simp: only_conn_def close_view)

lemma close_moves:
  assumes inv: "tcp_inv os s" and j: "j < length os" and c: "tcp_clients s ! (os ! j) = CClose fd"
  shows "moves os (TClient (os ! j)) s"
proof -
  let ?n = "os ! j" and ?k = "close_fd N fd (net s)"
  from inv have len: "length (tcp_clients s) = num" and n: "?n < num" using j by (auto simp: tcp_inv_def subset_iff)
  have p: "pair_ok kind (view (net s)) (base + j) (CClose fd) (handler_at s j)" using inv_pair [OF inv j] c by simp
  then have e: "ends (view (net s)) fd = Some (base + j, False)" by (auto simp: pair_ok_def split: if_splits)
  have "handler_ok (view ?k) (base + j) h" if "handler_ok (view (net s)) (base + j) h" for h
    using that e by (cases "(view ?k, base + j, h)" rule: handler_ok.cases) (auto simp: close_view [OF e])
  with p have ok: "pair_ok kind (view ?k) (base + j) CDone (handler_at s j)" by (auto simp: pair_ok_def split: if_splits)
  have a: "timed_ok (clock ?n) CDone (tcp_args s ! ?n)" using inv n c unfolding tcp_inv_def args_ok_def by auto
  have "tcp_inv os (set_client ?n CDone ?k s)"
    using client_own [OF inv j close_own [OF e] ok _ refl a] by (simp add: own_args)
  moreover have "step (TClient ?n) s = Ret (set_client ?n CDone ?k s)" using n len c by simp
  moreover have "tcp_work kind (set_client ?n CDone ?k s) < tcp_work kind s"
    using work_client [of ?n s CDone ?k "tcp_args s"] n len c by (simp add: own_args)
  ultimately show ?thesis by blast
qed

text \<open>
  Progress: every turn of a thread that need not wait gets the test closer to its end, unless a
  \<open>read\<close> in it returns only part of a message, and as long as it is not over some thread need not wait.
\<close>

definition live :: bool where
  "live \<longleftrightarrow> (\<forall>os s. tcp_inv os s \<longrightarrow> (\<forall>t. step t s = Hang \<or> moves os t s \<or> short_turn kind N t s) \<and>
     ((\<forall>t \<in> set (tcp_threads kind). step t s = Hang) \<longrightarrow> tcp_over kind s))"

lemma hang_moves: "step t s = Hang \<Longrightarrow> \<not> moves os t s"
  by (simp del: tcp_step.simps)

lemma threads_hang:
  assumes inv: "tcp_inv os s" and all: "\<forall>t \<in> set (tcp_threads kind). step t s = Hang"
  shows "set os = {..<num}" "length (conn_fds s) = num" "j < length os \<Longrightarrow> tcp_clients s ! (os ! j) \<noteq> CClose fd"
proof -
  have client: "\<not> moves os (TClient n) s" if "n < num" for n using all threads_mem(2) [OF that] hang_moves by blast
  have "n \<in> set os" if "n < num" for n using early_moves [OF inv that] client [OF that] by blast
  then show os: "set os = {..<num}" using inv by (auto simp: tcp_inv_def)
  then have len: "length os = num" using inv distinct_card [of os] by (simp add: tcp_inv_def)
  have le: "length (conn_fds s) \<le> length os" using inv by (simp add: tcp_inv_def main_ok_def)
  have "\<not> moves os TMain s" using all threads_mem(1) hang_moves by blast
  then have "\<not> length (conn_fds s) < num" using accept_step [OF inv] len by (metis (no_types, lifting))
  then show "length (conn_fds s) = num" using le len by simp
  show "tcp_clients s ! (os ! j) \<noteq> CClose fd" if j: "j < length os"
  proof
    assume "tcp_clients s ! (os ! j) = CClose fd"
    from close_moves [OF inv j this] client [of "os ! j"] os j show False using nth_mem [OF j] by blast
  qed
qed

lemma main_turn: "tcp_inv os s \<Longrightarrow> step TMain s = Hang \<or> moves os TMain s"
proof (cases "length (conn_fds s) < num")
  case True
  assume "tcp_inv os s"
  from accept_step [OF this True] show ?thesis by (metis (no_types, lifting))
qed (simp add: tcp_accept_def)

lemma conn_live:
  assumes k: "kind \<noteq> ManyRtt"
  shows live
  unfolding live_def
proof (intro allI impI conjI)
  fix os s t assume inv: "tcp_inv os s"
  have conn: "conn_pair (view (net s)) (base + j) (tcp_clients s ! (os ! j))" if "j < length os" for j
    using inv_pair [OF inv that] k by (simp add: pair_ok_def)
  have len: "length (tcp_clients s) = num" "tcp_handlers s = []" using inv k by (simp_all add: tcp_inv_def main_ok_def)
  show "step t s = Hang \<or> moves os t s \<or> short_turn kind N t s"
  proof (cases t)
    case (TClient n)
    show ?thesis
    proof (cases "n \<in> set os")
      case True
      then obtain j where j: "j < length os" "n = os ! j" by (auto simp: in_set_conv_nth)
      show ?thesis
      proof (cases "tcp_clients s ! n")
        case (CClose fd)
        with close_moves [OF inv j(1)] j(2) TClient show ?thesis by blast
      qed (use conn [OF j(1)] j(2) TClient k in auto)
    next
      case False
      then show ?thesis using early_moves [OF inv] TClient len by (cases "n < num") auto
    qed
  next
    case TMain
    with main_turn [OF inv] show ?thesis by blast
  qed (use len in simp)
  assume all: "\<forall>t \<in> set (tcp_threads kind). step t s = Hang"
  have "tcp_clients s ! n = CDone" if n: "n < num" for n
  proof -
    have "n \<in> set os" using threads_hang(1) [OF inv all] n by simp
    then obtain j where j: "j < length os" "n = os ! j" by (auto simp: in_set_conv_nth)
    with conn [OF j(1)] threads_hang(3) [OF inv all j(1)] show ?thesis by (cases "tcp_clients s ! n") auto
  qed
  then show "tcp_over kind s" using threads_hang(2) [OF inv all] len by (simp add: tcp_over_def list_all_length)
qed

lemma over_hang: "tcp_over kind s \<Longrightarrow> step t s = Hang"
  by (cases t) (auto simp: tcp_over_def tcp_accept_def list_all_length)

lemma turns_hang: "\<forall>t \<in> set ts. step t s = Hang \<Longrightarrow> tcp_turns kind N l clock junk ts s = Ret s"
  by (induction ts) simp_all

abbreviation short :: "tcp_turn list \<Rightarrow> 'n tcp_run \<Rightarrow> bool" where
  "short \<equiv> short_read kind N l clock junk"

lemma turns_live:
  assumes live "tcp_inv os s"
  shows "short ts s \<or> (\<exists>s' os'. tcp_turns kind N l clock junk ts s = Ret s' \<and> tcp_inv os' s' \<and>
    (tcp_work kind s' < tcp_work kind s \<or> s' = s \<and> (\<forall>t \<in> set ts. step t s = Hang)))"
  using assms(2)
proof (induction ts arbitrary: s os)
  case (Cons t ts)
  from assms(1) Cons.prems have "step t s = Hang \<or> moves os t s \<or> short_turn kind N t s" unfolding live_def by blast
  then show ?case
  proof (elim disjE)
    assume h: "step t s = Hang"
    with Cons.IH [OF Cons.prems] show ?thesis by simp
  next
    assume "moves os t s"
    then obtain s1 os1 where 1: "step t s = Ret s1" "tcp_inv os1 s1" "tcp_work kind s1 < tcp_work kind s" by blast
    from Cons.IH [OF 1(2)] show ?thesis
    proof
      assume "short ts s1"
      with 1(1) show ?thesis by simp
    next
      assume "\<exists>s' os'. tcp_turns kind N l clock junk ts s1 = Ret s' \<and> tcp_inv os' s' \<and>
        (tcp_work kind s' < tcp_work kind s1 \<or> s' = s1 \<and> (\<forall>t \<in> set ts. step t s1 = Hang))"
      then obtain s2 os2 where "tcp_turns kind N l clock junk ts s1 = Ret s2" "tcp_inv os2 s2"
        "tcp_work kind s2 \<le> tcp_work kind s1" by (auto dest: less_imp_le)
      with 1(1,3) show ?thesis by (intro disjI2 exI [of _ s2] exI [of _ os2]) simp
    qed
  qed simp
qed auto

text \<open>Any schedule with enough rounds in which every thread gets a turn ends the test.\<close>

lemma turns_append:
  "tcp_turns kind N l clock junk (ts @ us) s = bind_out (tcp_turns kind N l clock junk ts s) (tcp_turns kind N l clock junk us)"
proof (induction ts arbitrary: s)
  case (Cons t ts)
  then show ?case by (cases "step t s") simp_all
qed simp

lemma short_append:
  "short (ts @ us) s \<longleftrightarrow> short ts s \<or> (\<exists>s'. tcp_turns kind N l clock junk ts s = Ret s' \<and> short us s')"
proof (induction ts arbitrary: s)
  case (Cons t ts)
  then show ?case by (cases "step t s") simp_all
qed simp

text \<open>A thread that reads has work to do.\<close>

lemma short_work: "short_turn kind N t s \<Longrightarrow> 0 < tcp_work kind s"
proof (rule ccontr)
  assume short: "short_turn kind N t s" and "\<not> 0 < tcp_work kind s"
  then have z: "\<forall>c \<in> set (tcp_clients s). client_work c = 0" "\<forall>h \<in> set (tcp_handlers s). handler_work h = 0"
    by (simp_all add: tcp_work_def)
  show False
  proof (cases t)
    case (TClient n)
    with short have "tcp_clients s ! n \<in> set (tcp_clients s)" by simp
    with z(1) have "client_work (tcp_clients s ! n) = 0" by blast
    with short TClient show False by (cases "tcp_clients s ! n") simp_all
  next
    case (THandler j)
    with short have "tcp_handlers s ! j \<in> set (tcp_handlers s)" by simp
    with z(2) have "handler_work (tcp_handlers s ! j) = 0" by blast
    with short THandler show False by (cases "tcp_handlers s ! j") simp_all
  qed (use short in simp)
qed

lemma rounds_end:
  assumes live "tcp_inv os s" "\<forall>r \<in> set rs. set (tcp_threads kind) \<subseteq> set r" "tcp_work kind s \<le> length rs"
  shows "short (concat rs) s \<or> (\<exists>s' os'. tcp_turns kind N l clock junk (concat rs) s = Ret s' \<and> tcp_inv os' s' \<and> tcp_over kind s')"
  using assms(2-4)
proof (induction rs arbitrary: s os)
  case Nil
  then have "step t s = Hang" for t
    using assms(1) short_work [of t s] unfolding live_def by (metis less_nat_zero_code le_zero_eq list.size(3))
  then show ?case using assms(1) Nil unfolding live_def by auto
next
  case (Cons r rs)
  show ?case
  proof (cases "short r s")
    case True
    then show ?thesis by (simp add: short_append)
  next
    case False
    with turns_live [OF assms(1) Cons.prems(1), of r] obtain s1 os1 where 1: "tcp_turns kind N l clock junk r s = Ret s1" "tcp_inv os1 s1"
      "tcp_work kind s1 < tcp_work kind s \<or> s1 = s \<and> (\<forall>t \<in> set r. step t s = Hang)" by blast
    from 1(3) show ?thesis
    proof
    assume "tcp_work kind s1 < tcp_work kind s"
    with Cons.IH [OF 1(2)] Cons.prems 1(1) show ?thesis by (simp add: turns_append short_append)
  next
    assume h: "s1 = s \<and> (\<forall>t \<in> set r. step t s = Hang)"
    then have "\<forall>t \<in> set (tcp_threads kind). step t s = Hang" using Cons.prems(2) by auto
    then have "tcp_over kind s" using assms(1) Cons.prems(1) unfolding live_def by blast
    then show ?thesis using h 1 Cons.prems(1) turns_hang [of "concat rs" s] over_hang by (auto simp: turns_append)
    qed
  qed
qed

text \<open>Without messages nobody reads.\<close>

lemma conn_not_short:
  assumes "kind \<noteq> ManyRtt" "tcp_inv os s"
  shows "\<not> short ts s"
  using assms(2)
proof (induction ts arbitrary: s os)
  case (Cons t ts)
  have "tcp_handlers s = []" using Cons.prems assms(1) by (simp add: tcp_inv_def main_ok_def)
  then have no: "\<not> short_turn kind N t s" using assms(1) by (cases t) simp_all
  then have "step t s = Hang \<or> moves os t s" using conn_live [OF assms(1)] Cons.prems unfolding live_def by blast
  with Cons no show ?case by (auto simp del: tcp_step.simps)
qed simp

end

text \<open>The messages.\<close>

locale tcp_messages = tcp_running N view kind l base clock junk nonces
  for N :: "'n sockets" and view :: "'n \<Rightarrow> tcp_view" and kind l base clock junk nonces +
  assumes rtt: "kind = ManyRtt"
begin

lemma handlers_len:
  assumes "tcp_inv os s"
  shows "length (tcp_handlers s) = length (conn_fds s)" "length (conn_fds s) \<le> length os"
proof -
  have "main_ok (length os) s" using assms by (simp add: tcp_inv_def)
  then show "length (tcp_handlers s) = length (conn_fds s)" "length (conn_fds s) \<le> length os"
    unfolding main_ok_def using rtt by auto
qed

lemma wire_own: "view k' = (view k)\<lparr>wire := (wire (view k))((c, e) := bs)\<rparr> \<Longrightarrow> only_conn c (view k) (view k')"
  by (simp add: only_conn_def)

lemma pair_rtt:
  assumes "tcp_inv os s" "j < length os"
  shows "rtt_pair (view (net s)) (base + j) (tcp_clients s ! (os ! j)) (handler_at s j)" "handler_ok (view (net s)) (base + j) (handler_at s j)"
  using inv_pair [OF assms] rtt by (simp_all add: pair_ok_def)

lemma handler_ok_wire: "handler_ok (v\<lparr>wire := w\<rparr>) c h = handler_ok v c h"
  by (cases "(v, c, h)" rule: handler_ok.cases) simp_all

text \<open>The other end of a connection is open, or waits to be accepted.\<close>

lemma server_end:
  assumes inv: "tcp_inv os s" and j: "j < length os" and h: "handler_ok (view (net s)) (base + j) (handler_at s j)" "handler_at s j \<noteq> Some HDone"
  shows "(\<exists>fd. ends (view (net s)) fd = Some (base + j, True)) \<or>
    (\<exists>l b q. listener (view (net s)) = Some (l, b, q) \<and> base + j \<in> set q)"
proof (cases "handler_at s j")
  case None
  then have "length (conn_fds s) \<le> j" using handlers_len(1) [OF inv] by (auto simp: handler_at_def split: if_splits)
  then show ?thesis using inv j by (simp add: tcp_inv_def main_ok_def)
next
  case (Some x)
  with h show ?thesis by (cases x) auto
qed

lemma own_timed:
  assumes "tcp_inv os s" "j < length os"
  shows "timed_ok (clock (os ! j)) (tcp_clients s ! (os ! j)) (tcp_args s ! (os ! j))"
  using assms unfolding tcp_inv_def args_ok_def by (auto simp: subset_iff)

lemma client_moves:
  assumes inv: "tcp_inv os s" and j: "j < length os" and v: "only_conn (base + j) (view (net s)) (view k')"
    and ok: "rtt_pair (view k') (base + j) st (handler_at s j)" "handler_ok (view k') (base + j) (handler_at s j)"
    and args: "conn_client_id a = conn_client_id (tcp_args s ! (os ! j))" "timed_ok (clock (os ! j)) st a"
    and work: "client_work st < client_work (tcp_clients s ! (os ! j))"
    and turn: "client_tcp_load_connection N (clock (os ! j)) (fst junk (os ! j)) (os ! j) (tcp_clients s ! (os ! j)) s =
      Ret (set_client (os ! j) st k' (s\<lparr>tcp_args := (tcp_args s)[os ! j := a]\<rparr>))"
  shows "moves os (TClient (os ! j)) s"
proof -
  let ?s = "set_client (os ! j) st k' (s\<lparr>tcp_args := (tcp_args s)[os ! j := a]\<rparr>)"
  have n: "os ! j < num" "length (tcp_clients s) = num" using inv j by (auto simp: tcp_inv_def subset_iff)
  have "\<And>fd. st \<noteq> CConnect fd" using ok(1) by auto
  with ok rtt have "tcp_inv os ?s" by (intro client_own [OF inv j v _ _ args]) (simp_all add: pair_ok_def)
  moreover have "step (TClient (os ! j)) s = Ret ?s" using n turn rtt by simp
  moreover have "tcp_work kind ?s < tcp_work kind s" using n work by (intro work_client) simp_all
  ultimately show ?thesis by blast
qed

lemma send_moves:
  assumes inv: "tcp_inv os s" and j: "j < length os" and c: "tcp_clients s ! (os ! j) = CSend fd i p"
  shows "moves os (TClient (os ! j)) s"
proof -
  let ?v = "view (net s)" and ?c = "base + j"
  note p = pair_rtt [OF inv j, unfolded c]
  from p(1) have e: "ends ?v fd = Some (?c, False)" and w: "wire ?v (?c, True) = []" "wire ?v (?c, False) = []"
    and i: "1 \<le> i" "i \<le> TCP_ITEMS" "length p = 4" "awaits i (handler_at s j)" by simp_all
  show ?thesis
  proof (cases "i < TCP_ITEMS")
    case True
    have "handler_at s j \<noteq> Some HDone" using i(4) True by auto
    from server_end [OF inv j p(2) this] e w obtain k' where k': "write_fd N fd (msg i) (net s) = Some k'"
      "view k' = ?v\<lparr>wire := (wire ?v)((?c, True) := msg i)\<rparr>"
      using write_room [of "net s" fd ?c False "msg i"] by auto
    have t: "timed_ok (clock (os ! j)) (CRecv fd i p) (tcp_args s ! (os ! j))" using own_timed [OF inv j] c by simp
    show ?thesis
      by (rule client_moves [OF inv j wire_own [OF k'(2)] _ _ refl t])
        (use p(2) e w i True c k' in \<open>simp_all add: handler_ok_wire own_args\<close>)
  next
    case False
    let ?a = "(tcp_args s ! (os ! j))\<lparr>end_time := snd (clock (os ! j))\<rparr>"
    have t: "timed_ok (clock (os ! j)) (CClose fd) ?a" using own_timed [OF inv j] c by simp
    have v: "only_conn ?c ?v (view (net s))" by (simp add: only_conn_def)
    show ?thesis
      by (rule client_moves [OF inv j v _ p(2) _ t]) (use e i False c in auto)
  qed
qed

lemma recv_moves:
  assumes inv: "tcp_inv os s" and j: "j < length os" and c: "tcp_clients s ! (os ! j) = CRecv fd i p"
  shows "if wire (view (net s)) (base + j, False) = [] then step (TClient (os ! j)) s = Hang
    else short_turn kind N (TClient (os ! j)) s \<or> moves os (TClient (os ! j)) s"
proof -
  let ?v = "view (net s)" and ?c = "base + j"
  note p = pair_rtt [OF inv j, unfolded c]
  from p(1) have e: "ends ?v fd = Some (?c, False)" and i: "1 \<le> i" "i < TCP_ITEMS" "length p = 4" by simp_all
  have n: "os ! j < num" "length (tcp_clients s) = num" using inv j by (auto simp: tcp_inv_def subset_iff)
  show ?thesis
  proof (cases "wire ?v (?c, False) = []")
    case True
    then have "handler_at s j \<noteq> Some HDone" using p(1) by auto
    from server_end [OF inv j p(2) this] have "read_fd N fd 4 (net s) = None" by (intro read_none [OF e True]) simp_all
    then show ?thesis using True n c rtt by simp
  next
    case False
    then have w: "wire ?v (?c, False) = msg i" "wire ?v (?c, True) = []" "awaits (i + 1) (handler_at s j)" using p(1) by auto
    from read_some [OF e False, of 4] obtain m k' where
      k': "read_fd N fd 4 (net s) = Some (take m (wire ?v (?c, False)), k')"
        "view k' = ?v\<lparr>wire := (wire ?v)((?c, False) := drop m (wire ?v (?c, False)))\<rparr>" by auto
    show ?thesis
    proof (cases "length (take m (msg i)) < 4")
      case True
      then have "short_turn kind N (TClient (os ! j)) s" using n c rtt k'(1) w(1) by (simp add: gets_less_def)
      with False show ?thesis by simp
    next
      case whole: False
    then have m: "take m (msg i) = msg i" by (simp add: int_bytes_def)
    then have "drop m (msg i) = []" by (simp add: take_all_iff)
    then have v': "view k' = ?v\<lparr>wire := (wire ?v)((?c, False) := [])\<rparr>" using k'(2) w(1) by simp
    have f: "fill (msg i) p = msg i" using i(3) by (simp add: fill_def)
    have t: "timed_ok (clock (os ! j)) (CSend fd (i + 1) (msg i)) (tcp_args s ! (os ! j))" using own_timed [OF inv j] c by simp
    have "moves os (TClient (os ! j)) s"
      by (rule client_moves [OF inv j wire_own [OF v'] _ _ refl t])
        (use p(2) e w i c k'(1) m f in \<open>simp_all add: v' handler_ok_wire own_args Let_def\<close>)
    with False show ?thesis by simp
    qed
  qed
qed

lemma handler_moves:
  assumes inv: "tcp_inv os s" and j: "j < length (tcp_handlers s)" and v: "only_conn (base + j) (view (net s)) (view k')"
    and ok: "rtt_pair (view k') (base + j) (tcp_clients s ! (os ! j)) (Some h)" "handler_ok (view k') (base + j) (Some h)"
    and work: "handler_work h < handler_work (tcp_handlers s ! j)"
    and turn: "server_tcp_handler N j (tcp_handlers s ! j) s = Ret (set_handler j h k' s)"
  shows "moves os (THandler j) s"
proof -
  have "tcp_inv os (set_handler j h k' s)" using ok rtt by (intro handler_own [OF inv j v]) (simp add: pair_ok_def)
  moreover have "step (THandler j) s = Ret (set_handler j h k' s)" using j turn by simp
  moreover have "tcp_work kind (set_handler j h k' s) < tcp_work kind s" using work_handler [OF j work] .
  ultimately show ?thesis by blast
qed

lemma handler_turn:
  assumes inv: "tcp_inv os s" and j: "j < length (tcp_handlers s)"
  shows "(if tcp_handlers s ! j = HDone \<or> (\<exists>fd i p. tcp_handlers s ! j = HRecv fd i p \<and> i < TCP_ITEMS) \<and> wire (view (net s)) (base + j, True) = []
    then step (THandler j) s = Hang else short_turn kind N (THandler j) s \<or> moves os (THandler j) s)"
proof -
  let ?v = "view (net s)" and ?c = "base + j" and ?st = "tcp_clients s ! (os ! j)"
  have jo: "j < length os" using handlers_len [OF inv] j by simp
  have at: "handler_at s j = Some (tcp_handlers s ! j)" using j by (simp add: handler_at_def)
  note p = pair_rtt [OF inv jo, unfolded at]
  show ?thesis
  proof (cases "tcp_handlers s ! j")
    case (HRecv fd i q)
    with p(2) have e: "ends ?v fd = Some (?c, True)" "length q = 4" by simp_all
    consider (close) "\<not> i < TCP_ITEMS" | (wait) "i < TCP_ITEMS" "wire ?v (?c, True) = []" | (go) "i < TCP_ITEMS" "wire ?v (?c, True) \<noteq> []"
      by blast
    then show ?thesis
    proof cases
      case close
      have "rtt_pair (view (close_fd N fd (net s))) ?c ?st (Some HDone)"
        using p(1) close HRecv e by (cases ?st) (auto simp: close_view [OF e(1)])
      then have "moves os (THandler j) s"
        by (rule handler_moves [OF inv j close_own [OF e(1)]]) (use HRecv close in simp_all)
      with close HRecv show ?thesis by simp
    next
      case wait
      then have "\<exists>cfd. ends ?v cfd = Some (?c, False)" using p(1) HRecv by (cases ?st) auto
      then have "read_fd N fd 4 (net s) = None" by (intro read_none [OF e(1) wait(2)]) simp
      with wait HRecv j show ?thesis by simp
    next
      case go
      then obtain cfd cp where st: "?st = CRecv cfd i cp" and w: "wire ?v (?c, True) = msg i" "wire ?v (?c, False) = []"
        using p(1) HRecv by (cases ?st) auto
      from read_some [OF e(1) go(2), of 4] obtain m k' where
        k': "read_fd N fd 4 (net s) = Some (take m (wire ?v (?c, True)), k')"
          "view k' = ?v\<lparr>wire := (wire ?v)((?c, True) := drop m (wire ?v (?c, True)))\<rparr>" by auto
      show ?thesis
      proof (cases "length (take m (msg i)) < 4")
        case True
        then have "short_turn kind N (THandler j) s" using j HRecv go(1) k'(1) w(1) by (simp add: gets_less_def)
        with go HRecv show ?thesis by simp
      next
        case False
      then have m: "take m (msg i) = msg i" by (simp add: int_bytes_def)
      then have "drop m (msg i) = []" by (simp add: take_all_iff)
      then have v': "view k' = ?v\<lparr>wire := (wire ?v)((?c, True) := [])\<rparr>" using k'(2) w(1) by simp
      have f: "fill (msg i) q = msg i" using e(2) by (simp add: fill_def)
      have "moves os (THandler j) s"
        by (rule handler_moves [OF inv j wire_own [OF v'], where h = "HSend fd i (msg i)"])
          (use p(1) st w e go HRecv k'(1) m f in \<open>simp_all add: v'\<close>)
      with go HRecv show ?thesis by simp
      qed
    qed
  next
    case (HSend fd i q)
    with p have e: "ends ?v fd = Some (?c, True)" and i: "i < TCP_ITEMS" "length q = 4" by simp_all
    from p(1) HSend i obtain cfd cp where st: "?st = CRecv cfd i cp" and q: "q = msg i" "wire ?v (?c, True) = []" "wire ?v (?c, False) = []"
      and c: "ends ?v cfd = Some (?c, False)" by (cases ?st) auto
    obtain k' where k': "write_fd N fd q (net s) = Some k'" "view k' = ?v\<lparr>wire := (wire ?v)((?c, False) := msg i)\<rparr>"
      using write_room [OF e, of q] c q by auto
    have "moves os (THandler j) s"
      by (rule handler_moves [OF inv j wire_own [OF k'(2)], where h = "HRecv fd (i + 1) q"])
        (use p(1) st q e i c HSend k' in simp_all)
    with HSend show ?thesis by simp
  qed (use j in simp)
qed

lemma handler_cases:
  assumes "tcp_inv os s" "j < length (tcp_handlers s)"
  shows "(tcp_handlers s ! j = HDone \<or> (\<exists>fd i p. tcp_handlers s ! j = HRecv fd i p \<and> i < TCP_ITEMS) \<and>
    wire (view (net s)) (base + j, True) = []) \<and> step (THandler j) s = Hang \<or> moves os (THandler j) s \<or> short_turn kind N (THandler j) s"
  using handler_turn [OF assms] by (auto simp del: tcp_step.simps short_turn.simps split: if_splits)

lemma rtt_client_turn:
  assumes inv: "tcp_inv os s" and j: "j < length os"
  shows "step (TClient (os ! j)) s = Hang \<or> moves os (TClient (os ! j)) s \<or> short_turn kind N (TClient (os ! j)) s"
proof (cases "tcp_clients s ! (os ! j)")
  case (CSend fd i p)
  then show ?thesis using send_moves [OF inv j] by blast
next
  case (CRecv fd i p)
  then show ?thesis using recv_moves [OF inv j] by metis
next
  case (CClose fd)
  then show ?thesis using close_moves [OF inv j] by blast
qed (use pair_rtt(1) [OF inv j] rtt in simp_all)

lemma rtt_stuck:
  assumes inv: "tcp_inv os s" and all: "\<forall>t \<in> set (tcp_threads kind). step t s = Hang" and j: "j < num"
  shows "tcp_clients s ! (os ! j) = CDone" "tcp_handlers s ! j = HDone"
proof -
  have len: "length os = num" using threads_hang(1) [OF inv all] inv distinct_card [of os] by (simp add: tcp_inv_def)
  then have jo: "j < length os" and n: "os ! j < num" using j threads_hang(1) [OF inv all] nth_mem [of j os] by auto
  have jh: "j < length (tcp_handlers s)" using handlers_len(1) [OF inv] threads_hang(2) [OF inv all] j by simp
  have hang: "step (TClient (os ! j)) s = Hang" "step (THandler j) s = Hang" using all threads_mem(2) [OF n] threads_mem(3) [OF j] by blast+
  have no: "\<not> moves os (TClient (os ! j)) s" "\<not> moves os (THandler j) s" using hang hang_moves by blast+
  have no_short: "\<not> short_turn kind N (TClient (os ! j)) s" "\<not> short_turn kind N (THandler j) s"
    using hang hang_not_short by blast+
  have at: "handler_at s j = Some (tcp_handlers s ! j)" using jh by (simp add: handler_at_def)
  note p = pair_rtt(1) [OF inv jo, unfolded at]
  have h: "tcp_handlers s ! j = HDone \<or> (\<exists>fd i q. tcp_handlers s ! j = HRecv fd i q \<and> i < TCP_ITEMS) \<and> wire (view (net s)) (base + j, True) = []"
    using handler_cases [OF inv jh] no(2) no_short(2) by blast
  show c: "tcp_clients s ! (os ! j) = CDone"
  proof (cases "tcp_clients s ! (os ! j)")
    case (CSend fd i q)
    then show ?thesis using send_moves [OF inv jo] no(1) by blast
  next
    case (CRecv fd i q)
    have "wire (view (net s)) (base + j, False) = []"
    proof (rule ccontr)
      assume ne: "wire (view (net s)) (base + j, False) \<noteq> []"
      from recv_moves [OF inv jo CRecv, unfolded if_not_P [OF ne]] no(1) no_short(1) show False by blast
    qed
    with h p CRecv show ?thesis by auto
  next
    case (CClose fd)
    then show ?thesis using close_moves [OF inv jo] no(1) by blast
  qed (use p in simp_all)
  show "tcp_handlers s ! j = HDone" using h p c by auto
qed

lemma rtt_live: live
  unfolding live_def
proof (intro allI impI conjI)
  fix os s t assume inv: "tcp_inv os s"
  have len: "length (tcp_clients s) = num" using inv by (simp add: tcp_inv_def)
  show "step t s = Hang \<or> moves os t s \<or> short_turn kind N t s"
  proof (cases t)
    case (TClient n)
    consider "\<not> n < num" | "n < num" "n \<notin> set os" | j where "j < length os" "n = os ! j" by (auto simp: in_set_conv_nth)
    then show ?thesis
    proof cases
      case 2
      then show ?thesis using early_moves [OF inv] TClient by blast
    next
      case 3
      then show ?thesis using rtt_client_turn [OF inv] TClient by blast
    qed (use TClient len in simp)
  next
    case (THandler j)
    then show ?thesis using handler_cases [OF inv] by (cases "j < length (tcp_handlers s)") (blast, simp)
  qed (use main_turn [OF inv] in blast)
  assume all: "\<forall>t \<in> set (tcp_threads kind). step t s = Hang"
  have os: "set os = {..<num}" "length (conn_fds s) = num" using threads_hang [OF inv all] by blast+
  have "tcp_clients s ! n = CDone" if "n < num" for n
  proof -
    have "n \<in> set os" using os(1) that by simp
    then obtain j where j: "j < length os" "n = os ! j" by (auto simp: in_set_conv_nth)
    have "length os = num" using os(1) inv distinct_card [of os] by (simp add: tcp_inv_def)
    with rtt_stuck(1) [OF inv all, of j] j show ?thesis by simp
  qed
  then show "tcp_over kind s"
    using rtt_stuck(2) [OF inv all] os(2) len handlers_len(1) [OF inv] by (simp add: tcp_over_def list_all_length)
qed

text \<open>Where every \<open>read\<close> of an arrived message returns all of it, no schedule has a short read.\<close>

lemma whole_not_short:
  assumes whole: "\<And>k fd c e got k'. ends (view k) fd = Some (c, e) \<Longrightarrow> length (wire (view k) (c, e)) = 4 \<Longrightarrow>
      read_fd N fd 4 k = Some (got, k') \<Longrightarrow> got = wire (view k) (c, e)"
    and inv: "tcp_inv os s"
  shows "\<not> short ts s"
  using inv
proof (induction ts arbitrary: s os)
  case (Cons t ts)
  have full: "\<not> gets_less N fd (net s)" if "ends (view (net s)) fd = Some (c, e)" "wire (view (net s)) (c, e) = msg i" for fd c e i
    using whole [OF that(1)] that(2) by (auto simp: gets_less_def int_bytes_def split: option.splits)
  have no: "\<not> short_turn kind N t s"
  proof
    assume short: "short_turn kind N t s"
    show False
    proof (cases t)
      case (TClient n)
      with short obtain fd i p where c: "tcp_clients s ! n = CRecv fd i p" "gets_less N fd (net s)" "n < length (tcp_clients s)"
        by (cases "tcp_clients s ! n") auto
      have n: "n < num" using c(3) Cons.prems by (simp add: tcp_inv_def)
      then have "n \<in> set os" using inv_early [OF Cons.prems n] c(1) by auto
      then obtain j where j: "j < length os" "n = os ! j" by (auto simp: in_set_conv_nth)
      note p = pair_rtt(1) [OF Cons.prems j(1), folded j(2), unfolded c(1)]
      have "wire (view (net s)) (base + j, False) \<noteq> []"
        using recv_moves [OF Cons.prems j(1)] hang_not_short [of kind N l clock junk t s] short c(1) j(2) TClient by auto
      with p full [of fd "base + j" False i] c(2) show False by auto
    next
      case (THandler j)
      with short obtain fd i q where h: "tcp_handlers s ! j = HRecv fd i q" "i < TCP_ITEMS" "gets_less N fd (net s)" "j < length (tcp_handlers s)"
        by (cases "tcp_handlers s ! j") auto
      have jo: "j < length os" using handlers_len [OF Cons.prems] h(4) by simp
      have at: "handler_at s j = Some (HRecv fd i q)" using h(1,4) by (simp add: handler_at_def)
      note p = pair_rtt [OF Cons.prems jo, unfolded at]
      have "wire (view (net s)) (base + j, True) \<noteq> []"
        using handler_turn [OF Cons.prems h(4)] hang_not_short [of kind N l clock junk t s] short h(1,2) THandler by auto
      with p(1) h(2) have "wire (view (net s)) (base + j, True) = msg i" by (cases "tcp_clients s ! (os ! j)") auto
      with p(2) full [of fd "base + j" True i] h(3) show False by auto
    qed (use short in simp)
  qed
  then have "step t s = Hang \<or> moves os t s" using rtt_live Cons.prems unfolding live_def by blast
  with Cons no show ?case by (auto simp del: tcp_step.simps short_turn.simps)
qed simp

end

section \<open>One byte at a time\<close>

text \<open>
  Rounds of client 0 with its handler where every \<open>read\<close> returns one byte: \<open>p\<close> and \<open>q\<close> are the buffers of the two,
  \<open>w1\<close> and \<open>w2\<close> the bytes under way to the server and to the client. \<open>passes\<close>: the assertion holds in \<open>n\<close> rounds.
\<close>

fun passes :: "nat \<Rightarrow> nat \<Rightarrow> byte list \<Rightarrow> byte list \<Rightarrow> byte list \<Rightarrow> byte list \<Rightarrow> bool" where
  "passes 0 i p q w1 w2 = True"
| "passes (Suc n) i p q w1 w2 =
     (let w1m = w1 @ msg i; q' = fill [hd w1m] q; w2m = w2 @ q'; p' = fill [hd w2m] p
      in p' = msg i \<and> passes n (i + 1) p' q' (tl w1m) (tl w2m))"

lemma five_rounds:
  assumes "length p = 4" "length q = 4"
  shows "\<not> passes 5 1 p q [] []"
proof -
  obtain a b c d where p: "p = [a, b, c, d]" using assms(1) by (auto simp: numeral_eq_Suc length_Suc_conv)
  obtain e f g h where q: "q = [e, f, g, h]" using assms(2) by (auto simp: numeral_eq_Suc length_Suc_conv)
  have "(5 :: nat) = Suc (Suc (Suc (Suc (Suc 0))))" by simp
  then show ?thesis by (simp only: passes.simps p q Let_def) (simp add: fill_def int_bytes_def)
qed

abbreviation echo_round :: "tcp_turn list" where
  "echo_round \<equiv> [TClient 0, THandler 0, THandler 0, TClient 0]"

context tcp_messages
begin

definition echo_at :: "nat \<Rightarrow> nat \<Rightarrow> byte list \<Rightarrow> byte list \<Rightarrow> byte list \<Rightarrow> byte list \<Rightarrow> 'n tcp_run \<Rightarrow> bool" where
  "echo_at c i p q w1 w2 s \<longleftrightarrow> tcp_clients s \<noteq> [] \<and> tcp_handlers s \<noteq> [] \<and>
     (\<exists>fd. tcp_clients s ! 0 = CSend fd i p \<and> ends (view (net s)) fd = Some (c, False)) \<and>
     (\<exists>fd. tcp_handlers s ! 0 = HRecv fd i q \<and> ends (view (net s)) fd = Some (c, True)) \<and>
     wire (view (net s)) (c, True) = w1 \<and> wire (view (net s)) (c, False) = w2"

lemma read_one:
  assumes one: "\<forall>fd k got k'. read_fd N fd 4 k = Some (got, k') \<longrightarrow> length got \<le> 1"
    and e: "ends (view k) fd = Some (c, e)" "wire (view k) (c, e) = b # bs"
  obtains k' where "read_fd N fd 4 k = Some ([b], k')" "view k' = (view k)\<lparr>wire := (wire (view k))((c, e) := bs)\<rparr>"
proof -
  from read_some [OF e(1), of 4] e(2) obtain m k' where m: "0 < m" "read_fd N fd 4 k = Some (take m (b # bs), k')"
    "view k' = (view k)\<lparr>wire := (wire (view k))((c, e) := drop m (b # bs))\<rparr>" by auto
  with one have "length (take m (b # bs)) \<le> 1" by blast
  with m(1) have "m = 1 \<or> bs = []" by (cases m; cases bs) auto
  with m show thesis by (intro that [of k']) (auto simp: gr0_conv_Suc)
qed

lemma round_runs:
  assumes one: "\<forall>fd k got k'. read_fd N fd 4 k = Some (got, k') \<longrightarrow> length got \<le> 1"
    and at: "echo_at c i p q w1 w2 s" and i: "i < TCP_ITEMS" and w: "length w1 \<le> 100" "length w2 \<le> 100" "length q = 4"
  shows "if passes 1 i p q w1 w2
    then \<exists>s'. tcp_turns kind N l clock junk echo_round s = Ret s' \<and>
      echo_at c (i + 1) (fill [hd (w2 @ fill [hd (w1 @ msg i)] q)] p) (fill [hd (w1 @ msg i)] q) (tl (w1 @ msg i)) (tl (w2 @ fill [hd (w1 @ msg i)] q)) s'
    else tcp_turns kind N l clock junk echo_round s = Abort ''Assertion failed''"
proof -
  from at obtain cfd hfd where at: "tcp_clients s \<noteq> []" "tcp_handlers s \<noteq> []" "tcp_clients s ! 0 = CSend cfd i p"
    "ends (view (net s)) cfd = Some (c, False)" "tcp_handlers s ! 0 = HRecv hfd i q" "ends (view (net s)) hfd = Some (c, True)"
    "wire (view (net s)) (c, True) = w1" "wire (view (net s)) (c, False) = w2" by (auto simp: echo_at_def)
  obtain b bs where b: "w1 @ msg i = b # bs" by (cases "w1 @ msg i") auto
  let ?q = "fill [b] q"
  have q: "length ?q = 4" using w(3) by (simp add: fill_def)
  then obtain d ds where d: "w2 @ ?q = d # ds" by (cases "w2 @ ?q") auto
  obtain k1 where k1: "write_fd N cfd (msg i) (net s) = Some k1"
    "view k1 = (view (net s))\<lparr>wire := (wire (view (net s)))((c, True) := b # bs)\<rparr>"
    using write_room [OF at(4), of "msg i"] at(6,7) w(1) b by (auto simp: int_bytes_def)
  obtain k2 where k2: "read_fd N hfd 4 k1 = Some ([b], k2)" "view k2 = (view k1)\<lparr>wire := (wire (view k1))((c, True) := bs)\<rparr>"
    by (rule read_one [OF one, of k1 hfd c True b bs]) (use k1(2) at(6) in auto)
  obtain k3 where k3: "write_fd N hfd ?q k2 = Some k3" "view k3 = (view k2)\<lparr>wire := (wire (view k2))((c, False) := d # ds)\<rparr>"
    using write_room [of k2 hfd c True ?q] k1(2) k2(2) at(4,6,8) w(2) q d by auto
  obtain k4 where k4: "read_fd N cfd 4 k3 = Some ([d], k4)" "view k4 = (view k3)\<lparr>wire := (wire (view k3))((c, False) := ds)\<rparr>"
    by (rule read_one [OF one, of k3 cfd c False d ds]) (use k1(2) k2(2) k3(2) at(4) in auto)
  let ?p = "fill [d] p"
  let ?s = "set_client 0 (CSend cfd (i + 1) ?p) k4 (set_handler 0 (HRecv hfd (i + 1) ?q) k3 (set_handler 0 (HSend hfd i ?q) k2
     (set_client 0 (CRecv cfd i p) k1 s)))"
  have turns: "tcp_turns kind N l clock junk echo_round s = (if ?p = msg i then Ret ?s else Abort ''Assertion failed'')"
    using at(1-3,5) i k1(1) k2(1) k3(1) k4(1) rtt by (simp add: set_client_def set_handler_def Let_def)
  have "echo_at c (i + 1) ?p ?q bs ds ?s"
    using at(1,2,4,6) k1(2) k2(2) k3(2) k4(2) by (simp add: echo_at_def set_client_def set_handler_def)
  moreover have "passes 1 i p q w1 w2 \<longleftrightarrow> ?p = msg i" by (simp add: b d)
  ultimately show ?thesis using turns unfolding b d list.sel by (cases "?p = msg i") (simp_all only: if_True if_False simp_thms, blast)
qed

lemma rounds_abort:
  assumes one: "\<forall>fd k got k'. read_fd N fd 4 k = Some (got, k') \<longrightarrow> length got \<le> 1"
  shows "echo_at c i p q w1 w2 s \<Longrightarrow> i + n \<le> TCP_ITEMS \<Longrightarrow> length w1 + 4 * n \<le> 100 \<Longrightarrow> length w2 + 4 * n \<le> 100 \<Longrightarrow> length q = 4 \<Longrightarrow>
    \<not> passes n i p q w1 w2 \<Longrightarrow> tcp_turns kind N l clock junk (concat (replicate n echo_round) @ ts) s = Abort ''Assertion failed''"
proof (induction n arbitrary: i p q w1 w2 s)
  case (Suc n)
  let ?w1 = "w1 @ msg i"
  let ?q = "fill [hd ?w1] q"
  let ?w2 = "w2 @ ?q"
  let ?p = "fill [hd ?w2] p"
  have i: "i < TCP_ITEMS" "length w1 \<le> 100" "length w2 \<le> 100" using Suc.prems(2-4) by simp_all
  note r = round_runs [OF one Suc.prems(1) i Suc.prems(5)]
  have split: "concat (replicate (Suc n) echo_round) @ ts = echo_round @ (concat (replicate n echo_round) @ ts)" by simp
  show ?case
  proof (cases "passes 1 i p q w1 w2")
    case False
    from r [unfolded if_not_P [OF False]] show ?thesis by (simp only: split turns_append bind_out.simps)
  next
    case True
    from r [unfolded if_P [OF True]] obtain s' where s': "tcp_turns kind N l clock junk echo_round s = Ret s'" "echo_at c (i + 1) ?p ?q (tl ?w1) (tl ?w2) s'" by blast
    have "length (msg i) = 4" "length ?q = 4" using Suc.prems(5) by (simp_all add: int_bytes_def fill_def)
    moreover have "\<not> passes n (i + 1) ?p ?q (tl ?w1) (tl ?w2)" using Suc.prems(6) True by (simp add: Let_def)
    ultimately have "tcp_turns kind N l clock junk (concat (replicate n echo_round) @ ts) s' = Abort ''Assertion failed''"
      using Suc.prems(2-4) by (intro Suc.IH [OF s'(2)]) simp_all
    then show ?thesis by (simp only: split turns_append s'(1) bind_out.simps)
  qed
qed simp

lemma echo_begin:
  assumes "listener (view k) = Some (l, num, [])" "l \<in> fds (view k)" "ends (view k) l = None"
  obtains s where "tcp_turns kind N l clock junk [TClient 0, TClient 0, TMain] (tcp_start kind nonces args k) = Ret s"
    "echo_at (made (view k)) 1 (fst junk 0) (snd junk 0) [] [] s"
proof -
  let ?v = "view k" and ?s = "tcp_start kind nonces args k"
  have num: "num = 20" using rtt by (simp add: MAX_CLIENTS_def)
  obtain fd k1 where k1: "socket N k = (fd, k1)" "0 < fd" "fd \<notin> fds ?v" "view k1 = ?v\<lparr>fds := insert fd (fds ?v)\<rparr>"
    using socket_new by blast
  have none: "ends ?v fd = None" using ends_fds [of k fd] k1(3) by blast
  obtain k2 where k2: "connect N fd k1 = Some (0, k2)"
    "view k2 = (view k1)\<lparr>ends := (ends ?v)(fd \<mapsto> (made ?v, False)), wire := (wire ?v)((made ?v, True) := [], (made ?v, False) := []),
       listener := Some (l, num, [made ?v]), made := Suc (made ?v)\<rparr>"
    using connect_room [of k1 l num "[]" fd] assms k1(3,4) none num by auto
  obtain hfd k3 where k3: "accept_conn N l k2 = Some (hfd, k3)" "0 < hfd" "hfd \<notin> fds (view k2)"
    "view k3 = (view k2)\<lparr>fds := insert hfd (fds (view k2)), ends := (ends (view k2))(hfd \<mapsto> (made ?v, True)), listener := Some (l, num, [])\<rparr>"
    using accept_next [of k2 l num "made ?v" "[]"] k2(2) by auto
  have ne: "hfd \<noteq> fd" using k3(3) k2(2) k1(4) by auto
  have st: "tcp_clients ?s = replicate num CSocket" "conn_fds ?s = []" "tcp_handlers ?s = []" "net ?s = k" by (simp_all add: tcp_start_def)
  let ?s1 = "set_client 0 (CConnect fd) k1 ?s"
  let ?s2 = "set_client 0 (CSend fd 1 (fst junk 0)) k2 (?s1\<lparr>tcp_args := (tcp_args ?s1)[0 := (tcp_args ?s1 ! 0)\<lparr>start_time := fst (clock 0)\<rparr>]\<rparr>)"
  let ?s3 = "?s2\<lparr>net := k3, conn_fds := [hfd], tcp_handlers := [HRecv hfd 1 (snd junk 0)]\<rparr>"
  have "tcp_turns kind N l clock junk [TClient 0, TClient 0, TMain] ?s = Ret ?s3"
    using st k1(1,2) k2(1) k3(1,2) num rtt by (simp add: set_client_def tcp_accept_def)
  moreover have "echo_at (made ?v) 1 (fst junk 0) (snd junk 0) [] [] ?s3"
    using st k2(2) k3(4) ne num by (simp add: echo_at_def set_client_def)
  ultimately show thesis by (rule that)
qed

end

section \<open>Whole tests\<close>

context tcp_net
begin

lemma tcp_listen_run:
  assumes "tcp_listen kind N k = Ret (l, k1)"
  shows "listener (view k1) = Some (l, backlog kind, [])" "l \<in> fds (view k1)" "ends (view k1) l = None"
proof -
  obtain fd k2 where k2: "socket N k = (fd, k2)" "0 < fd" "fd \<notin> fds (view k)" "view k2 = (view k)\<lparr>fds := insert fd (fds (view k))\<rparr>"
    using socket_new by blast
  obtain r k3 where k3: "bind_port N fd k2 = (r, k3)" by (cases "bind_port N fd k2")
  define k4 where "k4 = (if kind = OneConn then set_reuseaddr N fd k3 else k3)"
  obtain r' k5 where k5: "listen N fd (backlog kind) k4 = (r', k5)" by (cases "listen N fd (backlog kind) k4")
  from assms k2(1,2) k3 k5 have r: "r = 0" "r' = 0" "l = fd" "k1 = k5"
    unfolding tcp_listen_def k4_def by (auto simp: Let_def split: if_splits)
  have "view k4 = view k2" using bind_view [of fd k2 k3] k3 r(1) reuse_view [of fd k3] by (simp add: k4_def)
  moreover have "view k5 = (view k4)\<lparr>listener := Some (fd, backlog kind, [])\<rparr>" using listen_view k5 r(2) by blast
  moreover have "ends (view k) fd = None" using ends_fds [of k fd] k2(3) by blast
  ultimately show "listener (view k1) = Some (l, backlog kind, [])" "l \<in> fds (view k1)" "ends (view k1) l = None"
    using r k2(4) by simp_all
qed

end

text \<open>What the clients measure, and the rounds that are enough for any test.\<close>

definition tcp_timed :: "tcp_kind \<Rightarrow> (nat \<Rightarrow> int) \<Rightarrow> (nat \<Rightarrow> timespec \<times> timespec) \<Rightarrow> connection_args list" where
  "tcp_timed kind nonces clock = map (\<lambda>i. \<lparr>conn_client_id = tcp_client_id kind nonces i, start_time = fst (clock i), end_time = snd (clock i)\<rparr>)
     [0..<num_clients kind]"

definition tcp_rounds :: "tcp_kind \<Rightarrow> nat" where
  "tcp_rounds kind = num_clients kind * (4 * TCP_ITEMS + 6)"

lemma start_work: "tcp_work kind (tcp_start kind nonces args k) = tcp_rounds kind"
  by (simp add: tcp_work_def tcp_start_def tcp_rounds_def sum_list_replicate algebra_simps)

context tcp_running
begin

lemma tcp_init:
  assumes "listener (view k) = Some (l, num, [])" "l \<in> fds (view k)" "ends (view k) l = None" "made (view k) = base"
  shows "tcp_inv [] (tcp_start kind nonces args k)"
  using assms unfolding tcp_inv_def main_ok_def args_ok_def early_ok_def fds_apart_def pairs_ok_def
  by (simp add: tcp_start_def)

lemma over_timed:
  assumes inv: "tcp_inv os s" and over: "tcp_over kind s"
  shows "tcp_args s = tcp_timed kind nonces clock"
proof (rule nth_equalityI)
  from inv have ar: "args_ok s" and len: "length (tcp_clients s) = num" by (simp_all add: tcp_inv_def)
  then show "length (tcp_args s) = length (tcp_timed kind nonces clock)" by (simp add: args_ok_def tcp_timed_def)
  fix i assume "i < length (tcp_args s)"
  then have i: "i < num" using ar by (simp add: args_ok_def)
  then have "tcp_clients s ! i = CDone" using over len by (simp add: tcp_over_def list_all_length)
  with ar i have "conn_client_id (tcp_args s ! i) = tcp_client_id kind nonces i" "start_time (tcp_args s ! i) = fst (clock i)"
    "end_time (tcp_args s ! i) = snd (clock i)" unfolding args_ok_def by fastforce+
  with i show "tcp_args s ! i = tcp_timed kind nonces clock ! i" by (cases "tcp_args s ! i") (simp add: tcp_timed_def)
qed

lemma test_ends:
  assumes live and listen: "tcp_listen kind N k = Ret (l, k1)" and base: "made (view k1) = base"
    and rs: "\<forall>r \<in> set rs. set (tcp_threads kind) \<subseteq> set r" "tcp_rounds kind \<le> length rs"
  shows "short (concat rs) (tcp_start kind nonces args k1) \<or>
    (\<exists>k'. tcp_test kind N clock junk nonces args (concat rs) k =
       bind_out (tcp_report kind (tcp_timed kind nonces clock)) (\<lambda>lines. Ret (lines, k')))"
proof (cases "short (concat rs) (tcp_start kind nonces args k1)")
  case no_short: False
  let ?s = "tcp_start kind nonces args k1"
  have "tcp_inv [] ?s" using tcp_listen_run [OF listen] base by (intro tcp_init) (simp_all add: backlog_num)
  from rounds_end [OF assms(1) this rs(1)] rs(2) no_short obtain s' os where
    s': "tcp_turns kind N l clock junk (concat rs) ?s = Ret s'" "tcp_inv os s'" "tcp_over kind s'"
    by (auto simp: start_work)
  show ?thesis
    by (intro disjI2 exI [of _ "tcp_finish N l s'"]) (simp add: tcp_test_def listen s' over_timed [OF s'(2,3)])
qed simp

lemma turns_safe:
  assumes live "tcp_listen kind N k = Ret (l, k1)" "made (view k1) = base"
  shows "short ts (tcp_start kind nonces args k1) \<or> (\<exists>s'. tcp_turns kind N l clock junk ts (tcp_start kind nonces args k1) = Ret s')"
  using turns_live [OF assms(1) tcp_init] tcp_listen_run [OF assms(2)] assms(3) by (simp add: backlog_num) blast

end

context tcp_running
begin

text \<open>The tests without messages.\<close>

lemma conn_ends:
  assumes k: "kind \<noteq> ManyRtt" and listen: "tcp_listen kind N k = Ret (l, k1)" "made (view k1) = base"
    and rs: "\<forall>r \<in> set rs. set (tcp_threads kind) \<subseteq> set r" "tcp_rounds kind \<le> length rs"
  shows "\<exists>s'. tcp_turns kind N l clock junk ts (tcp_start kind nonces args k1) = Ret s'"
    "\<exists>k'. tcp_test kind N clock junk nonces args (concat rs) k =
       bind_out (tcp_report kind (tcp_timed kind nonces clock)) (\<lambda>lines. Ret (lines, k'))"
proof -
  have "tcp_inv [] (tcp_start kind nonces args k1)"
    using tcp_listen_run [OF listen(1)] listen(2) by (intro tcp_init) (simp_all add: backlog_num)
  note no = conn_not_short [OF k this]
  show "\<exists>s'. tcp_turns kind N l clock junk ts (tcp_start kind nonces args k1) = Ret s'"
    using turns_safe [OF conn_live [OF k] listen] no by blast
  show "\<exists>k'. tcp_test kind N clock junk nonces args (concat rs) k =
       bind_out (tcp_report kind (tcp_timed kind nonces clock)) (\<lambda>lines. Ret (lines, k'))"
    using test_ends [OF conn_live [OF k] listen rs] no by blast
qed

end

section \<open>A network\<close>

text \<open>
  Sockets of one process over a network that loses nothing. \<open>part\<close> says how many of the bytes
  that have arrived a \<open>read\<close> of so many returns.
\<close>

record ref_net =
  net_fds :: "int list"
  net_ends :: "int \<Rightarrow> (nat \<times> bool) option"
  net_wire :: "nat \<times> bool \<Rightarrow> byte list"
  net_listener :: "(int \<times> nat \<times> nat list) option"
  net_made :: nat

definition net_view :: "ref_net \<Rightarrow> tcp_view" where
  "net_view k = \<lparr>fds = set (net_fds k), ends = (\<lambda>fd. if fd \<in> set (net_fds k) then net_ends k fd else None), wire = net_wire k,
     listener = net_listener k, made = net_made k\<rparr>"

definition net_boot :: ref_net where
  "net_boot = \<lparr>net_fds = [0, 1, 2], net_ends = (\<lambda>_. None), net_wire = (\<lambda>_. []), net_listener = None, net_made = 0\<rparr>"

definition net_fresh :: "ref_net \<Rightarrow> int" where
  "net_fresh k = fold max (net_fds k) 0 + 1"

fun net_connect :: "int \<Rightarrow> ref_net \<Rightarrow> (int \<times> ref_net) option" where
  "net_connect fd k =
     (case net_listener k of
        None \<Rightarrow> Some (-1, k)
      | Some (l, b, q) \<Rightarrow>
          if length q < b then
            Some (0, k\<lparr>net_ends := (net_ends k)(fd \<mapsto> (net_made k, False)),
              net_wire := (net_wire k)((net_made k, True) := [], (net_made k, False) := []),
              net_listener := Some (l, b, q @ [net_made k]), net_made := Suc (net_made k)\<rparr>)
          else None)"

fun net_accept :: "int \<Rightarrow> ref_net \<Rightarrow> (int \<times> ref_net) option" where
  "net_accept fd k =
     (case net_listener k of
        Some (l, b, c # q) \<Rightarrow>
          Some (net_fresh k, k\<lparr>net_fds := net_fresh k # net_fds k, net_ends := (net_ends k)(net_fresh k \<mapsto> (c, True)),
            net_listener := Some (l, b, q)\<rparr>)
      | _ \<Rightarrow> None)"

fun net_read :: "(nat \<Rightarrow> nat) \<Rightarrow> int \<Rightarrow> nat \<Rightarrow> ref_net \<Rightarrow> (byte list \<times> ref_net) option" where
  "net_read part fd n k =
     (case net_ends k fd of
        None \<Rightarrow> Some ([], k)
      | Some e \<Rightarrow>
          if net_wire k e = [] then None
          else Some (take (part n) (net_wire k e), k\<lparr>net_wire := (net_wire k)(e := drop (part n) (net_wire k e))\<rparr>))"

fun net_write :: "int \<Rightarrow> byte list \<Rightarrow> ref_net \<Rightarrow> ref_net option" where
  "net_write fd bs k =
     (case net_ends k fd of
        None \<Rightarrow> Some k
      | Some (c, e) \<Rightarrow> Some (k\<lparr>net_wire := (net_wire k)((c, \<not> e) := net_wire k (c, \<not> e) @ bs)\<rparr>))"

definition ref_sockets :: "(nat \<Rightarrow> nat) \<Rightarrow> ref_net sockets" where
  "ref_sockets part =
     \<lparr>socket = (\<lambda>k. (net_fresh k, k\<lparr>net_fds := net_fresh k # net_fds k, net_ends := (net_ends k)(net_fresh k := None)\<rparr>)),
      bind_port = (\<lambda>fd k. (0, k)), set_reuseaddr = (\<lambda>fd k. k),
      listen = (\<lambda>fd b k. (0, k\<lparr>net_listener := Some (fd, b, [])\<rparr>)), connect = net_connect, accept_conn = net_accept,
      read_fd = net_read part, write_fd = net_write, shutdown_fd = (\<lambda>fd k. k),
      close_fd = (\<lambda>fd k. k\<lparr>net_fds := filter (\<lambda>x. x \<noteq> fd) (net_fds k), net_ends := (net_ends k)(fd := None)\<rparr>)\<rparr>"

lemma fold_max_start: "a \<le> fold max xs (a :: int)"
  by (induction xs arbitrary: a) (auto intro: order_trans [OF max.cobounded2])

lemma fold_max: "x \<in> set xs \<Longrightarrow> x \<le> fold max xs (a :: int)"
proof (induction xs arbitrary: a)
  case (Cons y ys)
  then show ?case using fold_max_start [of "max y a" ys] by auto
qed simp

lemma net_fresh: "0 < net_fresh k" "net_fresh k \<notin> set (net_fds k)"
  using fold_max_start [of 0 "net_fds k"] fold_max [of "net_fresh k" "net_fds k" 0] by (auto simp: net_fresh_def)

lemma ref_tcp:
  assumes part: "\<And>n. 0 < n \<Longrightarrow> 0 < part n \<and> part n \<le> n"
  shows "tcp_net (ref_sockets part) net_view"
proof
  fix k fd c e n
  assume "ends (net_view k) fd = Some (c, e)" "wire (net_view k) (c, e) \<noteq> []" "0 < (n :: nat)"
  then show "\<exists>m k'. 0 < m \<and> m \<le> n \<and> read_fd (ref_sockets part) fd n k = Some (take m (wire (net_view k) (c, e)), k') \<and>
    net_view k' = (net_view k)\<lparr>wire := (wire (net_view k))((c, e) := drop m (wire (net_view k) (c, e)))\<rparr>"
    using part [of n] by (intro exI [of _ "part n"]) (auto simp: net_view_def ref_sockets_def split: if_splits)
next
  fix k fd c e and bs :: "byte list"
  assume "ends (net_view k) fd = Some (c, e)"
  then show "\<exists>k'. write_fd (ref_sockets part) fd bs k = Some k' \<and>
    net_view k' = (net_view k)\<lparr>wire := (wire (net_view k))((c, \<not> e) := wire (net_view k) (c, \<not> e) @ bs)\<rparr>"
    by (auto simp: net_view_def ref_sockets_def split: if_splits)
qed (auto simp: net_view_def ref_sockets_def net_fresh fun_eq_iff split: if_splits)

interpretation whole_net: tcp_net "ref_sockets id" net_view
  by (rule ref_tcp) simp

lemma whole_net_reads:
  "ends (net_view k) fd = Some (c, e) \<Longrightarrow> length (wire (net_view k) (c, e)) = n \<Longrightarrow> read_fd (ref_sockets id) fd n k = Some (got, k') \<Longrightarrow>
   got = wire (net_view k) (c, e)"
  by (auto simp: net_view_def ref_sockets_def split: if_splits)

text \<open>A network where \<open>read\<close> returns one byte at a time, as \<open>read(2)\<close> allows.\<close>

interpretation short_net: tcp_net "ref_sockets (min 1)" net_view
  by (rule ref_tcp) simp

abbreviation demo_junk :: tcp_junk where
  "demo_junk \<equiv> (\<lambda>_. [9, 9, 9, 9], \<lambda>_. [9, 9, 9, 9])"

interpretation demo_running: tcp_running "ref_sockets (min 1)" net_view kind l base clock demo_junk nonces
  for kind l base clock nonces
  by unfold_locales simp_all

interpretation demo_messages: tcp_messages "ref_sockets id" net_view ManyRtt l base clock demo_junk nonces
  for l base clock nonces
  by unfold_locales simp_all

lemma demo_listen: "tcp_listen kind (ref_sockets part) net_boot =
  Ret (3, net_boot\<lparr>net_fds := [3, 0, 1, 2], net_listener := Some (3, backlog kind, [])\<rparr>)"
  by (simp add: tcp_listen_def ref_sockets_def net_fresh_def net_boot_def fun_upd_idem Let_def)

section \<open>Properties\<close>

text \<open>
  C33: \<open>single_tcp_connection_test\<close> and \<open>connection_tcp_stress_test\<close> complete. Once the listening
  socket is set up, whatever the schedule, nothing exits, and after enough rounds in which every
  thread gets a turn all clients are accepted and joined and the figures are printed: the time of the
  one client, or the averages of the clients above a second and of the others.
\<close>

theorem tcp_connection_tests_complete:
  assumes "tcp_net N view" "\<forall>n. length (fst junk n) = 4 \<and> length (snd junk n) = 4" "kind \<noteq> ManyRtt"
    and "tcp_listen kind N k = Ret (l, k1)" "\<forall>r \<in> set rs. set (tcp_threads kind) \<subseteq> set r" "tcp_rounds kind \<le> length rs"
    and "(ms, ns) = stress_totals (tcp_timed ManyConn nonces clock)"
  shows "(\<forall>ts. \<exists>s. tcp_turns kind N l clock junk ts (tcp_start kind nonces args k1) = Ret s) \<and>
    (\<exists>k'. tcp_test kind N clock junk nonces args (concat rs) k =
      Ret (if kind = OneConn then Long ''Num Clients'' 1 # tcp_report_connection_stats (tcp_timed OneConn nonces clock ! 0)
           else [Long ''Num Clients'' 20, Long ''Available Slots'' 20, Long ''ms/op'' (cdiv ms 20), Long ''ns/op'' (cdiv ns 20)], k'))"
proof -
  have run: "tcp_running N view junk" using assms(1,2) by (simp add: tcp_running_def tcp_running_axioms_def)
  note ends = tcp_running.conn_ends [OF run assms(3,4) refl assms(5,6)]
  obtain k' where k': "tcp_test kind N clock junk nonces args (concat rs) k =
    bind_out (tcp_report kind (tcp_timed kind nonces clock)) (\<lambda>lines. Ret (lines, k'))"
    using ends(2) by blast
  from assms(3) consider "kind = OneConn" | "kind = ManyConn" by (cases kind) auto
  then have "\<exists>k'. tcp_test kind N clock junk nonces args (concat rs) k =
      Ret (if kind = OneConn then Long ''Num Clients'' 1 # tcp_report_connection_stats (tcp_timed OneConn nonces clock ! 0)
           else [Long ''Num Clients'' 20, Long ''Available Slots'' 20, Long ''ms/op'' (cdiv ms 20), Long ''ns/op'' (cdiv ns 20)], k')"
    by cases (use k' in \<open>auto simp: assms(7) [symmetric] long_div_def MAX_CLIENTS_def\<close>)
  with ends(1) show ?thesis by blast
qed

theorem tcp_connection_tests_complete_witness:
  "\<exists>k'. connection_tcp_stress_test (ref_sockets (min 1)) (\<lambda>n. (\<lparr>tv_sec = 0, tv_nsec = 0\<rparr>, \<lparr>tv_sec = 0, tv_nsec = 200000000\<rparr>)) demo_junk
     (\<lambda>_. 0) (\<lambda>_. demo_args 0 0) (concat (replicate (tcp_rounds ManyConn) (tcp_threads ManyConn))) net_boot =
   Ret ([Long ''Num Clients'' 20, Long ''Available Slots'' 20, Long ''ms/op'' 0, Long ''ns/op'' 200000000], k')"
proof -
  let ?clock = "\<lambda>n. (\<lparr>tv_sec = 0, tv_nsec = 0\<rparr>, \<lparr>tv_sec = 0, tv_nsec = 200000000\<rparr>)"
  have upt: "[0..<20] = [0, 1, 2, 3, 4, 5, 6, 7, 8, 9, 10, 11, 12, 13, 14, 15, 16, 17, 18, 19]" by code_simp
  have tot: "(0, 4000000000) = stress_totals (tcp_timed ManyConn (\<lambda>_. 0) ?clock)"
    by (simp add: tcp_timed_def MAX_CLIENTS_def upt stress_totals_def sec_diff_def nsec_diff_def elapsed_ns_eq)
  show ?thesis
    using tcp_connection_tests_complete [OF short_net.tcp_net_axioms _ _ demo_listen _ _ tot,
        where rs = "replicate (tcp_rounds ManyConn) (tcp_threads ManyConn)" and junk = demo_junk and kind = ManyConn
          and args = "\<lambda>_. demo_args 0 0"]
    by (simp add: connection_tcp_stress_test_def cdiv_def)
qed

text \<open>
  C32: \<open>rtt_during_tcp_connection_test\<close>, on a network that keeps the documented promises of sockets, and once the
  listening socket is set up (a call that fails while it is made is \<open>exit(0)\<close>). Whatever the schedule, as long as no
  \<open>read\<close> returns less than a message, nothing exits and no assertion fails; and enough rounds in which every thread
  gets a turn either contain such a short read, or all numbers of all clients have come back and the averages are printed.
  \<open>short_read_fails_assertion\<close> shows what a short read can do.
\<close>

theorem rtt_during_tcp_connection_test_completes:
  assumes "tcp_net N view" "\<forall>n. length (fst junk n) = 4 \<and> length (snd junk n) = 4"
    and "tcp_listen ManyRtt N k = Ret (l, k1)" "\<forall>r \<in> set rs. set (tcp_threads ManyRtt) \<subseteq> set r" "tcp_rounds ManyRtt \<le> length rs"
    and "avg = cdiv (total_ns (tcp_timed ManyRtt nonces clock)) 20"
  shows "(\<forall>ts. short_read ManyRtt N l clock junk ts (tcp_start ManyRtt nonces args k1) \<or>
      (\<exists>s. tcp_turns ManyRtt N l clock junk ts (tcp_start ManyRtt nonces args k1) = Ret s)) \<and>
    (short_read ManyRtt N l clock junk (concat rs) (tcp_start ManyRtt nonces args k1) \<or>
     (\<exists>k'. rtt_during_tcp_connection_test N clock junk nonces args (concat rs) k =
      Ret ([Long ''Num Clients'' 20, Long ''Num Items'' 10000000, Long ''Message Size'' 4, Long ''ns/op'' (cdiv avg 10000000),
            Float ''avg ops/ms'' (fdiv 10000000 (of_int avg / 1000000)), Float ''ops/ms'' (fdiv 200000000 (of_int avg / 1000000))], k')))"
proof -
  have run: "tcp_running N view junk" using assms(1,2) by (simp add: tcp_running_def tcp_running_axioms_def)
  then have msgs: "tcp_messages N view ManyRtt junk" by (simp add: tcp_messages_def tcp_messages_axioms_def)
  note live = tcp_messages.rtt_live [OF msgs]
  have "rtt_during_tcp_connection_test N clock junk nonces args (concat rs) k =
      Ret ([Long ''Num Clients'' 20, Long ''Num Items'' 10000000, Long ''Message Size'' 4, Long ''ns/op'' (cdiv avg 10000000),
            Float ''avg ops/ms'' (fdiv 10000000 (of_int avg / 1000000)), Float ''ops/ms'' (fdiv 200000000 (of_int avg / 1000000))], k')"
    if "tcp_test ManyRtt N clock junk nonces args (concat rs) k =
      bind_out (tcp_report ManyRtt (tcp_timed ManyRtt nonces clock)) (\<lambda>lines. Ret (lines, k'))" for k'
    using that by (simp add: rtt_during_tcp_connection_test_def average_ns_def long_div_def MAX_CLIENTS_def tcp_NUM_ITEMS_def assms(6) i32_def)
  then show ?thesis
    using tcp_running.test_ends [OF run live assms(3) refl assms(4,5)] tcp_running.turns_safe [OF run live assms(3) refl] by blast
qed

theorem rtt_during_tcp_connection_test_completes_witness:
  "\<exists>k'. rtt_during_tcp_connection_test (ref_sockets id) (\<lambda>n. (\<lparr>tv_sec = 0, tv_nsec = 0\<rparr>, \<lparr>tv_sec = 50, tv_nsec = 0\<rparr>)) demo_junk
     (\<lambda>_. 0) (\<lambda>_. demo_args 0 0) (concat (replicate (tcp_rounds ManyRtt) (tcp_threads ManyRtt))) net_boot =
   Ret ([Long ''Num Clients'' 20, Long ''Num Items'' 10000000, Long ''Message Size'' 4, Long ''ns/op'' 5000,
         Float ''avg ops/ms'' (Num 200), Float ''ops/ms'' (Num 4000)], k')"
proof -
  let ?clock = "\<lambda>n. (\<lparr>tv_sec = 0, tv_nsec = 0\<rparr>, \<lparr>tv_sec = 50, tv_nsec = 0\<rparr>)"
  let ?k = "net_boot\<lparr>net_fds := [3, 0, 1, 2], net_listener := Some (3, backlog ManyRtt, [])\<rparr>"
  let ?rs = "replicate (tcp_rounds ManyRtt) (tcp_threads ManyRtt)"
  have upt: "[0..<20] = [0, 1, 2, 3, 4, 5, 6, 7, 8, 9, 10, 11, 12, 13, 14, 15, 16, 17, 18, 19]" by code_simp
  have tot: "50000000000 = cdiv (total_ns (tcp_timed ManyRtt (\<lambda>_. 0) ?clock)) 20"
    by (simp add: tcp_timed_def MAX_CLIENTS_def upt total_ns_def client_ns_def sec_diff_def nsec_diff_def elapsed_ms_eq elapsed_ns_eq cdiv_def trunc_def)
  have no: "\<not> short_read ManyRtt (ref_sockets id) 3 ?clock demo_junk (concat ?rs) (tcp_start ManyRtt (\<lambda>_. 0) (\<lambda>_. demo_args 0 0) ?k)"
    by (rule demo_messages.whole_not_short [OF whole_net_reads demo_messages.tcp_init])
      (simp_all add: net_view_def net_boot_def)
  show ?thesis
    using rtt_during_tcp_connection_test_completes [OF whole_net.tcp_net_axioms _ demo_listen _ _ tot,
        where rs = ?rs and junk = demo_junk and args = "\<lambda>_. demo_args 0 0"] no
    by (simp add: cdiv_def fdiv_def)
qed

text \<open>
  C34: the results of \<open>read\<close> and \<open>write\<close> are not looked at. On a network that keeps every promise of sockets and whose
  \<open>read\<close> hands out one byte at a time, \<open>rtt_during_tcp_connection_test\<close> fails its assertion, whatever the memory held in
  the buffers: when client 0 is accepted and exchanges messages with its handler, its comparison fails at the fifth
  message at the latest, since the handler echoes a buffer of which it has read one byte and the client compares after one byte.
  There is such a network.
\<close>

theorem short_read_fails_assertion:
  assumes "tcp_net N view" "\<forall>fd k got k'. read_fd N fd 4 k = Some (got, k') \<longrightarrow> length got \<le> 1"
    and "\<forall>n. length (fst junk n) = 4 \<and> length (snd junk n) = 4" "tcp_listen ManyRtt N k = Ret (l, k1)"
  shows "rtt_during_tcp_connection_test N clock junk nonces args
      ([TClient 0, TClient 0, TMain] @ concat (replicate 5 [TClient 0, THandler 0, THandler 0, TClient 0]) @ ts) k =
    Abort ''Assertion failed''"
proof -
  have msgs: "tcp_messages N view ManyRtt junk" using assms(1,3)
    by (simp add: tcp_messages_def tcp_messages_axioms_def tcp_running_def tcp_running_axioms_def)
  have run: "tcp_running N view junk" using assms(1,3) by (simp add: tcp_running_def tcp_running_axioms_def)
  note listen = tcp_net.tcp_listen_run [OF assms(1,4)]
  obtain s where s: "tcp_turns ManyRtt N l clock junk [TClient 0, TClient 0, TMain] (tcp_start ManyRtt nonces args k1) = Ret s"
    "tcp_messages.echo_at view (made (view k1)) 1 (fst junk 0) (snd junk 0) [] [] s"
    by (rule tcp_messages.echo_begin [OF msgs, of k1 l]) (use listen in simp_all)
  have "tcp_turns ManyRtt N l clock junk (concat (replicate 5 [TClient 0, THandler 0, THandler 0, TClient 0]) @ ts) s = Abort ''Assertion failed''"
    using assms(3) five_rounds by (intro tcp_messages.rounds_abort [OF msgs assms(2) s(2)]) (simp_all add: tcp_NUM_ITEMS_def)
  then show ?thesis
    by (simp only: rtt_during_tcp_connection_test_def tcp_test_def assms(4) bind_out.simps prod.case tcp_running.turns_append [OF run] s(1))
qed

theorem short_read_fails_assertion_witness:
  "rtt_during_tcp_connection_test (ref_sockets (min 1)) (\<lambda>n. (\<lparr>tv_sec = 0, tv_nsec = 0\<rparr>, \<lparr>tv_sec = 50, tv_nsec = 0\<rparr>))
     (\<lambda>_. [0, 0, 0, 0], \<lambda>_. [0, 0, 0, 0]) (\<lambda>_. 0) (\<lambda>_. demo_args 0 0)
     ([TClient 0, TClient 0, TMain] @ concat (replicate 5 [TClient 0, THandler 0, THandler 0, TClient 0]) @ []) net_boot =
   Abort ''Assertion failed''"
proof -
  have "\<forall>fd k got k'. read_fd (ref_sockets (min 1)) fd 4 k = Some (got, k') \<longrightarrow> length got \<le> 1"
    by (auto simp: ref_sockets_def split: option.splits if_splits)
  moreover have "\<forall>n. length (fst (\<lambda>_. [0, 0, 0, 0], \<lambda>_. [0, 0, 0, 0]) n) = 4 \<and> length (snd (\<lambda>_. [0, 0, 0, 0], \<lambda>_. [0, 0, 0, 0]) n) = 4" by simp
  ultimately show ?thesis by (rule short_read_fails_assertion [OF short_net.tcp_net_axioms _ _ demo_listen])
qed

end
