(* ===== verification/Spec2Isabelle.thy ===== *)
theory Spec2Isabelle
  imports Poll_Conc Sem_Conc Rpc_Session Experiments Bench_Queue Disconnect_Runs Rtt_Conn_Test Accept_Heap Boost_Bench Tcp_Run
begin

text \<open>
  notnets is a library for remote procedure calls between processes of one machine over System V
  shared memory. A server registers under an address, whose hash is the key of a segment with a
  coordination table. A client finds the table by the same hash, reserves a row and waits; the
  pool thread of the server passes over the rows, makes a pair of queues for each new request and
  publishes their keys in the row; the server's \<open>accept\<close> and the client's \<open>client_open\<close> then attach
  both queues, and requests and responses go through them. Closing marks the row, and the pool
  thread frees the queues and the row. Beside the library the repository holds benchmarks and a
  small library to run experiments and record their results.

  \<^bold>\<open>Theories and source files\<close>

  \<^item> Prelude: outcomes of a call, integers at their width, struct layout, \<open>memcpy\<close>, arithmetic of
    ring indices. An operation returns an \<open>outcome\<close>: a value (\<open>Ret\<close>), \<open>exit\<close> (\<open>Exit\<close>), a failed
    assertion or an uncaught exception (\<open>Abort\<close>), undefined behaviour (\<open>Fault\<close>), or a wait that
    only another thread or process can end (\<open>Hang\<close>).
  \<^item> Mem: \<open>libnotnets/src/mem.cpp\<close> over a record \<open>sysv\<close> of system calls; the locales \<open>sysv_shm\<close> and
    \<open>sysv_sem\<close> state what their manual pages promise. Ref_Kernel is an executable kernel with
    these laws, on which the interpretations and the concrete instances are built.
  \<^item> Fifo_Spec: the abstract bounded queue with partial reads and the contract \<open>message_queue\<close>.
  \<^item> Poll_Queue: \<open>libnotnets/src/queue.cpp\<close>, the ring in a segment with \<open>queue_create\<close>, \<open>push\<close> and
    \<open>pop\<close>; Poll_Conc: the same two functions of two processes interleaved at their accesses to
    the shared fields.
  \<^item> Sem_Queue: \<open>libnotnets/src/sem_queue.cpp\<close>, semaphore sets and their initialisation, \<open>sem_push\<close>
    and \<open>sem_pop\<close>; Sem_Conc: the two interleaved at semaphore operations and loop tests.
  \<^item> Boost_Queue: \<open>libnotnets/src/boost_queue.cpp\<close> over a record of the Boost operations, whose promises are
    the locale \<open>boost_spsc\<close>. Boost_Bench: the programs \<open>bench_boost/src/comparison.cpp\<close> and
    \<open>bench_queue_boost/src/comparison.cpp\<close> as step relations of their threads over such a queue.
  \<^item> Coord: \<open>libnotnets/src/coord.cpp\<close>, the address hash, rows and reservations. Region: the table
    and the queues in the kernel's segments, and the allocators.
  \<^item> Rpc: \<open>libnotnets/src/rpc.cpp\<close>, each function a definition of the same name over the server's
    and the client's contexts. Rpc_Session: what these functions do together. Multi_Conn: several
    connections of one server at once, and what an operation on one leaves of the others. Conn_Churn: the same
    when connections are closed too and rows are given back and taken again.
  \<^item> Doubles, Running_Stat, Experiments: \<open>experiments/\<close>, with running mean and variance, the table
    of results, the timer, a run, and the example experiment.
  \<^item> Bench_Stats, Bench_Rpc, Bench_Tests: \<open>bench_rpc/src/bench_utils.cpp\<close> and \<open>bench_rpc/src/bench.cpp\<close>, with
    the figures (shared by \<open>bench_tcp/src/tcp_bench_utils.cpp\<close>), the threads, the tests with one client,
    and the tests with twenty, whose threads take turns in any order. Turns: programs of threads that take turns,
    with the locale \<open>turn_system\<close> for their invariants and their progress. Disconnect_Test, Disconnect_Runs: on top of it
    \<open>rtt_connect_disconnect_connection_test\<close>, in which the pool thread takes turns of its own, one for each
    row, and clients close. Rtt_Conn_Test: \<open>single_rtt_during_connection_test\<close>, one client with messages among others that
    connect, in any order of connections, accept passes and exchanges. Accept_Heap: the heap blocks of the connections the accept loop gets. Bench_Queue: \<open>bench_queue/src/bench.cpp\<close>.
  \<^item> Tcp_Bench, Tcp_Run: \<open>bench_tcp/src/tcp_bench.cpp\<close> over a record of socket calls, whose promises are the
    locale \<open>tcp_net\<close>, under which \<open>read\<close> may return less than a message; the threads interleave at every call.

  \<^bold>\<open>What is shown\<close>

  \<^item> The polling queue: \<open>queue_create\<close> establishes the representation invariant; \<open>push\<close> and \<open>pop\<close>
    refine the bounded FIFO on every branch; messages come back whole and in order, also when read
    in pieces. For every interleaving of one producer and one consumer the bytes read are a prefix
    of those the callers of \<open>push\<close> passed (a short buffer is the beginning of its message), the two copies never touch the same byte and stay inside the array,
    and the sides are never both stuck. Calls run alone are runs of the interleaving.
  \<^item> The semaphore queue: the same contract on every kernel whose semaphores work; mutual exclusion
    and FIFO order of the callers' bytes for every interleaving; a waiting consumer is woken as long as the producer never
    found the ring full, and a run in which it is not woken otherwise.
  \<^item> The table: every sequence of operations keeps it well-formed and moves a slot only from free to
    requested, to serving, from either to closing, and from closing to free, a direct call of
    \<open>force_clear_slot\<close> excepted; a request takes the first free slot; \<open>accept\<close> is round robin;
    a change of one byte of the address changes its hash.
  \<^item> Connections: serving a slot makes two fresh queues and publishes them; a session from
    \<open>register_server\<close> to any number of rounds of messages delivers each request and response
    unchanged and in order; \<open>shutdown\<close> returns and removes the table; closing gives the slot back.
    The calls that do not return or that fault are stated as theorems too: a client without a server,
    a server without its thread, identifiers 0 and -1, a second \<open>accept\<close>, neighbouring identifiers.
  \<^item> RPC benchmarks: \<open>single_rtt_test\<close> and \<open>single_connection_test\<close> run from \<open>register_server\<close> to \<open>shutdown\<close> and
    leave their address free. With twenty clients, whatever the order of the threads, no call faults
    or hangs and the accept loop records each client once; when every thread has had its turns,
    \<open>connection_stress_test\<close>, \<open>rtt_steady_state_conn_test\<close> and \<open>rtt_during_connection_test\<close> end with their
    figures. So does \<open>rtt_connect_disconnect_connection_test\<close>; while its clients open and close, no row is given to two
    clients or taken back from one that uses it, and the rows of closed connections become free again.
    \<open>single_rtt_during_connection_test\<close>, whatever the order of its threads, ends with its figures if its
    client with messages is not the last to connect, and writes past the end of an array if it is. The handlers can
    free their contexts, but the accept loop leaks at every pass in which it waits for a client. The nanoseconds per message
    that the tests with messages print are within eleven of the true average, and it is said when a report divides by zero.
  \<^item> Comparison benchmarks: the TCP tests never exit once their socket listens, and end under every
    schedule that gives the threads enough turns, the one with messages as long as no \<open>read\<close> returns less
    than a message; a network that hands out single bytes fails its assertion. The Boost programs keep the order of their numbers, and the states
    in which they come to rest are determined, among them hangs.
  \<^item> Queue benchmark and experiments: the queue benchmarks run without a failed assertion, and
    either end with their figures or wait for ever to join a thread that polls inside its call; Welford's recurrence equals mean and sample variance; records read back as written; the example
    experiment writes past the end of its metrics.

  \<^bold>\<open>Bounds and waiting\<close>

  A loop that waits for another process takes \<open>fuel\<close>, the number of rounds it may run, and yields
  \<open>Hang\<close> when it runs out. Theorems that a call returns name the fuel that is enough: the pool
  manager needs one pass to serve a waiting client. Theorems that it never returns hold for
  every fuel. What other processes do while a call sleeps is \<open>sleeping\<close> of the kernel; in
  Rpc_Session it is a pass of the server's pool manager. \<open>semop\<close> may block; the actions of the
  other side during a wait of \<open>sem_push\<close> or \<open>sem_pop\<close> are an explicit list. Queues of a connection
  have \<open>QUEUE_SIZE\<close> 16024 bytes, so that a message of up to 7992 bytes leaves two slots and
  hence room for one message in the ring; the theorems about sessions assume such a size.
  A test with twenty clients ends after one turn of each client, \<open>SLOT_NUM\<close> passes of the accept
  loop and, with messages, one more turn of each client, among any other turns. With clients that close, the pool thread
  takes turns too: a client asks, is served within \<open>SLOT_NUM\<close> turns of the pool thread, attaches, is accepted within
  \<open>SLOT_NUM\<close> turns of the accept loop, exchanges its messages, closes, and within \<open>SLOT_NUM\<close> more
  turns of the pool thread its row is free (\<open>churn_schedule\<close>). \<open>single_rtt_during_connection_test\<close> needs \<open>MAX_CLIENTS\<close> passes of the accept loop. The TCP tests end after \<open>tcp_rounds\<close>
  rounds, the number of calls all threads make together. Four rounds after the stop of a queue benchmark both threads have left,
  or one has and the other is stuck. A test whose schedule ends before its threads do is \<open>Hang\<close>.

  \<^bold>\<open>Abstractions\<close>

  Memory is sequentially consistent. A pointer into a segment is the segment, and a segment holds one
  structure at a time; reading another structure from it is a fault. In \<open>shutdown\<close> the last pass of
  the pool thread is not interleaved with the waiting caller. In the tests with many clients a turn is one pass of the
  accept loop, one row of the pool thread's pass, or one call or exchange of a client; these do not interleave.
  The heap never runs out; allocated blocks are followed in Accept_Heap only. A \<open>double\<close> is a real number, and clocks, the file system and the printing of numbers
  are parameters. Where Boost places its queue in the segment is not modelled.

  \<^bold>\<open>Not modelled\<close>

  \<open>bench_run_all\<close> of the queue and TCP benchmarks, which calls the tests one after the other; that of the RPC benchmarks is
  below. That one test finds the names of the one before it free is not shown: it would need the keys that
  \<open>shutdown\<close> leaves. The tests under \<open>test/\<close> and what goes to the console besides the figures are left out. Boost and
  the system calls are parameters.

  \<^bold>\<open>Further work\<close>

  Sessions over semaphore queues on the level of Rpc; turns of the pool thread that end inside a row.
\<close>

section \<open>All RPC benchmarks\<close>

text \<open>
  \<open>bench_run_all\<close> of \<open>src/bench_rpc/src/bench.cpp\<close> as compiled on Linux: four tests, each in the state the one before
  it left. Test \<open>i\<close> has its own readings of the clock, \<open>nonces i\<close> and \<open>clock i\<close>, and its own garbage in memory.
\<close>

definition bench_run_all ::
  "('k, 'b) platform \<Rightarrow> nat \<Rightarrow> int \<Rightarrow> (nat \<Rightarrow> nat \<Rightarrow> int) \<Rightarrow> (nat \<Rightarrow> nat \<Rightarrow> connection_args) \<Rightarrow> (nat \<Rightarrow> int list) \<Rightarrow>
   (nat \<Rightarrow> nat \<Rightarrow> timespec \<times> timespec) \<Rightarrow> (nat \<Rightarrow> turn list) \<Rightarrow> churn_turn list \<Rightarrow> 'k \<Rightarrow> (out_line list \<times> 'k) outcome"
where
  "bench_run_all P fuel err nonces junk garbage clock ts us k =
     bind_out (connection_stress_test P fuel err (nonces 0) (junk 0) (garbage 0) (clock 0) (ts 0) k) (\<lambda>(l0, k0).
     bind_out (rtt_steady_state_conn_test P fuel err (nonces 1) (junk 1) (garbage 1) (clock 1) (ts 1) k0) (\<lambda>(l1, k1).
     bind_out (rtt_during_connection_test P fuel err (nonces 2) (junk 2) (garbage 2) (clock 2) (ts 2) k1) (\<lambda>(l2, k2).
     bind_out (rtt_connect_disconnect_connection_test P fuel err (nonces 3) (junk 3) (garbage 3) (clock 3) us k2) (\<lambda>(l3, k3).
     Ret (l0 @ l1 @ l2 @ l3, k3)))))"

text \<open>The program returns exactly when each test does, from the state of the one before it, and prints their figures in order.\<close>

lemma bench_run_all_stages:
  "bench_run_all P fuel err nonces junk garbage clock ts us k = Ret (lines, k') \<longleftrightarrow>
     (\<exists>l0 l1 l2 l3 k0 k1 k2. lines = l0 @ l1 @ l2 @ l3 \<and>
       connection_stress_test P fuel err (nonces 0) (junk 0) (garbage 0) (clock 0) (ts 0) k = Ret (l0, k0) \<and>
       rtt_steady_state_conn_test P fuel err (nonces 1) (junk 1) (garbage 1) (clock 1) (ts 1) k0 = Ret (l1, k1) \<and>
       rtt_during_connection_test P fuel err (nonces 2) (junk 2) (garbage 2) (clock 2) (ts 2) k1 = Ret (l2, k2) \<and>
       rtt_connect_disconnect_connection_test P fuel err (nonces 3) (junk 3) (garbage 3) (clock 3) us k2 = Ret (l3, k'))"
  unfolding bench_run_all_def bind_out_eq_Ret by (auto simp: bind_out_eq_Ret)

end
